(* ===== verification/Moat_Prelude.thy ===== *)
theory Moat_Prelude
  imports Main "HOL-Library.Word" "HOL-Library.Sublist" "HOL-Library.Char_ord"
    "HOL-Library.List_Lexorder"
begin

text \<open>
  What the components share. Strings are lists of 8-bit characters: the bytes of a Rust
  \<open>String\<close> in UTF-8. The white space of \<open>str::trim\<close> and \<open>split_whitespace\<close> is the ASCII part
  of it. Unix times and counters (\<open>u64\<close>) are natural numbers: the subtraction of \<open>nat\<close>
  stops at 0, as \<open>saturating_sub\<close> does, and no counter of the program gets near its width.

  The collections: \<open>str_simps\<close> holds the equations that evaluate the string operations,
  \<open>window_simps\<close> the facts on sliding windows.
\<close>

named_theorems str_simps \<open>equations of the string operations\<close>
named_theorems table_defs \<open>constant tables of the program\<close>

section \<open>Strings\<close>

text \<open>The three characters outside ASCII that the program's messages use, as UTF-8.\<close>

definition em_dash :: string where
  "em_dash = [CHR 0xE2, CHR 0x80, CHR 0x94]"

definition arrow_right :: string where
  "arrow_right = [CHR 0xE2, CHR 0x86, CHR 0x92]"

definition ellipsis :: string where
  "ellipsis = [CHR 0xE2, CHR 0x80, CHR 0xA6]"

abbreviation starts_with :: "string \<Rightarrow> string \<Rightarrow> bool" where
  "starts_with s p \<equiv> prefix p s"

abbreviation ends_with :: "string \<Rightarrow> string \<Rightarrow> bool" where
  "ends_with s p \<equiv> suffix p s"

abbreviation contains_str :: "string \<Rightarrow> string \<Rightarrow> bool" where
  "contains_str s p \<equiv> sublist p s"

definition strip_prefix :: "string \<Rightarrow> string \<Rightarrow> string option" where
  "strip_prefix s p = (if prefix p s then Some (drop (length p) s) else None)"

definition strip_suffix :: "string \<Rightarrow> string \<Rightarrow> string option" where
  "strip_suffix s p = (if suffix p s then Some (take (length s - length p) s) else None)"

text \<open>\<open>str::split\<close> on one character: never empty, one segment more than separators.\<close>

fun split_on :: "char \<Rightarrow> string \<Rightarrow> string list" where
  "split_on c [] = [[]]"
| "split_on c (x # xs) =
     (if x = c then [] # split_on c xs
      else (case split_on c xs of [] \<Rightarrow> [[x]] | s # ss \<Rightarrow> (x # s) # ss))"

fun join_with :: "string \<Rightarrow> string list \<Rightarrow> string" where
  "join_with sep [] = []"
| "join_with sep [s] = s"
| "join_with sep (s # t # ss) = s @ sep @ join_with sep (t # ss)"

text \<open>\<open>str::find\<close> and \<open>str::rfind\<close> of one character: the index of its first or last use.\<close>

fun find_char :: "char \<Rightarrow> string \<Rightarrow> nat option" where
  "find_char c [] = None"
| "find_char c (x # xs) = (if x = c then Some 0 else map_option Suc (find_char c xs))"

definition rfind_char :: "char \<Rightarrow> string \<Rightarrow> nat option" where
  "rfind_char c s = map_option (\<lambda>i. length s - 1 - i) (find_char c (rev s))"

definition split_once :: "char \<Rightarrow> string \<Rightarrow> (string \<times> string) option" where
  "split_once c s = map_option (\<lambda>i. (take i s, drop (Suc i) s)) (find_char c s)"

text \<open>\<open>str::splitn\<close>: at most \<open>n\<close> pieces, the last one with what is left.\<close>

fun splitn :: "nat \<Rightarrow> char \<Rightarrow> string \<Rightarrow> string list" where
  "splitn 0 c s = []"
| "splitn (Suc 0) c s = [s]"
| "splitn (Suc (Suc n)) c s = (case split_once c s of Some (a, r) \<Rightarrow> a # splitn (Suc n) c r | None \<Rightarrow> [s])"

text \<open>\<open>split_once\<close> on a string, the first occurrence.\<close>

fun split_once_str :: "string \<Rightarrow> string \<Rightarrow> (string \<times> string) option" where
  "split_once_str pat [] = (if pat = [] then Some ([], []) else None)"
| "split_once_str pat (x # xs) =
     (if prefix pat (x # xs) then Some ([], drop (length pat) (x # xs))
      else map_option (\<lambda>(a, b). (x # a, b)) (split_once_str pat xs))"

text \<open>\<open>util::basename\<close>: what follows the last slash.\<close>

definition basename :: "string \<Rightarrow> string" where
  "basename path = last (split_on CHR ''/'' path)"

definition is_white :: "char \<Rightarrow> bool" where
  "is_white c \<longleftrightarrow> c \<in> {CHR 0x20, CHR 0x09, CHR 0x0A, CHR 0x0B, CHR 0x0C, CHR 0x0D}"

definition trim_start :: "string \<Rightarrow> string" where
  "trim_start s = dropWhile is_white s"

definition trim_end :: "string \<Rightarrow> string" where
  "trim_end s = rev (dropWhile is_white (rev s))"

definition trim :: "string \<Rightarrow> string" where
  "trim s = trim_end (trim_start s)"

definition trim_end_matches :: "char \<Rightarrow> string \<Rightarrow> string" where
  "trim_end_matches c s = rev (dropWhile (\<lambda>x. x = c) (rev s))"

definition trim_start_matches :: "char \<Rightarrow> string \<Rightarrow> string" where
  "trim_start_matches c s = dropWhile (\<lambda>x. x = c) s"

text \<open>\<open>str::split_whitespace\<close>: the maximal runs without white space.\<close>

fun words_acc :: "string \<Rightarrow> string \<Rightarrow> string list" where
  "words_acc acc [] = (if acc = [] then [] else [rev acc])"
| "words_acc acc (x # xs) =
     (if is_white x then (if acc = [] then words_acc [] xs else rev acc # words_acc [] xs)
      else words_acc (x # acc) xs)"

definition split_whitespace :: "string \<Rightarrow> string list" where
  "split_whitespace s = words_acc [] s"

definition is_upper :: "char \<Rightarrow> bool" where
  "is_upper c \<longleftrightarrow> 65 \<le> (of_char c :: nat) \<and> (of_char c :: nat) \<le> 90"

definition is_lower :: "char \<Rightarrow> bool" where
  "is_lower c \<longleftrightarrow> 97 \<le> (of_char c :: nat) \<and> (of_char c :: nat) \<le> 122"

definition is_digit :: "char \<Rightarrow> bool" where
  "is_digit c \<longleftrightarrow> 48 \<le> (of_char c :: nat) \<and> (of_char c :: nat) \<le> 57"

definition is_alnum :: "char \<Rightarrow> bool" where
  "is_alnum c \<longleftrightarrow> is_upper c \<or> is_lower c \<or> is_digit c"

definition lower_char :: "char \<Rightarrow> char" where
  "lower_char c = (if is_upper c then char_of ((of_char c :: nat) + 32) else c)"

definition to_lower :: "string \<Rightarrow> string" where
  "to_lower s = map lower_char s"

text \<open>Decimal notation, as \<open>{}\<close> prints an unsigned integer.\<close>

fun show_nat :: "nat \<Rightarrow> string" where
  "show_nat n = (if n < 10 then [char_of (48 + n)]
                 else show_nat (n div 10) @ [char_of (48 + n mod 10)])"

declare show_nat.simps [simp del]

text \<open>
  \<open>chars().take(n)\<close>: the first \<open>n\<close> code points. A byte from 0x80 to 0xBF continues the code
  point before it.
\<close>

definition is_continuation :: "char \<Rightarrow> bool" where
  "is_continuation c \<longleftrightarrow> 128 \<le> (of_char c :: nat) \<and> (of_char c :: nat) < 192"

fun take_chars :: "nat \<Rightarrow> string \<Rightarrow> string" where
  "take_chars n [] = []"
| "take_chars n (x # xs) =
     (if is_continuation x then x # take_chars n xs
      else (case n of 0 \<Rightarrow> [] | Suc m \<Rightarrow> x # take_chars m xs))"

section \<open>Results\<close>

text \<open>\<open>Result\<close> is a sum, the error on the left; \<open>?\<close> is the bind.\<close>

definition bind_res :: "'e + 'a \<Rightarrow> ('a \<Rightarrow> 'e + 'b) \<Rightarrow> 'e + 'b" where
  "bind_res r f = (case r of Inl e \<Rightarrow> Inl e | Inr x \<Rightarrow> f x)"

lemma bind_res_simps [simp]:
  "bind_res (Inl e) f = Inl e" "bind_res (Inr x) f = f x"
  by (simp_all add: bind_res_def)

lemma bind_res_Inr: "bind_res r f = Inr y \<longleftrightarrow> (\<exists>x. r = Inr x \<and> f x = Inr y)"
  by (cases r) auto

text \<open>A loop that collects results and stops at the first error.\<close>

fun all_ok :: "('e + 'a) list \<Rightarrow> 'e + 'a list" where
  "all_ok [] = Inr []"
| "all_ok (r # rs) = bind_res r (\<lambda>x. bind_res (all_ok rs) (\<lambda>xs. Inr (x # xs)))"

lemma all_ok_Inr: "all_ok rs = Inr xs \<longleftrightarrow> rs = map Inr xs"
  by (induction rs arbitrary: xs) (auto simp: bind_res_Inr)

section \<open>Lists\<close>

text \<open>\<open>Iterator::position\<close>: the index of the first element that satisfies the predicate.\<close>

fun position :: "('a \<Rightarrow> bool) \<Rightarrow> 'a list \<Rightarrow> nat option" where
  "position p [] = None"
| "position p (x # xs) = (if p x then Some 0 else map_option Suc (position p xs))"

lemma position_None: "position p xs = None \<longleftrightarrow> (\<forall>x \<in> set xs. \<not> p x)"
  by (induction xs) auto

lemma position_Some:
  "position p xs = Some i \<Longrightarrow> i < length xs \<and> p (xs ! i) \<and> (\<forall>j < i. \<not> p (xs ! j))"
proof (induction xs arbitrary: i)
  case (Cons x xs)
  show ?case
  proof (cases "p x")
    case False
    with Cons.prems obtain k where k: "position p xs = Some k" "i = Suc k" by auto
    from Cons.IH [OF k(1)] False show ?thesis by (auto simp: k(2) nth_Cons split: nat.splits)
  qed (use Cons.prems in auto)
qed simp

text \<open>\<open>Iterator::find_map\<close>, and \<open>slice::windows(2)\<close> as pairs.\<close>

fun find_map :: "('a \<Rightarrow> 'b option) \<Rightarrow> 'a list \<Rightarrow> 'b option" where
  "find_map f [] = None"
| "find_map f (x # xs) = (case f x of Some y \<Rightarrow> Some y | None \<Rightarrow> find_map f xs)"

lemma find_map_Some: "find_map f xs = Some y \<Longrightarrow> \<exists>x \<in> set xs. f x = Some y"
  by (induction xs) (auto split: option.splits)

lemma find_map_None: "find_map f xs = None \<longleftrightarrow> (\<forall>x \<in> set xs. f x = None)"
  by (induction xs) (auto split: option.splits)

lemma in_map_filter: "y \<in> set (List.map_filter f xs) \<longleftrightarrow> (\<exists>x \<in> set xs. f x = Some y)"
  by (force simp: List.map_filter_def)

definition windows2 :: "'a list \<Rightarrow> ('a \<times> 'a) list" where
  "windows2 xs = zip xs (tl xs)"

lemma in_set_tlD: "x \<in> set (tl xs) \<Longrightarrow> x \<in> set xs"
  by (cases xs) auto

lemma list_has_least:
  fixes f :: "'a \<Rightarrow> nat"
  assumes "xs \<noteq> []"
  shows "\<exists>x \<in> set xs. \<forall>y \<in> set xs. f x \<le> f y"
proof -
  from assms obtain x where "x \<in> set xs" "f x = Min (f ` set xs)"
    by (metis (mono_tags) Min_in List.finite_set finite_imageI image_iff image_is_empty set_empty)
  then show ?thesis by (metis Min_le List.finite_set finite_imageI imageI)
qed

text \<open>\<open>Vec::remove\<close>.\<close>

definition remove_nth :: "nat \<Rightarrow> 'a list \<Rightarrow> 'a list" where
  "remove_nth i xs = take i xs @ drop (Suc i) xs"

lemma length_remove_nth [simp]: "i < length xs \<Longrightarrow> length (remove_nth i xs) = length xs - 1"
  by (simp add: remove_nth_def)

lemma set_remove_nth: "set (remove_nth i xs) \<subseteq> set xs"
  by (auto simp: remove_nth_def dest: in_set_takeD in_set_dropD)

lemma map_remove_nth: "map f (remove_nth i xs) = remove_nth i (map f xs)"
  by (simp add: remove_nth_def take_map drop_map)

lemma distinct_remove_nth [simp]: "distinct xs \<Longrightarrow> distinct (remove_nth i xs)"
  unfolding remove_nth_def
  by (simp add: distinct_take distinct_drop set_take_disj_set_drop_if_distinct)

lemma remove_nth_filter: "distinct xs \<Longrightarrow> i < length xs \<Longrightarrow> remove_nth i xs = filter (\<lambda>x. x \<noteq> xs ! i) xs"
proof (induction xs arbitrary: i)
  case (Cons x xs)
  then show ?case
  proof (cases i)
    case 0
    with Cons.prems show ?thesis by (auto simp: remove_nth_def intro: filter_True [symmetric])
  next
    case (Suc j)
    with Cons have "remove_nth j xs = filter (\<lambda>x. x \<noteq> xs ! j) xs" "x \<noteq> xs ! j" by auto
    with Suc show ?thesis by (simp add: remove_nth_def)
  qed
qed simp

text \<open>Sublists, folds and sorted lists.\<close>

lemma subseq_distinct: "subseq ys xs \<Longrightarrow> distinct xs \<Longrightarrow> distinct ys"
  by (metis distinct_nthsI subseq_conv_nths)

lemma foldl_keeps: "P acc \<Longrightarrow> (\<And>acc x. x \<in> set xs \<Longrightarrow> P acc \<Longrightarrow> P (f acc x)) \<Longrightarrow> P (foldl f acc xs)"
  by (induction xs arbitrary: acc) auto

lemma distinct_remdups_adj_sorted: "sorted (xs :: 'a :: linorder list) \<Longrightarrow> distinct (remdups_adj xs)"
  by (induction xs rule: remdups_adj.induct) (auto simp: less_le)

text \<open>\<open>usize::is_power_of_two\<close>.\<close>

fun is_power_of_two :: "nat \<Rightarrow> bool" where
  "is_power_of_two n = (if n \<le> 1 then n = 1 else even n \<and> is_power_of_two (n div 2))"

declare is_power_of_two.simps [simp del]

lemma even_power_of_two: "1 < n \<Longrightarrow> (\<exists>k. n = 2 ^ k) \<longleftrightarrow> even n \<and> (\<exists>k. n div 2 = (2::nat) ^ k)"
proof
  assume n: "1 < n" and "\<exists>k. n = 2 ^ k"
  then obtain k where k: "n = 2 ^ k" by blast
  with n show "even n \<and> (\<exists>k. n div 2 = 2 ^ k)" by (cases k) auto
next
  assume "even n \<and> (\<exists>k. n div 2 = 2 ^ k)"
  then obtain k where "even n" "n div 2 = 2 ^ k" by blast
  then have "n = 2 ^ Suc k" by auto
  then show "\<exists>k. n = 2 ^ k" by blast
qed

lemma is_power_of_two_iff: "is_power_of_two n \<longleftrightarrow> (\<exists>k. n = 2 ^ k)"
proof (induction n rule: is_power_of_two.induct)
  case (1 n)
  show ?case
  proof (cases "n \<le> 1")
    case True
    then consider "n = 0" | "n = 2 ^ 0" by fastforce
    then show ?thesis
    proof cases
      case 2
      then show ?thesis by (auto simp: is_power_of_two.simps intro!: exI [of _ "0::nat"])
    qed (simp add: is_power_of_two.simps)
  next
    case False
    with "1.IH" even_power_of_two [of n] show ?thesis
      by (simp add: is_power_of_two.simps [of n])
  qed
qed

section \<open>Interfaces of the bounded stores\<close>

text \<open>
  Several components keep a store that must not grow: the candidate ring and the live chains of
  the correlator, the name caches, the containments. What their clients rely on is that putting
  an element in keeps the store within its cap, that the element just put in is there, and that
  nothing is there that nobody put in.
\<close>

locale capped_store =
  fixes put :: "'e \<Rightarrow> 's \<Rightarrow> 's"
    and elems :: "'s \<Rightarrow> 'e list"
    and cap :: nat
  assumes put_cap: "length (elems s) \<le> cap \<Longrightarrow> length (elems (put e s)) \<le> cap"
    and put_mem: "e \<in> set (elems (put e s))"
    and put_sub: "set (elems (put e s)) \<subseteq> insert e (set (elems s))"
begin

lemma fold_cap: "length (elems s) \<le> cap \<Longrightarrow> length (elems (fold put es s)) \<le> cap"
  by (induction es arbitrary: s) (auto intro: put_cap)

lemma fold_sub: "set (elems (fold put es s)) \<subseteq> set es \<union> set (elems s)"
proof (induction es arbitrary: s)
  case (Cons e es)
  have "set (elems (fold put es (put e s))) \<subseteq> set es \<union> set (elems (put e s))" by (rule Cons.IH)
  then show ?case using put_sub [of e s] by auto
qed simp

lemma fold_last: "es \<noteq> [] \<Longrightarrow> last es \<in> set (elems (fold put es s))"
  by (induction es arbitrary: s) (auto simp: put_mem)

end

text \<open>A store whose elements age out: pruning keeps exactly the elements inside the window.\<close>

locale aging_store = capped_store put elems cap
  for put :: "'e \<Rightarrow> 's \<Rightarrow> 's" and elems :: "'s \<Rightarrow> 'e list" and cap :: nat +
  fixes prune :: "nat \<Rightarrow> 's \<Rightarrow> 's"
    and fresh :: "nat \<Rightarrow> 'e \<Rightarrow> bool"
  assumes prune_elems: "elems (prune now s) = filter (fresh now) (elems s)"
    and fresh_antimono: "now \<le> later \<Longrightarrow> fresh later e \<Longrightarrow> fresh now e"
begin

lemma prune_fresh: "e \<in> set (elems (prune now s)) \<Longrightarrow> fresh now e"
  by (simp add: prune_elems)

lemma prune_cap: "length (elems s) \<le> cap \<Longrightarrow> length (elems (prune now s)) \<le> cap"
  by (simp add: prune_elems) (meson le_trans length_filter_le)

lemma prune_idem: "elems (prune now (prune now s)) = elems (prune now s)"
  by (simp add: prune_elems)

lemma prune_later: "now \<le> later \<Longrightarrow> elems (prune later (prune now s)) = elems (prune later s)"
  by (auto simp: prune_elems intro!: filter_cong dest: fresh_antimono)

end

end
