(* ===== verification/Severity.thy ===== *)
theory Severity
  imports Moat_Prelude
begin

text \<open>
  The severity ladder of \<open>moatd/src/alert.rs\<close>: a severity is a string of the record, its rank
  a number from 0 to 3. \<open>step\<close> (\<open>moatd/src/scoring.rs\<close>) moves along the ladder and clamps.
\<close>

definition severity_rank :: "string \<Rightarrow> nat" where
  "severity_rank s =
     (if s = ''critical'' then 3 else if s = ''high'' then 2
      else if s = ''medium'' then 1 else 0)"

definition severity_name :: "nat \<Rightarrow> string" where
  "severity_name r =
     (if r = 3 then ''critical'' else if r = 2 then ''high''
      else if r = 1 then ''medium'' else ''low'')"

definition step :: "string \<Rightarrow> int \<Rightarrow> string" where
  "step sev delta =
     (let cur = int (severity_rank sev); nxt = nat (max 0 (min 3 (cur + delta)))
      in [''low'', ''medium'', ''high'', ''critical''] ! nxt)"

definition ladder :: "string list" where
  "ladder = [''low'', ''medium'', ''high'', ''critical'']"

lemma severity_rank_le [simp, intro]: "severity_rank s \<le> 3"
  by (simp add: severity_rank_def)

lemma severity_rank_words [simp]:
  "severity_rank ''critical'' = 3" "severity_rank ''high'' = 2"
  "severity_rank ''medium'' = 1" "severity_rank ''low'' = 0"
  by (simp_all add: severity_rank_def)

lemma severity_name_rank [simp]: "r \<le> 3 \<Longrightarrow> severity_rank (severity_name r) = r"
  by (auto simp: severity_rank_def severity_name_def)

lemma severity_rank_name: "s \<in> set ladder \<Longrightarrow> severity_name (severity_rank s) = s"
  by (auto simp: severity_rank_def severity_name_def ladder_def)

lemma severity_name_ladder [simp, intro]: "severity_name r \<in> set ladder"
  by (simp add: severity_name_def ladder_def)

lemma step_name: "step sev d = severity_name (nat (max 0 (min 3 (int (severity_rank sev) + d))))"
proof -
  define n where "n = nat (max 0 (min 3 (int (severity_rank sev) + d)))"
  have "n = 0 \<or> n = 1 \<or> n = 2 \<or> n = 3" unfolding n_def by linarith
  then have "ladder ! n = severity_name n"
    by (auto simp: ladder_def severity_name_def nth_Cons')
  then show ?thesis unfolding step_def n_def Let_def ladder_def by simp
qed

lemma rank_step: "severity_rank (step sev d) = nat (max 0 (min 3 (int (severity_rank sev) + d)))"
  unfolding step_name by (rule severity_name_rank) simp

lemma rank_step_le: "d \<le> 0 \<Longrightarrow> severity_rank (step sev d) \<le> severity_rank sev"
  unfolding rank_step by linarith

end
