(* ===== verification/Provenance.thy ===== *)
theory Provenance
  imports Moat_Prelude
begin

text \<open>
  The two classifications a score depends on: who acts (\<open>Provenance\<close> and \<open>Actor\<close> of
  \<open>moatd/src/provenance.rs\<close>) and where the action comes from (\<open>Context\<close> of
  \<open>moatd/src/context.rs\<close>), with the words the record stores for them. How a process gets its
  context is the theory \<open>Proc_Context\<close>.
\<close>

datatype provenance = Official | Foreign | User | UnknownProv

fun provenance_str :: "provenance \<Rightarrow> string" where
  "provenance_str Official = ''official''"
| "provenance_str Foreign = ''foreign''"
| "provenance_str User = ''user''"
| "provenance_str UnknownProv = ''unknown''"

definition is_official :: "provenance \<Rightarrow> bool" where
  "is_official p \<longleftrightarrow> p = Official"

record actor =
  ac_provenance :: provenance
  ac_package :: "string option"
  ac_script :: "string option"
  ac_modified :: "string option"

datatype proc_context = Interactive | Agent | PkgInstall | Service | UnknownCtx

fun context_str :: "proc_context \<Rightarrow> string" where
  "context_str Interactive = ''interactive''"
| "context_str Agent = ''agent''"
| "context_str PkgInstall = ''pkg-install''"
| "context_str Service = ''service''"
| "context_str UnknownCtx = ''unknown''"

lemma provenance_str_inj: "provenance_str p = provenance_str q \<longleftrightarrow> p = q"
  by (cases p; cases q) simp_all

lemma context_str_inj: "context_str c = context_str d \<longleftrightarrow> c = d"
  by (cases c; cases d) simp_all

end
