(* ===== verification/Scoring.thy ===== *)
theory Scoring
  imports Severity Provenance
begin

text \<open>
  \<open>moatd/src/scoring.rs\<close>: the context matrix (BASELINE section 2b) as a table, the row an event
  falls in, the provenance step, the score of an event and the surface it is shown on. The body
  of the Rust function \<open>score\<close> is split into its four stages (\<open>context_stage\<close>, \<open>aws_stage\<close>,
  \<open>container_stage\<close> and the sentence of \<open>score\<close>), each a function on the four locals the Rust
  code mutates: the severity, the list of reasons and the two flags.
\<close>

section \<open>The context matrix\<close>

datatype outcome = Unchanged | Sev string | Timeline | Silence

fun outcome_label :: "outcome \<Rightarrow> string" where
  "outcome_label Unchanged = ''no change''"
| "outcome_label (Sev s) = s"
| "outcome_label Timeline = ''timeline only''"
| "outcome_label Silence = ''nothing''"

record matrix_row =
  mr_key :: string
  mr_event :: string
  mr_interactive :: outcome
  mr_pkg_install :: outcome
  mr_service :: outcome

definition row_outcome :: "matrix_row \<Rightarrow> proc_context \<Rightarrow> outcome" where
  "row_outcome r ctx =
     (case ctx of Interactive \<Rightarrow> mr_interactive r | PkgInstall \<Rightarrow> mr_pkg_install r
      | Service \<Rightarrow> mr_service r | UnknownCtx \<Rightarrow> Unchanged | Agent \<Rightarrow> Unchanged)"

definition MATRIX :: "matrix_row list" where
  "MATRIX = [
    \<lparr>mr_key = ''cred-cloud-read'',
     mr_event = ''node/python reads ~/.aws/credentials, ~/.config/gh/hosts.yml'',
     mr_interactive = Sev ''medium'', mr_pkg_install = Sev ''critical'', mr_service = Sev ''high''\<rparr>,
    \<lparr>mr_key = ''interpreter-spawn'', mr_event = ''shell/interpreter spawned'',
     mr_interactive = Timeline, mr_pkg_install = Sev ''low'', mr_service = Sev ''medium''\<rparr>,
    \<lparr>mr_key = ''exec-tmp-build'',
     mr_event = ''exec from /tmp with a build tool in the chain (cmake try_compile, cargo build scripts, pytest tmp dirs)'',
     mr_interactive = Timeline, mr_pkg_install = Sev ''low'', mr_service = Sev ''medium''\<rparr>,
    \<lparr>mr_key = ''exec-go-cache-build'',
     mr_event = ''exec from the Go build cache with a build tool in the chain'',
     mr_interactive = Timeline, mr_pkg_install = Sev ''low'', mr_service = Sev ''medium''\<rparr>,
    \<lparr>mr_key = ''exec-project-tree'',
     mr_event = ''exec of a binary under a project worktree, target/, node_modules/.bin, .venv/bin, ~/.cargo/bin, ~/.local/bin, ~/go/bin, ~/.bun/bin, mise, pnpm'',
     mr_interactive = Timeline, mr_pkg_install = Sev ''medium'', mr_service = Sev ''high''\<rparr>,
    \<lparr>mr_key = ''exec-opaque-dir'',
     mr_event = ''exec of a binary under ~/.cache, ~/Downloads, ~/.config, a hidden dir, or /tmp with no build tool in the chain'',
     mr_interactive = Sev ''medium'', mr_pkg_install = Sev ''high'', mr_service = Sev ''high''\<rparr>,
    \<lparr>mr_key = ''net-download'', mr_event = ''curl/wget with a non-registry destination'',
     mr_interactive = Timeline, mr_pkg_install = Sev ''high'', mr_service = Sev ''medium''\<rparr>,
    \<lparr>mr_key = ''persist-project-config'',
     mr_event = ''write to .git/hooks/*, .husky/, .envrc, .vscode/tasks.json, .claude/settings.json, CLAUDE.md inside the current project'',
     mr_interactive = Sev ''low'', mr_pkg_install = Sev ''high'', mr_service = Sev ''high''\<rparr>,
    \<lparr>mr_key = ''persist-user-startup'',
     mr_event = ''write to a shell rc, autostart, a systemd user unit, or hyprland conf'',
     mr_interactive = Sev ''medium'', mr_pkg_install = Sev ''critical'', mr_service = Sev ''high''\<rparr>,
    \<lparr>mr_key = ''priv-debug'', mr_event = ''ptrace / /proc/<pid>/mem by a debugger or profiler'',
     mr_interactive = Timeline, mr_pkg_install = Sev ''high'', mr_service = Sev ''high''\<rparr>,
    \<lparr>mr_key = ''ai-cli-launch'', mr_event = ''AI CLI launched'',
     mr_interactive = Silence, mr_pkg_install = Sev ''high'', mr_service = Sev ''medium''\<rparr>]"

definition row :: "string \<Rightarrow> matrix_row option" where
  "row k = find (\<lambda>r. mr_key r = k) MATRIX"

section \<open>The tables of rules and markers\<close>

definition GLOBAL_RULES :: "string list" where
  "GLOBAL_RULES = [''moat-rootkit-kernel-module-load'', ''moat-rootkit-bpf-prog-load'',
     ''moat-priv-sysctl-write'', ''moat-priv-capability-gained'', ''moat-canary-file-read'']"

definition NEVER_LOWERED :: "string list" where
  "NEVER_LOWERED = [''moat-x-new-exec-ioc'', ''moat-pkg-subtree-netcat-exec'',
     ''moat-x-baseline-revoked'', ''moat-x-noisy-rule'', ''moat-x-mass-read'']"

definition RULE_DELTA :: "(string \<times> int) list" where
  "RULE_DELTA = [(''moat-x-pkg-egress'', -1), (''moat-x-mass-read'', -1),
     (''moat-pkg-subtree-interpreter-spawn'', -1), (''moat-x-ai-cli-headless'', 0),
     (''moat-x-new-exec-ioc'', 0), (''moat-x-sensor-mismatch'', 0),
     (''moat-pkg-subtree-downloader'', 0), (''moat-pkg-subtree-netcat-exec'', 0),
     (''moat-ai-cli-in-pkg-subtree'', 0)]"

definition CLOUD_CRED_MARKERS :: "string list" where
  "CLOUD_CRED_MARKERS = [''/.aws/'', ''/.config/gh/'', ''/.config/gcloud/'', ''/.azure/'',
     ''/.kube/'', ''/.docker/config.json'', ''/.config/doctl/'', ''/.config/fly/'', ''/.netrc'',
     ''/.git-credentials'', ''/.npmrc'', ''/.pypirc'']"

definition PROJECT_TREE_MARKERS :: "string list" where
  "PROJECT_TREE_MARKERS = [''/target/debug/'', ''/target/release/'', ''/node_modules/.bin/'',
     ''/.venv/bin/'', ''/venv/bin/'', ''/.tox/'', ''/build/'', ''/dist/'', ''/.cargo/bin/'',
     ''/.local/bin/'', ''/go/bin/'', ''/.bun/bin/'', ''/.local/share/mise/'',
     ''/.local/share/pnpm/'', ''/.rustup/toolchains/'', ''/.nvm/versions/'', ''/.pyenv/versions/'',
     ''/.rbenv/'']"

definition OPAQUE_MARKERS :: "string list" where
  "OPAQUE_MARKERS = [''/.cache/'', ''/Downloads/'', ''/.config/'', ''/.local/share/'']"

definition TMP_ROOTS :: "string list" where
  "TMP_ROOTS = [''/tmp/'', ''/var/tmp/'', ''/dev/shm/'']"

definition PROJECT_CONFIG_MARKERS :: "string list" where
  "PROJECT_CONFIG_MARKERS = [''/.git/hooks/'', ''/.husky/'', ''/.envrc'', ''/.vscode/tasks.json'',
     ''/.claude/settings.json'', ''/CLAUDE.md'', ''/.cursor/'', ''/AGENTS.md'']"

definition STARTUP_MARKERS :: "string list" where
  "STARTUP_MARKERS = [''/.bashrc'', ''/.bash_profile'', ''/.zshrc'', ''/.zshenv'', ''/.profile'',
     ''/.zprofile'', ''/.config/fish/'', ''/.config/autostart/'', ''/.config/systemd/user/'',
     ''/.config/hypr/'', ''/.config/uwsm/'', ''/.xinitrc'', ''/.xprofile'']"

definition DOWNLOADERS :: "string list" where
  "DOWNLOADERS = [''curl'', ''wget'', ''aria2c'', ''xh'', ''http'', ''https'', ''httpie'', ''ftp'']"

lemmas [table_defs] = GLOBAL_RULES_def NEVER_LOWERED_def RULE_DELTA_def CLOUD_CRED_MARKERS_def
  PROJECT_TREE_MARKERS_def OPAQUE_MARKERS_def TMP_ROOTS_def PROJECT_CONFIG_MARKERS_def
  STARTUP_MARKERS_def DOWNLOADERS_def

definition provenance_delta :: "string \<Rightarrow> string \<Rightarrow> provenance \<Rightarrow> int" where
  "provenance_delta family rule p =
     (if \<not> is_official p then 0
      else case map_of RULE_DELTA rule of
        Some d \<Rightarrow> d
      | None \<Rightarrow>
          if family \<in> {''cred'', ''rootkit'', ''shell'', ''ransom''} then 0
          else if family \<in> {''persist'', ''priv'', ''exec'', ''net''} then -1
          else 0)"

section \<open>Which row an event falls in\<close>

record event_facts =
  ef_family :: string
  ef_rule :: string
  ef_hook :: string
  ef_exe :: string
  ef_file :: "string option"
  ef_has_net :: bool
  ef_has_ioc :: bool
  ef_build_tool_in_chain :: bool
  ef_homes :: "string list"
  ef_in_container :: bool

definition matches_any :: "string \<Rightarrow> string list \<Rightarrow> bool" where
  "matches_any path markers \<longleftrightarrow> list_ex (\<lambda>m. contains_str path m) markers"

definition under_tmp :: "string \<Rightarrow> bool" where
  "under_tmp path \<longleftrightarrow> list_ex (\<lambda>r. starts_with path r) TMP_ROOTS"

definition in_hidden_home_dir :: "string \<Rightarrow> string list \<Rightarrow> bool" where
  "in_hidden_home_dir path hs \<longleftrightarrow>
     list_ex (\<lambda>h. case Option.bind (strip_prefix path h) (\<lambda>rest. strip_prefix rest ''/'') of
       None \<Rightarrow> False
     | Some rest \<Rightarrow> starts_with rest ''.'' \<and> contains_str rest ''/'') hs"

definition is_exec_event :: "event_facts \<Rightarrow> bool" where
  "is_exec_event f \<longleftrightarrow> ef_family f = ''exec'' \<or> ef_hook f = ''bprm_check_security''"

definition go_build_path :: "string \<Rightarrow> string list \<Rightarrow> bool" where
  "go_build_path path hs \<longleftrightarrow>
     list_ex (\<lambda>home.
       case strip_prefix path (trim_end_matches CHR ''/'' home @ ''/.cache/go-build/'') of
         None \<Rightarrow> False
       | Some tail \<Rightarrow> \<not> list_ex (\<lambda>part. part = ''..'') (split_on CHR ''/'' tail)
                      \<and> contains_str tail ''/'') hs"

definition npm_package_path :: "string \<Rightarrow> string list \<Rightarrow> bool" where
  "npm_package_path path hs \<longleftrightarrow>
     list_ex (\<lambda>home.
       case strip_prefix path (trim_end_matches CHR ''/'' home @ ''/.npm/_npx/'') of
         None \<Rightarrow> False
       | Some tail \<Rightarrow>
           \<not> list_ex (\<lambda>part. part = ''..'' \<or> part = []) (split_on CHR ''/'' tail)
           \<and> (case split_once_str ''/node_modules/'' tail of
                None \<Rightarrow> False
              | Some (cache, pkg) \<Rightarrow> \<not> contains_str cache ''/'' \<and> contains_str pkg ''/'')) hs"

definition pnpm_package_path :: "string \<Rightarrow> bool" where
  "pnpm_package_path path \<longleftrightarrow>
     (case split_once_str ''/node_modules/.pnpm/'' path of
        None \<Rightarrow> False
      | Some (_, tail) \<Rightarrow>
          \<not> list_ex (\<lambda>part. part = ''..'' \<or> part = []) (split_on CHR ''/'' tail)
          \<and> contains_str tail ''/node_modules/'')"

definition classify_exec :: "event_facts \<Rightarrow> string option" where
  "classify_exec f =
     (let path = (case ef_file f of Some p \<Rightarrow> p | None \<Rightarrow> ef_exe f) in
      if under_tmp path then
        Some (if ef_build_tool_in_chain f then ''exec-tmp-build'' else ''exec-opaque-dir'')
      else if ef_build_tool_in_chain f \<and> go_build_path path (ef_homes f) then
        Some ''exec-go-cache-build''
      else if npm_package_path path (ef_homes f) \<or> pnpm_package_path path then
        Some ''exec-project-tree''
      else if matches_any path PROJECT_TREE_MARKERS then Some ''exec-project-tree''
      else if matches_any path OPAQUE_MARKERS \<or> in_hidden_home_dir path (ef_homes f) then
        Some ''exec-opaque-dir''
      else None)"

definition classify_key :: "event_facts \<Rightarrow> string option" where
  "classify_key f =
     (if ef_family f = ''ai'' \<or> contains_str (ef_rule f) ''ai-cli'' then Some ''ai-cli-launch''
      else if ef_rule f = ''moat-pkg-subtree-interpreter-spawn'' then Some ''interpreter-spawn''
      else if ef_family f = ''cred'' then
        (case ef_file f of
           Some p \<Rightarrow> if matches_any p CLOUD_CRED_MARKERS then Some ''cred-cloud-read'' else None
         | None \<Rightarrow> None)
      else if ef_family f = ''persist'' then
        (case ef_file f of
           Some p \<Rightarrow>
             if matches_any p PROJECT_CONFIG_MARKERS then Some ''persist-project-config''
             else if matches_any p STARTUP_MARKERS then Some ''persist-user-startup''
             else None
         | None \<Rightarrow> None)
      else if ef_family f = ''priv'' then
        (if contains_str (ef_hook f) ''ptrace'' \<or> contains_str (ef_rule f) ''ptrace''
            \<or> (case ef_file f of
                 Some p \<Rightarrow> starts_with p ''/proc/'' \<and> ends_with p ''/mem''
               | None \<Rightarrow> False)
         then Some ''priv-debug'' else None)
      else if (ef_has_net f \<or> ef_family f = ''net'' \<or> contains_str (ef_rule f) ''downloader'')
              \<and> basename (ef_exe f) \<in> set DOWNLOADERS
      then Some ''net-download''
      else if is_exec_event f then classify_exec f
      else None)"

definition classify_row :: "event_facts \<Rightarrow> matrix_row option" where
  "classify_row f = Option.bind (classify_key f) row"

section \<open>The score of an event\<close>

record score =
  severity_base :: string
  severity :: string
  severity_reason :: string
  surface :: string
  matrix_key :: "string option"
  context_silenced :: bool
  pkg_install_escalation :: bool

definition surface_for :: "string \<Rightarrow> string" where
  "surface_for sev = (if severity_rank sev \<ge> 2 then ''alerts'' else ''timeline'')"

definition unadjusted :: "string \<Rightarrow> score" where
  "unadjusted sev = \<lparr>severity_base = sev, severity = sev,
     severity_reason = ''no adjustment applied'', surface = surface_for sev,
     matrix_key = None, context_silenced = False, pkg_install_escalation = False\<rparr>"

definition never_lowered :: "event_facts \<Rightarrow> bool" where
  "never_lowered f \<longleftrightarrow> ef_has_ioc f \<or> ef_family f = ''rootkit'' \<or> ef_family f = ''ransom''
     \<or> ef_rule f \<in> set NEVER_LOWERED"

text \<open>The locals that the body of \<open>score\<close> mutates.\<close>

record scoring =
  sc_sev :: string
  sc_reasons :: "string list"
  sc_timeline :: bool
  sc_silenced :: bool

definition push_reason :: "string \<Rightarrow> scoring \<Rightarrow> scoring" where
  "push_reason r st = st\<lparr>sc_reasons := sc_reasons st @ [r]\<rparr>"

definition apply_provenance :: "int \<Rightarrow> actor \<Rightarrow> scoring \<Rightarrow> scoring" where
  "apply_provenance delta a st =
     (if delta = 0 then st
      else let nxt = step (sc_sev st) delta in
        if nxt \<noteq> sc_sev st then
          (push_reason (''actor is official'' @
             (case ac_package a of None \<Rightarrow> [] | Some p \<Rightarrow> '' (package '' @ p @ '')'')) st)
            \<lparr>sc_sev := nxt\<rparr>
        else st)"

definition generic_context_delta :: "string \<Rightarrow> proc_context \<Rightarrow> int" where
  "generic_context_delta fam ctx =
     (case ctx of
        Interactive \<Rightarrow>
          if fam \<in> {''exec'', ''persist'', ''priv'', ''net''} then -2
          else if fam = ''cred'' then -1 else 0
      | Service \<Rightarrow> 0 | PkgInstall \<Rightarrow> 0 | UnknownCtx \<Rightarrow> 0 | Agent \<Rightarrow> 0)"

text \<open>The provenance step of section 2, decided once.\<close>

definition prov_delta :: "event_facts \<Rightarrow> actor \<Rightarrow> proc_context \<Rightarrow> bool \<Rightarrow> int" where
  "prov_delta f a ctx downgrade =
     (if downgrade \<and> ctx \<noteq> PkgInstall \<and> \<not> never_lowered f
      then provenance_delta (ef_family f) (ef_rule f) (ac_provenance a) else 0)"

text \<open>The \<open>match\<close> on the matrix cell.\<close>

definition sev_cell :: "event_facts \<Rightarrow> actor \<Rightarrow> proc_context \<Rightarrow> int \<Rightarrow> matrix_row \<Rightarrow> string
    \<Rightarrow> scoring \<Rightarrow> scoring" where
  "sev_cell f a ctx prov r target st =
     (if severity_rank target < severity_rank (sc_sev st) \<and> never_lowered f then
        push_reason (context_str ctx @ '' context would score this '' @ target
          @ '', but this rule is never lowered'') st
      else
        let st' = (if target \<noteq> sc_sev st
                   then push_reason (context_str ctx @ '' context: '' @ mr_event r) st else st)
        in apply_provenance prov a (st'\<lparr>sc_sev := target\<rparr>))"

definition timeline_cell :: "event_facts \<Rightarrow> proc_context \<Rightarrow> matrix_row \<Rightarrow> scoring \<Rightarrow> scoring" where
  "timeline_cell f ctx r st =
     (if never_lowered f then
        push_reason (context_str ctx
          @ '' context would keep this to the timeline, but this rule is never lowered'') st
      else (push_reason (context_str ctx @ '' context: '' @ mr_event r @ '' '' @ em_dash
              @ '' timeline only'') st)\<lparr>sc_sev := ''low'', sc_timeline := True\<rparr>)"

definition silence_cell :: "event_facts \<Rightarrow> proc_context \<Rightarrow> matrix_row \<Rightarrow> scoring \<Rightarrow> scoring" where
  "silence_cell f ctx r st =
     (if never_lowered f then
        push_reason (context_str ctx
          @ '' context would silence this, but this rule is never lowered'') st
      else (push_reason (context_str ctx @ '' context: '' @ mr_event r @ '' '' @ em_dash
              @ '' expected here, recorded but not surfaced'') st)
             \<lparr>sc_sev := ''low'', sc_timeline := True, sc_silenced := True\<rparr>)"

definition no_cell :: "event_facts \<Rightarrow> actor \<Rightarrow> proc_context \<Rightarrow> int \<Rightarrow> scoring \<Rightarrow> scoring" where
  "no_cell f a ctx prov st =
     (let st1 = apply_provenance prov a st;
          delta = generic_context_delta (ef_family f) ctx in
      if delta \<noteq> 0 \<and> \<not> never_lowered f then
        let nxt0 = step (sc_sev st1) delta;
            nxt = (if ef_family f = ''cred'' \<and> severity_rank nxt0 < severity_rank ''low''
                   then ''low'' else nxt0) in
        if nxt \<noteq> sc_sev st1 then
          (push_reason (''interactive session: a person is driving this ('' @ show_nat (nat (- delta))
             @ '' step'' @ (if delta = -1 then [] else ''s'') @ '' down)'') st1)\<lparr>sc_sev := nxt\<rparr>
        else st1
      else st1)"

definition context_stage :: "event_facts \<Rightarrow> actor \<Rightarrow> proc_context \<Rightarrow> int \<Rightarrow> scoring \<Rightarrow> scoring" where
  "context_stage f a ctx prov st =
     (case classify_row f of
        None \<Rightarrow> no_cell f a ctx prov st
      | Some r \<Rightarrow>
          (case row_outcome r ctx of
             Sev target \<Rightarrow> sev_cell f a ctx prov r target st
           | Timeline \<Rightarrow> timeline_cell f ctx r st
           | Silence \<Rightarrow> silence_cell f ctx r st
           | Unchanged \<Rightarrow> no_cell f a ctx prov st))"

definition aws_stage :: "event_facts \<Rightarrow> proc_context \<Rightarrow> scoring \<Rightarrow> scoring" where
  "aws_stage f ctx st =
     (if ef_rule f = ''moat-cred-cloud-credentials-read''
         \<and> (case ef_file f of Some p \<Rightarrow> ends_with p ''/.aws/config'' | None \<Rightarrow> False)
         \<and> ctx \<noteq> PkgInstall \<and> \<not> ef_has_ioc f
         \<and> severity_rank (sc_sev st) > severity_rank ''medium''
      then push_reason ''AWS profile configuration read outside a package install; retain as a chain step''
             (st\<lparr>sc_sev := ''medium''\<rparr>)
      else st)"

definition namespace_split :: "event_facts \<Rightarrow> bool" where
  "namespace_split f \<longleftrightarrow> ef_in_container f \<and> ef_rule f \<notin> set GLOBAL_RULES"

definition container_stage :: "event_facts \<Rightarrow> scoring \<Rightarrow> scoring" where
  "container_stage f st =
     (if namespace_split f then
        (if severity_rank (sc_sev st) > severity_rank ''low'' \<or> \<not> sc_timeline st
         then push_reason (''inside a container: moat does not enforce across the namespace boundary for this rule, so this is context about somebody else'' @ [CHR 0x27] @ ''s filesystem '' @ em_dash @ '' timeline only'') st
         else st)\<lparr>sc_sev := ''low'', sc_timeline := True\<rparr>
      else st)"

definition pkg_install_note :: "proc_context \<Rightarrow> scoring \<Rightarrow> scoring" where
  "pkg_install_note ctx st =
     (if ctx = PkgInstall \<and> sc_reasons st = []
      then push_reason ''package install: never downgraded'' st else st)"

definition reason_sentence :: "string \<Rightarrow> actor \<Rightarrow> proc_context \<Rightarrow> scoring \<Rightarrow> string" where
  "reason_sentence base a ctx st =
     (if sc_reasons st = [] then
        sc_sev st @ '': no adjustment applied (actor '' @ provenance_str (ac_provenance a)
          @ '', context '' @ context_str ctx @ '')''
      else if sc_sev st = base then
        ''stays '' @ sc_sev st @ '': '' @ join_with ''; '' (sc_reasons st)
      else base @ '' '' @ arrow_right @ '' '' @ sc_sev st @ '': '' @ join_with ''; '' (sc_reasons st))"

definition escalated_in_install :: "event_facts \<Rightarrow> proc_context \<Rightarrow> bool" where
  "escalated_in_install f ctx \<longleftrightarrow> ctx = PkgInstall
     \<and> (case classify_row f of
          None \<Rightarrow> False
        | Some r \<Rightarrow> (case mr_pkg_install r of Sev s \<Rightarrow> severity_rank s \<ge> 2 | _ \<Rightarrow> False))"

definition run_stages :: "string \<Rightarrow> event_facts \<Rightarrow> actor \<Rightarrow> proc_context \<Rightarrow> bool \<Rightarrow> scoring" where
  "run_stages base f a ctx downgrade =
     pkg_install_note ctx (container_stage f (aws_stage f ctx
       (context_stage f a ctx (prov_delta f a ctx downgrade)
         \<lparr>sc_sev = base, sc_reasons = [], sc_timeline = False, sc_silenced = False\<rparr>)))"

definition score :: "string \<Rightarrow> event_facts \<Rightarrow> actor \<Rightarrow> proc_context \<Rightarrow> bool \<Rightarrow> score" where
  "score base f a ctx downgrade =
     (let st = run_stages base f a ctx downgrade in
      \<lparr>severity_base = base, severity = sc_sev st,
       severity_reason = reason_sentence base a ctx st,
       surface = (if sc_timeline st then ''timeline'' else surface_for (sc_sev st)),
       matrix_key = map_option mr_key (classify_row f),
       context_silenced = sc_silenced st,
       pkg_install_escalation = escalated_in_install f ctx\<rparr>)"

definition final_surface :: "score \<Rightarrow> string \<Rightarrow> bool \<Rightarrow> bool \<Rightarrow> string" where
  "final_surface s tier demoted suppressed =
     (if suppressed then ''timeline''
      else if pkg_install_escalation s \<and> severity_rank (severity s) \<ge> 2 then ''alerts''
      else if demoted \<or> tier = ''signal'' then ''timeline''
      else if surface s = ''alerts'' then ''alerts'' else ''timeline'')"

section \<open>Facts on the stages\<close>

named_theorems stage_defs \<open>the stages of \<open>score\<close>\<close>

lemmas [stage_defs] = sev_cell_def timeline_cell_def silence_cell_def no_cell_def push_reason_def
  apply_provenance_def Let_def

lemma provenance_delta_cases: "provenance_delta fam rl p = 0 \<or> provenance_delta fam rl p = -1"
  by (simp add: provenance_delta_def RULE_DELTA_def split: option.splits)

lemma prov_delta_cases: "prov_delta f a ctx d = 0 \<or> prov_delta f a ctx d = -1"
  using provenance_delta_cases by (simp add: prov_delta_def)

lemma prov_delta_locked [simp]: "never_lowered f \<Longrightarrow> prov_delta f a ctx d = 0"
  by (simp add: prov_delta_def)

lemma prov_delta_install [simp]: "prov_delta f a PkgInstall d = 0"
  by (simp add: prov_delta_def)

lemma prov_delta_off [simp]: "prov_delta f a ctx False = 0"
  by (simp add: prov_delta_def)

lemma apply_provenance_0 [simp]: "apply_provenance 0 a st = st"
  by (simp add: apply_provenance_def)

lemma apply_provenance_rank:
  "severity_rank (sc_sev (apply_provenance d a st)) =
     nat (max 0 (min 3 (int (severity_rank (sc_sev st)) + d)))"
proof (cases "step (sc_sev st) d = sc_sev st")
  case True
  from rank_step [of "sc_sev st" d] True have
    "severity_rank (sc_sev st) = nat (max 0 (min 3 (int (severity_rank (sc_sev st)) + d)))"
    by simp
  with True show ?thesis by (simp add: apply_provenance_def Let_def)
next
  case False
  then show ?thesis
    by (cases "d = 0") (auto simp: apply_provenance_def Let_def push_reason_def rank_step)
qed

lemma row_key: "row k = Some r \<Longrightarrow> mr_key r = k \<and> r \<in> set MATRIX"
  by (auto simp: row_def find_Some_iff)

lemma classify_exec_keys:
  "classify_exec f = Some k \<Longrightarrow>
     k \<in> {''exec-tmp-build'', ''exec-opaque-dir'', ''exec-go-cache-build'', ''exec-project-tree''}"
  by (auto simp: classify_exec_def Let_def split: if_splits)

lemma classify_key_rows: "classify_key f = Some k \<Longrightarrow> k \<in> mr_key ` set MATRIX"
proof -
  assume a: "classify_key f = Some k"
  then have "k \<in> {''ai-cli-launch'', ''interpreter-spawn'', ''cred-cloud-read'',
      ''persist-project-config'', ''persist-user-startup'', ''priv-debug'', ''net-download'',
      ''exec-tmp-build'', ''exec-opaque-dir'', ''exec-go-cache-build'', ''exec-project-tree''}"
    using classify_exec_keys [of f k]
    by (auto simp: classify_key_def split: if_splits option.splits)
  then show ?thesis by (auto simp: MATRIX_def)
qed

lemma row_of_key:
  assumes "k \<in> mr_key ` set MATRIX"
  shows "\<exists>r. row k = Some r"
proof -
  from assms have "find (\<lambda>r. mr_key r = k) MATRIX \<noteq> None" by (auto simp only: find_None_iff)
  then show ?thesis by (simp add: row_def)
qed

lemma context_stage_locked_rank:
  assumes "never_lowered f"
  shows "severity_rank (sc_sev st) \<le> severity_rank (sc_sev (context_stage f a ctx 0 st))"
  using assms
  by (auto simp: context_stage_def stage_defs split: option.splits outcome.splits)

definition explained :: "string \<Rightarrow> scoring \<Rightarrow> bool" where
  "explained base st \<longleftrightarrow> sc_reasons st = [] \<longrightarrow> sc_sev st = base \<and> \<not> sc_timeline st"

lemma explained_push [simp]: "explained base (push_reason r st)"
  by (simp add: explained_def push_reason_def)

lemma explained_push_upd [simp]:
  "explained base (push_reason r st\<lparr>sc_sev := v\<rparr>)"
  "explained base (push_reason r st\<lparr>sc_sev := v, sc_timeline := t\<rparr>)"
  "explained base (push_reason r st\<lparr>sc_sev := v, sc_timeline := t, sc_silenced := z\<rparr>)"
  by (simp_all add: explained_def push_reason_def)

lemma explained_provenance: "explained base st \<Longrightarrow> explained base (apply_provenance d a st)"
  by (simp add: apply_provenance_def Let_def)

lemma explained_no_cell: "explained base st \<Longrightarrow> explained base (no_cell f a ctx d st)"
  using explained_provenance [of base st d a] by (simp add: no_cell_def Let_def)

lemma explained_sev_cell: "explained base st \<Longrightarrow> explained base (sev_cell f a ctx d r t st)"
  by (cases "t = sc_sev st") (auto simp: sev_cell_def Let_def intro!: explained_provenance)

lemma explained_context: "explained base st \<Longrightarrow> explained base (context_stage f a ctx d st)"
  by (auto simp: context_stage_def explained_no_cell explained_sev_cell timeline_cell_def
        silence_cell_def split: option.splits outcome.splits)

lemma explained_aws: "explained base st \<Longrightarrow> explained base (aws_stage f ctx st)"
  by (simp add: aws_stage_def)

lemma explained_container: "explained base st \<Longrightarrow> explained base (container_stage f st)"
  by (auto simp: container_stage_def) (auto simp: explained_def)

lemma explained_note: "explained base st \<Longrightarrow> explained base (pkg_install_note ctx st)"
  by (simp add: pkg_install_note_def)

lemma explained_run: "explained base (run_stages base f a ctx d)"
  unfolding run_stages_def
  by (intro explained_note explained_container explained_aws explained_context)
     (simp add: explained_def)

lemma note_sev [simp]:
  "sc_sev (pkg_install_note ctx st) = sc_sev st"
  "sc_timeline (pkg_install_note ctx st) = sc_timeline st"
  by (simp_all add: pkg_install_note_def push_reason_def)

lemma container_stage_split:
  "namespace_split f \<Longrightarrow> sc_sev (container_stage f st) = ''low'' \<and> sc_timeline (container_stage f st)"
  by (simp add: container_stage_def)

lemma container_stage_other [simp]: "\<not> namespace_split f \<Longrightarrow> container_stage f st = st"
  by (simp add: container_stage_def)

lemma aws_stage_install [simp]: "aws_stage f PkgInstall st = st"
  by (simp add: aws_stage_def)

lemma aws_stage_rank:
  "severity_rank (sc_sev (aws_stage f ctx st)) = severity_rank (sc_sev st)
   \<or> severity_rank (sc_sev (aws_stage f ctx st)) = min 1 (severity_rank (sc_sev st))"
  by (simp add: aws_stage_def push_reason_def)

section \<open>Properties\<close>

lemma score_sev: "severity (score base f a ctx d) = sc_sev (run_stages base f a ctx d)"
  by (simp add: score_def Let_def)

lemma score_surface:
  "surface (score base f a ctx d) = ''alerts'' \<Longrightarrow>
     severity_rank (severity (score base f a ctx d)) \<ge> 2"
  by (simp add: score_def Let_def surface_for_def split: if_splits)

lemma escalated_stage:
  assumes "escalated_in_install f PkgInstall"
  shows "2 \<le> severity_rank (sc_sev (context_stage f a PkgInstall 0 st))
    \<and> sc_timeline (context_stage f a PkgInstall 0 st) = sc_timeline st"
  using assms
  by (auto simp: escalated_in_install_def context_stage_def row_outcome_def sev_cell_def Let_def
        push_reason_def split: option.splits outcome.splits)

text \<open>C5: What becomes of a package-install escalation, in every case. When the matrix puts the event at
  \<open>high\<close> or \<open>critical\<close> because it happened inside a package install, then for every base severity, actor
  and provenance setting: if the rule is one the renderer scopes away from containers and it fired in
  one, the score is \<open>low\<close> and the event stays on the timeline; otherwise the score is at least \<open>high\<close>, and
  only an explicit suppression keeps it off the alerts surface, neither a \<open>signal\<close> tier nor a noise-guard
  demotion.\<close>

theorem install_escalation_surfaces:
  assumes "escalated_in_install f PkgInstall"
  shows "if namespace_split f
    then severity (score base f a PkgInstall d) = ''low''
      \<and> final_surface (score base f a PkgInstall d) tier demoted suppressed = ''timeline''
    else severity_rank (severity (score base f a PkgInstall d)) \<ge> 2
      \<and> final_surface (score base f a PkgInstall d) tier demoted suppressed
        = (if suppressed then ''timeline'' else ''alerts'')"
proof (cases "namespace_split f")
  case True
  then have "severity (score base f a PkgInstall d) = ''low'' \<and> surface (score base f a PkgInstall d) = ''timeline''"
    using container_stage_split [OF True] by (simp add: score_def Let_def run_stages_def)
  with True show ?thesis by (simp add: final_surface_def)
next
  case False
  then have "2 \<le> severity_rank (severity (score base f a PkgInstall d))"
    using escalated_stage [OF assms(1)] by (simp add: score_sev run_stages_def)
  with False assms(1) show ?thesis by (simp add: final_surface_def score_def Let_def)
qed

definition npm_tmp_exec :: event_facts where
  "npm_tmp_exec = \<lparr>ef_family = ''exec'', ef_rule = ''moat-exec-untrusted-tmpfs'',
     ef_hook = ''bprm_check_security'', ef_exe = ''/usr/bin/node'', ef_file = Some ''/tmp/x'',
     ef_has_net = False, ef_has_ioc = False, ef_build_tool_in_chain = False,
     ef_homes = [''/home/u''], ef_in_container = False\<rparr>"

definition some_actor :: actor where
  "some_actor = \<lparr>ac_provenance = Official, ac_package = Some ''nodejs 26'', ac_script = None,
     ac_modified = None\<rparr>"

lemma npm_tmp_exec_row:
  "classify_row npm_tmp_exec = Some \<lparr>mr_key = ''exec-opaque-dir'',
     mr_event = ''exec of a binary under ~/.cache, ~/Downloads, ~/.config, a hidden dir, or /tmp with no build tool in the chain'',
     mr_interactive = Sev ''medium'', mr_pkg_install = Sev ''high'', mr_service = Sev ''high''\<rparr>"
  by code_simp

theorem install_escalation_surfaces_witness:
  "severity_rank (severity (score ''low'' npm_tmp_exec some_actor PkgInstall True)) \<ge> 2
    \<and> final_surface (score ''low'' npm_tmp_exec some_actor PkgInstall True) ''signal'' True False
        = ''alerts''"
proof -
  have "escalated_in_install npm_tmp_exec PkgInstall" by (simp add: escalated_in_install_def npm_tmp_exec_row)
  moreover have "\<not> namespace_split npm_tmp_exec" by (simp add: namespace_split_def npm_tmp_exec_def)
  ultimately show ?thesis using install_escalation_surfaces [of npm_tmp_exec] by simp
qed

text \<open>C6: what matched a threat feed, the \<open>rootkit\<close> and \<open>ransom\<close> families and the rules of
  \<open>NEVER_LOWERED\<close> are never lowered by provenance or by any context: the score is at least the
  base severity. The two exceptions the code makes are the hypotheses: a rule that is scoped to the
  host namespace and fired in a container, and the AWS profile read.\<close>

theorem never_lowered_keeps_severity:
  assumes "never_lowered f" and "\<not> namespace_split f"
    and "ef_rule f \<noteq> ''moat-cred-cloud-credentials-read'' \<or> ef_has_ioc f"
  shows "severity_rank base \<le> severity_rank (severity (score base f a ctx d))"
proof -
  let ?st = "\<lparr>sc_sev = base, sc_reasons = [], sc_timeline = False, sc_silenced = False\<rparr>"
  have "aws_stage f ctx st = st" for st using assms(3) by (auto simp: aws_stage_def)
  with assms(1,2) context_stage_locked_rank [OF assms(1), of ?st a ctx] show ?thesis
    by (simp add: score_sev run_stages_def)
qed

definition harvest :: event_facts where
  "harvest = npm_tmp_exec\<lparr>ef_family := ''cred'', ef_rule := ''moat-x-mass-read''\<rparr>"

theorem never_lowered_keeps_severity_witness:
  "severity_rank ''critical'' \<le>
     severity_rank (severity (score ''critical'' harvest some_actor Interactive True))"
  by (rule never_lowered_keeps_severity)
     (simp_all add: harvest_def npm_tmp_exec_def never_lowered_def NEVER_LOWERED_def
       namespace_split_def)

text \<open>severity is a claim about this machine. A rule that moat does not enforce across the
  namespace boundary, fired inside a container, scores \<open>low\<close> and stays on the timeline for every
  base severity, context, tier and demotion, whether or not it is never lowered elsewhere.\<close>

theorem container_is_timeline_only:
  assumes "ef_in_container f" and "ef_rule f \<notin> set GLOBAL_RULES"
  shows "severity (score base f a ctx d) = ''low''
    \<and> final_surface (score base f a ctx d) tier demoted suppressed = ''timeline''"
proof -
  have n: "namespace_split f" using assms by (simp add: namespace_split_def)
  have "severity (score base f a ctx d) = ''low'' \<and> surface (score base f a ctx d) = ''timeline''"
    using container_stage_split [OF n] by (simp add: score_def Let_def run_stages_def)
  then show ?thesis by (simp add: final_surface_def)
qed

theorem container_is_timeline_only_witness:
  "severity (score ''critical'' (harvest\<lparr>ef_in_container := True\<rparr>) some_actor Service True) = ''low''
    \<and> final_surface (score ''critical'' (harvest\<lparr>ef_in_container := True\<rparr>) some_actor Service True)
        ''detection'' False False = ''timeline''"
  by (rule container_is_timeline_only) (simp_all add: harvest_def npm_tmp_exec_def GLOBAL_RULES_def)

text \<open>no severity changes silently. If the score differs from the base severity, the
  recorded sentence opens with both of them, and the list of reasons behind it is not empty; if it
  does not differ, the sentence opens with \<open>stays\<close> or says that nothing was adjusted.\<close>

theorem severity_change_is_recorded:
  "(let s = score base f a ctx d; st = run_stages base f a ctx d in
    if severity s \<noteq> base then
      sc_reasons st \<noteq> [] \<and>
      prefix (base @ '' '' @ arrow_right @ '' '' @ severity s @ '': '') (severity_reason s)
    else prefix (''stays '' @ base) (severity_reason s)
      \<or> prefix (base @ '': no adjustment applied'') (severity_reason s))"
  using explained_run [of base f a ctx d]
  by (auto simp: score_def Let_def reason_sentence_def explained_def prefix_def)

lemma generic_context_delta_le: "generic_context_delta fam ctx \<le> 0"
  by (simp add: generic_context_delta_def split: proc_context.split)

lemma clamp_one_step:
  assumes "g \<le> 0" and "r \<le> (3::nat)"
  shows "nat (max 0 (min 3 (int r + g))) \<le> Suc (nat (max 0 (min 3 (max 0 (min 3 (int r - 1)) + g))))"
    and "nat (max 0 (min 3 (max 0 (min 3 (int r - 1)) + g))) \<le> nat (max 0 (min 3 (int r + g)))"
  using assms by linarith+

lemma rank_one_step: "severity_rank s \<le> Suc (nat (max 0 (min 3 (int (severity_rank s) - 1))))"
  using severity_rank_le [of s] by linarith

lemma sev_cell_prov:
  fixes d :: int
  assumes "d = 0 \<or> d = -1" and "\<not> never_lowered f"
  shows "sc_sev (sev_cell f a ctx d r t st) = sc_sev (apply_provenance d a (st\<lparr>sc_sev := t\<rparr>))"
  using assms by (auto simp: stage_defs)

lemma context_stage_prov:
  assumes "\<not> never_lowered f" and "d = 0 \<or> d = -1"
  shows "severity_rank (sc_sev (context_stage f a ctx d st))
      \<le> severity_rank (sc_sev (context_stage f a ctx 0 st))
    \<and> severity_rank (sc_sev (context_stage f a ctx 0 st))
      \<le> Suc (severity_rank (sc_sev (context_stage f a ctx d st)))"
proof -
  have sev: "severity_rank (sc_sev (sev_cell f a ctx e r t st))
      = nat (max 0 (min 3 (int (severity_rank t) + e)))" if "e = 0 \<or> e = -1" for e r t
    using that assms(1) by (simp add: sev_cell_prov apply_provenance_rank)
  have no: "severity_rank (sc_sev (no_cell f a ctx e st)) =
      nat (max 0 (min 3 (int (nat (max 0 (min 3 (int (severity_rank (sc_sev st)) + e))))
        + generic_context_delta (ef_family f) ctx)))" if "e = 0 \<or> e = -1" for e
  proof -
    have "sc_sev (no_cell f a ctx e st) =
        (if generic_context_delta (ef_family f) ctx = 0 then sc_sev (apply_provenance e a st)
         else step (sc_sev (apply_provenance e a st)) (generic_context_delta (ef_family f) ctx))"
      using assms(1) by (auto simp: no_cell_def Let_def push_reason_def)
    then show ?thesis by (simp add: rank_step apply_provenance_rank)
  qed
  show ?thesis
    using assms(2)
    by (auto simp: context_stage_def sev no timeline_cell_def silence_cell_def assms(1)
          clamp_one_step rank_one_step generic_context_delta_le split: option.splits outcome.splits)
qed

lemma aws_stage_mono:
  assumes "severity_rank (sc_sev s) \<le> severity_rank (sc_sev t)"
    and "severity_rank (sc_sev t) \<le> Suc (severity_rank (sc_sev s))"
  shows "severity_rank (sc_sev (aws_stage f ctx s)) \<le> severity_rank (sc_sev (aws_stage f ctx t))
    \<and> severity_rank (sc_sev (aws_stage f ctx t)) \<le> Suc (severity_rank (sc_sev (aws_stage f ctx s)))"
  using assms by (auto simp: aws_stage_def push_reason_def)

lemma run_stages_no_prov:
  "prov_delta f a ctx True = 0 \<Longrightarrow> run_stages base f a ctx True = run_stages base f a ctx False"
  by (simp add: run_stages_def)

text \<open>provenance never raises anything and is worth at most one step. Against the same
  event scored with the provenance setting off, turning it on lowers the final severity by one
  rank or not at all, for every event, actor and context; and it changes nothing for an actor that
  is not official, inside a package install, or for a rule that is never lowered.\<close>

theorem provenance_is_one_step_down:
  "severity_rank (severity (score base f a ctx True)) \<le> severity_rank (severity (score base f a ctx False))
   \<and> severity_rank (severity (score base f a ctx False)) \<le> Suc (severity_rank (severity (score base f a ctx True)))
   \<and> (if ac_provenance a = Official \<and> ctx \<noteq> PkgInstall \<and> \<not> never_lowered f then True
      else score base f a ctx True = score base f a ctx False)"
proof (cases "prov_delta f a ctx True = 0")
  case True
  from run_stages_no_prov [OF this, of base] show ?thesis by (simp add: score_def)
next
  case False
  then have nl: "\<not> never_lowered f" "ctx \<noteq> PkgInstall" "ac_provenance a = Official"
    by (auto simp: prov_delta_def provenance_delta_def is_official_def split: if_splits)
  let ?st = "\<lparr>sc_sev = base, sc_reasons = [], sc_timeline = False, sc_silenced = False\<rparr>"
  have d: "prov_delta f a ctx True = 0 \<or> prov_delta f a ctx True = -1" by (rule prov_delta_cases)
  from context_stage_prov [OF nl(1) d, of a ctx ?st]
  have "severity_rank (severity (score base f a ctx True))
      \<le> severity_rank (severity (score base f a ctx False))
    \<and> severity_rank (severity (score base f a ctx False))
      \<le> Suc (severity_rank (severity (score base f a ctx True)))"
    using aws_stage_mono [of "context_stage f a ctx (prov_delta f a ctx True) ?st"
        "context_stage f a ctx 0 ?st" f ctx]
    by (cases "namespace_split f")
       (auto simp: score_sev run_stages_def container_stage_split)
  with nl show ?thesis by simp
qed

text \<open>every row key the classifier names exists in the matrix, so no event loses its
  context cell to a misspelt key: an event has a row exactly when a branch of the classifier
  takes it, and the row found is the one that was named.\<close>

theorem classifier_rows_exist:
  "classify_key f = map_option mr_key (classify_row f)"
proof (cases "classify_key f")
  case None
  then show ?thesis by (simp add: classify_row_def)
next
  case (Some k)
  with row_of_key [OF classify_key_rows] obtain r where "row k = Some r" by blast
  with Some row_key [of k r] show ?thesis by (simp add: classify_row_def)
qed

lemma final_surface_iff:
  assumes "surface s = ''alerts'' \<Longrightarrow> severity_rank (severity s) \<ge> 2"
  shows "final_surface s tier demoted suppressed =
     (if \<not> suppressed \<and> severity_rank (severity s) \<ge> 2
         \<and> (pkg_install_escalation s \<or> (\<not> demoted \<and> tier \<noteq> ''signal'' \<and> surface s = ''alerts''))
      then ''alerts'' else ''timeline'')"
proof (cases suppressed)
  case False
  then show ?thesis
    using assms by (cases "pkg_install_escalation s"; cases "surface s = ''alerts''")
      (simp_all add: final_surface_def)
qed (simp add: final_surface_def)

text \<open>what reaches the alerts surface. A row shown there is at least \<open>high\<close>, is not
  suppressed by the user, and is either a package-install escalation or neither a \<open>signal\<close> rule nor
  demoted by the noise guard. With a suppressed row the surface is always the timeline.\<close>

theorem alerts_surface_is_earned:
  "final_surface (score base f a ctx d) tier demoted suppressed =
     (if \<not> suppressed \<and> severity_rank (severity (score base f a ctx d)) \<ge> 2
         \<and> (escalated_in_install f ctx
             \<or> (\<not> demoted \<and> tier \<noteq> ''signal'' \<and> surface (score base f a ctx d) = ''alerts''))
      then ''alerts'' else ''timeline'')"
proof -
  have "pkg_install_escalation (score base f a ctx d) = escalated_in_install f ctx"
    by (simp add: score_def Let_def)
  with final_surface_iff [OF score_surface, of base f a ctx d tier demoted suppressed]
  show ?thesis by simp
qed

text \<open>the module says a package install never gets a downgrade. The matrix makes one: a
  binary executed from a temporary directory with a build tool in its ancestry scores \<open>low\<close> inside
  a package install whatever the rule's own severity was, for every rule that may be lowered.\<close>

theorem install_can_be_lowered:
  assumes "classify_key f = Some ''exec-tmp-build''" and "\<not> never_lowered f"
  shows "severity (score base f a PkgInstall d) = ''low''"
proof -
  have "classify_row f = Some (MATRIX ! 2)"
    by (simp add: classify_row_def assms(1) row_def MATRIX_def)
  then have "sc_sev (context_stage f a PkgInstall 0 st) = ''low''" for st
    using assms(2) by (simp add: context_stage_def row_outcome_def MATRIX_def sev_cell_def Let_def)
  then show ?thesis
    by (cases "namespace_split f") (simp_all add: score_sev run_stages_def container_stage_split)
qed

theorem install_can_be_lowered_witness:
  "severity (score ''critical'' (npm_tmp_exec\<lparr>ef_build_tool_in_chain := True\<rparr>) some_actor PkgInstall
     True) = ''low''"
  by (rule install_can_be_lowered) (code_simp, simp add: npm_tmp_exec_def never_lowered_def NEVER_LOWERED_def)

end
