(* ===== verification/Rarity.thy ===== *)
theory Rarity
  imports Moat_Prelude
begin

text \<open>
  \<open>moatd/src/rarity.rs\<close>.
\<close>

datatype rarity = FirstSeen | Rare | Common

fun rarity_str :: "rarity \<Rightarrow> string" where
  "rarity_str FirstSeen = ''first_seen''"
| "rarity_str Rare = ''rare''"
| "rarity_str Common = ''common''"

definition is_common :: "rarity \<Rightarrow> bool" where
  "is_common r \<longleftrightarrow> r = Common"

end
