(* ===== verification/Chain.thy ===== *)
theory Chain
  imports Severity Rarity
begin

text \<open>
  \<open>moatd/src/chain.rs\<close>, the part without a store: what an observation is, the process tree it
  belongs to, the correlation state \<open>Escalation\<close> that is folded over the triggers, the severity a
  sequence gets and the conditions under which observations form a chain. The store that holds
  candidates and live chains is \<open>Chain_Store\<close>.
\<close>

section \<open>Data\<close>

definition CHAIN_FAMILIES :: "string list" where
  "CHAIN_FAMILIES = [''cred'', ''net'', ''persist'', ''exec'', ''priv'', ''rootkit'', ''pkg'',
     ''shell'', ''ransom'']"

definition LOGIN_SHELLS :: "string list" where
  "LOGIN_SHELLS = [''bash'', ''zsh'', ''fish'', ''sh'', ''dash'', ''ksh'', ''nu'', ''elvish'']"

definition INTERACTIVE :: "string list" where
  "INTERACTIVE = [''alacritty'', ''foot'', ''kitty'', ''ghostty'', ''wezterm'', ''wezterm-gui'',
     ''gnome-terminal-server'', ''konsole'', ''xterm'', ''urxvt'', ''st'', ''tmux'',
     ''tmux: server'', ''screen'', ''sshd'', ''login'', ''systemd-logind'', ''code'', ''code-oss'',
     ''codium'', ''zed'', ''nvim'', ''vim'', ''emacs'', ''herdr'']"

record ancestor =
  an_pid :: nat
  an_exe :: string

record lineage_node =
  ln_exec_id :: string
  ln_pid :: nat
  ln_exe :: string
  ln_sid :: "nat option"

record observation =
  ob_summary :: string
  ob_agent_root :: "(string \<times> ancestor) option"
  ob_alert :: string
  ob_ts :: string
  ob_at :: nat
  ob_family :: string
  ob_rule :: string
  ob_severity :: string
  ob_title :: string
  ob_rarity :: rarity
  ob_silenced :: bool
  ob_lineage :: "lineage_node list"

record chain_step =
  st_summary :: string
  st_alert :: string
  st_ts :: string
  st_family :: string
  st_rule :: string
  st_severity :: string
  st_title :: string
  st_pid :: nat
  st_exe :: string
  st_role :: string

definition is_trigger :: "chain_step \<Rightarrow> bool" where
  "is_trigger s \<longleftrightarrow> st_role s = ''trigger''"

definition CONTEXT_RULES :: "string list" where
  "CONTEXT_RULES = [''moat-priv-capability-gained'', ''moat-priv-uid-transition'',
     ''moat-net-tmpfs-binary-egress'', ''moat-shell-lan-connect'',
     ''moat-shell-reverse-shell-connect'', ''moat-priv-container-socket-connect'']"

definition context_only :: "observation \<Rightarrow> bool" where
  "context_only o1 \<longleftrightarrow> ob_silenced o1 \<or> ob_rule o1 \<in> set CONTEXT_RULES"

definition ob_rank :: "observation \<Rightarrow> nat" where
  "ob_rank o1 = severity_rank (ob_severity o1)"

definition is_novel :: "observation \<Rightarrow> bool" where
  "is_novel o1 \<longleftrightarrow> \<not> is_common (ob_rarity o1)"

definition obs_step :: "observation \<Rightarrow> bool \<Rightarrow> chain_step" where
  "obs_step o1 trig =
     (let me = (case ob_lineage o1 of [] \<Rightarrow> None | n # _ \<Rightarrow> Some n) in
      \<lparr>st_summary = take_chars 1024 (ob_summary o1), st_alert = ob_alert o1, st_ts = ob_ts o1,
       st_family = ob_family o1, st_rule = ob_rule o1, st_severity = ob_severity o1,
       st_title = ob_title o1,
       st_pid = (case me of None \<Rightarrow> 0 | Some n \<Rightarrow> ln_pid n),
       st_exe = (case me of None \<Rightarrow> [] | Some n \<Rightarrow> ln_exe n),
       st_role = (if trig then ''trigger'' else ''context'')\<rparr>)"

definition is_chain_family :: "string \<Rightarrow> bool" where
  "is_chain_family f \<longleftrightarrow> f \<in> set CHAIN_FAMILIES"

lemmas [table_defs] = CHAIN_FAMILIES_def LOGIN_SHELLS_def INTERACTIVE_def CONTEXT_RULES_def

section \<open>The process tree of an alert\<close>

definition is_boundary :: "string \<Rightarrow> string option \<Rightarrow> nat \<Rightarrow> nat option \<Rightarrow> bool" where
  "is_boundary exe parent_exe pid sid =
     (let comm = basename exe in
      if pid = 1 \<or> comm = ''systemd'' \<or> comm = ''init'' then True
      else if sid = Some pid then True
      else if comm \<in> set INTERACTIVE then True
      else if comm \<in> set LOGIN_SHELLS then
        (case parent_exe of Some p \<Rightarrow> basename p \<in> set INTERACTIVE | None \<Rightarrow> True)
      else False)"

text \<open>
  The walk outward. The acting process itself (index 0) is never tested; the walk stops at the
  first ancestor that is a boundary.
\<close>

definition parent_exe_of :: "lineage_node list \<Rightarrow> string option" where
  "parent_exe_of rest = (case rest of [] \<Rightarrow> None | p # _ \<Rightarrow> Some (ln_exe p))"

fun walk_root :: "lineage_node \<Rightarrow> lineage_node list \<Rightarrow> lineage_node" where
  "walk_root root [] = root"
| "walk_root root (n # rest) =
     (if is_boundary (ln_exe n) (parent_exe_of rest) (ln_pid n) (ln_sid n) then root
      else walk_root n rest)"

definition tree_key :: "lineage_node list \<Rightarrow> (string \<times> ancestor) option" where
  "tree_key lineage =
     (case lineage of [] \<Rightarrow> None
      | first # rest \<Rightarrow>
          (let root = walk_root first rest in
           if ln_exec_id root = [] then None
           else Some (ln_exec_id root, \<lparr>an_pid = ln_pid root, an_exe = ln_exe root\<rparr>)))"

section \<open>The correlation state\<close>

record escalation =
  es_families :: "string list"
  es_family_rank :: "nat list"
  es_max_rank :: nat
  es_triggers :: nat
  es_last :: "string option"
  es_cred :: bool
  es_cred_net :: bool
  es_cred_net_persist :: bool
  es_novel :: bool

definition escalation_default :: escalation where
  "escalation_default = \<lparr>es_families = [], es_family_rank = [], es_max_rank = 0, es_triggers = 0,
     es_last = None, es_cred = False, es_cred_net = False, es_cred_net_persist = False,
     es_novel = False\<rparr>"

definition note_family :: "string \<Rightarrow> nat \<Rightarrow> escalation \<Rightarrow> escalation" where
  "note_family fam rank e =
     (case position (\<lambda>f. f = fam) (es_families e) of
        Some i \<Rightarrow> e\<lparr>es_family_rank := (es_family_rank e)[i := max (es_family_rank e ! i) rank]\<rparr>
      | None \<Rightarrow> e\<lparr>es_families := es_families e @ [fam],
                  es_family_rank := es_family_rank e @ [rank]\<rparr>)"

text \<open>The \<open>match\<close> on the family, with \<open>cred\<close> and \<open>cred_then_net\<close> as they were before.\<close>

definition note_order :: "string \<Rightarrow> nat \<Rightarrow> escalation \<Rightarrow> escalation" where
  "note_order fam rank e =
     (if fam = ''cred'' \<and> rank \<ge> severity_rank ''medium'' then e\<lparr>es_cred := True\<rparr>
      else if fam = ''net'' \<and> es_cred e then e\<lparr>es_cred_net := True\<rparr>
      else if fam = ''persist'' \<and> es_cred_net e \<and> rank \<ge> severity_rank ''medium''
      then e\<lparr>es_cred_net_persist := True\<rparr>
      else e)"

definition observe :: "string \<Rightarrow> string \<Rightarrow> bool \<Rightarrow> escalation \<Rightarrow> escalation" where
  "observe fam sev novel e =
     (let rank = severity_rank sev;
          e1 = e\<lparr>es_triggers := es_triggers e + 1, es_max_rank := max (es_max_rank e) rank,
                 es_novel := es_novel e \<or> novel\<rparr>;
          e2 = note_family fam rank e1 in
      note_order fam rank (e2\<lparr>es_last := Some fam\<rparr>))"

definition has_family :: "escalation \<Rightarrow> string \<Rightarrow> bool" where
  "has_family e f \<longleftrightarrow> f \<in> set (es_families e)"

definition rung_is_real :: "escalation \<Rightarrow> string list \<Rightarrow> bool" where
  "rung_is_real e fams \<longleftrightarrow>
     list_ex (\<lambda>(f, r). f \<in> set fams \<and> r \<ge> severity_rank ''medium'')
       (zip (es_families e) (es_family_rank e))"

definition from_steps :: "chain_step list \<Rightarrow> escalation" where
  "from_steps steps =
     fold (\<lambda>s. observe (st_family s) (st_severity s) False) (filter is_trigger steps)
       escalation_default"

section \<open>The severity of a sequence\<close>

definition list_words :: "string list \<Rightarrow> string" where
  "list_words items =
     (case items of [] \<Rightarrow> ''nothing''
      | [x] \<Rightarrow> x
      | _ \<Rightarrow> join_with '', '' (butlast items) @ '' and '' @ last items)"

definition other_families :: "string list \<Rightarrow> string \<Rightarrow> string" where
  "other_families fams except = list_words (filter (\<lambda>f. f \<noteq> except) fams)"

text \<open>The rung a state reaches: the rank, the sentence and whether a named shape matched.\<close>

definition rung :: "escalation \<Rightarrow> nat \<times> string \<times> bool" where
  "rung e =
     (let base = es_max_rank e; fams = es_families e in
      if es_cred_net_persist e then
        (3, ''a suspicious credential read was followed by network activity and a persistence finding'', True)
      else if es_cred_net e then
        (max (base + 1) 2, ''a credential was read and the same process tree then connected out'', True)
      else if (has_family e ''rootkit'' \<or> has_family e ''priv'') \<and> length fams \<ge> 2
              \<and> rung_is_real e [''rootkit'', ''priv''] then
        (base + 1,
         (if has_family e ''rootkit'' then ''a rootkit signal'' else ''a privilege signal'')
           @ '' in the same tree as ''
           @ other_families fams (if has_family e ''rootkit'' then ''rootkit'' else ''priv''), True)
      else if es_triggers e \<ge> 2 \<and> es_last e = Some ''persist'' \<and> rung_is_real e [''persist''] then
        (base + 1, ''the sequence ended by arranging to run again'', True)
      else (base, list_words fams @ '' in one process tree, no escalating sequence'', False))"

definition escalate_state :: "escalation \<Rightarrow> string \<times> string \<times> string" where
  "escalate_state e =
     (let base = es_max_rank e; base_name = severity_name base; (rank0, why, matched) = rung e;
          rank = min rank0 3; name = severity_name rank;
          reason = (if rank > base then base_name @ '' -> '' @ name @ '': '' @ why
                    else if matched then ''stays critical: '' @ why @ '' '' @ em_dash
                      @ '' already at the highest severity''
                    else ''stays '' @ name @ '': '' @ why)
      in (name, base_name, reason))"

definition escalate :: "chain_step list \<Rightarrow> string \<times> string \<times> string" where
  "escalate steps = escalate_state (from_steps steps)"

definition human_span :: "nat \<Rightarrow> string" where
  "human_span secs =
     (let (n, unit) = (if secs < 120 then (max secs 1, ''second'')
                       else if secs < 7200 then (secs div 60, ''minute'')
                       else (secs div 3600, ''hour''))
      in show_nat n @ '' '' @ unit @ (if n = 1 then [] else ''s''))"

definition summarise :: "string list \<Rightarrow> ancestor \<Rightarrow> nat \<Rightarrow> nat \<Rightarrow> nat \<Rightarrow> string" where
  "summarise fams anc span steps_n triggers_n =
     (let silenced = steps_n - triggers_n; counted = triggers_n;
          s = show_nat counted @ '' things happened in '' @ human_span span @ '' under ''
              @ basename (an_exe anc) @ '' (pid '' @ show_nat (an_pid anc) @ ''), crossing ''
              @ list_words fams @ ''.''
      in if silenced > 0 then s @ '' '' @ show_nat silenced @ '' more recorded as context.'' else s)"

section \<open>What forms a chain\<close>

definition is_novelty_exempt :: "string \<Rightarrow> bool" where
  "is_novelty_exempt r \<longleftrightarrow> r = ''moat-x-mass-read''"

definition ORDINARY_RULES :: "string list" where
  "ORDINARY_RULES = [''moat-exec-untrusted-home'', ''moat-exec-untrusted-tmpfs'',
     ''moat-net-first-contact'', ''moat-net-tmpfs-binary-egress'']"

definition qualifies :: "observation list \<Rightarrow> bool" where
  "qualifies obs =
     (let triggers = filter (\<lambda>x. \<not> context_only x) obs;
          families = remdups_adj (sort (map ob_family triggers)) in
      if length triggers < 2 then False
      else if length families < 2 then False
      else if list_all (\<lambda>f. f \<in> {''exec'', ''net''}) families
              \<and> list_all (\<lambda>x. ob_rule x \<in> set ORDINARY_RULES) triggers then False
      else if families = [''cred'', ''exec'']
              \<and> list_all (\<lambda>x. ob_rank x \<le> severity_rank ''medium'') triggers then False
      else if \<not> list_ex (\<lambda>x. ob_rank x \<ge> severity_rank ''medium'') triggers then False
      else if \<not> list_ex (\<lambda>x. is_novel x \<or> is_novelty_exempt (ob_rule x)) triggers then False
      else True)"

section \<open>What the correlation state knows\<close>

text \<open>
  A trigger as the state sees it: family, severity, novelty. \<open>ordered_run ps ts\<close> is the declarative
  reading of a rung: \<open>ts\<close> has a subsequence whose members satisfy \<open>ps\<close> one after the other.
\<close>

type_synonym trigger = "string \<times> string \<times> bool"

definition observe_all :: "trigger list \<Rightarrow> escalation" where
  "observe_all ts = fold (\<lambda>(f, s, n). observe f s n) ts escalation_default"

abbreviation t_family :: "trigger \<Rightarrow> string" where "t_family t \<equiv> fst t"
abbreviation t_rank :: "trigger \<Rightarrow> nat" where "t_rank t \<equiv> severity_rank (fst (snd t))"

definition ordered_run :: "('a \<Rightarrow> bool) list \<Rightarrow> 'a list \<Rightarrow> bool" where
  "ordered_run ps xs \<longleftrightarrow> (\<exists>ys. subseq ys xs \<and> list_all2 (\<lambda>p y. p y) ps ys)"

definition suspicious :: "string \<Rightarrow> trigger \<Rightarrow> bool" where
  "suspicious fam t \<longleftrightarrow> t_family t = fam \<and> 1 \<le> t_rank t"

definition base_rank :: "trigger list \<Rightarrow> nat" where
  "base_rank ts = fold max (map (\<lambda>t. severity_rank (fst (snd t))) ts) 0"

definition first_seen_families :: "trigger list \<Rightarrow> string list" where
  "first_seen_families ts = rev (remdups (rev (map fst ts)))"

definition family_rank_of :: "trigger list \<Rightarrow> string \<Rightarrow> nat" where
  "family_rank_of ts f = base_rank (filter (\<lambda>t. fst t = f) ts)"

lemma observe_all_Nil [simp]: "observe_all [] = escalation_default"
  by (simp add: observe_all_def)

lemma observe_all_snoc [simp]:
  "observe_all (ts @ [t]) = observe (fst t) (fst (snd t)) (snd (snd t)) (observe_all ts)"
  by (simp add: observe_all_def split_beta)

lemma ordered_run_Nil [simp]: "ordered_run [] xs" "\<not> ordered_run (p # ps) []"
  by (auto simp: ordered_run_def list_all2_Cons1)

lemma subseq_snoc_cases:
  "subseq ys (xs @ [x]) \<longleftrightarrow> subseq ys xs \<or> (\<exists>zs. ys = zs @ [x] \<and> subseq zs xs)"
proof
  assume "subseq ys (xs @ [x])"
  then obtain a b where ab: "ys = a @ b" "subseq a xs" "subseq b [x]"
    by (auto simp: subseq_append_iff)
  then consider "b = []" | "b = [x]" by (cases b) (auto split: if_splits)
  then show "subseq ys xs \<or> (\<exists>zs. ys = zs @ [x] \<and> subseq zs xs)"
    using ab by cases auto
qed (auto intro: list_emb_append2)

lemma ordered_run_snoc:
  "ordered_run (ps @ [p]) (xs @ [x]) \<longleftrightarrow>
     ordered_run (ps @ [p]) xs \<or> (ordered_run ps xs \<and> p x)"
proof -
  have "list_all2 (\<lambda>p y. p y) (ps @ [p]) (zs @ [x]) \<longleftrightarrow> list_all2 (\<lambda>p y. p y) ps zs \<and> p x" for zs
    by (cases "length ps = length zs") (auto simp: list_all2_append dest: list_all2_lengthD)
  then show ?thesis unfolding ordered_run_def subseq_snoc_cases by blast
qed

lemma ordered_run_snoc1 [simp]: "ordered_run [p] (xs @ [x]) \<longleftrightarrow> ordered_run [p] xs \<or> p x"
  using ordered_run_snoc [of "[]"] by simp

lemma ordered_run_snoc2 [simp]:
  "ordered_run [p, q] (xs @ [x]) \<longleftrightarrow> ordered_run [p, q] xs \<or> ordered_run [p] xs \<and> q x"
  using ordered_run_snoc [of "[p]"] by simp

lemma ordered_run_snoc3 [simp]:
  "ordered_run [p, q, r] (xs @ [x]) \<longleftrightarrow> ordered_run [p, q, r] xs \<or> ordered_run [p, q] xs \<and> r x"
  using ordered_run_snoc [of "[p, q]"] by simp

lemma ordered_run_one: "ordered_run [p] xs \<longleftrightarrow> (\<exists>x \<in> set xs. p x)"
  by (induction xs rule: rev_induct) auto

lemma base_rank_Nil [simp]: "base_rank [] = 0"
  and base_rank_snoc [simp]: "base_rank (ts @ [t]) = max (base_rank ts) (t_rank t)"
  by (simp_all add: base_rank_def max.commute)

lemma base_rank_ge: "t \<in> set ts \<Longrightarrow> t_rank t \<le> base_rank ts"
  by (induction ts rule: rev_induct) auto

lemma base_rank_attained: "ts \<noteq> [] \<Longrightarrow> \<exists>t \<in> set ts. base_rank ts = t_rank t"
proof (induction ts rule: rev_induct)
  case (snoc t ts)
  then show ?case by (cases "ts = []") (auto simp: max_def base_rank_def)
qed simp

lemma base_rank_le [simp]: "base_rank ts \<le> 3"
  by (induction ts rule: rev_induct) auto

lemma first_seen_snoc [simp]:
  "first_seen_families (ts @ [t]) =
     (if fst t \<in> fst ` set ts then first_seen_families ts else first_seen_families ts @ [fst t])"
  by (simp add: first_seen_families_def)

lemma first_seen_Nil [simp]: "first_seen_families [] = []"
  by (simp add: first_seen_families_def)

lemma first_seen_set [simp]: "set (first_seen_families ts) = fst ` set ts"
  and first_seen_distinct [simp]: "distinct (first_seen_families ts)"
  by (simp_all add: first_seen_families_def)

lemma family_rank_snoc [simp]:
  "family_rank_of (ts @ [t]) f =
     (if fst t = f then max (family_rank_of ts f) (t_rank t) else family_rank_of ts f)"
  by (simp add: family_rank_of_def)

lemma family_rank_0: "f \<notin> fst ` set ts \<Longrightarrow> family_rank_of ts f = 0"
  by (induction ts rule: rev_induct) (auto simp: family_rank_of_def)

lemma note_family_fields [simp]:
  "es_max_rank (note_family f r e) = es_max_rank e"
  "es_triggers (note_family f r e) = es_triggers e"
  "es_novel (note_family f r e) = es_novel e"
  "es_cred (note_family f r e) = es_cred e"
  "es_cred_net (note_family f r e) = es_cred_net e"
  "es_cred_net_persist (note_family f r e) = es_cred_net_persist e"
  by (simp_all add: note_family_def split: option.split)

lemma note_family_families [simp]:
  "es_families (note_family f r e) =
     (if f \<in> set (es_families e) then es_families e else es_families e @ [f])"
proof -
  have "position (\<lambda>x. x = f) (es_families e) = None \<longleftrightarrow> f \<notin> set (es_families e)"
    by (auto simp: position_None)
  then show ?thesis
    by (cases "position (\<lambda>x. x = f) (es_families e)") (simp_all add: note_family_def)
qed

lemma note_order_fields [simp]:
  "es_max_rank (note_order f r e) = es_max_rank e"
  "es_triggers (note_order f r e) = es_triggers e"
  "es_novel (note_order f r e) = es_novel e"
  "es_last (note_order f r e) = es_last e"
  "es_families (note_order f r e) = es_families e"
  "es_family_rank (note_order f r e) = es_family_rank e"
  by (simp_all add: note_order_def)

lemma note_order_flags [simp]:
  "es_cred (note_order f r e) = (es_cred e \<or> (f = ''cred'' \<and> 1 \<le> r))"
  "es_cred_net (note_order f r e) = (es_cred_net e \<or> (f = ''net'' \<and> es_cred e))"
  "es_cred_net_persist (note_order f r e) =
     (es_cred_net_persist e \<or> (f = ''persist'' \<and> es_cred_net e \<and> 1 \<le> r))"
  by (auto simp: note_order_def)

lemma observe_fields [simp]:
  "es_max_rank (observe f s n e) = max (es_max_rank e) (severity_rank s)"
  "es_triggers (observe f s n e) = Suc (es_triggers e)"
  "es_novel (observe f s n e) = (es_novel e \<or> n)"
  "es_last (observe f s n e) = Some f"
  "es_cred (observe f s n e) = (es_cred e \<or> (f = ''cred'' \<and> 1 \<le> severity_rank s))"
  "es_cred_net (observe f s n e) = (es_cred_net e \<or> (f = ''net'' \<and> es_cred e))"
  "es_cred_net_persist (observe f s n e) =
     (es_cred_net_persist e \<or> (f = ''persist'' \<and> es_cred_net e \<and> 1 \<le> severity_rank s))"
  "es_families (observe f s n e) =
     (if f \<in> set (es_families e) then es_families e else es_families e @ [f])"
  by (simp_all add: observe_def Let_def)

lemma observe_family_rank [simp]:
  "es_family_rank (observe f s n e) = es_family_rank (note_family f (severity_rank s) e)"
  by (cases "position (\<lambda>x. x = f) (es_families e)") (simp_all add: observe_def Let_def note_family_def)

lemma observe_all_counts:
  "es_max_rank (observe_all ts) = base_rank ts"
  "es_triggers (observe_all ts) = length ts"
  "es_novel (observe_all ts) \<longleftrightarrow> (\<exists>t \<in> set ts. snd (snd t))"
  "es_last (observe_all ts) = (if ts = [] then None else Some (fst (last ts)))"
  by (induction ts rule: rev_induct) (auto simp: escalation_default_def)

lemma observe_all_cred: "es_cred (observe_all ts) \<longleftrightarrow> ordered_run [suspicious ''cred''] ts"
  by (induction ts rule: rev_induct) (auto simp: escalation_default_def suspicious_def)

lemma observe_all_cred_net:
  "es_cred_net (observe_all ts) \<longleftrightarrow>
     ordered_run [suspicious ''cred'', \<lambda>t. t_family t = ''net''] ts"
  by (induction ts rule: rev_induct) (auto simp: escalation_default_def observe_all_cred)

lemma observe_all_cred_net_persist:
  "es_cred_net_persist (observe_all ts) \<longleftrightarrow>
     ordered_run [suspicious ''cred'', \<lambda>t. t_family t = ''net'', suspicious ''persist''] ts"
proof (induction ts rule: rev_induct)
  case (snoc t ts)
  then show ?case
    using suspicious_def [of "''persist''" t] by (auto simp: observe_all_cred_net)
qed (simp add: escalation_default_def)

lemmas observe_all_flags =
  observe_all_counts observe_all_cred observe_all_cred_net observe_all_cred_net_persist

lemma observe_all_families: "es_families (observe_all ts) = first_seen_families ts"
  by (induction ts rule: rev_induct) (auto simp: escalation_default_def)

lemma map_update_position:
  assumes "distinct xs" and "position (\<lambda>x. x = f) xs = Some i"
    and "\<And>x. x \<noteq> f \<Longrightarrow> h x = g x"
  shows "(map g xs)[i := h f] = map h xs"
proof -
  from position_Some [OF assms(2)] have i: "i < length xs" "xs ! i = f" by auto
  show ?thesis
  proof (rule nth_equalityI)
    fix j assume j: "j < length ((map g xs)[i := h f])"
    show "(map g xs)[i := h f] ! j = map h xs ! j"
      using i j assms(1,3) by (cases "j = i") (auto simp: nth_eq_iff_index_eq)
  qed simp
qed

lemma observe_all_family_rank:
  "es_family_rank (observe_all ts) = map (family_rank_of ts) (first_seen_families ts)"
proof (induction ts rule: rev_induct)
  case Nil
  then show ?case by (simp add: escalation_default_def)
next
  case (snoc t ts)
  show ?case
  proof (cases "position (\<lambda>x. x = fst t) (first_seen_families ts)")
    case None
    then have "fst t \<notin> set (first_seen_families ts)" by (simp only: position_None) blast
    then have "fst t \<notin> fst ` set ts" by (simp only: first_seen_set not_False_eq_True)
    moreover from this have "map (family_rank_of (ts @ [t])) (first_seen_families ts)
        = map (family_rank_of ts) (first_seen_families ts)" by (auto intro!: map_cong)
    ultimately show ?thesis
      using None snoc by (simp add: observe_all_families family_rank_0 note_family_def)
  next
    case (Some i)
    from position_Some [OF Some] have i: "i < length (first_seen_families ts)"
      "first_seen_families ts ! i = fst t" by auto
    then have "fst t \<in> fst ` set ts" by (metis first_seen_set nth_mem)
    then show ?thesis
      using Some snoc i map_update_position [OF first_seen_distinct Some, of
          "family_rank_of (ts @ [t])" "family_rank_of ts"]
      by (simp add: observe_all_families note_family_def)
  qed
qed

lemma family_rank_real:
  "1 \<le> family_rank_of ts f \<longleftrightarrow> (\<exists>t \<in> set ts. suspicious f t)"
  by (induction ts rule: rev_induct) (auto simp: family_rank_of_def suspicious_def)

lemma observe_all_rung_is_real:
  "rung_is_real (observe_all ts) fams \<longleftrightarrow> (\<exists>f \<in> set fams. \<exists>t \<in> set ts. suspicious f t)"
proof -
  have "rung_is_real (observe_all ts) fams \<longleftrightarrow>
      (\<exists>f \<in> fst ` set ts. f \<in> set fams \<and> 1 \<le> family_rank_of ts f)"
    unfolding rung_is_real_def observe_all_families observe_all_family_rank list_ex_iff
    by (auto simp: zip_map2 zip_same_conv_map image_iff)
  then show ?thesis
    unfolding family_rank_real by (auto simp: suspicious_def)
qed

section \<open>The ladder as a specification\<close>

text \<open>
  The table of the module comment, over the sequence of triggers itself and not over a folded
  state: the shapes are subsequences, the families a set.
\<close>

definition ladder_rank :: "trigger list \<Rightarrow> nat" where
  "ladder_rank ts =
     (if ordered_run [suspicious ''cred'', \<lambda>t. t_family t = ''net'', suspicious ''persist''] ts then 3
      else if ordered_run [suspicious ''cred'', \<lambda>t. t_family t = ''net''] ts
      then min 3 (max 2 (base_rank ts + 1))
      else if (\<exists>t \<in> set ts. suspicious ''rootkit'' t \<or> suspicious ''priv'' t)
              \<and> 2 \<le> card (fst ` set ts) then min 3 (base_rank ts + 1)
      else if 2 \<le> length ts \<and> fst (last ts) = ''persist'' \<and> (\<exists>t \<in> set ts. suspicious ''persist'' t)
      then min 3 (base_rank ts + 1)
      else base_rank ts)"

lemma length_first_seen: "length (first_seen_families ts) = card (fst ` set ts)"
  by (metis distinct_card first_seen_distinct first_seen_set)

lemma fst_rung_observe_all: "min 3 (fst (rung (observe_all ts))) = ladder_rank ts"
proof -
  have real: "rung_is_real (observe_all ts) [''rootkit'', ''priv''] \<longleftrightarrow>
      (\<exists>t \<in> set ts. suspicious ''rootkit'' t \<or> suspicious ''priv'' t)"
    "rung_is_real (observe_all ts) [''persist''] \<longleftrightarrow> (\<exists>t \<in> set ts. suspicious ''persist'' t)"
    by (auto simp: observe_all_rung_is_real)
  have has: "has_family (observe_all ts) f \<longleftrightarrow> f \<in> fst ` set ts" for f
    by (simp add: has_family_def observe_all_families)
  have imp: "(\<exists>t \<in> set ts. suspicious ''rootkit'' t \<or> suspicious ''priv'' t)
      \<Longrightarrow> ''rootkit'' \<in> fst ` set ts \<or> ''priv'' \<in> fst ` set ts"
    unfolding suspicious_def by (metis image_eqI)
  have last: "2 \<le> length ts \<Longrightarrow> ts \<noteq> []" by auto
  have top: "3 \<le> base_rank ts \<longleftrightarrow> base_rank ts = 3" using base_rank_le [of ts] by linarith
  show ?thesis
    unfolding rung_def ladder_rank_def Let_def observe_all_flags observe_all_families real has
      length_first_seen
    using imp last by (auto simp: min_def max_def top)
qed

lemma fst_escalate_state: "fst (escalate_state e) = severity_name (min (fst (rung e)) 3)"
  and base_escalate_state: "fst (snd (escalate_state e)) = severity_name (es_max_rank e)"
  by (auto simp: escalate_state_def Let_def split: prod.split)

lemma rung_rank_ge: "es_max_rank e \<le> 3 \<Longrightarrow> es_max_rank e \<le> min (fst (rung e)) 3"
  by (auto simp: rung_def Let_def)

lemma matched_not_raised:
  assumes "snd (snd (rung e))" and "min (fst (rung e)) 3 \<le> es_max_rank e" and "es_max_rank e \<le> 3"
  shows "es_max_rank e = 3"
  using assms by (auto simp: rung_def Let_def split: if_splits)

text \<open>C1: the folded correlation state answers the declarative ladder. For every sequence of
  triggers, of any length, the severity computed from the state of fixed size is the one the module's
  table gives to the whole sequence: a suspicious credential read followed by network activity and
  then a suspicious persistence finding, as a subsequence, is \<open>critical\<close>, and so on down the rungs;
  and the recorded base is the worst single member.\<close>

theorem escalation_implements_ladder:
  "fst (escalate_state (observe_all ts)) = severity_name (ladder_rank ts)
   \<and> fst (snd (escalate_state (observe_all ts))) = severity_name (base_rank ts)
   \<and> es_families (observe_all ts) = rev (remdups (rev (map fst ts)))"
  using fst_rung_observe_all [of ts]
  by (simp add: fst_escalate_state base_escalate_state observe_all_flags observe_all_families
      first_seen_families_def min.commute)

lemma cred_net_base:
  "ordered_run [suspicious ''cred'', \<lambda>t. t_family t = ''net''] ts \<Longrightarrow> 1 \<le> base_rank ts"
proof (induction ts rule: rev_induct)
  case (snoc t ts)
  then consider "1 \<le> base_rank ts" | "ordered_run [suspicious ''cred''] ts" by auto
  then show ?case
  proof cases
    case 2
    then obtain x where "x \<in> set ts" "suspicious ''cred'' x" by (auto simp: ordered_run_one)
    with base_rank_ge [of x ts] show ?thesis by (auto simp: suspicious_def)
  qed auto
qed simp

text \<open>escalation never lowers, and only the first rung raises by more than one step. The
  severity of a sequence lies between its worst member and one step above it, unless the sequence
  contains a suspicious credential read, then network activity, then a suspicious persistence
  finding.\<close>

theorem escalation_is_bounded:
  "(let r = severity_rank (fst (escalate_state (observe_all ts))) in
    base_rank ts \<le> r \<and>
    r \<le> (if ordered_run [suspicious ''cred'', \<lambda>t. t_family t = ''net'', suspicious ''persist''] ts
         then 3 else base_rank ts + 1))"
proof -
  have "severity_rank (fst (escalate_state (observe_all ts))) = ladder_rank ts"
    using fst_rung_observe_all [of ts] by (simp add: fst_escalate_state min.commute)
  moreover have "base_rank ts \<le> ladder_rank ts"
    using base_rank_le [of ts] by (simp add: ladder_rank_def min_def max_def)
  moreover have "ladder_rank ts \<le> base_rank ts + 1"
    if "\<not> ordered_run [suspicious ''cred'', \<lambda>t. t_family t = ''net'', suspicious ''persist''] ts"
    using that cred_net_base [of ts] by (auto simp: ladder_rank_def)
  moreover have "ladder_rank ts \<le> 3" by (simp add: ladder_rank_def)
  ultimately show ?thesis by simp
qed

text \<open>the sentence of an escalation is honest. It shows an arrow exactly when the rank went
  up, from the base name to the result; a matched shape that moved nothing says \<open>stays critical\<close>,
  and then the base severity is indeed \<open>critical\<close>; otherwise it says that the severity stays what
  it was.\<close>

theorem escalation_reason_is_honest:
  "(let e = observe_all ts; (name, base, reason) = escalate_state e; why = fst (snd (rung e)) in
    if severity_rank name > severity_rank base
    then reason = base @ '' -> '' @ name @ '': '' @ why
    else name = base \<and>
      (if snd (snd (rung e)) then base = ''critical'' \<and> prefix (''stays critical: '' @ why) reason
       else reason = ''stays '' @ base @ '': '' @ why))"
proof -
  let ?e = "observe_all ts"
  obtain r why m where rung: "rung ?e = (r, why, m)" by (cases "rung ?e") auto
  have max: "es_max_rank ?e \<le> 3" by (simp add: observe_all_flags)
  from rung_rank_ge [OF max] matched_not_raised [OF _ _ max] rung
  have "es_max_rank ?e \<le> min r 3" "m \<Longrightarrow> min r 3 \<le> es_max_rank ?e \<Longrightarrow> es_max_rank ?e = 3"
    by auto
  then show ?thesis
    using max by (cases m; cases "es_max_rank ?e < min r 3")
      (auto simp: escalate_state_def rung Let_def severity_name_def prefix_def)
qed

section \<open>Trees\<close>

lemma tree_key_Cons:
  "tree_key (first # rest) =
     (let root = walk_root first rest in
      if ln_exec_id root = [] then None
      else Some (ln_exec_id root, \<lparr>an_pid = ln_pid root, an_exe = ln_exe root\<rparr>))"
  by (simp add: tree_key_def)

text \<open>a process cannot step out of its own tree. Whatever session id the acting process
  gives itself, and whatever it is called, its ancestors decide the tree: the key changes only if
  the acting process is itself the root.\<close>

theorem acting_process_cannot_leave_tree:
  assumes "\<not> is_boundary (ln_exe p) (parent_exe_of rest) (ln_pid p) (ln_sid p)"
  shows "tree_key (n\<lparr>ln_sid := s, ln_exe := e\<rparr> # p # rest) = tree_key (p # rest)"
  using assms by (simp add: tree_key_Cons)

theorem acting_process_cannot_leave_tree_witness:
  "tree_key (\<lparr>ln_exec_id = ''c'', ln_pid = 9, ln_exe = ''/tmp/x'', ln_sid = None\<rparr>
       \<lparr>ln_sid := Some 9, ln_exe := ''/tmp/alacritty''\<rparr>
       # [\<lparr>ln_exec_id = ''b'', ln_pid = 8, ln_exe = ''/usr/bin/npm'', ln_sid = Some 5\<rparr>])
   = tree_key [\<lparr>ln_exec_id = ''b'', ln_pid = 8, ln_exe = ''/usr/bin/npm'', ln_sid = Some 5\<rparr>]"
  by (rule acting_process_cannot_leave_tree) code_simp

text \<open>The boundary test of the process at a place of the lineage.\<close>

definition boundary_at :: "lineage_node list \<Rightarrow> nat \<Rightarrow> bool" where
  "boundary_at lineage i \<longleftrightarrow>
     is_boundary (ln_exe (lineage ! i)) (parent_exe_of (drop (Suc i) lineage)) (ln_pid (lineage ! i))
       (ln_sid (lineage ! i))"

lemma boundary_at_Cons [simp]:
  "boundary_at (n # rest) (Suc i) = boundary_at rest i"
  "boundary_at (n # rest) 0 = is_boundary (ln_exe n) (parent_exe_of rest) (ln_pid n) (ln_sid n)"
  by (simp_all add: boundary_at_def)

lemma walk_root_nth:
  "\<exists>k \<le> length rest. walk_root n rest = (n # rest) ! k \<and> (\<forall>i < k. \<not> boundary_at rest i)
     \<and> (k < length rest \<longrightarrow> boundary_at rest k)"
proof (induction n rest rule: walk_root.induct)
  case (1 root)
  show ?case by simp
next
  case (2 root n rest)
  show ?case
  proof (cases "is_boundary (ln_exe n) (parent_exe_of rest) (ln_pid n) (ln_sid n)")
    case True
    then show ?thesis by (intro exI [of _ 0]) simp
  next
    case False
    from "2.IH" [OF this] obtain k where "k \<le> length rest" "walk_root n rest = (n # rest) ! k"
      "\<forall>i < k. \<not> boundary_at rest i" "k < length rest \<longrightarrow> boundary_at rest k" by blast
    with False show ?thesis
      by (intro exI [of _ "Suc k"]) (auto simp: less_Suc_eq_0_disj)
  qed
qed

text \<open>A tree is rooted exactly below the first session boundary above the alert. The key
  belongs to the process at some place of the lineage; no ancestor up to that place is a boundary,
  and the one right above it, if the lineage knows it, is.\<close>

theorem tree_root_is_outermost:
  assumes "tree_key lineage = Some (key, anc)"
  shows "\<exists>k < length lineage. key = ln_exec_id (lineage ! k) \<and> an_pid anc = ln_pid (lineage ! k)
    \<and> an_exe anc = ln_exe (lineage ! k)
    \<and> (\<forall>i. 0 < i \<and> i \<le> k \<longrightarrow> \<not> boundary_at lineage i)
    \<and> (Suc k < length lineage \<longrightarrow> boundary_at lineage (Suc k))"
proof (cases lineage)
  case (Cons first rest)
  from walk_root_nth [of rest first] obtain k where k: "k \<le> length rest"
    "walk_root first rest = (first # rest) ! k" "\<forall>i < k. \<not> boundary_at rest i"
    "k < length rest \<longrightarrow> boundary_at rest k" by blast
  have "\<not> boundary_at (first # rest) i" if "0 < i" "i \<le> k" for i
    using that k(3) by (cases i) auto
  with k assms Cons show ?thesis
    by (intro exI [of _ k]) (auto simp: tree_key_Cons Let_def split: if_splits)
qed (use assms in \<open>simp add: tree_key_def\<close>)

theorem tree_root_is_outermost_witness:
  "\<exists>k < length [\<lparr>ln_exec_id = ''a'', ln_pid = 7, ln_exe = ''/tmp/x'', ln_sid = None\<rparr>].
     ''a'' = ln_exec_id ([\<lparr>ln_exec_id = ''a'', ln_pid = 7, ln_exe = ''/tmp/x'', ln_sid = None\<rparr>] ! k)"
  using tree_root_is_outermost [of "[\<lparr>ln_exec_id = ''a'', ln_pid = 7, ln_exe = ''/tmp/x'', ln_sid = None\<rparr>]"
      "''a''" "\<lparr>an_pid = 7, an_exe = ''/tmp/x''\<rparr>"] by (auto simp: tree_key_def)

end
