(* ===== verification/Chain_Store.thy ===== *)
theory Chain_Store
  imports Chain
begin

text \<open>
  The correlator of \<open>moatd/src/chain.rs\<close>: \<open>ChainStore\<close> with its ring of candidates (\<open>recent\<close>) and
  its live chains, \<open>prune\<close>, \<open>push_recent\<close> and \<open>note\<close>. \<open>note\<close> is written in the parts its body has:
  the guard and the pruning, the growth of a live chain (\<open>grow\<close>), the formation of a new one
  (\<open>form\<close>). Every function takes the store and returns the new one.
\<close>

section \<open>State\<close>

definition CHAIN_V :: nat where "CHAIN_V = 1"
definition WINDOW_SECS :: nat where "WINDOW_SECS = 600"
definition MAX_SPAN_SECS :: nat where "MAX_SPAN_SECS = 3600"
definition MAX_STEPS :: nat where "MAX_STEPS = 12"
definition MAX_CHAINS :: nat where "MAX_CHAINS = 32"
definition MAX_RECENT :: nat where "MAX_RECENT = 1024"

record chain_rec =
  ch_v :: nat
  ch_id :: string
  ch_ancestor :: ancestor
  ch_families :: "string list"
  ch_severity :: string
  ch_severity_base :: string
  ch_severity_reason :: string
  ch_first_ts :: string
  ch_last_ts :: string
  ch_span_secs :: nat
  ch_steps :: "chain_step list"
  ch_steps_total :: nat
  ch_truncated :: bool
  ch_members :: "string list"
  ch_triggers_total :: nat
  ch_summary :: string

definition member_ids :: "chain_rec \<Rightarrow> string list" where
  "member_ids c = (if ch_members c = [] then map st_alert (ch_steps c) else ch_members c)"

record recent =
  rc_obs :: observation
  rc_tree :: string
  rc_chained :: bool

record live =
  lv_chain :: chain_rec
  lv_tree :: string
  lv_first_at :: nat
  lv_last_at :: nat
  lv_state :: escalation

record chain_store =
  cs_recent :: "recent list"
  cs_live :: "live list"
  cs_formed :: nat

definition new_store :: chain_store where
  "new_store = \<lparr>cs_recent = [], cs_live = [], cs_formed = 0\<rparr>"

section \<open>Operations\<close>

definition recent_fresh :: "nat \<Rightarrow> recent \<Rightarrow> bool" where
  "recent_fresh now r \<longleftrightarrow> now - ob_at (rc_obs r) \<le> WINDOW_SECS"

definition live_fresh :: "nat \<Rightarrow> live \<Rightarrow> bool" where
  "live_fresh now c \<longleftrightarrow> now - lv_last_at c \<le> WINDOW_SECS \<and> now - lv_first_at c \<le> MAX_SPAN_SECS"

definition prune :: "nat \<Rightarrow> chain_store \<Rightarrow> chain_store" where
  "prune now s = s\<lparr>cs_recent := filter (recent_fresh now) (cs_recent s),
                  cs_live := filter (live_fresh now) (cs_live s)\<rparr>"

definition push_recent :: "recent \<Rightarrow> recent list \<Rightarrow> recent list" where
  "push_recent r rs =
     (case position (\<lambda>x. ob_alert (rc_obs x) = ob_alert (rc_obs r)) rs of
        Some i \<Rightarrow> rs[i := r]
      | None \<Rightarrow> (if length rs \<ge> MAX_RECENT then tl rs else rs) @ [r])"

text \<open>A coding agent at the head of its session is marked as a session leader in the lineage.\<close>

fun mark_agent_root :: "string \<Rightarrow> ancestor \<Rightarrow> lineage_node list \<Rightarrow> lineage_node list" where
  "mark_agent_root i root [] = []"
| "mark_agent_root i root (n # ns) =
     (if ln_exec_id n = i \<or> (an_pid root \<noteq> 0 \<and> ln_pid n = an_pid root)
      then n\<lparr>ln_sid := Some (ln_pid n)\<rparr> # ns
      else n # mark_agent_root i root ns)"

definition effective_lineage :: "observation \<Rightarrow> lineage_node list" where
  "effective_lineage obs =
     (case ob_agent_root obs of None \<Rightarrow> ob_lineage obs
      | Some (i, root) \<Rightarrow> mark_agent_root i root (ob_lineage obs))"

text \<open>The counters, members and correlation state: touched only by an alert not seen before.\<close>

definition absorb :: "chain_step \<Rightarrow> bool \<Rightarrow> live \<Rightarrow> live" where
  "absorb st novel c =
     (let ch = lv_chain c in
      if st_alert st \<in> set (ch_members ch) then c
      else c\<lparr>lv_chain := ch\<lparr>ch_steps_total := ch_steps_total ch + 1,
                           ch_triggers_total := ch_triggers_total ch + (if is_trigger st then 1 else 0),
                           ch_members := ch_members ch @ [st_alert st]\<rparr>,
             lv_state := (if is_trigger st then observe (st_family st) (st_severity st) novel (lv_state c)
                          else lv_state c)\<rparr>)"

text \<open>The story, which is capped, and whether this step entered it.\<close>

definition tell :: "chain_step \<Rightarrow> bool \<Rightarrow> chain_rec \<Rightarrow> chain_rec \<times> bool" where
  "tell st already ch =
     (let added = (\<not> already \<and> length (ch_steps ch) < MAX_STEPS) in
      (if added then ch\<lparr>ch_steps := ch_steps ch @ [st]\<rparr>
       else if \<not> already then ch\<lparr>ch_truncated := True\<rparr> else ch, added))"

definition restate :: "live \<Rightarrow> live" where
  "restate c =
     (let ch = lv_chain c; (sev, base, reason) = escalate_state (lv_state c);
          fams = es_families (lv_state c) in
      c\<lparr>lv_chain := ch\<lparr>ch_severity := sev, ch_severity_base := base, ch_severity_reason := reason,
          ch_summary := summarise fams (ch_ancestor ch) (ch_span_secs ch) (ch_steps_total ch)
            (ch_triggers_total ch),
          ch_families := fams\<rparr>\<rparr>)"

definition grow_live :: "observation \<Rightarrow> live \<Rightarrow> live \<times> bool" where
  "grow_live obs c =
     (let st = obs_step obs (\<not> context_only obs);
          already = st_alert st \<in> set (ch_members (lv_chain c));
          c1 = (absorb st (is_novel obs) c)\<lparr>lv_last_at := ob_at obs\<rparr>;
          (ch2, added) = tell st already (lv_chain c1);
          c2 = c1\<lparr>lv_chain := ch2\<lparr>ch_last_ts := st_ts st,
                                  ch_span_secs := lv_last_at c1 - lv_first_at c1\<rparr>\<rparr>;
          c3 = restate c2;
          changed = (added \<or> ch_severity (lv_chain c3) \<noteq> ch_severity (lv_chain c)
                     \<or> ch_families (lv_chain c3) \<noteq> ch_families (lv_chain c)
                     \<or> is_power_of_two (ch_steps_total (lv_chain c3)))
      in (c3, changed))"

definition grow :: "observation \<Rightarrow> string \<Rightarrow> nat \<Rightarrow> chain_store \<Rightarrow> chain_rec option \<times> chain_store" where
  "grow obs tree i s =
     (let (c', changed) = grow_live obs (cs_live s ! i);
          s' = s\<lparr>cs_recent := push_recent \<lparr>rc_obs = obs, rc_tree = tree, rc_chained = True\<rparr> (cs_recent s),
                 cs_live := (cs_live s)[i := c']\<rparr>
      in (if changed then Some (lv_chain c') else None, s'))"

definition candidates :: "observation \<Rightarrow> string \<Rightarrow> chain_store \<Rightarrow> observation list" where
  "candidates obs tree s =
     sort_key ob_alert
       (map rc_obs (filter (\<lambda>r. rc_tree r = tree \<and> \<not> rc_chained r) (cs_recent s)) @ [obs])"

definition state_of :: "observation list \<Rightarrow> escalation" where
  "state_of cand =
     fold (\<lambda>x. observe (ob_family x) (ob_severity x) (is_novel x))
       (filter (\<lambda>x. \<not> context_only x) cand) escalation_default"

definition new_chain :: "observation \<Rightarrow> string \<Rightarrow> ancestor \<Rightarrow> observation list \<Rightarrow> live" where
  "new_chain obs tree anc cand =
     (let steps = map (\<lambda>x. obs_step x (\<not> context_only x)) cand;
          first_at = (case cand of [] \<Rightarrow> ob_at obs | x # _ \<Rightarrow> ob_at x);
          span = ob_at obs - first_at;
          st = state_of cand;
          (sev, base, reason) = escalate_state st;
          trig = length (filter is_trigger steps)
      in \<lparr>lv_chain = \<lparr>ch_v = CHAIN_V, ch_id = st_alert (hd steps), ch_ancestor = anc,
               ch_families = es_families st, ch_severity = sev, ch_severity_base = base,
               ch_severity_reason = reason, ch_first_ts = st_ts (hd steps),
               ch_last_ts = st_ts (last steps), ch_span_secs = span, ch_steps = steps,
               ch_steps_total = length steps, ch_truncated = False,
               ch_members = map st_alert steps, ch_triggers_total = trig,
               ch_summary = summarise (es_families st) anc span (length steps) trig\<rparr>,
             lv_tree = tree, lv_first_at = first_at, lv_last_at = ob_at obs, lv_state = st\<rparr>)"

text \<open>\<open>min_by_key\<close>: the first index with the least key.\<close>

definition oldest :: "live list \<Rightarrow> nat option" where
  "oldest ls = position (\<lambda>c. \<forall>d \<in> set ls. lv_last_at c \<le> lv_last_at d) ls"

definition push_live :: "live \<Rightarrow> live list \<Rightarrow> live list" where
  "push_live c ls =
     (if length ls \<ge> MAX_CHAINS
      then (case oldest ls of Some i \<Rightarrow> remove_nth i ls | None \<Rightarrow> ls) else ls) @ [c]"

definition form :: "observation \<Rightarrow> string \<Rightarrow> ancestor \<Rightarrow> chain_store \<Rightarrow> chain_rec option \<times> chain_store" where
  "form obs tree anc s =
     (let cand = candidates obs tree s;
          formed = qualifies cand;
          recents = push_recent \<lparr>rc_obs = obs, rc_tree = tree, rc_chained = formed\<rparr> (cs_recent s)
      in if \<not> formed then (None, s\<lparr>cs_recent := recents\<rparr>)
         else
           let c = new_chain obs tree anc cand in
              (Some (lv_chain c),
               s\<lparr>cs_recent := map (\<lambda>r. if rc_tree r = tree then r\<lparr>rc_chained := True\<rparr> else r) recents,
                 cs_live := push_live c (cs_live s),
                 cs_formed := cs_formed s + 1\<rparr>))"

definition note_obs :: "observation \<Rightarrow> chain_store \<Rightarrow> chain_rec option \<times> chain_store" where
  "note_obs obs s =
     (if \<not> is_chain_family (ob_family obs) then (None, s)
      else
        let s1 = prune (ob_at obs) s in
        case tree_key (effective_lineage obs) of
          None \<Rightarrow> (None, s1)
        | Some (tree, anc) \<Rightarrow>
            (case position (\<lambda>c. lv_tree c = tree) (cs_live s1) of
               Some i \<Rightarrow> grow obs tree i s1
             | None \<Rightarrow> form obs tree anc s1))"

section \<open>The bounded stores\<close>

lemma length_push_recent: "length rs \<le> MAX_RECENT \<Longrightarrow> length (push_recent r rs) \<le> MAX_RECENT"
  by (auto simp: push_recent_def MAX_RECENT_def split: option.split)

lemma push_recent_mem: "r \<in> set (push_recent r rs)"
  by (auto simp: push_recent_def split: option.split dest: position_Some intro: set_update_memI)

lemma push_recent_sub: "set (push_recent r rs) \<subseteq> insert r (set rs)"
  by (auto simp: push_recent_def split: option.splits if_splits
      dest: set_update_subset_insert [THEN subsetD] in_set_tlD)

interpretation ring: aging_store push_recent "\<lambda>rs. rs" MAX_RECENT
    "\<lambda>now. filter (recent_fresh now)" recent_fresh
  by unfold_locales
    (use push_recent_sub in \<open>auto simp: length_push_recent push_recent_mem recent_fresh_def\<close>)

lemma oldest_exists: "ls \<noteq> [] \<Longrightarrow> \<exists>i. oldest ls = Some i"
proof (cases "oldest ls")
  case None
  assume "ls \<noteq> []"
  from None have "\<forall>c \<in> set ls. \<not> (\<forall>d \<in> set ls. lv_last_at c \<le> lv_last_at d)"
    by (simp only: oldest_def position_None)
  with list_has_least [OF \<open>ls \<noteq> []\<close>, of lv_last_at] show ?thesis by blast
qed simp

lemma oldest_index: "oldest ls = Some i \<Longrightarrow> i < length ls \<and> (\<forall>d \<in> set ls. lv_last_at (ls ! i) \<le> lv_last_at d)"
  by (auto simp: oldest_def dest: position_Some)

lemma length_push_live: "length ls \<le> MAX_CHAINS \<Longrightarrow> length (push_live c ls) \<le> MAX_CHAINS"
proof (cases "length ls = MAX_CHAINS")
  case True
  then have "ls \<noteq> []" by (auto simp: MAX_CHAINS_def)
  then obtain i where i: "oldest ls = Some i" using oldest_exists by blast
  with True oldest_index [OF i] show ?thesis by (simp add: push_live_def MAX_CHAINS_def)
qed (simp add: push_live_def)

lemma push_live_sub: "set (push_live c ls) \<subseteq> insert c (set ls)"
  using set_remove_nth by (fastforce simp: push_live_def split: option.splits if_splits)

lemma push_live_mem: "c \<in> set (push_live c ls)"
  by (simp add: push_live_def)

interpretation chains: aging_store push_live "\<lambda>ls. ls" MAX_CHAINS
    "\<lambda>now. filter (live_fresh now)" live_fresh
  by unfold_locales
    (use push_live_sub in \<open>auto simp: length_push_live push_live_mem live_fresh_def\<close>)

section \<open>The invariant\<close>

definition wf_live :: "live \<Rightarrow> bool" where
  "wf_live c \<longleftrightarrow>
     (let ch = lv_chain c in
      ch_steps_total ch = length (ch_members ch)
      \<and> (\<exists>ts. lv_state c = observe_all ts \<and> ch_triggers_total ch = length ts)
      \<and> escalate_state (lv_state c) = (ch_severity ch, ch_severity_base ch, ch_severity_reason ch)
      \<and> ch_families ch = es_families (lv_state c)
      \<and> ch_triggers_total ch \<le> ch_steps_total ch
      \<and> length (ch_steps ch) \<le> ch_steps_total ch
      \<and> (ch_truncated ch \<or> length (ch_steps ch) = ch_steps_total ch))"

definition wf_store :: "chain_store \<Rightarrow> bool" where
  "wf_store s \<longleftrightarrow>
     length (cs_recent s) \<le> MAX_RECENT
     \<and> distinct (map (\<lambda>r. ob_alert (rc_obs r)) (cs_recent s))
     \<and> length (cs_live s) \<le> MAX_CHAINS
     \<and> distinct (map lv_tree (cs_live s))
     \<and> list_all wf_live (cs_live s)"

lemma wf_new_store: "wf_store new_store"
  by (simp add: wf_store_def new_store_def)

lemma distinct_push_recent:
  assumes "distinct (map (\<lambda>r. ob_alert (rc_obs r)) rs)"
  shows "distinct (map (\<lambda>r. ob_alert (rc_obs r)) (push_recent r rs))"
proof (cases "position (\<lambda>x. ob_alert (rc_obs x) = ob_alert (rc_obs r)) rs")
  case None
  then have "ob_alert (rc_obs r) \<notin> (\<lambda>r. ob_alert (rc_obs r)) ` set rs"
    by (auto simp: position_None)
  with None assms show ?thesis
    by (auto simp: push_recent_def map_tl distinct_tl dest: in_set_tlD)
next
  case (Some i)
  from position_Some [OF Some] have i: "i < length rs"
    "ob_alert (rc_obs (rs ! i)) = ob_alert (rc_obs r)" by auto
  then have "map (\<lambda>r. ob_alert (rc_obs r)) (rs[i := r]) = map (\<lambda>r. ob_alert (rc_obs r)) rs"
    by (metis (mono_tags, lifting) list_update_id map_update nth_map)
  with Some assms show ?thesis by (simp add: push_recent_def)
qed

lemma wf_prune: "wf_store s \<Longrightarrow> wf_store (prune now s)"
  using ring.prune_cap [of "cs_recent s" now] chains.prune_cap [of "cs_live s" now]
  by (auto simp: wf_store_def prune_def distinct_map inj_on_def list_all_iff)

lemma is_trigger_obs_step [simp]: "is_trigger (obs_step x b) = b"
  by (simp add: is_trigger_def obs_step_def Let_def)

lemma obs_step_fields [simp]:
  "st_alert (obs_step x b) = ob_alert x" "st_family (obs_step x b) = ob_family x"
  "st_severity (obs_step x b) = ob_severity x" "st_ts (obs_step x b) = ob_ts x"
  by (simp_all add: obs_step_def Let_def)

lemma state_of_observe_all:
  "state_of cand = observe_all (map (\<lambda>x. (ob_family x, ob_severity x, is_novel x))
     (filter (\<lambda>x. \<not> context_only x) cand))"
  by (simp add: state_of_def observe_all_def fold_map comp_def)

lemma filter_steps:
  "filter is_trigger (map (\<lambda>x. obs_step x (\<not> context_only x)) cand) =
     map (\<lambda>x. obs_step x (\<not> context_only x)) (filter (\<lambda>x. \<not> context_only x) cand)"
  by (simp add: filter_map comp_def)

lemma wf_new_chain: "wf_live (new_chain obs tree anc cand)"
  using length_filter_le [of "\<lambda>x. \<not> context_only x" cand]
  by (auto simp: wf_live_def new_chain_def Let_def filter_steps state_of_observe_all
      split: prod.split)

lemma new_chain_tree [simp]: "lv_tree (new_chain obs tree anc cand) = tree"
  by (simp add: new_chain_def Let_def split: prod.split)

text \<open>What \<open>restate\<close> and \<open>tell\<close> leave alone.\<close>

lemma restate_fields [simp]:
  "lv_tree (restate c) = lv_tree c" "lv_state (restate c) = lv_state c"
  "lv_first_at (restate c) = lv_first_at c" "lv_last_at (restate c) = lv_last_at c"
  "ch_members (lv_chain (restate c)) = ch_members (lv_chain c)"
  "ch_steps (lv_chain (restate c)) = ch_steps (lv_chain c)"
  "ch_steps_total (lv_chain (restate c)) = ch_steps_total (lv_chain c)"
  "ch_triggers_total (lv_chain (restate c)) = ch_triggers_total (lv_chain c)"
  "ch_truncated (lv_chain (restate c)) = ch_truncated (lv_chain c)"
  "ch_families (lv_chain (restate c)) = es_families (lv_state c)"
  by (simp_all add: restate_def Let_def split: prod.split)

lemma restate_severity:
  "escalate_state (lv_state c) = (ch_severity (lv_chain (restate c)),
     ch_severity_base (lv_chain (restate c)), ch_severity_reason (lv_chain (restate c)))"
  by (simp add: restate_def Let_def split: prod.split)

text \<open>
  Before \<open>restate\<close> has run, the counters and the state already agree: the part of \<open>wf_live\<close> that
  \<open>absorb\<close> and \<open>tell\<close> are responsible for.
\<close>

definition wf_counts :: "live \<Rightarrow> bool" where
  "wf_counts c \<longleftrightarrow>
     (let ch = lv_chain c in
      ch_steps_total ch = length (ch_members ch)
      \<and> (\<exists>ts. lv_state c = observe_all ts \<and> ch_triggers_total ch = length ts)
      \<and> ch_triggers_total ch \<le> ch_steps_total ch)"

lemma wf_counts_absorb: "wf_counts c \<Longrightarrow> wf_counts (absorb st novel c)"
proof -
  assume wf: "wf_counts c"
  then obtain ts where ts: "lv_state c = observe_all ts"
    "ch_triggers_total (lv_chain c) = length ts" by (auto simp: wf_counts_def Let_def)
  let ?t = "(st_family st, st_severity st, novel)"
  have "observe (st_family st) (st_severity st) novel (lv_state c) = observe_all (ts @ [?t])"
    by (simp add: ts)
  moreover have "length (ts @ [?t]) = Suc (length ts)" by simp
  ultimately have "\<exists>us. observe (st_family st) (st_severity st) novel (lv_state c) = observe_all us
      \<and> Suc (length ts) = length us" by metis
  with wf ts show ?thesis by (auto simp: wf_counts_def absorb_def Let_def)
qed

lemma absorb_seen [simp]: "st_alert st \<in> set (ch_members (lv_chain c)) \<Longrightarrow> absorb st novel c = c"
  by (simp add: absorb_def Let_def)

lemma absorb_new:
  assumes "st_alert st \<notin> set (ch_members (lv_chain c))"
  shows "lv_state (absorb st novel c) =
      (if is_trigger st then observe (st_family st) (st_severity st) novel (lv_state c) else lv_state c)"
    and "ch_steps_total (lv_chain (absorb st novel c)) = Suc (ch_steps_total (lv_chain c))"
    and "ch_members (lv_chain (absorb st novel c)) = ch_members (lv_chain c) @ [st_alert st]"
  using assms by (simp_all add: absorb_def Let_def)

lemma absorb_fields [simp]:
  "lv_tree (absorb st novel c) = lv_tree c" "lv_first_at (absorb st novel c) = lv_first_at c"
  "ch_steps (lv_chain (absorb st novel c)) = ch_steps (lv_chain c)"
  "ch_truncated (lv_chain (absorb st novel c)) = ch_truncated (lv_chain c)"
  by (simp_all add: absorb_def Let_def)

lemma tell_fields [simp]:
  "ch_steps_total (fst (tell st seen ch)) = ch_steps_total ch"
  "ch_triggers_total (fst (tell st seen ch)) = ch_triggers_total ch"
  "ch_members (fst (tell st seen ch)) = ch_members ch"
  by (simp_all add: tell_def Let_def)

lemma tell_steps:
  "ch_steps (fst (tell st seen ch)) =
     (if \<not> seen \<and> length (ch_steps ch) < MAX_STEPS then ch_steps ch @ [st] else ch_steps ch)"
  "ch_truncated (fst (tell st seen ch)) =
     (ch_truncated ch \<or> (\<not> seen \<and> MAX_STEPS \<le> length (ch_steps ch)))"
  by (auto simp: tell_def Let_def)

lemma grow_live_fst:
  "fst (grow_live obs c) =
     (let st = obs_step obs (\<not> context_only obs);
          c1 = (absorb st (is_novel obs) c)\<lparr>lv_last_at := ob_at obs\<rparr>;
          ch2 = fst (tell st (ob_alert obs \<in> set (ch_members (lv_chain c))) (lv_chain c1))
      in restate (c1\<lparr>lv_chain := ch2\<lparr>ch_last_ts := ob_ts obs,
           ch_span_secs := lv_last_at c1 - lv_first_at c1\<rparr>\<rparr>))"
  by (simp add: grow_live_def Let_def split: prod.split)

lemma wf_live_iff:
  "wf_live c \<longleftrightarrow> wf_counts c
     \<and> escalate_state (lv_state c) = (ch_severity (lv_chain c), ch_severity_base (lv_chain c),
          ch_severity_reason (lv_chain c))
     \<and> ch_families (lv_chain c) = es_families (lv_state c)
     \<and> length (ch_steps (lv_chain c)) \<le> ch_steps_total (lv_chain c)
     \<and> (ch_truncated (lv_chain c) \<or> length (ch_steps (lv_chain c)) = ch_steps_total (lv_chain c))"
  by (auto simp: wf_live_def wf_counts_def Let_def)

lemma wf_counts_upd [simp]:
  "wf_counts (c\<lparr>lv_last_at := t\<rparr>) = wf_counts c"
  "wf_counts (c\<lparr>lv_last_at := t, lv_chain := fst (tell st seen (lv_chain c))
      \<lparr>ch_last_ts := x, ch_span_secs := y\<rparr>\<rparr>) = wf_counts c"
  "wf_counts (restate c) = wf_counts c"
  by (simp_all add: wf_counts_def Let_def)

lemma wf_restate:
  assumes "wf_counts c" and "length (ch_steps (lv_chain c)) \<le> ch_steps_total (lv_chain c)"
    and "ch_truncated (lv_chain c) \<or> length (ch_steps (lv_chain c)) = ch_steps_total (lv_chain c)"
  shows "wf_live (restate c)"
  using assms restate_severity [of c] by (simp add: wf_live_iff)

lemma wf_grow_live: "wf_live c \<Longrightarrow> wf_live (fst (grow_live obs c))"
proof -
  assume wf: "wf_live c"
  let ?st = "obs_step obs (\<not> context_only obs)"
  have counts: "wf_counts (absorb ?st (is_novel obs) c)"
    using wf by (auto simp: wf_live_iff intro: wf_counts_absorb)
  show ?thesis
  proof (cases "ob_alert obs \<in> set (ch_members (lv_chain c))")
    case True
    with wf show ?thesis unfolding grow_live_fst Let_def
      by (intro wf_restate) (auto simp: wf_live_iff wf_counts_def Let_def tell_steps)
  next
    case False
    with wf counts show ?thesis unfolding grow_live_fst Let_def
      by (intro wf_restate)
        (auto simp: wf_live_iff wf_counts_def Let_def tell_steps absorb_new)
  qed
qed

lemma grow_live_tree [simp]: "lv_tree (fst (grow_live obs c)) = lv_tree c"
  by (simp add: grow_live_fst Let_def)

lemma grow_eq:
  "grow obs tree i s =
     (if snd (grow_live obs (cs_live s ! i)) then Some (lv_chain (fst (grow_live obs (cs_live s ! i)))) else None,
      s\<lparr>cs_recent := push_recent \<lparr>rc_obs = obs, rc_tree = tree, rc_chained = True\<rparr> (cs_recent s),
        cs_live := (cs_live s)[i := fst (grow_live obs (cs_live s ! i))]\<rparr>)"
  by (simp add: grow_def split: prod.split)

lemma wf_grow:
  assumes "wf_store s" and "i < length (cs_live s)"
  shows "wf_store (snd (grow obs tree i s))"
proof -
  let ?c = "fst (grow_live obs (cs_live s ! i))"
  have "wf_live ?c" using assms by (auto simp: wf_store_def list_all_length intro: wf_grow_live)
  moreover have "map lv_tree ((cs_live s)[i := ?c]) = map lv_tree (cs_live s)"
    using assms(2) by (simp add: map_update list_update_same_conv)
  moreover have "list_all wf_live ((cs_live s)[i := ?c])"
    using assms \<open>wf_live ?c\<close>
    by (auto simp: wf_store_def list_all_iff dest: set_update_subset_insert [THEN subsetD])
  ultimately show ?thesis
    using assms by (simp add: wf_store_def grow_eq distinct_push_recent length_push_recent)
qed

lemma alerts_of_chained [simp]:
  "(\<lambda>r. ob_alert (rc_obs r)) \<circ> (\<lambda>r. if rc_tree r = tree then r\<lparr>rc_chained := b\<rparr> else r) =
     (\<lambda>r. ob_alert (rc_obs r))"
  by auto

lemma wf_form:
  assumes "wf_store s" and "tree \<notin> lv_tree ` set (cs_live s)"
  shows "wf_store (snd (form obs tree anc s))"
proof -
  let ?c = "new_chain obs tree anc (candidates obs tree s)"
  have "distinct (map lv_tree (push_live ?c (cs_live s)))"
    using assms set_remove_nth
    by (fastforce simp: push_live_def wf_store_def map_remove_nth split: option.splits
        dest: set_remove_nth [THEN subsetD])
  moreover have "list_all wf_live (push_live ?c (cs_live s))"
    using assms(1) push_live_sub [of ?c "cs_live s"] wf_new_chain
    by (auto simp: wf_store_def list_all_iff)
  ultimately show ?thesis
    using assms(1)
    by (simp add: form_def Let_def wf_store_def distinct_push_recent length_push_recent length_push_live)
qed

lemma wf_note: "wf_store s \<Longrightarrow> wf_store (snd (note_obs obs s))"
proof -
  assume wf: "wf_store s"
  let ?s = "prune (ob_at obs) s"
  have wf1: "wf_store ?s" using wf by (rule wf_prune)
  have "wf_store (snd (case position (\<lambda>c. lv_tree c = tree) (cs_live ?s) of
      Some i \<Rightarrow> grow obs tree i ?s | None \<Rightarrow> form obs tree anc ?s))" for tree anc
  proof (cases "position (\<lambda>c. lv_tree c = tree) (cs_live ?s)")
    case None
    then have "tree \<notin> lv_tree ` set (cs_live ?s)" by (auto simp: position_None)
    with None wf_form [OF wf1] show ?thesis by simp
  next
    case (Some i)
    with wf_grow [OF wf1] position_Some [OF Some] show ?thesis by simp
  qed
  with wf wf1 show ?thesis
    by (simp add: note_obs_def Let_def split: option.split prod.split)
qed

section \<open>Reachable stores\<close>

text \<open>
  The daemon's use of the correlator: it starts empty, alerts are offered one after the other, and
  the periodic tick prunes.
\<close>

inductive reachable :: "chain_store \<Rightarrow> bool" where
  start: "reachable new_store"
| offer: "reachable s \<Longrightarrow> reachable (snd (note_obs obs s))"
| tick: "reachable s \<Longrightarrow> reachable (prune now s)"

lemma reachable_wf: "reachable s \<Longrightarrow> wf_store s"
  by (induction rule: reachable.induct) (auto intro: wf_new_store wf_note wf_prune)

definition offer_all :: "observation list \<Rightarrow> chain_store \<Rightarrow> chain_store" where
  "offer_all os = fold (\<lambda>x s. snd (note_obs x s)) os"

lemma reachable_offer_all: "reachable s \<Longrightarrow> reachable (offer_all os s)"
  by (induction os arbitrary: s) (auto simp: offer_all_def intro: reachable.offer)

definition sample_obs :: "string \<Rightarrow> nat \<Rightarrow> string \<Rightarrow> string \<Rightarrow> bool \<Rightarrow> observation" where
  "sample_obs i t fam sev quiet =
     \<lparr>ob_summary = [], ob_agent_root = None, ob_alert = i, ob_ts = [], ob_at = t, ob_family = fam,
      ob_rule = ''moat-sample'', ob_severity = sev, ob_title = [], ob_rarity = FirstSeen,
      ob_silenced = quiet,
      ob_lineage = [\<lparr>ln_exec_id = ''e1'', ln_pid = 20, ln_exe = ''/usr/bin/node'', ln_sid = None\<rparr>]\<rparr>"

lemmas store_eval =
  sample_obs_def offer_all_def note_obs_def is_chain_family_def CHAIN_FAMILIES_def prune_def
  new_store_def effective_lineage_def tree_key_def form_def candidates_def qualifies_def
  push_recent_def push_live_def context_only_def CONTEXT_RULES_def ob_rank_def is_novel_def
  is_common_def MAX_RECENT_def MAX_CHAINS_def recent_fresh_def live_fresh_def WINDOW_SECS_def
  MAX_SPAN_SECS_def ORDINARY_RULES_def is_novelty_exempt_def

section \<open>What a live chain has taken in\<close>

text \<open>The stores with the alerts that were offered so far, in order.\<close>

inductive offered :: "observation list \<Rightarrow> chain_store \<Rightarrow> bool" where
  start: "offered [] new_store"
| offer: "offered os s \<Longrightarrow> offered (os @ [obs]) (snd (note_obs obs s))"
| tick: "offered os s \<Longrightarrow> offered os (prune now s)"

lemma offered_reachable: "offered os s \<Longrightarrow> reachable s"
  by (induction rule: offered.induct) (auto intro: reachable.intros)

lemma offered_offer_all: "offered before s \<Longrightarrow> offered (before @ os) (offer_all os s)"
proof (induction os arbitrary: before s)
  case (Cons x os)
  from Cons.IH [OF offered.offer [OF Cons.prems, of x]] show ?case by (simp add: offer_all_def)
qed (simp add: offer_all_def)

text \<open>An alert that belongs to a tree, and the alerts of a sequence that are offered for the first time.\<close>

definition chain_obs :: "string \<Rightarrow> observation \<Rightarrow> bool" where
  "chain_obs tree x \<longleftrightarrow>
     is_chain_family (ob_family x) \<and> map_option fst (tree_key (effective_lineage x)) = Some tree"

fun news :: "string list \<Rightarrow> observation list \<Rightarrow> observation list" where
  "news seen [] = []"
| "news seen (x # xs) =
     (if ob_alert x \<in> set seen then news seen xs else x # news (ob_alert x # seen) xs)"

lemma news_snoc:
  "news seen (xs @ [x]) =
     news seen xs @ (if ob_alert x \<in> set seen \<union> ob_alert ` set (news seen xs) then [] else [x])"
  by (induction xs arbitrary: seen) auto

definition trigger_of :: "observation \<Rightarrow> trigger" where
  "trigger_of x = (ob_family x, ob_severity x, is_novel x)"

text \<open>A chain accounts for a list of alerts: they are its members, those that are more than context are
  what its state and its triggers are made of, and its story is the list or its first steps.\<close>

definition accounts :: "live \<Rightarrow> observation list \<Rightarrow> bool" where
  "accounts c xs \<longleftrightarrow>
     (let ch = lv_chain c; ts = filter (\<lambda>x. \<not> context_only x) xs in
      ch_members ch = map ob_alert xs \<and> ch_steps_total ch = length xs \<and> ch_triggers_total ch = length ts
      \<and> lv_state c = observe_all (map trigger_of ts)
      \<and> ch_steps ch = take (length (ch_steps ch)) (map (\<lambda>x. obs_step x (\<not> context_only x)) xs)
      \<and> (length (ch_steps ch) = length xs \<or> MAX_STEPS \<le> length (ch_steps ch)))"

lemma accounts_new: "accounts (new_chain obs tree anc cand) cand"
  by (auto simp: accounts_def new_chain_def Let_def filter_steps state_of_observe_all trigger_of_def [abs_def]
      split: prod.split)

lemma accounts_grow:
  assumes "accounts c xs"
  shows "accounts (fst (grow_live obs c)) (xs @ (if ob_alert obs \<in> ob_alert ` set xs then [] else [obs]))"
proof (cases "ob_alert obs \<in> ob_alert ` set xs")
  case True
  with assms show ?thesis
    unfolding grow_live_fst Let_def by (simp add: accounts_def Let_def tell_steps)
next
  case False
  let ?st = "obs_step obs (\<not> context_only obs)"
  have new: "st_alert ?st \<notin> set (ch_members (lv_chain c))" using assms False by (simp add: accounts_def Let_def)
  have trig: "ch_triggers_total (lv_chain (absorb ?st (is_novel obs) c))
      = ch_triggers_total (lv_chain c) + (if context_only obs then 0 else 1)"
    using new by (simp add: absorb_def Let_def)
  from assms False show ?thesis
    unfolding grow_live_fst Let_def
    by (auto simp: accounts_def Let_def tell_steps absorb_new [OF new] trig trigger_of_def)
qed

text \<open>The chain of a tree: formed of candidates that qualify, when one of them was offered, and grown
  by every alert of the tree offered since, once each.\<close>

definition storied :: "observation list \<Rightarrow> live \<Rightarrow> bool" where
  "storied os c \<longleftrightarrow>
     (\<exists>before x after cand. os = before @ x # after
        \<and> qualifies cand \<and> x \<in> set cand \<and> set cand \<subseteq> set (before @ [x])
        \<and> (\<forall>y \<in> set cand. chain_obs (lv_tree c) y)
        \<and> accounts c (cand @ news (map ob_alert cand) (filter (chain_obs (lv_tree c)) after)))"

lemma storied_other: "storied os c \<Longrightarrow> \<not> chain_obs (lv_tree c) obs \<Longrightarrow> storied (os @ [obs]) c"
proof -
  assume "storied os c" and no: "\<not> chain_obs (lv_tree c) obs"
  then obtain before x after cand
    where "os = before @ x # after" "qualifies cand" "x \<in> set cand" "set cand \<subseteq> set (before @ [x])"
      "\<forall>y \<in> set cand. chain_obs (lv_tree c) y"
      "accounts c (cand @ news (map ob_alert cand) (filter (chain_obs (lv_tree c)) after))"
    unfolding storied_def by blast
  with no show ?thesis
    unfolding storied_def by (intro exI [of _ before] exI [of _ x] exI [of _ "after @ [obs]"] exI [of _ cand]) simp
qed

lemma storied_grow:
  assumes "storied os c" and "chain_obs (lv_tree c) obs"
  shows "storied (os @ [obs]) (fst (grow_live obs c))"
proof -
  from assms(1) obtain before x after cand
    where os: "os = before @ x # after" and cand: "qualifies cand" "x \<in> set cand" "set cand \<subseteq> set (before @ [x])"
      "\<forall>y \<in> set cand. chain_obs (lv_tree c) y"
    and acc: "accounts c (cand @ news (map ob_alert cand) (filter (chain_obs (lv_tree c)) after))"
    unfolding storied_def by blast
  let ?xs = "cand @ news (map ob_alert cand) (filter (chain_obs (lv_tree c)) after)"
  have "cand @ news (map ob_alert cand) (filter (chain_obs (lv_tree c)) (after @ [obs]))
      = ?xs @ (if ob_alert obs \<in> ob_alert ` set ?xs then [] else [obs])"
    using assms(2) by (simp add: news_snoc image_Un)
  with accounts_grow [OF acc, of obs]
  have "accounts (fst (grow_live obs c)) (cand @ news (map ob_alert cand) (filter (chain_obs (lv_tree c)) (after @ [obs])))"
    by simp
  moreover have "os @ [obs] = before @ x # (after @ [obs])" by (simp add: os)
  ultimately show ?thesis unfolding storied_def using cand by (metis grow_live_tree)
qed

definition history :: "observation list \<Rightarrow> chain_store \<Rightarrow> bool" where
  "history os s \<longleftrightarrow>
     (\<forall>r \<in> set (cs_recent s). rc_obs r \<in> set os \<and> chain_obs (rc_tree r) (rc_obs r))
     \<and> (\<forall>c \<in> set (cs_live s). storied os c)"

lemma history_prune: "history os s \<Longrightarrow> history os (prune now s)"
  by (auto simp: history_def prune_def)

lemma recent_after_push:
  assumes "history os s" and "chain_obs tree obs"
  shows "\<forall>r \<in> set (push_recent \<lparr>rc_obs = obs, rc_tree = tree, rc_chained = b\<rparr> (cs_recent s)).
      rc_obs r \<in> set (os @ [obs]) \<and> chain_obs (rc_tree r) (rc_obs r)"
  using assms push_recent_sub [of "\<lparr>rc_obs = obs, rc_tree = tree, rc_chained = b\<rparr>" "cs_recent s"]
  by (auto simp: history_def)

lemma chain_obs_one: "chain_obs tree x \<Longrightarrow> chain_obs other x \<longleftrightarrow> other = tree"
  by (auto simp: chain_obs_def)

lemma history_grow:
  assumes h: "history os s" and d: "distinct (map lv_tree (cs_live s))" and i: "i < length (cs_live s)"
    and t: "lv_tree (cs_live s ! i) = tree" and o1: "chain_obs tree obs"
  shows "history (os @ [obs]) (snd (grow obs tree i s))"
proof -
  have "storied (os @ [obs]) c'" if c': "c' \<in> set ((cs_live s)[i := fst (grow_live obs (cs_live s ! i))])" for c'
  proof -
    obtain j where j: "j < length (cs_live s)" "c' = (cs_live s)[i := fst (grow_live obs (cs_live s ! i))] ! j"
      using c' by (metis in_set_conv_nth length_list_update)
    have st: "storied os (cs_live s ! j)" using h j(1) by (simp add: history_def)
    show ?thesis
    proof (cases "j = i")
      case True
      with j st t o1 show ?thesis by (simp add: storied_grow)
    next
      case False
      then have "lv_tree (cs_live s ! j) \<noteq> tree"
        using d i j(1) t by (metis length_map nth_eq_iff_index_eq nth_map)
      with False j st o1 show ?thesis by (simp add: storied_other chain_obs_one)
    qed
  qed
  with recent_after_push [OF h o1, of True] show ?thesis by (auto simp: history_def grow_eq)
qed

lemma storied_new:
  assumes h: "history os s" and o1: "chain_obs tree obs" and q: "qualifies (candidates obs tree s)"
  shows "storied (os @ [obs]) (new_chain obs tree anc (candidates obs tree s))"
proof -
  let ?cand = "candidates obs tree s"
  have "set ?cand \<subseteq> set (os @ [obs])" "obs \<in> set ?cand" "\<forall>y \<in> set ?cand. chain_obs tree y"
    using h o1 by (auto simp: candidates_def history_def)
  moreover have "accounts (new_chain obs tree anc ?cand) (?cand @ news (map ob_alert ?cand) (filter (chain_obs tree) []))"
    by (simp add: accounts_new)
  ultimately show ?thesis unfolding storied_def new_chain_tree using q by blast
qed

lemma history_form:
  assumes h: "history os s" and new: "tree \<notin> lv_tree ` set (cs_live s)" and o1: "chain_obs tree obs"
  shows "history (os @ [obs]) (snd (form obs tree anc s))"
proof -
  let ?c = "new_chain obs tree anc (candidates obs tree s)"
  have old: "storied (os @ [obs]) c" if "c \<in> set (cs_live s)" for c
    using h new o1 that by (intro storied_other) (auto simp: history_def chain_obs_one)
  then have "storied (os @ [obs]) c" if "c \<in> set (push_live ?c (cs_live s))" "qualifies (candidates obs tree s)" for c
    using that push_live_sub [of ?c "cs_live s"] storied_new [OF h o1] by blast
  with old recent_after_push [OF h o1, of True] recent_after_push [OF h o1, of False] show ?thesis
    by (auto simp: history_def form_def Let_def split: if_splits)
qed

lemma history_same: "history os s \<Longrightarrow> \<forall>tree. \<not> chain_obs tree obs \<Longrightarrow> history (os @ [obs]) s"
  by (auto simp: history_def intro: storied_other)

lemma history_note:
  assumes h: "history os s" and wf: "wf_store s"
  shows "history (os @ [obs]) (snd (note_obs obs s))"
proof -
  let ?s = "prune (ob_at obs) s"
  have h1: "history os ?s" and wf1: "wf_store ?s" using h wf by (simp_all add: history_prune wf_prune)
  consider "\<not> is_chain_family (ob_family obs)" | "is_chain_family (ob_family obs)" "tree_key (effective_lineage obs) = None"
    | tree anc where "is_chain_family (ob_family obs)" "tree_key (effective_lineage obs) = Some (tree, anc)"
    by (cases "tree_key (effective_lineage obs)") auto
  then show ?thesis
  proof cases
    case 1
    with history_same [OF h, of obs] show ?thesis by (simp add: note_obs_def chain_obs_def)
  next
    case 2
    with history_same [OF h1, of obs] show ?thesis by (simp add: note_obs_def chain_obs_def Let_def)
  next
    case 3
    then have o1: "chain_obs tree obs" by (simp add: chain_obs_def)
    show ?thesis
    proof (cases "position (\<lambda>c. lv_tree c = tree) (cs_live ?s)")
      case None
      then have "tree \<notin> lv_tree ` set (cs_live ?s)" by (auto simp: position_None)
      from history_form [OF h1 this o1] None 3 show ?thesis by (simp add: note_obs_def Let_def)
    next
      case (Some i)
      from history_grow [OF h1 _ _ _ o1, of i] wf1 position_Some [OF Some] Some 3 show ?thesis
        by (simp add: note_obs_def Let_def wf_store_def)
    qed
  qed
qed

lemma offered_history: "offered os s \<Longrightarrow> history os s"
proof (induction rule: offered.induct)
  case start then show ?case by (simp add: history_def new_store_def)
next
  case (offer os s obs)
  then show ?case by (intro history_note) (auto intro: reachable_wf offered_reachable)
qed (rule history_prune)

text \<open>C2: Whatever alerts are offered and whenever the tick prunes, the correlator stays within its
  bounds (1024 candidates, each alert once; 32 live chains, each tree once), and every live chain is
  what the alerts offered so far make of its tree. At some alert \<open>x\<close> it was formed of candidates that
  qualify, all of the tree and offered by then; since then it has taken in every alert of the tree
  that was offered and was not a member yet, in order. Its members, its two counts, its story (all of
  these steps, or at least the first twelve) and its state are those of these alerts, where only
  alerts that are more than context count as triggers; and the severity, the base, the reason and the
  families it publishes are what \<open>escalate_state\<close> says of that state.\<close>

theorem correlator_stays_consistent:
  assumes "offered os s"
  shows "length (cs_recent s) \<le> 1024 \<and> distinct (map (\<lambda>r. ob_alert (rc_obs r)) (cs_recent s))
    \<and> length (cs_live s) \<le> 32 \<and> distinct (map lv_tree (cs_live s))
    \<and> list_all (\<lambda>c.
        storied os c
        \<and> escalate_state (lv_state c) = (ch_severity (lv_chain c), ch_severity_base (lv_chain c),
             ch_severity_reason (lv_chain c))
        \<and> ch_families (lv_chain c) = es_families (lv_state c)
        \<and> (ch_truncated (lv_chain c) \<or> length (ch_steps (lv_chain c)) = ch_steps_total (lv_chain c)))
        (cs_live s)"
  using reachable_wf [OF offered_reachable [OF assms]] offered_history [OF assms]
  by (auto simp: wf_store_def wf_live_def Let_def list_all_iff MAX_RECENT_def MAX_CHAINS_def history_def)

section \<open>Growth\<close>

lemma grow_live_state:
  "lv_state (fst (grow_live obs c)) =
     lv_state (absorb (obs_step obs (\<not> context_only obs)) (is_novel obs) c)"
  by (simp add: grow_live_fst Let_def)

lemma grow_live_severity:
  "escalate_state (lv_state (fst (grow_live obs c))) =
     (ch_severity (lv_chain (fst (grow_live obs c))), ch_severity_base (lv_chain (fst (grow_live obs c))),
      ch_severity_reason (lv_chain (fst (grow_live obs c))))"
  unfolding grow_live_fst Let_def restate_fields by (rule restate_severity)

lemma note_grows:
  assumes "is_chain_family (ob_family obs)"
    and "tree_key (effective_lineage obs) = Some (tree, anc)"
    and "position (\<lambda>c. lv_tree c = tree) (cs_live (prune (ob_at obs) s)) = Some i"
  shows "note_obs obs s = grow obs tree i (prune (ob_at obs) s)"
  using assms by (simp add: note_obs_def Let_def)

lemma grow_at:
  "i < length (cs_live s) \<Longrightarrow>
     cs_live (snd (grow obs tree i s)) ! i = fst (grow_live obs (cs_live s ! i))"
  by (simp add: grow_eq)

text \<open>C3: The display cap does not govern detection. When an alert that is not yet a member and is
  not context reaches a tree with a live chain, the correlation state takes it in, both counters
  move and the published severity is recomputed from the new state, however long the capped list
  of steps already is.\<close>

theorem cap_does_not_govern_detection:
  assumes "is_chain_family (ob_family obs)"
    and "tree_key (effective_lineage obs) = Some (tree, anc)"
    and "position (\<lambda>c. lv_tree c = tree) (cs_live (prune (ob_at obs) s)) = Some i"
    and "c = cs_live (prune (ob_at obs) s) ! i"
    and "\<not> context_only obs" and "ob_alert obs \<notin> set (ch_members (lv_chain c))"
    and "c' = cs_live (snd (note_obs obs s)) ! i"
  shows "lv_state c' = observe (ob_family obs) (ob_severity obs) (is_novel obs) (lv_state c)
    \<and> ch_triggers_total (lv_chain c') = Suc (ch_triggers_total (lv_chain c))
    \<and> ch_steps_total (lv_chain c') = Suc (ch_steps_total (lv_chain c))
    \<and> ch_members (lv_chain c') = ch_members (lv_chain c) @ [ob_alert obs]
    \<and> ch_severity (lv_chain c') = fst (escalate_state (lv_state c'))
    \<and> length (ch_steps (lv_chain c')) \<le> max MAX_STEPS (length (ch_steps (lv_chain c)))"
proof -
  have c': "c' = fst (grow_live obs c)"
    using assms position_Some [OF assms(3)] by (simp add: note_grows grow_at)
  have "ch_triggers_total (lv_chain (absorb (obs_step obs True) (is_novel obs) c))
      = Suc (ch_triggers_total (lv_chain c))"
    using assms(6) by (simp add: absorb_def Let_def)
  then show ?thesis
    using assms(5,6) grow_live_severity [of obs c] unfolding c' grow_live_state
    by (auto simp: absorb_new grow_live_fst Let_def tell_steps)
qed

text \<open>A live chain whose story is full.\<close>

definition full_chain :: live where
  "full_chain = new_chain (sample_obs ''21'' 11 ''shell'' ''medium'' False) ''e1''
     \<lparr>an_pid = 20, an_exe = ''/usr/bin/node''\<rparr>
     (map (\<lambda>k. sample_obs (show_nat (10 + k)) k (if k = 0 then ''exec'' else ''shell'') ''medium'' False)
        [0..<12])"

definition long_run :: chain_store where
  "long_run = new_store\<lparr>cs_live := [full_chain]\<rparr>"

definition late_net :: observation where
  "late_net = sample_obs ''99'' 20 ''net'' ''medium'' False"

lemma full_chain_facts:
  "length (ch_steps (lv_chain full_chain)) = 12" "lv_tree full_chain = ''e1''"
  "lv_last_at full_chain = 11" "lv_first_at full_chain = 0"
  "ch_members (lv_chain full_chain) = map (\<lambda>k. show_nat (10 + k)) [0..<12]"
  by (simp_all add: full_chain_def new_chain_def Let_def sample_obs_def comp_def obs_step_def
      split: prod.split) (simp add: upt_rec)

theorem cap_does_not_govern_detection_witness:
  "length (ch_steps (lv_chain (cs_live (snd (note_obs late_net long_run)) ! 0))) \<le> max MAX_STEPS 12"
proof -
  have live: "cs_live (prune (ob_at late_net) long_run) = [full_chain]"
    by (simp add: prune_def long_run_def live_fresh_def full_chain_facts late_net_def sample_obs_def
        WINDOW_SECS_def MAX_SPAN_SECS_def new_store_def)
  have fam: "is_chain_family (ob_family late_net)" and ctx: "\<not> context_only late_net"
    by (simp_all add: late_net_def store_eval)
  have tree: "tree_key (effective_lineage late_net) =
      Some (''e1'', \<lparr>an_pid = 20, an_exe = ''/usr/bin/node''\<rparr>)"
    by (simp add: late_net_def store_eval)
  have pos: "position (\<lambda>c. lv_tree c = ''e1'') (cs_live (prune (ob_at late_net) long_run)) = Some 0"
    and at0: "full_chain = cs_live (prune (ob_at late_net) long_run) ! 0"
    by (simp_all add: live full_chain_facts)
  have new: "ob_alert late_net \<notin> set (ch_members (lv_chain full_chain))"
    unfolding full_chain_facts by code_simp
  show ?thesis
    using cap_does_not_govern_detection [OF fam tree pos at0 ctx new refl]
    unfolding full_chain_facts by blast
qed

text \<open>A step is an alert, and a live chain takes an alert once. Offering again an alert that is
  already a member leaves the correlation state, both counters, the members, the story, the
  severity and the families of its chain as they were: only the time of the last activity moves.\<close>

theorem repeat_changes_nothing:
  assumes "reachable s" and "is_chain_family (ob_family obs)"
    and "tree_key (effective_lineage obs) = Some (tree, anc)"
    and "position (\<lambda>c. lv_tree c = tree) (cs_live (prune (ob_at obs) s)) = Some i"
    and "c = cs_live (prune (ob_at obs) s) ! i" and "ob_alert obs \<in> set (ch_members (lv_chain c))"
    and "c' = cs_live (snd (note_obs obs s)) ! i"
  shows "lv_state c' = lv_state c \<and> ch_steps_total (lv_chain c') = ch_steps_total (lv_chain c)
    \<and> ch_triggers_total (lv_chain c') = ch_triggers_total (lv_chain c)
    \<and> ch_members (lv_chain c') = ch_members (lv_chain c)
    \<and> ch_steps (lv_chain c') = ch_steps (lv_chain c)
    \<and> ch_severity (lv_chain c') = ch_severity (lv_chain c)
    \<and> ch_families (lv_chain c') = ch_families (lv_chain c) \<and> lv_last_at c' = ob_at obs"
proof -
  have i: "i < length (cs_live (prune (ob_at obs) s))" using position_Some [OF assms(4)] by blast
  have c': "c' = fst (grow_live obs c)" using assms i by (simp add: note_grows grow_at)
  have "wf_live c"
    using wf_prune [OF reachable_wf [OF assms(1)]] i assms(5)
    by (simp add: wf_store_def list_all_length)
  moreover have "lv_state c' = lv_state c" using assms(6) by (simp add: c' grow_live_state)
  ultimately show ?thesis
    using assms(6) grow_live_severity [of obs c] unfolding c'
    by (simp add: wf_live_iff) (auto simp: grow_live_fst Let_def tell_steps)
qed

definition two_steps :: "observation list" where
  "two_steps = [sample_obs ''a'' 5 ''exec'' ''medium'' False, sample_obs ''b'' 9 ''shell'' ''medium'' False]"

definition two_live :: live where
  "two_live = new_chain (sample_obs ''b'' 9 ''shell'' ''medium'' False) ''e1''
     \<lparr>an_pid = 20, an_exe = ''/usr/bin/node''\<rparr> two_steps"

lemma two_live_facts:
  "lv_last_at two_live = 9" "lv_first_at two_live = 5" "ch_members (lv_chain two_live) = [''a'', ''b'']"
  by (simp_all add: two_live_def new_chain_def Let_def two_steps_def sample_obs_def obs_step_def
      split: prod.split)

lemma two_steps_run: "cs_live (offer_all two_steps new_store) = [two_live]"
  by (simp add: two_steps_def two_live_def store_eval Let_def)

theorem correlator_stays_consistent_witness: "storied two_steps two_live"
  using correlator_stays_consistent [OF offered_offer_all [OF offered.start, of two_steps]]
  by (simp add: two_steps_run)

theorem repeat_changes_nothing_witness:
  "ch_steps_total (lv_chain (cs_live (snd (note_obs (sample_obs ''b'' 30 ''shell'' ''medium'' False)
     (offer_all two_steps new_store))) ! 0)) = ch_steps_total (lv_chain two_live)"
proof -
  let ?o = "sample_obs ''b'' 30 ''shell'' ''medium'' False" and ?s = "offer_all two_steps new_store"
  have reach: "reachable ?s" by (rule reachable_offer_all [OF reachable.start])
  have live: "cs_live (prune (ob_at ?o) ?s) = [two_live]"
    unfolding prune_def using two_steps_run
    by (simp add: live_fresh_def two_live_facts sample_obs_def WINDOW_SECS_def MAX_SPAN_SECS_def)
  have fam: "is_chain_family (ob_family ?o)"
    and tree: "tree_key (effective_lineage ?o) = Some (''e1'', \<lparr>an_pid = 20, an_exe = ''/usr/bin/node''\<rparr>)"
    by (simp_all add: store_eval)
  have pos: "position (\<lambda>c. lv_tree c = ''e1'') (cs_live (prune (ob_at ?o) ?s)) = Some 0"
    and at0: "two_live = cs_live (prune (ob_at ?o) ?s) ! 0"
    unfolding live by (simp_all add: two_live_def)
  have mem: "ob_alert ?o \<in> set (ch_members (lv_chain two_live))"
    by (simp add: two_live_facts sample_obs_def)
  show ?thesis using repeat_changes_nothing [OF reach fam tree pos at0 mem refl] by blast
qed

section \<open>What a live chain has to show for itself\<close>

definition grounded :: "escalation \<Rightarrow> bool" where
  "grounded e \<longleftrightarrow> 2 \<le> es_triggers e \<and> 2 \<le> length (es_families e) \<and> 1 \<le> es_max_rank e"

lemma grounded_observe: "grounded e \<Longrightarrow> grounded (observe f s n e)"
  by (auto simp: grounded_def)

lemma two_adjacent: "2 \<le> length (remdups_adj (sort xs)) \<Longrightarrow> 2 \<le> card (set xs)"
proof -
  let ?r = "remdups_adj (sort xs)"
  assume len: "2 \<le> length ?r"
  then have "?r ! 0 \<noteq> ?r ! Suc 0" by (intro remdups_adj_adjacent) simp
  moreover have "{?r ! 0, ?r ! Suc 0} \<subseteq> set xs"
  proof -
    have "?r ! 0 \<in> set ?r" "?r ! Suc 0 \<in> set ?r" using len by (intro nth_mem; linarith)+
    then show ?thesis by (simp only: remdups_adj_set set_sort) simp
  qed
  ultimately show ?thesis
    using card_mono [of "set xs" "{?r ! 0, ?r ! Suc 0}"] by simp
qed

lemma qualifies_grounded: "qualifies cand \<Longrightarrow> grounded (state_of cand)"
proof -
  assume q: "qualifies cand"
  let ?tr = "filter (\<lambda>x. \<not> context_only x) cand"
  let ?ts = "map (\<lambda>x. (ob_family x, ob_severity x, is_novel x)) ?tr"
  from q have "2 \<le> length ?tr" "2 \<le> length (remdups_adj (sort (map ob_family ?tr)))"
    and med: "\<exists>x \<in> set ?tr. 1 \<le> ob_rank x"
    by (auto simp: qualifies_def Let_def list_ex_iff not_less split: if_splits)
  moreover have "set (map ob_family ?tr) = fst ` set ?ts" by force
  moreover have "1 \<le> base_rank ?ts"
  proof -
    from med obtain x where x: "x \<in> set ?tr" "1 \<le> severity_rank (ob_severity x)"
      by (auto simp: ob_rank_def)
    with base_rank_ge [of "(ob_family x, ob_severity x, is_novel x)" ?ts] show ?thesis by force
  qed
  ultimately show ?thesis
    using two_adjacent [of "map ob_family ?tr"]
    unfolding grounded_def state_of_observe_all observe_all_counts observe_all_families length_first_seen
    by simp
qed

lemma new_chain_state [simp]: "lv_state (new_chain obs tree anc cand) = state_of cand"
  by (simp add: new_chain_def Let_def split: prod.split)

lemma grounded_grow_live: "grounded (lv_state c) \<Longrightarrow> grounded (lv_state (fst (grow_live obs c)))"
  by (simp add: grow_live_state absorb_def Let_def grounded_observe)

lemma live_note_cases:
  assumes "c' \<in> set (cs_live (snd (note_obs obs s)))"
  shows "c' \<in> set (cs_live s) \<or> (\<exists>c \<in> set (cs_live s). c' = fst (grow_live obs c))
    \<or> (\<exists>tree anc cand. qualifies cand \<and> c' = new_chain obs tree anc cand)"
proof -
  let ?s = "prune (ob_at obs) s"
  have sub: "set (cs_live ?s) \<subseteq> set (cs_live s)" by (auto simp: prune_def)
  have grow: "c' \<in> set (cs_live ?s) \<or> (\<exists>c \<in> set (cs_live ?s). c' = fst (grow_live obs c))"
    if "c' \<in> set (cs_live (snd (grow obs tree i ?s)))" "i < length (cs_live ?s)" for tree i
    using that by (auto simp: grow_eq dest!: set_update_subset_insert [THEN subsetD])
  have form: "c' \<in> set (cs_live ?s) \<or> (\<exists>tree anc cand. qualifies cand \<and> c' = new_chain obs tree anc cand)"
    if "c' \<in> set (cs_live (snd (form obs tree anc ?s)))" for tree anc
    using that push_live_sub [of "new_chain obs tree anc (candidates obs tree ?s)" "cs_live ?s"]
    by (auto simp: form_def Let_def split: if_splits)
  show ?thesis
  proof (cases "is_chain_family (ob_family obs) \<and> tree_key (effective_lineage obs) \<noteq> None")
    case False
    with assms sub show ?thesis
      by (cases "tree_key (effective_lineage obs)") (auto simp: note_obs_def Let_def split: if_splits)
  next
    case True
    then obtain tree anc where t: "tree_key (effective_lineage obs) = Some (tree, anc)" by auto
    show ?thesis
    proof (cases "position (\<lambda>c. lv_tree c = tree) (cs_live ?s)")
      case None
      with assms True t form [of tree anc] sub show ?thesis by (auto simp: note_obs_def Let_def)
    next
      case (Some i)
      with assms True t grow [of tree i] position_Some [OF Some] sub show ?thesis
        by (auto simp: note_obs_def Let_def)
    qed
  qed
qed

lemma grounded_note:
  assumes "\<forall>c \<in> set (cs_live s). grounded (lv_state c)" and "c' \<in> set (cs_live (snd (note_obs obs s)))"
  shows "grounded (lv_state c')"
  using live_note_cases [OF assms(2)] assms(1) by (auto intro: grounded_grow_live qualifies_grounded)

lemma reachable_grounded: "reachable s \<Longrightarrow> \<forall>c \<in> set (cs_live s). grounded (lv_state c)"
  by (induction rule: reachable.induct) (auto simp: new_store_def prune_def intro: grounded_note)

text \<open>C4: Nothing is called a sequence that is not one. In every reachable correlator each live
  chain has at least two triggers, they cross at least two families, its base severity is at
  least medium, and the severity it publishes is never below its base.\<close>

theorem a_chain_is_a_sequence:
  assumes "reachable s" and "c \<in> set (cs_live s)"
  shows "2 \<le> ch_triggers_total (lv_chain c) \<and> 2 \<le> length (ch_families (lv_chain c))
    \<and> 1 \<le> severity_rank (ch_severity_base (lv_chain c))
    \<and> severity_rank (ch_severity_base (lv_chain c)) \<le> severity_rank (ch_severity (lv_chain c))"
proof -
  have g: "grounded (lv_state c)" using reachable_grounded assms by blast
  have wf: "wf_live c" using reachable_wf [OF assms(1)] assms(2) by (simp add: wf_store_def list_all_iff)
  then obtain ts where ts: "lv_state c = observe_all ts" "ch_triggers_total (lv_chain c) = length ts"
    by (auto simp: wf_live_iff wf_counts_def Let_def)
  have sev: "ch_severity (lv_chain c) = severity_name (min (fst (rung (lv_state c))) 3)"
    "ch_severity_base (lv_chain c) = severity_name (es_max_rank (lv_state c))"
    using wf fst_escalate_state [of "lv_state c"] base_escalate_state [of "lv_state c"]
    by (simp_all add: wf_live_iff)
  have "es_max_rank (lv_state c) \<le> 3" by (simp add: ts observe_all_counts)
  with rung_rank_ge [OF this] g wf show ?thesis
    by (simp add: sev grounded_def wf_live_iff) (simp add: ts observe_all_counts)
qed

theorem a_chain_is_a_sequence_witness:
  "2 \<le> ch_triggers_total (lv_chain two_live)"
  using a_chain_is_a_sequence [OF reachable_offer_all [OF reachable.start], of two_live two_steps]
  by (simp add: two_steps_run)

section \<open>Alerts that do not count\<close>

text \<open>Context never makes a chain: an alert that is silenced, or of a rule that fires on
  ordinary use, is not counted when it is decided whether the candidates form a chain, and an
  alert of a family outside the table does not touch the correlator at all.\<close>

theorem context_never_forms:
  "qualifies (filter (\<lambda>x. \<not> context_only x) cand) = qualifies cand
    \<and> (is_chain_family (ob_family obs) \<or> note_obs obs s = (None, s))"
  by (auto simp: qualifies_def note_obs_def)

definition refold_run :: "observation list" where
  "refold_run = [sample_obs ''a'' 5 ''exec'' ''low'' False, sample_obs ''b'' 6 ''shell'' ''low'' False,
     sample_obs ''a'' 9 ''exec'' ''medium'' False]"

text \<open>An alert that is observed again just before its chain forms enters the chain twice. The
  candidate ring still holds the earlier observation when the candidates are collected (the new
  one replaces it only afterwards), so a chain of two alerts starts with three members, three
  triggers and three steps: "an alert appears once" holds for growth only.\<close>

theorem formation_can_count_an_alert_twice:
  "map (\<lambda>c. (ch_members (lv_chain c), ch_steps_total (lv_chain c), ch_triggers_total (lv_chain c)))
     (cs_live (offer_all refold_run new_store)) = [([''a'', ''a'', ''b''], 3, 3)]"
  by (simp add: refold_run_def store_eval Let_def new_chain_def obs_step_def is_trigger_def
      split: prod.split)

end
