(* ===== verification/Text_Lines.thy ===== *)
theory Text_Lines
  imports Moat_Prelude
begin

text \<open>
  Text as lines: \<open>str::lines\<close>, the inverse that the allowlist and the baseline write their files
  with, and the facts on splitting and joining that their edits rest on.
\<close>

abbreviation newline :: char where "newline \<equiv> CHR 0x0A"
abbreviation cr :: char where "cr \<equiv> CHR 0x0D"

definition strip_cr :: "string \<Rightarrow> string" where
  "strip_cr l = (if l \<noteq> [] \<and> last l = cr then butlast l else l)"

definition lines_of :: "string \<Rightarrow> string list" where
  "lines_of s =
     (let segs = split_on newline s in
      map strip_cr (butlast segs) @ (if last segs = [] then [] else [last segs]))"

definition join_lines :: "string list \<Rightarrow> string" where
  "join_lines ls = (if ls = [] then [] else join_with [newline] ls @ [newline])"

lemma split_on_not_Nil [simp]: "split_on c s \<noteq> []"
  by (cases s) (auto split: list.splits)

lemma split_on_append [simp]: "c \<notin> set l \<Longrightarrow> split_on c (l @ c # s) = l # split_on c s"
  by (induction l) auto

lemma split_on_none [simp]: "c \<notin> set l \<Longrightarrow> split_on c l = [l]"
  by (induction l) auto

lemma join_with_Cons_char [simp]: "join_with sep ((x # l) # ls) = x # join_with sep (l # ls)"
  by (cases ls) auto

lemma join_split_on [simp]: "join_with [c] (split_on c s) = s"
proof (induction s)
  case (Cons x s)
  then show ?case by (cases "split_on c s") (auto split: list.splits)
qed simp

lemma split_on_free: "l \<in> set (split_on c s) \<Longrightarrow> c \<notin> set l"
  by (induction s arbitrary: l) (auto split: list.splits if_splits)

lemma split_on_sub: "l \<in> set (split_on c s) \<Longrightarrow> set l \<subseteq> set s"
proof (induction s arbitrary: l)
  case (Cons x s)
  then show ?case by (cases "split_on c s") (fastforce split: if_splits)+
qed simp

lemma join_with_Cons: "ls \<noteq> [] \<Longrightarrow> join_with sep (l # ls) = l @ sep @ join_with sep ls"
  by (cases ls) auto

lemma split_on_join:
  assumes "\<forall>l \<in> set ls. c \<notin> set l" and "ls \<noteq> []"
  shows "split_on c (join_with [c] ls) = ls"
  using assms
proof (induction ls)
  case (Cons l ls)
  then show ?case by (cases "ls = []") (auto simp: join_with_Cons)
qed simp

lemma join_lines_concat: "join_lines ls = concat (map (\<lambda>l. l @ [newline]) ls)"
proof (induction ls)
  case (Cons l ls)
  then show ?case by (cases "ls = []") (auto simp: join_lines_def join_with_Cons)
qed (simp add: join_lines_def)

lemma join_lines_append [simp]: "join_lines (xs @ ys) = join_lines xs @ join_lines ys"
  and join_lines_Nil [simp]: "join_lines [] = []"
  and join_lines_Cons [simp]: "join_lines (l # ls) = l @ newline # join_lines ls"
  and concat_join_lines: "concat (map join_lines lss) = join_lines (concat lss)"
  by (simp_all add: join_lines_concat) (induction lss, simp_all add: join_lines_concat)

lemma find_char_rev_last: "c \<notin> set b \<Longrightarrow> find_char c (rev b @ c # rev a) = Some (length b)"
proof -
  have "c \<notin> set r \<Longrightarrow> find_char c (r @ c # s) = Some (length r)" for r s by (induction r) auto
  from this [of "rev b" "rev a"] show "c \<notin> set b \<Longrightarrow> ?thesis" by simp
qed

lemma rfind_char_last: "c \<notin> set b \<Longrightarrow> rfind_char c (a @ c # b) = Some (length a)"
  by (simp add: rfind_char_def find_char_rev_last)

text \<open>A line that can be written and read again: no newline in it, no carriage return at its end.\<close>

definition plain_line :: "string \<Rightarrow> bool" where
  "plain_line l \<longleftrightarrow> newline \<notin> set l \<and> (l = [] \<or> last l \<noteq> cr)"

lemma plain_strip [simp]: "plain_line l \<Longrightarrow> strip_cr l = l"
  by (auto simp: plain_line_def strip_cr_def)

lemma split_on_join_lines:
  "\<forall>l \<in> set ls. newline \<notin> set l \<Longrightarrow> split_on newline (join_lines ls @ s) = ls @ split_on newline s"
  by (induction ls) auto

lemma lines_of_join_lines_append:
  assumes "list_all plain_line ls"
  shows "lines_of (join_lines ls @ s) = ls @ lines_of s"
proof -
  have "map strip_cr ls = ls" using assms by (auto simp: list_all_iff intro!: map_idI)
  moreover have "\<forall>l \<in> set ls. newline \<notin> set l" using assms by (auto simp: list_all_iff plain_line_def)
  ultimately show ?thesis
    using split_on_join_lines [of ls s] by (simp add: lines_of_def Let_def butlast_append)
qed

lemma lines_of_Nil [simp]: "lines_of [] = []"
  by (simp add: lines_of_def)

lemma lines_of_join_lines: "list_all plain_line ls \<Longrightarrow> lines_of (join_lines ls) = ls"
  using lines_of_join_lines_append [of ls "[]"] by simp

lemma lines_of_plain: "cr \<notin> set s \<Longrightarrow> list_all plain_line (lines_of s)"
proof -
  assume cr: "cr \<notin> set s"
  have "plain_line l" if "l \<in> set (split_on newline s)" for l
    using split_on_free [OF that] split_on_sub [OF that] cr
    by (auto simp: plain_line_def dest: last_in_set)
  then show ?thesis
    by (auto simp: lines_of_def Let_def list_all_iff dest: in_set_butlastD)
qed

lemma join_lines_lines_of:
  assumes "cr \<notin> set s"
  shows "join_lines (lines_of s) = (if s = [] \<or> last s = newline then s else s @ [newline])"
proof -
  have segs: "map strip_cr (butlast (split_on newline s)) = butlast (split_on newline s)"
    by (rule map_idI)
      (metis assms in_set_butlastD last_in_set split_on_sub strip_cr_def subsetD)
  have "s = join_with [newline] (butlast (split_on newline s) @ [last (split_on newline s)])"
    by simp
  also have "\<dots> = join_lines (butlast (split_on newline s)) @ last (split_on newline s)"
  proof -
    have "join_with [newline] (xs @ [x]) = join_lines xs @ x" for xs x
      by (induction xs) (auto simp: join_with_Cons)
    then show ?thesis .
  qed
  finally have s: "s = join_lines (butlast (split_on newline s)) @ last (split_on newline s)" .
  have free: "newline \<notin> set (last (split_on newline s))" by (rule split_on_free [of _ newline s]) simp
  show ?thesis
  proof (cases "last (split_on newline s) = []")
    case True
    with s have "s = [] \<or> last s = newline"
      by (metis append_Nil2 join_lines_def last_snoc)
    with True s show ?thesis by (simp add: lines_of_def Let_def segs)
  next
    case False
    with s have "s \<noteq> []" "last s = last (last (split_on newline s))"
      by (auto simp del: split_on_not_Nil) (metis last_appendR)
    moreover have "last (last (split_on newline s)) \<noteq> newline" using False free by (metis last_in_set)
    moreover have "lines_of s = butlast (split_on newline s) @ [last (split_on newline s)]"
      using False by (simp add: lines_of_def Let_def segs del: append_butlast_last_id)
    then have "join_lines (lines_of s)
        = join_lines (butlast (split_on newline s)) @ last (split_on newline s) @ [newline]"
      by (simp del: append_butlast_last_id)
    ultimately show ?thesis using s by auto
  qed
qed

lemma set_join_lines: "set (join_lines ls) \<subseteq> insert newline (\<Union> (set ` set ls))"
  by (auto simp: join_lines_concat)

end
