(* ===== verification/Allowlist.thy ===== *)
theory Allowlist
  imports Text_Lines
begin

text \<open>
  \<open>moatd/src/allowlist.rs\<close>: the entries a user or the learning window adds, how a candidate event
  is matched against them, and the edits of the files they live in. The glob matcher is the crate
  \<open>globset\<close>: a parameter \<open>compile\<close> that turns a pattern into a predicate or an error. The
  TOML reader is a parameter in the same way. A file is its text.
\<close>

section \<open>Entries and candidates\<close>

record rule_spec =
  rs_name :: string
  rs_exe :: "string option"
  rs_file :: "string option"
  rs_parent :: "string option"
  rs_script :: "string option"
  rs_domain :: "string option"

type_synonym matcher = "string \<Rightarrow> bool"

record allow_rule =
  rl_spec :: rule_spec
  rl_comment :: string
  rl_source :: string
  rl_index :: nat
  rl_name_m :: matcher
  rl_exe_m :: "matcher option"
  rl_file_m :: "matcher option"
  rl_parent_m :: "matcher option"
  rl_script_m :: "matcher option"
  rl_domain_m :: "matcher option"

record candidate =
  ca_rule :: string
  ca_exe :: string
  ca_file :: "string option"
  ca_parents :: "string list"
  ca_script :: "string option"
  ca_domains :: "string list"

definition domain_candidates :: "string option \<Rightarrow> string option \<Rightarrow> string list" where
  "domain_candidates resolved ioc_matched =
     (let out1 = (case resolved of Some n \<Rightarrow> if n \<noteq> [] then [n] else [] | None \<Rightarrow> [])
      in (case Option.bind ioc_matched (\<lambda>m. strip_prefix m ''domain:'') of
            Some m \<Rightarrow> if m \<noteq> [] \<and> m \<notin> set out1 then out1 @ [m] else out1
          | None \<Rightarrow> out1))"

section \<open>Paths\<close>

text \<open>One component: the list \<open>out\<close> holds the components kept so far, the innermost last.\<close>

definition push_part :: "bool \<Rightarrow> string list \<Rightarrow> string \<Rightarrow> string list" where
  "push_part absolute out part =
     (if part = [] \<or> part = ''.'' then out
      else if part = ''..'' then
        (if out \<noteq> [] \<and> last out \<noteq> ''..'' then butlast out
         else if \<not> absolute then out @ [''..''] else out)
      else out @ [part])"

definition normal_parts :: "string \<Rightarrow> string list" where
  "normal_parts path = foldl (push_part (prefix ''/'' path)) [] (split_on CHR ''/'' path)"

definition normalize_lexical :: "string \<Rightarrow> string" where
  "normalize_lexical path =
     (let joined = join_with ''/'' (normal_parts path) in
      if prefix ''/'' path then CHR ''/'' # joined
      else if joined = [] then ''.'' else joined)"

section \<open>Matching\<close>

type_synonym compiler = "string \<Rightarrow> string + matcher"

definition field_matcher :: "compiler \<Rightarrow> string option \<Rightarrow> string + matcher option" where
  "field_matcher compile p =
     (case p of None \<Rightarrow> Inr None | Some x \<Rightarrow> bind_res (compile x) (\<lambda>m. Inr (Some m)))"

definition build_rule :: "compiler \<Rightarrow> rule_spec \<Rightarrow> string \<Rightarrow> string \<Rightarrow> nat \<Rightarrow> string + allow_rule" where
  "build_rule compile spec comment source idx =
     bind_res (compile (rs_name spec)) (\<lambda>n.
     bind_res (field_matcher compile (rs_exe spec)) (\<lambda>e.
     bind_res (field_matcher compile (rs_file spec)) (\<lambda>f.
     bind_res (field_matcher compile (rs_parent spec)) (\<lambda>p.
     bind_res (field_matcher compile (rs_script spec)) (\<lambda>s.
     bind_res (field_matcher compile (rs_domain spec)) (\<lambda>d.
       Inr \<lparr>rl_spec = spec, rl_comment = comment, rl_source = source, rl_index = idx,
            rl_name_m = n, rl_exe_m = e, rl_file_m = f, rl_parent_m = p, rl_script_m = s,
            rl_domain_m = d\<rparr>))))))"

definition rule_from_spec :: "compiler \<Rightarrow> rule_spec \<Rightarrow> string \<Rightarrow> nat \<Rightarrow> string + allow_rule" where
  "rule_from_spec compile spec source idx = build_rule compile spec [] source idx"

definition matches :: "allow_rule \<Rightarrow> candidate \<Rightarrow> bool" where
  "matches r c =
     (if \<not> rl_name_m r (ca_rule c) then False
      else if (case rl_exe_m r of Some m \<Rightarrow> \<not> m (ca_exe c) | None \<Rightarrow> False) then False
      else if (case rl_file_m r of Some m \<Rightarrow> (case ca_file c of Some f \<Rightarrow> \<not> m f | None \<Rightarrow> True)
               | None \<Rightarrow> False) then False
      else if (case rl_parent_m r of Some m \<Rightarrow> \<not> list_ex m (ca_parents c) | None \<Rightarrow> False) then False
      else if (case rl_domain_m r of Some m \<Rightarrow> \<not> list_ex m (ca_domains c) | None \<Rightarrow> False) then False
      else if (case rl_script_m r of Some m \<Rightarrow> (case ca_script c of Some s \<Rightarrow> \<not> m s | None \<Rightarrow> True)
               | None \<Rightarrow> False) then False
      else True)"

definition name_matches :: "allow_rule \<Rightarrow> string \<Rightarrow> bool" where
  "name_matches r rule = rl_name_m r rule"

definition normal_candidate :: "candidate \<Rightarrow> candidate" where
  "normal_candidate c = c\<lparr>ca_exe := normalize_lexical (ca_exe c),
     ca_file := map_option normalize_lexical (ca_file c),
     ca_script := map_option normalize_lexical (ca_script c)\<rparr>"

definition find_rule :: "allow_rule list \<Rightarrow> candidate \<Rightarrow> allow_rule option" where
  "find_rule rules c = List.find (\<lambda>r. matches r (normal_candidate c)) rules"

section \<open>The text of an entry\<close>

definition hex_digit_upper :: "nat \<Rightarrow> char" where
  "hex_digit_upper n = ''0123456789ABCDEF'' ! n"

definition is_ctrl :: "char \<Rightarrow> bool" where
  "is_ctrl c \<longleftrightarrow> (of_char c :: nat) < 32 \<or> (of_char c :: nat) = 127"

definition toml_char :: "char \<Rightarrow> string" where
  "toml_char c =
     (if c = CHR 0x5C then [CHR 0x5C, CHR 0x5C]
      else if c = CHR 0x22 then [CHR 0x5C, CHR 0x22]
      else if c = CHR 0x0A then [CHR 0x5C, CHR ''n'']
      else if c = CHR 0x0D then [CHR 0x5C, CHR ''r'']
      else if c = CHR 0x09 then [CHR 0x5C, CHR ''t'']
      else if is_ctrl c then
        [CHR 0x5C, CHR ''u'', CHR ''0'', CHR ''0'', hex_digit_upper (of_char c div 16),
         hex_digit_upper (of_char c mod 16)]
      else [c])"

definition toml_str :: "string \<Rightarrow> string" where
  "toml_str s = CHR 0x22 # concat (map toml_char s) @ [CHR 0x22]"

definition toml_field :: "string \<Rightarrow> string option \<Rightarrow> string list" where
  "toml_field key v = (case v of None \<Rightarrow> [] | Some x \<Rightarrow> [key @ '' = '' @ toml_str x])"

definition block_lines :: "rule_spec \<Rightarrow> string list" where
  "block_lines spec =
     [''[[rule]]'', ''name = '' @ toml_str (rs_name spec)] @ toml_field ''exe'' (rs_exe spec)
     @ toml_field ''file'' (rs_file spec) @ toml_field ''parent'' (rs_parent spec)
     @ toml_field ''script'' (rs_script spec) @ toml_field ''domain'' (rs_domain spec)"

definition render_block :: "rule_spec \<Rightarrow> string" where
  "render_block spec = concat (map (\<lambda>l. l @ [newline]) (block_lines spec))"

section \<open>The blocks of a file\<close>

record block =
  bk_comment :: string
  bk_text :: string

definition is_rule_line :: "string \<Rightarrow> bool" where
  "is_rule_line l \<longleftrightarrow> trim l = ''[[rule]]''"

definition is_comment_line :: "string \<Rightarrow> bool" where
  "is_comment_line l \<longleftrightarrow> prefix ''#'' (trim_start l)"

fun comment_start :: "string list \<Rightarrow> nat \<Rightarrow> nat" where
  "comment_start ls 0 = 0"
| "comment_start ls (Suc s) = (if is_comment_line (ls ! s) then comment_start ls s else Suc s)"

definition rule_starts :: "string list \<Rightarrow> nat list" where
  "rule_starts ls = map (comment_start ls) (filter (\<lambda>i. is_rule_line (ls ! i)) [0..<length ls])"

definition block_of :: "string list \<Rightarrow> block" where
  "block_of seg =
     \<lparr>bk_comment = join_with '' '' (map (\<lambda>l. trim (trim_start_matches CHR ''#'' (trim_start l)))
        (takeWhile is_comment_line seg)),
      bk_text = join_lines seg\<rparr>"

definition slice :: "string list \<Rightarrow> nat \<Rightarrow> nat \<Rightarrow> string list" where
  "slice ls s e = drop s (take e ls)"

definition starts_end :: "nat list \<Rightarrow> nat \<Rightarrow> nat" where
  "starts_end starts n = (case starts of [] \<Rightarrow> n | s # _ \<Rightarrow> s)"

fun slices :: "string list \<Rightarrow> nat list \<Rightarrow> string list list" where
  "slices ls [] = []"
| "slices ls (s # ss) = slice ls s (starts_end ss (length ls)) # slices ls ss"

definition split_blocks :: "string \<Rightarrow> string \<times> block list" where
  "split_blocks text =
     (let ls = lines_of text; starts = rule_starts ls in
      (join_lines (take (starts_end starts (length ls)) ls), map block_of (slices ls starts)))"

section \<open>Edits of a file\<close>

definition no_rule_msg :: "nat \<Rightarrow> string \<Rightarrow> nat \<Rightarrow> string" where
  "no_rule_msg idx path n =
     ''no rule '' @ show_nat idx @ '' in '' @ path @ '' ('' @ show_nat n @ '' rules)''"

text \<open>The removed text and the new text of the file.\<close>

definition remove_rule :: "string \<Rightarrow> string \<Rightarrow> nat \<Rightarrow> string + (string \<times> string)" where
  "remove_rule path text idx =
     (let (preamble, blocks) = split_blocks text in
      if idx = 0 \<or> idx > length blocks then Inl (no_rule_msg idx path (length blocks))
      else Inr (bk_text (blocks ! (idx - 1)),
                preamble @ concat (map bk_text (remove_nth (idx - 1) blocks))))"

definition disable_line :: "string \<Rightarrow> string" where
  "disable_line l =
     (if trim l = [] then [newline]
      else if is_comment_line l then l @ [newline]
      else ''# '' @ l @ [newline])"

definition disabled_text :: "string \<Rightarrow> string \<Rightarrow> block \<Rightarrow> string" where
  "disabled_text now reason b =
     ''# DISABLED '' @ now @ '': '' @ reason @ [newline] @ concat (map disable_line (lines_of (bk_text b)))"

definition disable_rule ::
    "string \<Rightarrow> string \<Rightarrow> string \<Rightarrow> nat \<Rightarrow> string \<Rightarrow> string + (string \<times> string)" where
  "disable_rule now path text idx reason =
     (let (preamble, blocks) = split_blocks text in
      if idx = 0 \<or> idx > length blocks then Inl (no_rule_msg idx path (length blocks))
      else Inr (disabled_text now reason (blocks ! (idx - 1)),
                preamble @ concat (map (\<lambda>(i, b). if i + 1 = idx then disabled_text now reason b
                                                  else bk_text b) (enumerate 0 blocks))))"

definition file_header :: string where
  "file_header = ''# Written by `moatctl ignore`. Hand edits are kept; see'' @ [newline]
     @ ''# /etc/moat/allowlist.d/default.toml for the field reference.'' @ [newline]"

text \<open>The block that is appended and the new text; \<open>None\<close> is a file that does not exist.\<close>

definition append_rule :: "string option \<Rightarrow> string \<Rightarrow> rule_spec \<Rightarrow> string \<times> string" where
  "append_rule file comment spec =
     (let fresh = (file = None);
          blk = (if fresh then file_header else []) @ [newline] @ ''# '' @ comment @ [newline]
                @ render_block spec
      in (blk, (case file of None \<Rightarrow> [] | Some t \<Rightarrow> t) @ blk))"

definition parse_rules ::
    "(string \<Rightarrow> string + rule_spec list) \<Rightarrow> compiler \<Rightarrow> string \<Rightarrow> string \<Rightarrow> string + allow_rule list" where
  "parse_rules toml compile text source =
     bind_res (toml text) (\<lambda>specs.
       let blocks = snd (split_blocks text) in
       all_ok (map (\<lambda>(i, spec). build_rule compile spec
           (if i < length blocks then bk_comment (blocks ! i) else []) source (i + 1))
         (enumerate 0 specs)))"

definition find_index ::
    "(string \<Rightarrow> string + allow_rule list) \<Rightarrow> string option \<Rightarrow> rule_spec \<Rightarrow> string + nat option" where
  "find_index parse file spec =
     (case file of None \<Rightarrow> Inr None
      | Some text \<Rightarrow>
          (case parse text of Inl e \<Rightarrow> Inl e
           | Inr rules \<Rightarrow> Inr (map_option Suc (position (\<lambda>r. rl_spec r = spec) rules))))"

definition source_label :: "string \<Rightarrow> string" where
  "source_label file_name =
     (if file_name = ''user.toml'' then ''user''
      else if file_name = ''baseline.toml'' then ''learned'' else ''shipped'')"

definition is_removable :: "string \<Rightarrow> bool" where
  "is_removable file_name \<longleftrightarrow> source_label file_name \<in> {''user'', ''learned''}"

section \<open>Normal paths\<close>

definition normal_form :: "bool \<Rightarrow> string list \<Rightarrow> bool" where
  "normal_form absolute ps \<longleftrightarrow>
     (\<forall>p \<in> set ps. p \<noteq> [] \<and> p \<noteq> ''.'' \<and> CHR ''/'' \<notin> set p)
     \<and> (\<exists>k qs. ps = replicate k ''..'' @ qs \<and> ''..'' \<notin> set qs \<and> (absolute \<longrightarrow> k = 0))"

lemma normal_form_Nil [simp]: "normal_form a []"
  by (auto simp: normal_form_def)

lemma normal_form_absolute: "normal_form True ps \<Longrightarrow> ''..'' \<notin> set ps"
  by (auto simp: normal_form_def)

lemma normal_form_push:
  assumes "normal_form a out" and "CHR ''/'' \<notin> set part"
  shows "normal_form a (push_part a out part)"
proof -
  from assms obtain k qs where k: "out = replicate k ''..'' @ qs" "''..'' \<notin> set qs" "a \<longrightarrow> k = 0"
    and ok: "\<forall>p \<in> set out. p \<noteq> [] \<and> p \<noteq> ''.'' \<and> CHR ''/'' \<notin> set p"
    by (auto simp: normal_form_def)
  consider "part = [] \<or> part = ''.''" | "part = ''..''" "qs = []" | "part = ''..''" "qs \<noteq> []"
    | "part \<notin> {[], ''.'', ''..''}" by blast
  then show ?thesis
  proof cases
    case 1
    with assms show ?thesis by (auto simp: push_part_def)
  next
    case 2
    have "last (replicate k ''..'') = ''..''" if "k \<noteq> 0" using that by simp
    then have "push_part a out part = (if a then out else replicate (Suc k) ''..'')"
      using 2 k by (cases k) (auto simp: push_part_def replicate_append_same)
    moreover have "normal_form False (replicate (Suc k) ''..'')"
      unfolding normal_form_def by (intro conjI exI [of _ "Suc k"] exI [of _ "[]"]) auto
    ultimately show ?thesis using assms(1) by (cases a) auto
  next
    case 3
    then have "last qs \<noteq> ''..''" using k last_in_set [of qs] by metis
    with 3 have "push_part a out part = replicate k ''..'' @ butlast qs"
      using k by (auto simp: push_part_def butlast_append)
    moreover have "''..'' \<notin> set (butlast qs)" using k by (auto dest: in_set_butlastD)
    ultimately show ?thesis
      using k ok 3 unfolding normal_form_def by (auto dest: in_set_butlastD)
  next
    case 4
    then have push: "push_part a out part = replicate k ''..'' @ (qs @ [part])"
      using k by (simp add: push_part_def)
    have "''..'' \<notin> set (qs @ [part])" using 4 k by auto
    with k(3) have "\<exists>j rs. push_part a out part = replicate j ''..'' @ rs \<and> ''..'' \<notin> set rs
        \<and> (a \<longrightarrow> j = 0)" unfolding push by blast
    moreover have "\<forall>p \<in> set (push_part a out part). p \<noteq> [] \<and> p \<noteq> ''.'' \<and> CHR ''/'' \<notin> set p"
      using ok 4 assms(2) k unfolding push by auto
    ultimately show ?thesis unfolding normal_form_def by blast
  qed
qed

lemma normal_form_foldl:
  "normal_form a out \<Longrightarrow> \<forall>p \<in> set ps. CHR ''/'' \<notin> set p \<Longrightarrow> normal_form a (foldl (push_part a) out ps)"
  by (induction ps arbitrary: out) (auto simp: normal_form_push)

lemma normal_parts_form: "normal_form (prefix ''/'' path) (normal_parts path)"
  unfolding normal_parts_def by (rule normal_form_foldl) (auto dest: split_on_free)

text \<open>A normal list of components is a fixed point.\<close>

lemma push_normal:
  assumes "normal_form a (ps @ [p])"
  shows "push_part a ps p = ps @ [p]"
proof -
  from assms obtain k qs where k: "ps @ [p] = replicate k ''..'' @ qs" "''..'' \<notin> set qs" "a \<longrightarrow> k = 0"
    and ok: "p \<noteq> []" "p \<noteq> ''.''" by (auto simp: normal_form_def)
  show ?thesis
  proof (cases "p = ''..''")
    case True
    with k have "qs = []" by (cases qs rule: rev_cases) auto
    with k have "\<not> a" "ps @ [p] = replicate k ''..''" by auto
    moreover from this(2) have "set ps \<subseteq> {''..''}"
      by (metis Un_subset_iff set_append set_replicate_conv_if subset_insertI2 empty_subsetI order_refl)
    ultimately have "\<not> a" "set ps \<subseteq> {''..''}" by auto
    with True show ?thesis by (cases ps rule: rev_cases) (auto simp: push_part_def)
  qed (use ok in \<open>simp add: push_part_def\<close>)
qed

lemma normal_form_init:
  assumes "normal_form a (ps @ [p])"
  shows "normal_form a ps"
proof -
  from assms obtain k qs where k: "ps @ [p] = replicate k ''..'' @ qs" "''..'' \<notin> set qs" "a \<longrightarrow> k = 0"
    and ok: "\<forall>x \<in> set ps. x \<noteq> [] \<and> x \<noteq> ''.'' \<and> CHR ''/'' \<notin> set x" by (auto simp: normal_form_def)
  have "\<exists>j rs. ps = replicate j ''..'' @ rs \<and> ''..'' \<notin> set rs \<and> (a \<longrightarrow> j = 0)"
  proof (cases qs rule: rev_cases)
    case Nil
    with k have "ps = butlast (replicate k ''..'')" by (metis append_Nil2 butlast_snoc)
    then have "ps = replicate (k - 1) ''..''" by (simp add: butlast_conv_take)
    with k(3) show ?thesis by (intro exI [of _ "k - 1"] exI [of _ "[]"]) auto
  next
    case (snoc rs q)
    with k have "ps = replicate k ''..'' @ rs" "''..'' \<notin> set rs" by auto
    with k(3) show ?thesis by blast
  qed
  with ok show ?thesis by (simp add: normal_form_def)
qed

lemma foldl_normal: "normal_form a ps \<Longrightarrow> foldl (push_part a) [] ps = ps"
proof (induction ps rule: rev_induct)
  case (snoc p ps)
  then show ?case by (simp add: push_normal normal_form_init [OF snoc.prems])
qed simp

lemma normalize_shape:
  obtains ps where "normal_form (prefix ''/'' path) ps" and "normal_parts path = ps"
  using normal_parts_form by blast

lemma join_first_char:
  "normal_form a ps \<Longrightarrow> ps \<noteq> [] \<Longrightarrow> join_with ''/'' ps \<noteq> [] \<and> \<not> prefix ''/'' (join_with ''/'' ps)"
proof (cases ps)
  case (Cons p qs)
  assume "normal_form a ps"
  with Cons have "p \<noteq> []" "CHR ''/'' \<notin> set p" by (auto simp: normal_form_def)
  with Cons show ?thesis by (cases p; cases qs) (auto simp: join_with_Cons)
qed simp

lemma normal_parts_join:
  assumes "normal_form False ps" and "ps \<noteq> []"
  shows "normal_parts (join_with ''/'' ps) = ps"
proof -
  have "split_on CHR ''/'' (join_with ''/'' ps) = ps"
    using assms by (intro split_on_join) (auto simp: normal_form_def)
  then show ?thesis
    using join_first_char [OF assms] foldl_normal [OF assms(1)] by (simp add: normal_parts_def)
qed

lemma normal_parts_absolute:
  assumes "normal_form True ps"
  shows "normal_parts (CHR ''/'' # join_with ''/'' ps) = ps"
proof (cases "ps = []")
  case True
  then show ?thesis by (simp add: normal_parts_def push_part_def)
next
  case False
  then have "split_on CHR ''/'' (join_with ''/'' ps) = ps"
    using assms by (intro split_on_join) (auto simp: normal_form_def)
  then show ?thesis
    using foldl_normal [OF assms] by (simp add: normal_parts_def push_part_def)
qed

lemma normalize_idem [simp]: "normalize_lexical (normalize_lexical path) = normalize_lexical path"
proof (cases "prefix ''/'' path")
  case True
  then have "normal_form True (normal_parts path)" using normal_parts_form [of path] by simp
  with True show ?thesis by (simp add: normalize_lexical_def Let_def normal_parts_absolute)
next
  case False
  then have nf: "normal_form False (normal_parts path)" using normal_parts_form [of path] by simp
  show ?thesis
  proof (cases "normal_parts path = []")
    case True
    with False show ?thesis by (simp add: normalize_lexical_def Let_def normal_parts_def push_part_def)
  next
    case nonempty: False
    have p: "normalize_lexical path = join_with ''/'' (normal_parts path)"
      using False join_first_char [OF nf nonempty] by (simp add: normalize_lexical_def)
    show ?thesis
      unfolding p using join_first_char [OF nf nonempty] normal_parts_join [OF nf nonempty]
      by (simp add: normalize_lexical_def)
  qed
qed

lemma normal_candidate_idem [simp]: "normal_candidate (normal_candidate c) = normal_candidate c"
  by (simp add: normal_candidate_def option.map_comp comp_def)

lemma normalize_absolute_parts:
  assumes "prefix ''/'' path"
  shows "prefix ''/'' (normalize_lexical path)"
    and "''..'' \<notin> set (split_on CHR ''/'' (normalize_lexical path))"
proof -
  have nf: "normal_form True (normal_parts path)" using normal_parts_form [of path] assms by simp
  show "prefix ''/'' (normalize_lexical path)" using assms by (simp add: normalize_lexical_def)
  have "''..'' \<notin> set (split_on CHR ''/'' (join_with ''/'' (normal_parts path)))"
  proof (cases "normal_parts path = []")
    case False
    then have "split_on CHR ''/'' (join_with ''/'' (normal_parts path)) = normal_parts path"
      using nf by (intro split_on_join) (auto simp: normal_form_def)
    with normal_form_absolute [OF nf] show ?thesis by simp
  qed simp
  with assms show "''..'' \<notin> set (split_on CHR ''/'' (normalize_lexical path))"
    by (simp add: normalize_lexical_def)
qed

section \<open>Matching\<close>

definition hits :: "compiler \<Rightarrow> string \<Rightarrow> string \<Rightarrow> bool" where
  "hits compile p s = (case compile p of Inr m \<Rightarrow> m s | Inl _ \<Rightarrow> False)"

text \<open>What a field that may be absent asks of the event.\<close>

definition asks :: "string option \<Rightarrow> (string \<Rightarrow> bool) \<Rightarrow> bool" where
  "asks p ok \<longleftrightarrow> (case p of None \<Rightarrow> True | Some x \<Rightarrow> ok x)"

lemma hits_Inr [simp]: "compile p = Inr m \<Longrightarrow> hits compile p = m"
  by (simp add: hits_def fun_eq_iff)

lemma field_matcher_Inr:
  "field_matcher compile p = Inr m \<longleftrightarrow>
     (p = None \<and> m = None) \<or> (\<exists>x f. p = Some x \<and> compile x = Inr f \<and> m = Some f)"
  by (auto simp: field_matcher_def bind_res_Inr split: option.splits)

lemma field_matcher_case:
  assumes "field_matcher compile p = Inr m"
  shows "(case m of None \<Rightarrow> False | Some f \<Rightarrow> \<not> F f) \<longleftrightarrow> \<not> asks p (\<lambda>x. F (hits compile x))"
  using assms by (auto simp: field_matcher_Inr asks_def)

lemma build_rule_Inr:
  "build_rule compile spec cm src i = Inr r \<Longrightarrow>
     compile (rs_name spec) = Inr (rl_name_m r) \<and> field_matcher compile (rs_exe spec) = Inr (rl_exe_m r)
     \<and> field_matcher compile (rs_file spec) = Inr (rl_file_m r)
     \<and> field_matcher compile (rs_parent spec) = Inr (rl_parent_m r)
     \<and> field_matcher compile (rs_script spec) = Inr (rl_script_m r)
     \<and> field_matcher compile (rs_domain spec) = Inr (rl_domain_m r) \<and> rl_spec r = spec"
  unfolding build_rule_def bind_res_Inr by auto

definition entry_admits :: "compiler \<Rightarrow> rule_spec \<Rightarrow> candidate \<Rightarrow> bool" where
  "entry_admits compile spec c \<longleftrightarrow>
     hits compile (rs_name spec) (ca_rule c)
     \<and> asks (rs_exe spec) (\<lambda>p. hits compile p (ca_exe c))
     \<and> asks (rs_file spec) (\<lambda>p. \<exists>f. ca_file c = Some f \<and> hits compile p f)
     \<and> asks (rs_parent spec) (\<lambda>p. \<exists>x \<in> set (ca_parents c). hits compile p x)
     \<and> asks (rs_domain spec) (\<lambda>p. \<exists>x \<in> set (ca_domains c). hits compile p x)
     \<and> asks (rs_script spec) (\<lambda>p. \<exists>f. ca_script c = Some f \<and> hits compile p f)"

lemma matches_fields:
  assumes "build_rule compile spec cm src i = Inr r"
  shows "matches r c \<longleftrightarrow> entry_admits compile spec c"
proof -
  note m = build_rule_Inr [OF assms]
  have opt: "(case v of None \<Rightarrow> True | Some f \<Rightarrow> \<not> g f) \<longleftrightarrow> \<not> (\<exists>f. v = Some f \<and> g f)"
    for v :: "string option" and g by (cases v) auto
  have name: "rl_name_m r = hits compile (rs_name spec)" using m by simp
  show ?thesis
    using m unfolding matches_def entry_admits_def opt name
    by (simp only: list_ex_iff if_bool_eq_conj simp_thms not_not HOL.if_False HOL.if_True
        field_matcher_case [of compile "rs_exe spec" "rl_exe_m r" "\<lambda>f. f (ca_exe c)"]
        field_matcher_case [of compile "rs_file spec" "rl_file_m r" "\<lambda>g. \<exists>f. ca_file c = Some f \<and> g f"]
        field_matcher_case [of compile "rs_parent spec" "rl_parent_m r" "\<lambda>m. \<exists>x \<in> set (ca_parents c). m x"]
        field_matcher_case [of compile "rs_domain spec" "rl_domain_m r" "\<lambda>m. \<exists>x \<in> set (ca_domains c). m x"]
        field_matcher_case [of compile "rs_script spec" "rl_script_m r" "\<lambda>g. \<exists>f. ca_script c = Some f \<and> g f"])
      blast
qed

text \<open>C7: An entry admits an event only if every field it has matches: the rule name, the
  program, the file, one of the ancestors, one of the domains, the script. A field the event does
  not have is not a wildcard: an entry that names a file, a script, a parent or a domain never
  admits an event without one.\<close>

theorem every_present_field_must_match:
  assumes "build_rule compile spec cm src i = Inr r"
  shows "matches r c = entry_admits compile spec c
    \<and> (rs_file spec \<noteq> None \<and> ca_file c = None \<longrightarrow> \<not> matches r c)
    \<and> (rs_script spec \<noteq> None \<and> ca_script c = None \<longrightarrow> \<not> matches r c)
    \<and> (rs_parent spec \<noteq> None \<and> ca_parents c = [] \<longrightarrow> \<not> matches r c)
    \<and> (rs_domain spec \<noteq> None \<and> ca_domains c = [] \<longrightarrow> \<not> matches r c)"
  unfolding matches_fields [OF assms] by (auto simp: entry_admits_def asks_def)

definition any_python :: rule_spec where
  "any_python = \<lparr>rs_name = ''moat-cred'', rs_exe = Some ''/usr/bin/python3'', rs_file = None,
     rs_parent = None, rs_script = Some ''/opt/gcloud.py'', rs_domain = None\<rparr>"

definition exact :: compiler where
  "exact p = Inr (\<lambda>s. s = p)"

definition python_event :: candidate where
  "python_event = \<lparr>ca_rule = ''moat-cred'', ca_exe = ''/usr/bin/python3'', ca_file = None,
     ca_parents = [], ca_script = None, ca_domains = []\<rparr>"

theorem every_present_field_must_match_witness:
  "\<exists>r. build_rule exact any_python [] ''user.toml'' 1 = Inr r \<and> \<not> matches r python_event"
proof -
  have "isl (build_rule exact any_python [] ''user.toml'' 1) = False"
    by (simp add: build_rule_def field_matcher_def exact_def any_python_def)
  then obtain r where r: "build_rule exact any_python [] ''user.toml'' 1 = Inr r"
    by (cases "build_rule exact any_python [] ''user.toml'' 1") auto
  have "rs_script any_python \<noteq> None" "ca_script python_event = None"
    by (simp_all add: any_python_def python_event_def)
  with r every_present_field_must_match [OF r, of python_event] show ?thesis by blast
qed

lemma find_rule_Some:
  "find_rule rules c = Some r \<Longrightarrow> r \<in> set rules \<and> matches r (normal_candidate c)"
  by (auto simp: find_rule_def find_Some_iff)

lemma normal_candidate_fields [simp]:
  "ca_exe (normal_candidate c) = normalize_lexical (ca_exe c)"
  "ca_file (normal_candidate c) = map_option normalize_lexical (ca_file c)"
  "ca_script (normal_candidate c) = map_option normalize_lexical (ca_script c)"
  by (simp_all add: normal_candidate_def)

lemma matchesD:
  assumes "matches r c"
  shows "rl_exe_m r = Some m \<Longrightarrow> m (ca_exe c)"
    and "rl_file_m r = Some m \<Longrightarrow> \<exists>f. ca_file c = Some f \<and> m f"
    and "rl_script_m r = Some m \<Longrightarrow> \<exists>f. ca_script c = Some f \<and> m f"
  using assms by (auto simp: matches_def split: if_splits option.splits)

lemma find_rule_normal: "find_rule rules (normal_candidate c) = find_rule rules c"
  by (simp add: find_rule_def)

text \<open>Path traversal does not walk past an entry's anchor. The verdict depends on the
  normalised paths only, and where an entry has a pattern for the program, the file or the script,
  that pattern was matched against an absolute path without a parent component.\<close>

theorem traversal_cannot_reach_an_entry:
  assumes "find_rule rules c = Some r"
  shows "find_rule rules (normal_candidate c) = Some r
    \<and> (\<forall>m. rl_exe_m r = Some m \<longrightarrow> m (normalize_lexical (ca_exe c)))
    \<and> (\<forall>m. rl_file_m r = Some m \<longrightarrow> (\<exists>f. ca_file c = Some f \<and> m (normalize_lexical f)))
    \<and> (\<forall>m. rl_script_m r = Some m \<longrightarrow> (\<exists>f. ca_script c = Some f \<and> m (normalize_lexical f)))
    \<and> (\<forall>p. prefix ''/'' p \<longrightarrow> prefix ''/'' (normalize_lexical p)
         \<and> ''..'' \<notin> set (split_on CHR ''/'' (normalize_lexical p)))"
proof -
  note m = find_rule_Some [OF assms, THEN conjunct2]
  have "\<forall>m. rl_exe_m r = Some m \<longrightarrow> m (normalize_lexical (ca_exe c))"
    using matchesD(1) [OF m] by (intro allI impI) simp
  moreover have "\<forall>m. rl_file_m r = Some m \<longrightarrow> (\<exists>f. ca_file c = Some f \<and> m (normalize_lexical f))"
    using matchesD(2) [OF m] by auto
  moreover have "\<forall>m. rl_script_m r = Some m \<longrightarrow> (\<exists>f. ca_script c = Some f \<and> m (normalize_lexical f))"
    using matchesD(3) [OF m] by auto
  ultimately show ?thesis
    using assms normalize_absolute_parts by (simp add: find_rule_normal)
qed

definition site_packages :: allow_rule where
  "site_packages = \<lparr>rl_spec = any_python, rl_comment = [], rl_source = ''user.toml'', rl_index = 1,
     rl_name_m = (\<lambda>_. True), rl_exe_m = Some (\<lambda>s. prefix ''/usr/lib/'' s), rl_file_m = None,
     rl_parent_m = None, rl_script_m = None, rl_domain_m = None\<rparr>"

theorem traversal_cannot_reach_an_entry_witness:
  "find_rule [site_packages] (python_event\<lparr>ca_exe := ''/usr/bin/../lib/x''\<rparr>) = Some site_packages
   \<and> prefix ''/usr/lib/'' (normalize_lexical ''/usr/bin/../lib/x'')
   \<and> find_rule [site_packages] (python_event\<lparr>ca_exe := ''/usr/lib/../../tmp/x''\<rparr>) = None"
proof -
  have found: "find_rule [site_packages] (python_event\<lparr>ca_exe := ''/usr/bin/../lib/x''\<rparr>) = Some site_packages"
    by (simp add: find_rule_def matches_def site_packages_def normal_candidate_def python_event_def
        normalize_lexical_def normal_parts_def push_part_def)
  moreover have "find_rule [site_packages] (python_event\<lparr>ca_exe := ''/usr/lib/../../tmp/x''\<rparr>) = None"
    by (simp add: find_rule_def matches_def site_packages_def normal_candidate_def python_event_def
        normalize_lexical_def normal_parts_def push_part_def)
  ultimately show ?thesis
    using traversal_cannot_reach_an_entry [OF found] by (simp add: site_packages_def)
qed

end
