(* ===== verification/Allowlist_Edit.thy ===== *)
theory Allowlist_Edit
  imports Allowlist
begin

text \<open>
  What the edits of an allowlist file do (\<open>render_block\<close>, \<open>append_rule\<close>, \<open>remove_rule\<close>,
  \<open>disable_rule\<close> of \<open>moatd/src/allowlist.rs\<close>): the strings they write read back as they were, and a
  removal takes out exactly one block. The index arithmetic of \<open>split_blocks\<close> is related to a
  structural reading of the file, \<open>segments\<close>, on which the proofs are inductions.
\<close>

section \<open>Quoted strings\<close>

text \<open>
  The reading of a TOML basic string, after its opening quote: the value and the rest of the text.
  Of the escapes it knows the ones the writer uses, with code points below 128.
\<close>

definition hex_val_upper :: "char \<Rightarrow> nat option" where
  "hex_val_upper c = position (\<lambda>d. d = c) ''0123456789ABCDEF''"

definition read_hex4 :: "string \<Rightarrow> char option" where
  "read_hex4 h =
     (if length h = 4 \<and> hex_val_upper (h ! 0) = Some 0 \<and> hex_val_upper (h ! 1) = Some 0 then
        (case (hex_val_upper (h ! 2), hex_val_upper (h ! 3)) of
           (Some a, Some b) \<Rightarrow> if a < 8 then Some (char_of (16 * a + b)) else None
         | _ \<Rightarrow> None)
      else None)"

definition read_escape :: "string \<Rightarrow> (char \<times> string) option" where
  "read_escape s =
     (case s of [] \<Rightarrow> None
      | e # s1 \<Rightarrow>
          (if e = CHR 0x5C \<or> e = CHR 0x22 then Some (e, s1)
           else if e = CHR ''n'' then Some (CHR 0x0A, s1)
           else if e = CHR ''r'' then Some (CHR 0x0D, s1)
           else if e = CHR ''t'' then Some (CHR 0x09, s1)
           else if e = CHR ''u'' then map_option (\<lambda>c. (c, drop 4 s1)) (read_hex4 (take 4 s1))
           else None))"

lemma read_hex4_length: "read_hex4 h = Some c \<Longrightarrow> length h = 4"
  by (simp add: read_hex4_def split: if_splits)

lemma read_escape_shorter: "read_escape s = Some (c, r) \<Longrightarrow> length r < length s"
  by (auto simp: read_escape_def split: list.splits if_splits)

function toml_read :: "string \<Rightarrow> (string \<times> string) option" where
  "toml_read [] = None"
| "toml_read (c # s) =
     (if c = CHR 0x22 then Some ([], s)
      else if c = CHR 0x5C then
        (case read_escape s of None \<Rightarrow> None
         | Some (x, r) \<Rightarrow> map_option (\<lambda>(v, t). (x # v, t)) (toml_read r))
      else if is_ctrl c \<and> c \<noteq> CHR 0x09 then None
      else map_option (\<lambda>(v, t). (c # v, t)) (toml_read s))"
  by pat_completeness auto
termination
  by (relation "measure length") (auto dest: read_escape_shorter)

lemma ctrl_cases: "is_ctrl c \<Longrightarrow> c \<in> set (map char_of (127 # [0..<32]))"
proof -
  assume "is_ctrl c"
  then have "(of_char c :: nat) \<in> set (127 # [0..<32])" by (auto simp: is_ctrl_def)
  then have "char_of (of_char c :: nat) \<in> set (map char_of (127 # [0..<32]))"
    by (metis image_eqI list.set_map)
  then show ?thesis by (simp only: char_of_char)
qed

lemma ctrl_escape:
  "list_all (\<lambda>c. read_escape (tl (toml_char c)) = Some (c, []) \<and> hd (toml_char c) = CHR 0x5C
     \<and> list_all (\<lambda>x. \<not> is_ctrl x) (toml_char c)) (map char_of (127 # [0..<(32::nat)]))"
  by code_simp

lemma read_escape_append:
  assumes "read_escape s = Some (c, r)"
  shows "read_escape (s @ t) = Some (c, r @ t)"
proof (cases s)
  case (Cons e s1)
  have "take 4 (s1 @ t) = take 4 s1 \<and> drop 4 (s1 @ t) = drop 4 s1 @ t" if "read_hex4 (take 4 s1) = Some c"
    using read_hex4_length [OF that] by simp
  with assms Cons show ?thesis by (auto simp: read_escape_def split: if_splits)
qed (use assms in \<open>simp add: read_escape_def\<close>)

lemma ctrl_escapes:
  assumes "is_ctrl c"
  shows "read_escape (tl (toml_char c)) = Some (c, [])" and "hd (toml_char c) = CHR 0x5C"
    and "x \<in> set (toml_char c) \<Longrightarrow> \<not> is_ctrl x"
  using ctrl_escape [unfolded list_all_iff] ctrl_cases [OF assms] by blast+

lemma toml_char_reads:
  "toml_read (toml_char c @ s) = map_option (\<lambda>(v, t). (c # v, t)) (toml_read s)"
proof (cases "is_ctrl c \<or> c = CHR 0x5C \<or> c = CHR 0x22")
  case False
  then have "toml_char c = [c]" by (auto simp: toml_char_def is_ctrl_def)
  with False show ?thesis by auto
next
  case True
  have esc: "read_escape (tl (toml_char c)) = Some (c, []) \<and> hd (toml_char c) = CHR 0x5C"
  proof (cases "is_ctrl c")
    case True
    then show ?thesis using ctrl_escapes by blast
  next
    case False
    with True show ?thesis by (elim disjE) (simp_all add: toml_char_def read_escape_def)
  qed
  moreover have "toml_char c \<noteq> []" by (simp add: toml_char_def)
  ultimately have eq: "toml_char c @ s = CHR 0x5C # tl (toml_char c) @ s"
    by (metis append_Cons list.collapse)
  show ?thesis
    unfolding eq using read_escape_append [of "tl (toml_char c)" c "[]" s] esc by simp
qed

lemma toml_read_str: "toml_read (tl (toml_str s) @ rest) = Some (s, rest)"
proof -
  have "toml_read (concat (map toml_char s) @ CHR 0x22 # rest) = Some (s, rest)"
    by (induction s) (simp_all add: toml_char_reads)
  then show ?thesis by (simp add: toml_str_def)
qed

lemma toml_char_printable: "x \<in> set (toml_char c) \<Longrightarrow> \<not> is_ctrl x"
proof (cases "is_ctrl c")
  case True
  then show "x \<in> set (toml_char c) \<Longrightarrow> ?thesis" by (rule ctrl_escapes)
next
  case False
  assume "x \<in> set (toml_char c)"
  with False show ?thesis by (auto simp: toml_char_def is_ctrl_def split: if_splits)
qed

lemma toml_str_printable: "x \<in> set (toml_str s) \<Longrightarrow> \<not> is_ctrl x"
  by (auto simp: toml_str_def dest: toml_char_printable) (simp_all add: is_ctrl_def)

lemma plain_toml_line:
  assumes "\<forall>x \<in> set key. \<not> is_ctrl x"
  shows "plain_line (key @ '' = '' @ toml_str v)"
proof -
  have "newline \<notin> set (toml_str v)" using toml_str_printable [of newline v] by (auto simp: is_ctrl_def)
  moreover have "newline \<notin> set key" using assms by (auto simp: is_ctrl_def)
  moreover have "last (toml_str v) = CHR 0x22" by (simp add: toml_str_def)
  moreover have "toml_str v \<noteq> []" by (simp add: toml_str_def)
  ultimately show ?thesis by (auto simp: plain_line_def)
qed

definition spec_fields :: "rule_spec \<Rightarrow> (string \<times> string) list" where
  "spec_fields spec =
     (let opt = \<lambda>k v. case v of None \<Rightarrow> [] | Some x \<Rightarrow> [(k, x)] in
      [(''name'', rs_name spec)] @ opt ''exe'' (rs_exe spec) @ opt ''file'' (rs_file spec)
      @ opt ''parent'' (rs_parent spec) @ opt ''script'' (rs_script spec) @ opt ''domain'' (rs_domain spec))"

lemma block_lines_fields:
  "block_lines spec = ''[[rule]]'' # map (\<lambda>(k, v). k @ '' = '' @ toml_str v) (spec_fields spec)"
  by (simp add: block_lines_def spec_fields_def toml_field_def Let_def split: option.split)

lemma spec_fields_keys:
  "(k, v) \<in> set (spec_fields spec) \<Longrightarrow> k \<in> {''name'', ''exe'', ''file'', ''parent'', ''script'', ''domain''}"
  by (auto simp: spec_fields_def Let_def split: option.splits)

lemma plain_block_lines: "list_all plain_line (block_lines spec)"
proof -
  have "plain_line (k @ '' = '' @ toml_str v)" if "(k, v) \<in> set (spec_fields spec)" for k v
    using spec_fields_keys [OF that] by (intro plain_toml_line) (auto simp: is_ctrl_def)
  moreover have "plain_line ''[[rule]]''" by (simp add: plain_line_def)
  ultimately show ?thesis by (auto simp: block_lines_fields list_all_iff)
qed

lemma render_block_join: "render_block spec = join_lines (block_lines spec)"
  by (simp add: render_block_def join_lines_concat)

text \<open>C8: No name that an attacker can choose breaks the allowlist file. An entry is written as
  the header and one line per field, whatever characters its values hold, and every value reads
  back from its line as it was: a file name with a newline, a quote or a control character in it
  cannot end its string or its line.\<close>

theorem crafted_name_stays_in_its_string:
  "lines_of (render_block spec) =
     ''[[rule]]'' # map (\<lambda>(k, v). k @ '' = '' @ toml_str v) (spec_fields spec)
   \<and> list_all (\<lambda>(k, v). toml_str v \<noteq> [] \<and> hd (toml_str v) = CHR 0x22
        \<and> toml_read (tl (toml_str v) @ rest) = Some (v, rest)
        \<and> list_all (\<lambda>x. \<not> is_ctrl x) (toml_str v)) (spec_fields spec)"
proof
  show "lines_of (render_block spec) =
     ''[[rule]]'' # map (\<lambda>(k, v). k @ '' = '' @ toml_str v) (spec_fields spec)"
    unfolding render_block_join using lines_of_join_lines [OF plain_block_lines]
    by (simp only: block_lines_fields)
  have "toml_str v \<noteq> [] \<and> hd (toml_str v) = CHR 0x22 \<and> toml_read (tl (toml_str v) @ rest) = Some (v, rest)
      \<and> list_all (\<lambda>x. \<not> is_ctrl x) (toml_str v)" for v
    using toml_str_printable [of _ v] toml_read_str [of v rest]
    by (simp add: list_all_iff toml_str_def)
  then show "list_all (\<lambda>(k, v). toml_str v \<noteq> [] \<and> hd (toml_str v) = CHR 0x22
        \<and> toml_read (tl (toml_str v) @ rest) = Some (v, rest)
        \<and> list_all (\<lambda>x. \<not> is_ctrl x) (toml_str v)) (spec_fields spec)"
    by (simp add: list_all_iff split_beta)
qed

section \<open>Segments\<close>

text \<open>
  The structural reading of a file: what stands before the first entry, and the entries. A comment
  line directly above an entry belongs to it.
\<close>

fun segments :: "string list \<Rightarrow> string list \<times> string list list" where
  "segments [] = ([], [])"
| "segments (l # ls) =
     (case segments ls of (pre, segs) \<Rightarrow>
        if is_rule_line l then ([], (l # pre) # segs)
        else if is_comment_line l \<and> pre = [] \<and> segs \<noteq> [] then ([], (l # hd segs) # tl segs)
        else (l # pre, segs))"

lemma segments_concat: "segments ls = (pre, segs) \<Longrightarrow> ls = pre @ concat segs"
  and segments_nonempty: "segments ls = (pre, segs) \<Longrightarrow> [] \<notin> set segs"
proof (induction ls arbitrary: pre segs)
  case (Cons l ls)
  obtain p ss where s: "segments ls = (p, ss)" by fastforce
  {
    case 1
    with Cons(1) [OF s] s show ?case by (cases ss) (auto split: if_splits)
  next
    case 2
    with Cons(2) [OF s] s show ?case by (cases ss) (auto split: if_splits)
  }
qed simp_all

text \<open>The offsets at which the segments start.\<close>

fun offsets :: "nat \<Rightarrow> string list list \<Rightarrow> nat list" where
  "offsets n [] = []"
| "offsets n (s # ss) = n # offsets (n + length s) ss"

lemma map_Suc_offsets: "map Suc (offsets n ss) = offsets (Suc n) ss"
  by (induction ss arbitrary: n) auto

lemma offsets_ge: "x \<in> set (offsets n ss) \<Longrightarrow> n \<le> x"
  by (induction ss arbitrary: n) force+

lemma not_comment_rule: "is_rule_line l \<Longrightarrow> \<not> is_comment_line l"
proof -
  assume "is_rule_line l"
  then have "trim_end (trim_start l) = ''[[rule]]''" by (simp add: is_rule_line_def trim_def)
  moreover have "prefix (trim_end x) x" for x
    using suffix_dropWhile [of is_white "rev x"] by (simp add: trim_end_def suffix_to_prefix)
  ultimately have "prefix ''[[rule]]'' (trim_start l)" by metis
  then show ?thesis by (auto simp: is_comment_line_def prefix_def)
qed

lemma comment_start_Cons:
  "comment_start (l # ls) (Suc i) =
     (if comment_start ls i = 0 \<and> is_comment_line l then 0 else Suc (comment_start ls i))"
  by (induction i) auto

lemma rule_starts_Cons:
  "rule_starts (l # ls) =
     (if is_rule_line l then [0] else [])
     @ map (\<lambda>s. if s = 0 \<and> is_comment_line l then 0 else Suc s) (rule_starts ls)"
proof -
  have "[0..<length (l # ls)] = 0 # map Suc [0..<length ls]"
    by (simp only: length_Cons map_Suc_upt upt_conv_Cons zero_less_Suc)
  then show ?thesis
    by (simp only: rule_starts_def filter.simps filter_map) (simp add: comp_def comment_start_Cons del: comment_start.simps(2))
qed

lemma rule_starts_offsets: "segments ls = (pre, segs) \<Longrightarrow> rule_starts ls = offsets (length pre) segs"
proof (induction ls arbitrary: pre segs)
  case Nil
  then show ?case by (simp add: rule_starts_def)
next
  case (Cons l ls)
  obtain p ss where s: "segments ls = (p, ss)" by fastforce
  note ih = Cons.IH [OF s] and ne = segments_nonempty [OF s]
  have shift: "map (\<lambda>s. if s = 0 \<and> is_comment_line l then 0 else Suc s) (offsets (Suc n) ts)
      = offsets (Suc (Suc n)) ts" for n ts
    unfolding map_Suc_offsets [of "Suc n", symmetric] using offsets_ge [of _ "Suc n" ts]
    by (intro map_cong) auto
  show ?case
  proof (cases "is_comment_line l \<and> p = [] \<and> ss \<noteq> []")
    case True
    then obtain t ts where ss: "ss = t # ts" by (cases ss) auto
    with ne obtain n where n: "length t = Suc n" by (cases t) auto
    from True not_comment_rule [of l] have "\<not> is_rule_line l" by blast
    with Cons.prems s True ss have "pre = []" "segs = (l # t) # ts" by auto
    with True ss n shift [of n ts] ih \<open>\<not> is_rule_line l\<close> show ?thesis
      by (simp add: rule_starts_Cons)
  next
    case False
    have "map (\<lambda>s. if s = 0 \<and> is_comment_line l then 0 else Suc s) (offsets (length p) ss)
        = offsets (Suc (length p)) ss"
    proof (cases "is_comment_line l \<and> p \<noteq> []")
      case True
      then obtain n where "length p = Suc n" by (cases p) auto
      with shift [of n ss] show ?thesis by simp
    next
      case nc: False
      with False show ?thesis by (auto simp: map_Suc_offsets [symmetric])
    qed
    with False Cons.prems s ih show ?thesis
      by (auto simp: rule_starts_Cons split: if_splits)
  qed
qed

lemma slices_offsets:
  "slices (xs @ concat ss) (offsets (length xs) ss) = ss"
proof (induction ss arbitrary: xs)
  case (Cons s ss)
  have "slices (xs @ s @ concat ss) (offsets (length (xs @ s)) ss) = ss"
    using Cons.IH [of "xs @ s"] by simp
  moreover have "slice (xs @ s @ concat ss) (length xs)
      (starts_end (offsets (length xs + length s) ss) (length (xs @ s @ concat ss))) = s"
    by (cases ss) (simp_all add: slice_def starts_end_def)
  ultimately show ?case by simp
qed simp

lemma starts_end_offsets: "starts_end (offsets n ss) (n + length (concat ss)) = n"
  by (cases ss) (simp_all add: starts_end_def)

lemma split_blocks_segments:
  assumes "segments (lines_of text) = (pre, segs)"
  shows "split_blocks text = (join_lines pre, map block_of segs)"
proof -
  have ls: "lines_of text = pre @ concat segs" by (rule segments_concat [OF assms])
  have st: "rule_starts (lines_of text) = offsets (length pre) segs"
    by (rule rule_starts_offsets [OF assms])
  have "starts_end (offsets (length pre) segs) (length (lines_of text)) = length pre"
    using starts_end_offsets [of "length pre" segs] by (simp add: ls)
  then show ?thesis
    unfolding split_blocks_def Let_def st by (simp add: slices_offsets ls)
qed

text \<open>A well-formed reading, and that it is the only one.\<close>

definition entry_seg :: "string list \<Rightarrow> bool" where
  "entry_seg s \<longleftrightarrow> (\<exists>cs r rest. s = cs @ r # rest \<and> list_all is_comment_line cs \<and> is_rule_line r
     \<and> \<not> list_ex is_rule_line rest)"

fun wf_segs :: "string list list \<Rightarrow> bool" where
  "wf_segs [] = True"
| "wf_segs (s # ss) = (entry_seg s \<and> (ss \<noteq> [] \<longrightarrow> \<not> is_comment_line (last s)) \<and> wf_segs ss)"

definition wf_file :: "string list \<Rightarrow> string list list \<Rightarrow> bool" where
  "wf_file pre segs \<longleftrightarrow> \<not> list_ex is_rule_line pre \<and> (segs = [] \<or> pre = [] \<or> \<not> is_comment_line (last pre))
     \<and> wf_segs segs"

lemma entry_seg_comment: "is_comment_line l \<Longrightarrow> entry_seg s \<Longrightarrow> entry_seg (l # s)"
proof -
  assume l: "is_comment_line l" and "entry_seg s"
  then obtain cs r rest where "s = cs @ r # rest" "list_all is_comment_line cs" "is_rule_line r"
    "\<not> list_ex is_rule_line rest" by (auto simp: entry_seg_def)
  with l show ?thesis unfolding entry_seg_def
    by (intro exI [of _ "l # cs"] exI [of _ r] exI [of _ rest]) simp
qed

lemma entry_seg_rule: "is_rule_line l \<Longrightarrow> \<not> list_ex is_rule_line s \<Longrightarrow> entry_seg (l # s)"
  unfolding entry_seg_def by (intro exI [of _ "[]"] exI [of _ l] exI [of _ s]) simp

lemma segments_wf: "segments ls = (pre, segs) \<Longrightarrow> wf_file pre segs"
proof (induction ls arbitrary: pre segs)
  case (Cons l ls)
  obtain p ss where s: "segments ls = (p, ss)" by fastforce
  note ih = Cons.IH [OF s]
  consider "is_rule_line l" | "\<not> is_rule_line l" "is_comment_line l \<and> p = [] \<and> ss \<noteq> []"
    | "\<not> is_rule_line l" "\<not> (is_comment_line l \<and> p = [] \<and> ss \<noteq> [])" by blast
  then show ?case
  proof cases
    case 1
    with Cons.prems s have "pre = []" "segs = (l # p) # ss" by auto
    with ih 1 not_comment_rule [OF 1] show ?thesis
      by (auto simp: wf_file_def intro: entry_seg_rule)
  next
    case 2
    then obtain t ts where ss: "ss = t # ts" by (cases ss) auto
    with 2 Cons.prems s have "pre = []" "segs = (l # t) # ts" by auto
    moreover from ih ss have "t \<noteq> []" by (auto simp: wf_file_def entry_seg_def)
    ultimately show ?thesis using ih ss 2 by (auto simp: wf_file_def intro: entry_seg_comment)
  next
    case 3
    with Cons.prems s have "pre = l # p" "segs = ss" by auto
    with ih 3 show ?thesis by (auto simp: wf_file_def)
  qed
qed (simp add: wf_file_def)

lemma segments_before:
  assumes "segments ls = ([], ss)" and "\<not> list_ex is_rule_line xs"
    and "ss = [] \<or> xs = [] \<or> \<not> is_comment_line (last xs)"
  shows "segments (xs @ ls) = (xs, ss)"
  using assms(2,3)
proof (induction xs)
  case (Cons x xs)
  then show ?case using assms(1) by (cases "xs = []") auto
qed (simp add: assms(1))

lemma segments_entry:
  assumes "entry_seg s" and "segments ls = ([], ss)" and "ss \<noteq> [] \<longrightarrow> \<not> is_comment_line (last s)"
  shows "segments (s @ ls) = ([], s # ss)"
proof -
  from assms(1) obtain cs r rest where s: "s = cs @ r # rest" "list_all is_comment_line cs"
    "is_rule_line r" "\<not> list_ex is_rule_line rest" by (auto simp: entry_seg_def)
  have "segments (rest @ ls) = (rest, ss)"
    using assms(2,3) s by (intro segments_before) auto
  then have base: "segments ((r # rest) @ ls) = ([], (r # rest) # ss)" using s(3) by simp
  have "\<not> is_rule_line c" if "is_comment_line c" for c using that not_comment_rule by blast
  with s(2) have "segments ((cs @ r # rest) @ ls) = ([], (cs @ r # rest) # ss)"
    by (induction cs) (use base in auto)
  then show ?thesis by (simp add: s)
qed

lemma segments_unique: "wf_file pre segs \<Longrightarrow> segments (pre @ concat segs) = (pre, segs)"
proof -
  assume wf: "wf_file pre segs"
  have "wf_segs segs \<Longrightarrow> segments (concat segs) = ([], segs)"
    by (induction segs) (auto intro: segments_entry)
  with wf show ?thesis by (intro segments_before) (auto simp: wf_file_def)
qed

lemma remove_nth_Cons [simp]:
  "remove_nth 0 (x # xs) = xs" "remove_nth (Suc i) (x # xs) = x # remove_nth i xs"
  by (simp_all add: remove_nth_def)

lemma remove_nth_Nil [simp]: "remove_nth i [] = []"
  by (simp add: remove_nth_def)

lemma wf_remove: "wf_file pre segs \<Longrightarrow> wf_file pre (remove_nth i segs)"
proof -
  have "wf_segs segs \<Longrightarrow> wf_segs (remove_nth i segs)"
  proof (induction segs arbitrary: i)
    case (Cons s ss)
    then show ?case by (cases i; cases "ss = []") auto
  qed simp
  then show "wf_file pre segs \<Longrightarrow> ?thesis" by (cases segs) (auto simp: wf_file_def)
qed

section \<open>Removal\<close>

lemma bk_text_block_of [simp]: "bk_text (block_of seg) = join_lines seg"
  by (simp add: block_of_def)

lemma bk_text_blocks: "concat (map bk_text (map block_of segs)) = join_lines (concat segs)"
  by (simp add: comp_def concat_join_lines)

lemma file_lines_plain:
  assumes "cr \<notin> set text" and "segments (lines_of text) = (pre, segs)"
  shows "list_all plain_line pre" and "seg \<in> set segs \<Longrightarrow> list_all plain_line seg"
  using lines_of_plain [OF assms(1)] segments_concat [OF assms(2)] by (auto simp: list_all_iff)

lemma remove_rule_segments:
  assumes "segments (lines_of text) = (pre, segs)" and "0 < idx" and "idx \<le> length segs"
  shows "remove_rule path text idx =
    Inr (join_lines (segs ! (idx - 1)), join_lines (pre @ concat (remove_nth (idx - 1) segs)))"
proof -
  have rm: "remove_nth (idx - 1) (map block_of segs) = map block_of (remove_nth (idx - 1) segs)"
    by (simp add: map_remove_nth)
  have "concat (map bk_text (remove_nth (idx - 1) (map block_of segs)))
      = join_lines (concat (remove_nth (idx - 1) segs))"
    unfolding rm by (rule bk_text_blocks)
  with assms(2,3) show ?thesis
    unfolding remove_rule_def split_blocks_segments [OF assms(1)]
    by (simp add: bk_text_block_of)
qed

text \<open>Removing an entry removes that entry and nothing else. If the file has no carriage
  returns, then after a removal at a valid number the file splits into the same preamble and the
  same blocks, comments included, without the one at that number, whose text is returned; any
  other number is an error that writes nothing.\<close>

theorem removal_takes_out_one_block:
  assumes "cr \<notin> set text" and "split_blocks text = (preamble, blocks)"
  shows "if 0 < idx \<and> idx \<le> length blocks
    then \<exists>new. remove_rule path text idx = Inr (bk_text (blocks ! (idx - 1)), new)
           \<and> split_blocks new = (preamble, remove_nth (idx - 1) blocks)
    else remove_rule path text idx = Inl (no_rule_msg idx path (length blocks))"
proof -
  obtain pre segs where s: "segments (lines_of text) = (pre, segs)" by fastforce
  with assms(2) split_blocks_segments [OF s] have b: "preamble = join_lines pre"
    "blocks = map block_of segs" by auto
  show ?thesis
  proof (cases "0 < idx \<and> idx \<le> length blocks")
    case False
    with assms(2) show ?thesis by (auto simp: remove_rule_def)
  next
    case True
    let ?new = "join_lines (pre @ concat (remove_nth (idx - 1) segs))"
    have idx: "0 < idx" "idx \<le> length segs" using True b by simp_all
    have "list_all plain_line (pre @ concat (remove_nth (idx - 1) segs))"
      using file_lines_plain [OF assms(1) s] set_remove_nth [of "idx - 1" segs]
      by (auto simp: list_all_iff)
    then have "segments (lines_of ?new) = (pre, remove_nth (idx - 1) segs)"
      by (simp only: lines_of_join_lines segments_unique [OF wf_remove [OF segments_wf [OF s]]])
    from split_blocks_segments [OF this] have
      "split_blocks ?new = (preamble, remove_nth (idx - 1) blocks)" by (simp add: b map_remove_nth)
    moreover have "remove_rule path text idx = Inr (bk_text (blocks ! (idx - 1)), ?new)"
      using remove_rule_segments [OF s idx] idx by (simp add: b)
    ultimately show ?thesis using True by auto
  qed
qed

section \<open>Disabling and appending\<close>

text \<open>The lines a reader of the file acts on: neither blank nor a comment.\<close>

definition effective :: "string list \<Rightarrow> string list" where
  "effective ls = filter (\<lambda>l. trim l \<noteq> [] \<and> \<not> is_comment_line l) ls"

lemma effective_append [simp]: "effective (xs @ ys) = effective xs @ effective ys"
  by (simp add: effective_def)

lemma trim_Nil_iff: "trim l = [] \<longleftrightarrow> (\<forall>c \<in> set l. is_white c)"
proof (cases "dropWhile is_white l")
  case Nil
  then show ?thesis by (auto simp: trim_def trim_end_def trim_start_def dropWhile_eq_Nil_conv
        dest: set_dropWhileD)
next
  case (Cons a b)
  then have "\<not> is_white a" "a \<in> set l"
    by (metis hd_dropWhile list.distinct(1) list.sel(1), metis list.set_intros(1) set_dropWhileD)
  with Cons show ?thesis
    by (auto simp: trim_def trim_end_def trim_start_def dropWhile_eq_Nil_conv)
qed

lemma rule_lines_effective: "filter is_rule_line (effective ls) = filter is_rule_line ls"
  by (auto simp: effective_def is_rule_line_def not_comment_rule [unfolded is_rule_line_def]
      intro!: filter_cong)

lemma number_of_blocks: "length (snd (split_blocks text)) = length (filter is_rule_line (lines_of text))"
proof -
  obtain pre segs where s: "segments (lines_of text) = (pre, segs)" by fastforce
  have len: "length (offsets n ss) = length ss" for n ss by (induction ss arbitrary: n) auto
  have "length (filter is_rule_line ls) = length (rule_starts ls)" for ls
  proof -
    have "filter is_rule_line (map (nth ls) [0..<length ls])
        = map (nth ls) (filter (\<lambda>i. is_rule_line (ls ! i)) [0..<length ls])"
      by (simp add: filter_map comp_def)
    then show ?thesis by (simp add: map_nth rule_starts_def)
  qed
  then show ?thesis
    using rule_starts_offsets [OF s] len [of "length pre" segs]
    by (simp add: split_blocks_segments [OF s])
qed

definition disabled_line :: "string \<Rightarrow> string" where
  "disabled_line l = (if trim l = [] then [] else if is_comment_line l then l else ''# '' @ l)"

lemma disable_lines: "concat (map disable_line ls) = join_lines (map disabled_line ls)"
  unfolding join_lines_concat
  by (rule arg_cong [of _ _ concat]) (simp add: disable_line_def disabled_line_def)

lemma disabled_line_quiet: "trim (disabled_line l) = [] \<or> is_comment_line (disabled_line l)"
proof (cases "trim l = [] \<or> is_comment_line l")
  case True
  then show ?thesis by (auto simp: disabled_line_def trim_Nil_iff)
next
  case False
  then have "disabled_line l = CHR ''#'' # CHR '' '' # l" by (simp add: disabled_line_def)
  then show ?thesis by (simp add: is_comment_line_def trim_start_def is_white_def)
qed

lemma disabled_effective: "effective (map disabled_line ls) = []"
  unfolding effective_def filter_empty_conv using disabled_line_quiet by auto

lemma plain_disabled: "list_all plain_line ls \<Longrightarrow> list_all plain_line (map disabled_line ls)"
  unfolding list_all_iff by (auto simp: disabled_line_def) (auto simp: plain_line_def split: if_splits)

lemma map_enumerate_update:
  "j < length xs \<Longrightarrow> map (\<lambda>(i, x). if i = j then f x else g x) (enumerate 0 xs) = (map g xs)[j := f (xs ! j)]"
  by (rule nth_equalityI) (auto simp: nth_list_update enumerate_eq_zip)

lemma disable_rule_segments:
  assumes "segments (lines_of text) = (pre, segs)" and "0 < idx" and "idx \<le> length segs"
    and "list_all plain_line (segs ! (idx - 1))"
  shows "disable_rule now path text idx reason =
    (let dis = (''# DISABLED '' @ now @ '': '' @ reason) # map disabled_line (segs ! (idx - 1)) in
     Inr (join_lines dis, join_lines (pre @ concat (segs[idx - 1 := dis]))))"
proof -
  let ?j = "idx - 1"
  let ?dis = "(''# DISABLED '' @ now @ '': '' @ reason) # map disabled_line (segs ! ?j)"
  have j: "?j < length (map block_of segs)" using assms(2,3) by simp
  have dis: "disabled_text now reason (map block_of segs ! ?j) = join_lines ?dis"
    using j assms(4) by (simp add: disabled_text_def disable_lines lines_of_join_lines)
  have eq: "i + 1 = idx \<longleftrightarrow> i = ?j" for i using assms(2) by auto
  have "concat (map (\<lambda>(i, b). if i = ?j then disabled_text now reason b else bk_text b)
      (enumerate 0 (map block_of segs))) = concat ((map bk_text (map block_of segs))[?j := join_lines ?dis])"
    unfolding map_enumerate_update [OF j] dis ..
  also have "(map bk_text (map block_of segs))[?j := join_lines ?dis] = map join_lines (segs[?j := ?dis])"
    by (simp add: map_update comp_def)
  finally show ?thesis
    using assms(2,3) dis
    unfolding disable_rule_def split_blocks_segments [OF assms(1)] eq
    by (simp add: concat_join_lines)
qed

lemma effective_Nil [simp]: "effective [] = []"
  by (simp add: effective_def)

lemma effective_concat: "effective (concat xss) = concat (map effective xss)"
  by (induction xss) auto

lemma plain_update:
  assumes "list_all plain_line pre" and "\<And>seg. seg \<in> set segs \<Longrightarrow> list_all plain_line seg"
    and "list_all plain_line dis"
  shows "list_all plain_line (pre @ concat (segs[i := dis]))"
    and "list_all plain_line (pre @ concat (remove_nth i segs))"
  using assms set_update_subset_insert [of segs i dis] set_remove_nth [of i segs]
  by (fastforce simp: list_all_iff)+

lemma effective_update:
  assumes "i < length segs" and "effective dis = []"
  shows "effective (concat (segs[i := dis])) = effective (concat (remove_nth i segs))"
  using assms by (simp add: upd_conv_take_nth_drop remove_nth_def)

text \<open>Disabling a learned entry takes its grant back and keeps its text. What the file says to
  its reader (its lines that are neither blank nor comments) is then exactly what a removal of that
  entry would have left, and there is one entry less; the reason stands in the file.\<close>

theorem disabling_withdraws_the_entry:
  assumes "cr \<notin> set text" and "0 < idx" and "idx \<le> length (snd (split_blocks text))"
    and "plain_line now" and "plain_line reason"
  shows "\<exists>dis new removed left. disable_rule now path text idx reason = Inr (dis, new)
    \<and> remove_rule path text idx = Inr (removed, left)
    \<and> effective (lines_of new) = effective (lines_of left)
    \<and> length (snd (split_blocks new)) = length (snd (split_blocks text)) - 1
    \<and> sublist (''# DISABLED '' @ now @ '': '' @ reason) new"
proof -
  obtain pre segs where s: "segments (lines_of text) = (pre, segs)" by fastforce
  note b = split_blocks_segments [OF s]
  let ?j = "idx - 1"
  let ?head = "''# DISABLED '' @ now @ '': '' @ reason"
  let ?dis = "?head # map disabled_line (segs ! ?j)"
  let ?new = "pre @ concat (segs[?j := ?dis])" and ?left = "pre @ concat (remove_nth ?j segs)"
  have j: "?j < length segs" "idx \<le> length segs" using assms(2,3) b by auto
  note plain = file_lines_plain [OF assms(1) s]
  have head: "plain_line ?head" "is_comment_line ?head"
    using assms(4,5) by (auto simp: plain_line_def is_comment_line_def trim_start_def is_white_def)
  have segj: "list_all plain_line (segs ! ?j)" using plain(2) nth_mem [OF j(1)] by blast
  then have "list_all plain_line ?dis" using head plain_disabled by simp
  from plain_update [OF plain(1) plain(2) this] have lines: "lines_of (join_lines ?new) = ?new" "lines_of (join_lines ?left) = ?left"
    by (simp_all only: lines_of_join_lines)
  have "effective ?dis = []" using head disabled_effective [of "segs ! ?j"] by (simp add: effective_def)
  from effective_update [OF j(1) this] have eff: "effective ?new = effective ?left" by simp
  then have "length (filter is_rule_line ?new) = length (filter is_rule_line ?left)"
    by (metis rule_lines_effective)
  moreover have "length (snd (split_blocks (join_lines ?left))) = length segs - 1"
  proof -
    have "segments (lines_of (join_lines ?left)) = (pre, remove_nth ?j segs)"
      unfolding lines by (rule segments_unique [OF wf_remove [OF segments_wf [OF s]]])
    from split_blocks_segments [OF this] j show ?thesis by simp
  qed
  ultimately have "length (snd (split_blocks (join_lines ?new))) = length (snd (split_blocks text)) - 1"
    unfolding number_of_blocks lines by (simp add: b number_of_blocks lines flip: number_of_blocks)
  note count = this
  have shown: "sublist ?head (join_lines ?new)"
  proof -
    have "join_lines ?new = (join_lines pre @ join_lines (concat (take ?j segs))) @ ?head
        @ (newline # join_lines (map disabled_line (segs ! ?j)) @ join_lines (concat (drop (Suc ?j) segs)))"
      using j(1) by (simp add: upd_conv_take_nth_drop)
    then show ?thesis unfolding sublist_def by blast
  qed
  have d: "disable_rule now path text idx reason = Inr (join_lines ?dis, join_lines ?new)"
    using disable_rule_segments [OF s assms(2) j(2) segj, of now path reason] by (simp only: Let_def)
  have e: "effective (lines_of (join_lines ?new)) = effective (lines_of (join_lines ?left))"
    unfolding lines by (rule eff)
  show ?thesis
    by (intro exI conjI, rule d, rule remove_rule_segments [OF s assms(2) j(2)], rule e, rule count,
        rule shown)
qed

definition sample_file :: string where
  "sample_file = join_lines [''# mine'', ''[[rule]]'', ''name = \"a\"'', [], ''[[rule]]'', ''name = \"b\"'']"

lemma sample_file_facts: "cr \<notin> set sample_file" "length (snd (split_blocks sample_file)) = 2"
  by (simp add: sample_file_def) code_simp

theorem disabling_withdraws_the_entry_witness:
  "\<exists>dis new. disable_rule ''now'' ''p'' sample_file 1 ''drift'' = Inr (dis, new)
     \<and> length (snd (split_blocks new)) = 1"
  using disabling_withdraws_the_entry [of sample_file 1 "''now''" "''drift''" "''p''"]
  by (auto simp: sample_file_facts plain_line_def)

theorem removal_takes_out_one_block_witness:
  "\<exists>new. remove_rule ''p'' sample_file 2 = Inr (bk_text (snd (split_blocks sample_file) ! 1), new)
     \<and> snd (split_blocks new) = [snd (split_blocks sample_file) ! 0]"
  using removal_takes_out_one_block [OF sample_file_facts(1) prod.collapse [symmetric], of 2 "''p''"]
    sample_file_facts(2)
  by (auto simp: remove_nth_def take_Suc_conv_app_nth numeral_2_eq_2)

lemma effective_break:
  assumes "cr \<notin> set t"
  shows "effective (lines_of (t @ newline # s)) = effective (lines_of t) @ effective (lines_of s)"
proof -
  note plain = lines_of_plain [OF assms]
  have blank: "effective [[]] = []" by (simp add: effective_def trim_Nil_iff)
  show ?thesis
  proof (cases "t = [] \<or> last t = newline")
    case True
    then have t: "t = join_lines (lines_of t)" using join_lines_lines_of [OF assms] by simp
    have "t @ newline # s = join_lines (lines_of t @ [[]]) @ s" using t by simp
    moreover have "list_all plain_line (lines_of t @ [[]])" using plain by (simp add: plain_line_def)
    ultimately show ?thesis using blank by (simp only: lines_of_join_lines_append effective_append) simp
  next
    case False
    then have "t @ newline # s = join_lines (lines_of t) @ s" using join_lines_lines_of [OF assms] by simp
    with plain show ?thesis by (simp only: lines_of_join_lines_append effective_append)
  qed
qed

lemma trim_start_Cons [simp]: "\<not> is_white c \<Longrightarrow> trim_start (c # s) = c # s"
  by (simp add: trim_start_def)

lemma effective_block_lines: "effective (block_lines spec) = block_lines spec"
proof -
  have "trim l \<noteq> [] \<and> \<not> is_comment_line l" if "l \<in> set (block_lines spec)" for l
  proof -
    from that have "l \<noteq> [] \<and> hd l \<in> {CHR ''['', CHR ''n'', CHR ''e'', CHR ''f'', CHR ''p'', CHR ''s'', CHR ''d''}"
      by (auto simp: block_lines_fields dest: spec_fields_keys)
    then obtain c s where "l = c # s" "\<not> is_white c" "c \<noteq> CHR ''#''"
      by (cases l) (auto simp: is_white_def)
    then show ?thesis by (simp add: trim_Nil_iff is_comment_line_def)
  qed
  then show ?thesis by (simp add: effective_def)
qed

text \<open>Appending an entry adds what it says and leaves what the file said before: the effective
  lines of the new file are those of the old one followed by the lines of the entry, and there is
  one entry more, whether or not the old file ended with a newline or with a comment.\<close>

theorem appending_adds_one_entry:
  assumes "cr \<notin> set text" and "plain_line comment"
  shows "effective (lines_of (snd (append_rule (Some text) comment spec)))
      = effective (lines_of text) @ block_lines spec
    \<and> length (snd (split_blocks (snd (append_rule (Some text) comment spec))))
      = Suc (length (snd (split_blocks text)))"
proof -
  let ?tail = "join_lines ((''# '' @ comment) # block_lines spec)"
  have new: "snd (append_rule (Some text) comment spec) = text @ newline # ?tail"
    by (simp add: append_rule_def render_block_join Let_def)
  have head: "plain_line (''# '' @ comment)" "is_comment_line (''# '' @ comment)"
    using assms(2) by (auto simp: plain_line_def is_comment_line_def is_white_def)
  then have "lines_of ?tail = (''# '' @ comment) # block_lines spec"
    using plain_block_lines by (intro lines_of_join_lines) simp
  then have tail: "effective (lines_of ?tail) = block_lines spec"
    using head effective_block_lines [of spec] by (simp add: effective_def)
  have eff: "effective (lines_of (text @ newline # ?tail)) = effective (lines_of text) @ block_lines spec"
    unfolding effective_break [OF assms(1)] tail ..
  have "filter is_rule_line (block_lines spec) = [''[[rule]]'']"
  proof -
    have "\<not> is_rule_line l" if "l \<in> set (tl (block_lines spec))" for l
    proof -
      from that obtain c s where l: "l = c # s" "\<not> is_white c" "c \<noteq> CHR ''[''"
        by (auto simp: block_lines_fields is_white_def dest: spec_fields_keys)
      then have "prefix (trim l) l" using suffix_dropWhile [of is_white "rev l"]
        by (simp add: trim_def trim_end_def suffix_to_prefix)
      then show ?thesis using l by (auto simp: is_rule_line_def prefix_def)
    qed
    moreover have "is_rule_line ''[[rule]]''" by code_simp
    ultimately show ?thesis by (auto simp: block_lines_fields filter_empty_conv)
  qed
  then have "length (filter is_rule_line (effective (lines_of (text @ newline # ?tail))))
      = Suc (length (filter is_rule_line (effective (lines_of text))))" unfolding eff by simp
  with eff show ?thesis unfolding new number_of_blocks rule_lines_effective by simp
qed

theorem appending_adds_one_entry_witness:
  "length (snd (split_blocks (snd (append_rule (Some sample_file) ''why'' any_python)))) = 3"
  using appending_adds_one_entry [of sample_file "''why''" any_python]
  by (simp add: sample_file_facts plain_line_def)

end
