(* ===== verification/Text_Numbers.thy ===== *)
theory Text_Numbers
  imports Moat_Prelude
begin

text \<open>
  Integers as text: Rust's \<open>str::parse\<close> for the unsigned and signed types and \<open>from_str_radix\<close>.
  Each type is given by its bound, so a number that does not fit is a parse error and never wraps.
\<close>

definition digit_val :: "char \<Rightarrow> nat option" where
  "digit_val c = (if is_digit c then Some (of_char c - 48) else None)"

definition hex_val :: "char \<Rightarrow> nat option" where
  "hex_val c =
     (if is_digit c then Some (of_char c - 48)
      else let l = of_char (lower_char c) in if 97 \<le> l \<and> l \<le> 102 then Some (l - 87) else None)"

fun read_number :: "(char \<Rightarrow> nat option) \<Rightarrow> nat \<Rightarrow> nat \<Rightarrow> string \<Rightarrow> nat option" where
  "read_number val base acc [] = Some acc"
| "read_number val base acc (c # s) =
     (case val c of None \<Rightarrow> None | Some d \<Rightarrow> read_number val base (base * acc + d) s)"

text \<open>\<open>from_str_radix\<close> on an unsigned type below \<open>bound\<close>: an optional plus sign and at least one digit.\<close>

definition parse_radix :: "(char \<Rightarrow> nat option) \<Rightarrow> nat \<Rightarrow> nat \<Rightarrow> string \<Rightarrow> nat option" where
  "parse_radix val base bound s0 =
     (let s = (case s0 of c # rest \<Rightarrow> if c = CHR ''+'' then rest else s0 | [] \<Rightarrow> []) in
      if s = [] then None
      else case read_number val base 0 s of
             Some n \<Rightarrow> if n < bound then Some n else None | None \<Rightarrow> None)"

definition parse_unsigned :: "nat \<Rightarrow> string \<Rightarrow> nat option" where
  "parse_unsigned bound s = parse_radix digit_val 10 bound s"

abbreviation parse_u8 :: "string \<Rightarrow> nat option" where "parse_u8 \<equiv> parse_unsigned (2 ^ 8)"
abbreviation parse_u32 :: "string \<Rightarrow> nat option" where "parse_u32 \<equiv> parse_unsigned (2 ^ 32)"
abbreviation parse_u64 :: "string \<Rightarrow> nat option" where "parse_u64 \<equiv> parse_unsigned (2 ^ 64)"

definition parse_signed :: "nat \<Rightarrow> string \<Rightarrow> int option" where
  "parse_signed half s =
     (case s of
        c # rest \<Rightarrow>
          if c = CHR ''-'' then
            (if rest = [] then None
             else case read_number digit_val 10 0 rest of
                    Some n \<Rightarrow> if n \<le> half then Some (- int n) else None | None \<Rightarrow> None)
          else map_option int (parse_unsigned half s)
      | [] \<Rightarrow> None)"

abbreviation parse_i32 :: "string \<Rightarrow> int option" where "parse_i32 \<equiv> parse_signed (2 ^ 31)"
abbreviation parse_i64 :: "string \<Rightarrow> int option" where "parse_i64 \<equiv> parse_signed (2 ^ 63)"

lemma parse_unsigned_bound: "parse_unsigned bound s = Some n \<Longrightarrow> n < bound"
  by (auto simp: parse_unsigned_def parse_radix_def Let_def split: option.splits if_splits list.splits)

lemma parse_signed_bound: "parse_signed half s = Some i \<Longrightarrow> - int half \<le> i \<and> i < int half \<or> i = 0"
  by (auto simp: parse_signed_def dest: parse_unsigned_bound split: option.splits if_splits list.splits)

lemma read_number_append:
  "read_number val base acc (s @ t) = Option.bind (read_number val base acc s) (\<lambda>a. read_number val base a t)"
  by (induction s arbitrary: acc) (auto split: option.splits)

lemma digit_val_digit: "d < 10 \<Longrightarrow> digit_val (char_of (48 + d)) = Some d"
  by (simp add: digit_val_def is_digit_def)

lemma read_show_nat_number: "read_number digit_val 10 0 (show_nat n) = Some n"
proof (induction n rule: show_nat.induct)
  case (1 n)
  show ?case
  proof (cases "n < 10")
    case True
    then show ?thesis by (simp add: show_nat.simps [of n] digit_val_digit)
  next
    case False
    with 1 show ?thesis
      by (simp add: show_nat.simps [of n] read_number_append digit_val_digit)
  qed
qed

lemma show_nat_first: "\<exists>d r. show_nat n = d # r \<and> d \<noteq> CHR ''+'' \<and> d \<noteq> CHR ''-''"
proof (induction n rule: show_nat.induct)
  case (1 n)
  have plain: "char_of (48 + d) \<noteq> CHR ''+'' \<and> char_of (48 + d) \<noteq> CHR ''-''" if "d < 10" for d :: nat
    using that by (auto simp: char_of_eq_iff take_bit_eq_mod)
  show ?case
  proof (cases "n < 10")
    case True
    then show ?thesis using plain [of n] by (simp add: show_nat.simps [of n])
  next
    case False
    with 1 show ?thesis by (auto simp: show_nat.simps [of n])
  qed
qed

text \<open>What \<open>{}\<close> prints of a number reads back as the number.\<close>

lemma parse_show_nat: "parse_unsigned bound (show_nat n) = (if n < bound then Some n else None)"
  using show_nat_first [of n] read_show_nat_number [of n]
  by (auto simp: parse_unsigned_def parse_radix_def Let_def split: option.splits)

lemma digits_show_nat: "c \<in> set (show_nat n) \<Longrightarrow> is_digit c"
proof (induction n rule: show_nat.induct)
  case (1 n)
  have "is_digit (char_of (48 + m))" if "m < 10" for m :: nat
    using that by (simp add: is_digit_def)
  then have d: "is_digit (char_of (48 + n mod 10))" "n < 10 \<Longrightarrow> is_digit (char_of (48 + n))" by auto
  show ?case
  proof (cases "n < 10")
    case True
    with "1.prems" d show ?thesis by (subst (asm) show_nat.simps) auto
  next
    case False
    with "1.prems" d "1.IH" show ?thesis by (subst (asm) show_nat.simps) auto
  qed
qed

lemma show_nat_inj: "show_nat a = show_nat b \<longleftrightarrow> a = b"
  by (metis option.inject read_show_nat_number)

lemma show_nat_not_Nil [simp]: "show_nat n \<noteq> []"
  by (simp add: show_nat.simps [of n])

end
