(* ===== verification/Netmatch.thy ===== *)
theory Netmatch
  imports Text_Numbers
begin

text \<open>
  \<open>moatd/src/rules/netmatch.rs\<close>: networks in prefix notation and what counts as local. An address is
  its octets in network order, four or sixteen of them; \<open>parse_ip\<close> is the text form that
  \<open>std::net::IpAddr\<close> reads.
\<close>

unbundle bit_operations_syntax

type_synonym octets = "8 word list"

datatype ip_addr = V4 octets | V6 octets

section \<open>Text form of an address\<close>

definition parse_octet :: "string \<Rightarrow> 8 word option" where
  "parse_octet s =
     (if s = [] \<or> length s > 3 \<or> (hd s = CHR ''0'' \<and> length s > 1) then None
      else case read_number digit_val 10 0 s of
             Some n \<Rightarrow> if n \<le> 255 then Some (of_nat n) else None | None \<Rightarrow> None)"

fun all_some :: "'a option list \<Rightarrow> 'a list option" where
  "all_some [] = Some []"
| "all_some (x # xs) = (case x of None \<Rightarrow> None | Some y \<Rightarrow> map_option ((#) y) (all_some xs))"

definition parse_v4 :: "string \<Rightarrow> octets option" where
  "parse_v4 s =
     (let parts = split_on CHR ''.'' s in
      if length parts = 4 then all_some (map parse_octet parts) else None)"

definition parse_group :: "string \<Rightarrow> octets option" where
  "parse_group s =
     (if s = [] \<or> length s > 4 then None
      else map_option (\<lambda>n. [of_nat (n div 256), of_nat (n mod 256)]) (read_number hex_val 16 0 s))"

text \<open>Groups separated by colons; where \<open>v4\<close> holds the last one may be an IPv4 address.\<close>

definition parse_groups :: "bool \<Rightarrow> string \<Rightarrow> octets option" where
  "parse_groups v4 s =
     (if s = [] then Some []
      else let parts = split_on CHR '':'' s in
           case all_some (map parse_group (butlast parts)) of None \<Rightarrow> None
           | Some gs \<Rightarrow>
               (case parse_group (last parts) of
                  Some g \<Rightarrow> Some (concat gs @ g)
                | None \<Rightarrow> if v4 then map_option (\<lambda>o4. concat gs @ o4) (parse_v4 (last parts)) else None))"

definition parse_v6 :: "string \<Rightarrow> octets option" where
  "parse_v6 s =
     (case split_once_str ''::'' s of
        None \<Rightarrow> (case parse_groups True s of
                   Some g \<Rightarrow> if length g = 16 then Some g else None | None \<Rightarrow> None)
      | Some (h, t) \<Rightarrow>
          (case (parse_groups False h, parse_groups True t) of
             (Some a, Some b) \<Rightarrow>
               if length a + length b \<le> 14
               then Some (a @ replicate (16 - length a - length b) 0 @ b) else None
           | _ \<Rightarrow> None))"

definition parse_ip :: "string \<Rightarrow> ip_addr option" where
  "parse_ip s = (case parse_v4 s of Some a \<Rightarrow> Some (V4 a) | None \<Rightarrow> map_option V6 (parse_v6 s))"

section \<open>Networks\<close>

record cidr =
  ci_addr :: ip_addr
  ci_prefix :: nat

definition max_prefix :: "ip_addr \<Rightarrow> nat" where
  "max_prefix ip = (case ip of V4 _ \<Rightarrow> 32 | V6 _ \<Rightarrow> 128)"

definition parse_cidr :: "string \<Rightarrow> cidr option" where
  "parse_cidr s0 =
     (let s = trim s0;
          (addr_s, prefix_s) = (case split_once CHR ''/'' s of
             Some (a, p) \<Rightarrow> (a, Some p) | None \<Rightarrow> (s, None))
      in case parse_ip addr_s of None \<Rightarrow> None
         | Some addr \<Rightarrow>
             (case (case prefix_s of Some p \<Rightarrow> parse_u8 p | None \<Rightarrow> Some (max_prefix addr)) of
                None \<Rightarrow> None
              | Some p \<Rightarrow> if p > max_prefix addr then None
                          else Some \<lparr>ci_addr = addr, ci_prefix = p\<rparr>))"

fun parse_all :: "string list \<Rightarrow> cidr list \<times> string list" where
  "parse_all [] = ([], [])"
| "parse_all (s # ss) =
     (let (good, bad) = parse_all ss in
      case parse_cidr s of Some c \<Rightarrow> (c # good, bad) | None \<Rightarrow> (good, s # bad))"

definition bits_eq :: "octets \<Rightarrow> octets \<Rightarrow> nat \<Rightarrow> bool" where
  "bits_eq a b p =
     (let full = p div 8; rem = p mod 8 in
      if take full a \<noteq> take full b then False
      else if rem = 0 then True
      else let mask = push_bit (8 - rem) 0xff in (a ! full AND mask) = (b ! full AND mask))"

definition net_contains :: "cidr \<Rightarrow> ip_addr \<Rightarrow> bool" where
  "net_contains net ip =
     (case (ci_addr net, ip) of
        (V4 n, V4 i) \<Rightarrow> bits_eq n i (ci_prefix net)
      | (V6 n, V6 i) \<Rightarrow> bits_eq n i (ci_prefix net)
      | _ \<Rightarrow> False)"

definition contains_any :: "cidr list \<Rightarrow> ip_addr \<Rightarrow> bool" where
  "contains_any nets ip \<longleftrightarrow> list_ex (\<lambda>n. net_contains n ip) nets"

section \<open>Local addresses\<close>

definition v4_loopback :: "octets \<Rightarrow> bool" where "v4_loopback a \<longleftrightarrow> a ! 0 = 127"
definition v4_unspecified :: "octets \<Rightarrow> bool" where "v4_unspecified a \<longleftrightarrow> a = [0, 0, 0, 0]"
definition v4_broadcast :: "octets \<Rightarrow> bool" where "v4_broadcast a \<longleftrightarrow> a = [255, 255, 255, 255]"
definition v4_private :: "octets \<Rightarrow> bool" where
  "v4_private a \<longleftrightarrow> a ! 0 = 10 \<or> (a ! 0 = 172 \<and> 16 \<le> a ! 1 \<and> a ! 1 \<le> 31) \<or> (a ! 0 = 192 \<and> a ! 1 = 168)"
definition v4_link_local :: "octets \<Rightarrow> bool" where "v4_link_local a \<longleftrightarrow> a ! 0 = 169 \<and> a ! 1 = 254"
definition v4_multicast :: "octets \<Rightarrow> bool" where "v4_multicast a \<longleftrightarrow> 224 \<le> a ! 0 \<and> a ! 0 \<le> 239"
definition v6_loopback :: "octets \<Rightarrow> bool" where "v6_loopback a \<longleftrightarrow> a = replicate 15 0 @ [1]"
definition v6_unspecified :: "octets \<Rightarrow> bool" where "v6_unspecified a \<longleftrightarrow> a = replicate 16 0"
definition v6_multicast :: "octets \<Rightarrow> bool" where "v6_multicast a \<longleftrightarrow> a ! 0 = 255"

definition segment :: "octets \<Rightarrow> nat \<Rightarrow> 16 word" where
  "segment a i = ucast (a ! (2 * i)) * 256 + ucast (a ! (2 * i + 1))"

definition v4_mapped :: "octets \<Rightarrow> octets option" where
  "v4_mapped a =
     (if list_all (\<lambda>i. segment a i = 0) [0, 1, 2, 3, 4] \<and> segment a 5 = 0xffff
      then Some [a ! 12, a ! 13, a ! 14, a ! 15] else None)"

definition v4_always_local :: "octets \<Rightarrow> bool" where
  "v4_always_local a \<longleftrightarrow> v4_loopback a \<or> v4_unspecified a"

definition is_always_local :: "ip_addr \<Rightarrow> bool" where
  "is_always_local ip =
     (case ip of V4 a \<Rightarrow> v4_always_local a
      | V6 a \<Rightarrow> v6_loopback a \<or> v6_unspecified a
                \<or> (case v4_mapped a of Some m \<Rightarrow> v4_always_local m | None \<Rightarrow> False))"

definition v4_is_private :: "octets \<Rightarrow> bool" where
  "v4_is_private a \<longleftrightarrow>
     v4_private a \<or> v4_loopback a \<or> v4_link_local a \<or> v4_broadcast a \<or> v4_multicast a
     \<or> v4_unspecified a \<or> (a ! 0 = 100 \<and> 64 \<le> a ! 1 \<and> a ! 1 < 128) \<or> a = [255, 255, 255, 255]"

definition is_private :: "ip_addr \<Rightarrow> bool" where
  "is_private ip =
     (case ip of V4 a \<Rightarrow> v4_is_private a
      | V6 a \<Rightarrow> v6_loopback a \<or> v6_multicast a \<or> v6_unspecified a
                \<or> (segment a 0 AND 0xfe00) = 0xfc00 \<or> (segment a 0 AND 0xffc0) = 0xfe80
                \<or> (case v4_mapped a of Some m \<Rightarrow> v4_is_private m | None \<Rightarrow> False))"

section \<open>Containment is agreement on the leading bits\<close>

text \<open>Bit \<open>i\<close> of an address, counted from the most significant one.\<close>

definition net_bit :: "octets \<Rightarrow> nat \<Rightarrow> bool" where
  "net_bit a i = bit (a ! (i div 8)) (7 - i mod 8)"

lemma mask_agree:
  fixes x y :: "8 word"
  assumes "0 < r" and "r < 8"
  shows "(x AND push_bit (8 - r) 0xff) = (y AND push_bit (8 - r) 0xff) \<longleftrightarrow>
    (\<forall>i < r. bit x (7 - i) = bit y (7 - i))"
proof -
  have ff: "bit (0xff :: 8 word) n \<longleftrightarrow> n < 8" for n
  proof -
    have "(0xff :: 8 word) = mask 8" by (simp add: mask_eq_exp_minus_1)
    then have "bit (0xff :: 8 word) n = bit (mask 8 :: 8 word) n" by (simp only:)
    then show ?thesis by (simp only: bit_mask_iff) (simp add: possible_bit_word)
  qed
  have m: "bit (push_bit (8 - r) (0xff :: 8 word)) n \<longleftrightarrow> 8 - r \<le> n \<and> n < 8" for n
    using assms unfolding bit_push_bit_iff ff by (auto simp: possible_bit_word)
  have "(x AND push_bit (8 - r) 0xff) = (y AND push_bit (8 - r) 0xff) \<longleftrightarrow>
      (\<forall>n. 8 - r \<le> n \<and> n < 8 \<longrightarrow> bit x n = bit y n)"
    by (auto simp: bit_eq_iff bit_and_iff m)
  also have "\<dots> \<longleftrightarrow> (\<forall>i < r. bit x (7 - i) = bit y (7 - i))"
  proof (rule iffI; (intro allI impI)?)
    fix i assume a: "\<forall>n. 8 - r \<le> n \<and> n < 8 \<longrightarrow> bit x n = bit y n" and "i < r"
    then have "8 - r \<le> 7 - i \<and> 7 - i < 8" by linarith
    with a show "bit x (7 - i) = bit y (7 - i)" by blast
  next
    fix n assume a: "\<forall>i < r. bit x (7 - i) = bit y (7 - i)" and "8 - r \<le> n \<and> n < 8"
    then have "7 - n < r" "7 - (7 - n) = n" by linarith+
    with a show "bit x n = bit y n" by metis
  qed
  finally show ?thesis .
qed

lemma octet_agree:
  fixes x y :: "8 word"
  shows "x = y \<longleftrightarrow> (\<forall>i < 8. bit x (7 - i) = bit y (7 - i))"
proof
  assume a: "\<forall>i < 8. bit x (7 - i) = bit y (7 - i)"
  show "x = y"
  proof (rule bit_eqI)
    fix n assume "possible_bit TYPE(8 word) n"
    then have "7 - n < 8" "7 - (7 - n) = n" by (auto simp: possible_bit_word)
    with a show "bit x n = bit y n" by metis
  qed
qed simp

lemma bits_eq_bits:
  assumes "length a = length b" and "p \<le> 8 * length a"
  shows "bits_eq a b p \<longleftrightarrow> (\<forall>i < p. net_bit a i = net_bit b i)"
proof -
  let ?f = "p div 8" and ?r = "p mod 8"
  have split: "i < p \<longleftrightarrow> i div 8 < ?f \<or> (i div 8 = ?f \<and> i mod 8 < ?r)" for i
  proof -
    have "i = 8 * (i div 8) + i mod 8" "p = 8 * ?f + ?r" "i mod 8 < 8" "?r < 8" by simp_all
    then show ?thesis by linarith
  qed
  have full: "take ?f a = take ?f b \<longleftrightarrow> (\<forall>k < ?f. a ! k = b ! k)"
    using assms by (auto simp: list_eq_iff_nth_eq)
  have octets: "(\<forall>k < ?f. a ! k = b ! k) \<longleftrightarrow> (\<forall>i. i div 8 < ?f \<longrightarrow> net_bit a i = net_bit b i)"
  proof (rule iffI; (intro allI impI)?)
    fix k assume all: "\<forall>i. i div 8 < ?f \<longrightarrow> net_bit a i = net_bit b i" and k: "k < ?f"
    have "bit (a ! k) (7 - j) = bit (b ! k) (7 - j)" if "j < 8" for j
    proof -
      have "(8 * k + j) div 8 = k" "(8 * k + j) mod 8 = j" using that by auto
      with all k show ?thesis unfolding net_bit_def by metis
    qed
    then show "a ! k = b ! k" by (simp add: octet_agree)
  next
    fix i assume "\<forall>k < ?f. a ! k = b ! k" and "i div 8 < ?f"
    then have "a ! (i div 8) = b ! (i div 8)" by blast
    then show "net_bit a i = net_bit b i" by (simp add: net_bit_def)
  qed
  have rest: "?r = 0 \<or> (a ! ?f AND push_bit (8 - ?r) 0xff) = (b ! ?f AND push_bit (8 - ?r) 0xff)
    \<longleftrightarrow> (\<forall>i. i div 8 = ?f \<and> i mod 8 < ?r \<longrightarrow> net_bit a i = net_bit b i)"
  proof (cases "?r = 0")
    case False
    then have eq: "(a ! ?f AND push_bit (8 - ?r) 0xff) = (b ! ?f AND push_bit (8 - ?r) 0xff)
        \<longleftrightarrow> (\<forall>j < ?r. bit (a ! ?f) (7 - j) = bit (b ! ?f) (7 - j))"
      by (intro mask_agree) auto
    show ?thesis
    proof (rule iffI; (intro allI impI)?)
      fix i assume "?r = 0 \<or> (a ! ?f AND push_bit (8 - ?r) 0xff) = (b ! ?f AND push_bit (8 - ?r) 0xff)"
        and "i div 8 = ?f \<and> i mod 8 < ?r"
      with eq False show "net_bit a i = net_bit b i" by (simp add: net_bit_def)
    next
      assume all: "\<forall>i. i div 8 = ?f \<and> i mod 8 < ?r \<longrightarrow> net_bit a i = net_bit b i"
      have "bit (a ! ?f) (7 - j) = bit (b ! ?f) (7 - j)" if "j < ?r" for j
      proof -
        have "j < 8" using that mod_less_divisor [of 8 p] by linarith
        then have "(8 * ?f + j) div 8 = ?f" "(8 * ?f + j) mod 8 = j" by auto
        with all that show ?thesis unfolding net_bit_def by metis
      qed
      with eq show "?r = 0 \<or> (a ! ?f AND push_bit (8 - ?r) 0xff) = (b ! ?f AND push_bit (8 - ?r) 0xff)" by blast
    qed
  qed simp
  show ?thesis
    unfolding bits_eq_def Let_def split using full octets rest by (auto simp del: bit_simps)
qed

section \<open>What the egress rule relies on\<close>

lemma parse_cidr_bound: "parse_cidr s = Some c \<Longrightarrow> ci_prefix c \<le> max_prefix (ci_addr c)"
  by (auto simp: parse_cidr_def Let_def split: option.splits prod.splits if_splits)

lemma all_some_length: "all_some xs = Some ys \<Longrightarrow> length ys = length xs"
  by (induction xs arbitrary: ys) (auto split: option.splits)

fun well_sized :: "ip_addr \<Rightarrow> bool" where
  "well_sized (V4 a) = (length a = 4)"
| "well_sized (V6 a) = (length a = 16)"

lemma parse_ip_sized: "parse_ip s = Some ip \<Longrightarrow> well_sized ip"
  by (auto simp: parse_ip_def parse_v4_def parse_v6_def Let_def dest!: all_some_length
      split: option.splits if_splits prod.splits)

lemma parse_cidr_sized: "parse_cidr s = Some c \<Longrightarrow> well_sized (ci_addr c)"
  by (auto simp: parse_cidr_def Let_def dest!: parse_ip_sized split: option.splits prod.splits if_splits)

definition same_family :: "ip_addr \<Rightarrow> ip_addr \<Rightarrow> bool" where
  "same_family a b = (case (a, b) of (V4 _, V4 _) \<Rightarrow> True | (V6 _, V6 _) \<Rightarrow> True | _ \<Rightarrow> False)"

definition octets_of :: "ip_addr \<Rightarrow> octets" where
  "octets_of ip = (case ip of V4 a \<Rightarrow> a | V6 a \<Rightarrow> a)"

text \<open>An address is in a network that was read from the configuration exactly when it is of
  the same family and agrees with the network's address on its leading bits, as many as the prefix
  says; the octet-wise comparison never looks past the end of an address.\<close>

theorem contains_is_prefix_agreement:
  assumes "parse_cidr s = Some net" and "well_sized ip"
  shows "net_contains net ip \<longleftrightarrow>
    same_family (ci_addr net) ip
    \<and> (\<forall>i < ci_prefix net. net_bit (octets_of (ci_addr net)) i = net_bit (octets_of ip) i)"
proof -
  note b = parse_cidr_bound [OF assms(1)] and z = parse_cidr_sized [OF assms(1)]
  show ?thesis
    using assms(2) b z
    by (cases "ci_addr net"; cases ip)
      (auto simp: net_contains_def same_family_def octets_of_def max_prefix_def bits_eq_bits)
qed

lemma registry_net: "parse_cidr ''151.101.0.0/16'' = Some \<lparr>ci_addr = V4 [151, 101, 0, 0], ci_prefix = 16\<rparr>"
  by code_simp

theorem contains_is_prefix_agreement_witness:
  "\<not> (\<forall>i < 16. net_bit [151, 101, 0, 0] i = net_bit [151, 102, 1, 2] i)"
proof -
  have "\<not> net_contains \<lparr>ci_addr = V4 [151, 101, 0, 0], ci_prefix = 16\<rparr> (V4 [151, 102, 1, 2])"
    by (simp add: net_contains_def bits_eq_def)
  then show ?thesis
    using contains_is_prefix_agreement [OF registry_net, of "V4 [151, 102, 1, 2]"]
    by (simp add: same_family_def octets_of_def)
qed

text \<open>What is always allowed from inside an install is the machine itself and nothing on the
  LAN: an address that is always local is a loopback or the unspecified address, plainly or mapped
  into IPv6, so it is private too, and no RFC 1918, link-local or carrier-grade address is always
  local.\<close>

theorem always_local_is_not_the_lan:
  "(is_always_local ip \<longrightarrow> is_private ip)
   \<and> (v4_private a \<or> v4_link_local a \<or> (a ! 0 = 100 \<and> 64 \<le> a ! 1 \<and> a ! 1 < 128)
      \<longrightarrow> \<not> is_always_local (V4 a) \<and> is_private (V4 a))"
proof
  show "is_always_local ip \<longrightarrow> is_private ip"
    by (auto simp: is_always_local_def is_private_def v4_always_local_def v4_is_private_def
        split: ip_addr.splits option.splits)
  show "v4_private a \<or> v4_link_local a \<or> (a ! 0 = 100 \<and> 64 \<le> a ! 1 \<and> a ! 1 < 128)
      \<longrightarrow> \<not> is_always_local (V4 a) \<and> is_private (V4 a)"
    by (auto simp: is_always_local_def is_private_def v4_always_local_def v4_is_private_def
        v4_loopback_def v4_unspecified_def v4_private_def v4_link_local_def)
qed

theorem always_local_is_not_the_lan_witness:
  "\<not> is_always_local (V4 [192, 168, 44, 122])"
  using always_local_is_not_the_lan [of "V4 [127, 0, 0, 1]" "[192, 168, 44, 122]"]
  by (simp add: v4_private_def)

end
