(* ===== verification/Collapse.thy ===== *)
theory Collapse
  imports Text_Lines Rarity Netmatch
begin

text \<open>
  The first part of \<open>moatd/src/rarity.rs\<close>: the tuples that are counted, their storage keys, and
  how a path loses the random parts of its scratch directories before it becomes part of a key.
\<close>

section \<open>Finding characters\<close>

lemma find_char_Some:
  "find_char c s = Some i \<Longrightarrow> i < length s \<and> s ! i = c \<and> c \<notin> set (take i s)"
  by (induction s arbitrary: i) (auto split: if_splits)

lemma find_char_None: "find_char c s = None \<longleftrightarrow> c \<notin> set s"
  by (induction s) auto

lemma find_char_append [simp]: "c \<notin> set a \<Longrightarrow> find_char c (a @ c # b) = Some (length a)"
  by (induction a) auto

lemma split_once_append [simp]: "c \<notin> set a \<Longrightarrow> split_once c (a @ c # b) = Some (a, b)"
  by (simp add: split_once_def)

lemma split_once_Some: "split_once c s = Some (a, b) \<Longrightarrow> s = a @ c # b \<and> c \<notin> set a"
  using find_char_Some [of c s] by (auto simp: split_once_def id_take_nth_drop)

text \<open>The segment up to the first slash and the rest from the slash on.\<close>

definition cut_segment :: "string \<Rightarrow> string \<times> string" where
  "cut_segment s = (case find_char CHR ''/'' s of Some i \<Rightarrow> (take i s, drop i s) | None \<Rightarrow> (s, []))"

lemma cut_segment_props:
  assumes "cut_segment s = (a, t)"
  shows "s = a @ t" and "CHR ''/'' \<notin> set a" and "t = [] \<or> (\<exists>r. t = CHR ''/'' # r)"
proof -
  show "s = a @ t" "CHR ''/'' \<notin> set a"
    using assms find_char_Some [of "CHR ''/''" s]
    by (auto simp: cut_segment_def find_char_None split: option.splits)
  show "t = [] \<or> (\<exists>r. t = CHR ''/'' # r)"
    using assms find_char_Some [of "CHR ''/''" s]
    by (auto simp: cut_segment_def split: option.splits) (metis Cons_nth_drop_Suc)
qed

lemma cut_segment_append:
  assumes "CHR ''/'' \<notin> set a" and "t = [] \<or> (\<exists>r. t = CHR ''/'' # r)"
  shows "cut_segment (a @ t) = (a, t)"
  using assms find_char_None [of "CHR ''/''" a] by (auto simp: cut_segment_def)

section \<open>Random-looking runs\<close>

definition is_mkdtemp_suffix :: "string \<Rightarrow> bool" where
  "is_mkdtemp_suffix run \<longleftrightarrow> length run \<ge> 8 \<and> list_all (\<lambda>b. is_lower b \<or> is_digit b \<or> b = CHR ''_'') run"

definition is_random_run :: "string \<Rightarrow> bool" where
  "is_random_run run \<longleftrightarrow>
     (if length run < 6 then False
      else
        (let has_digit = list_ex is_digit run; has_upper = list_ex is_upper run;
             has_lower = list_ex is_lower run; all_digits = list_all is_digit run
         in all_digits \<or> (has_upper \<and> has_lower) \<or> (has_digit \<and> (has_upper \<or> has_lower))))"

definition KNOWN_PREFIXES :: "string list" where
  "KNOWN_PREFIXES = [''.tmp'']"

definition run_char :: "char \<Rightarrow> bool" where
  "run_char c \<longleftrightarrow> is_alnum c \<or> c = CHR ''_''"

definition run_start_of :: "string \<Rightarrow> nat" where
  "run_start_of seg = length seg - length (takeWhile run_char (rev seg))"

text \<open>The three boundaries of \<open>random_run_start\<close>, in its order.\<close>

definition separator_boundary :: "string \<Rightarrow> nat \<Rightarrow> nat option" where
  "separator_boundary seg rs =
     (if rs \<ge> 2 \<and> seg ! (rs - 1) \<in> {CHR ''-'', CHR ''.''} then
        (let run = drop rs seg;
             hyphen_mkdtemp = (seg ! (rs - 1) = CHR ''-''
               \<and> (CHR ''_'' \<in> set run \<or> suffix ''-test'' (take (rs - 1) seg)
                  \<or> suffix ''-tmp'' (take (rs - 1) seg)))
         in if is_random_run run
               \<or> ((seg ! (rs - 1) = CHR ''.'' \<or> hyphen_mkdtemp) \<and> is_mkdtemp_suffix run)
            then Some rs else None)
      else None)"

definition prefix_boundary :: "string \<Rightarrow> nat option" where
  "prefix_boundary seg =
     map_option length (List.find (\<lambda>p. case strip_prefix seg p of Some rest \<Rightarrow> is_random_run rest
                                     | None \<Rightarrow> False) KNOWN_PREFIXES)"

definition change_boundary :: "string \<Rightarrow> nat \<Rightarrow> nat option" where
  "change_boundary seg rs =
     List.find (\<lambda>k. (k = rs \<or> (is_lower (seg ! (k - 1)) \<and> (is_upper (seg ! k) \<or> is_digit (seg ! k))))
                    \<and> is_random_run (drop k seg))
       (rev [rs..<Suc (length seg - 6)])"

definition random_run_start :: "string \<Rightarrow> nat option" where
  "random_run_start seg =
     (let rs = run_start_of seg in
      if rs = length seg then None
      else case separator_boundary seg rs of Some k \<Rightarrow> Some k
           | None \<Rightarrow> (case prefix_boundary seg of Some k \<Rightarrow> Some k
                     | None \<Rightarrow> change_boundary seg rs))"

lemma find_in_set: "List.find P xs = Some x \<Longrightarrow> x \<in> set xs \<and> P x"
  by (auto simp: find_Some_iff)

lemma random_run_length: "is_random_run run \<Longrightarrow> 6 \<le> length run"
  by (auto simp: is_random_run_def split: if_splits)

lemma random_run_start_less:
  assumes "random_run_start seg = Some k"
  shows "k + 6 \<le> length seg"
proof -
  have drop: "k + 6 \<le> length seg" if "is_random_run (drop k seg)" for k
    using random_run_length [OF that] by simp
  have sep: "k + 6 \<le> length seg" if "separator_boundary seg rs = Some k" for rs
    using that drop [of rs] by (auto simp: separator_boundary_def Let_def is_mkdtemp_suffix_def split: if_splits)
  have pre: "k + 6 \<le> length seg" if "prefix_boundary seg = Some k"
    using that
    by (auto simp: prefix_boundary_def KNOWN_PREFIXES_def strip_prefix_def split: if_splits
        dest!: random_run_length)
  have chg: "k + 6 \<le> length seg" if "change_boundary seg rs = Some k" for rs
    using that drop [of k] by (auto simp: change_boundary_def dest!: find_in_set)
  show ?thesis
    using assms sep pre chg by (auto simp: random_run_start_def Let_def split: if_splits option.splits)
qed

section \<open>Collapsing\<close>

definition skip_separators :: "string \<Rightarrow> string" where
  "skip_separators s = rev (dropWhile (\<lambda>c. c \<in> {CHR ''-'', CHR ''.''}) (rev s))"

definition bare :: "string \<Rightarrow> bool" where
  "bare s \<longleftrightarrow> list_all (\<lambda>c. c \<in> {CHR ''-'', CHR ''.'', CHR ''_''}) s"

lemma skip_separators_length: "length (skip_separators s) \<le> length s"
  by (metis length_dropWhile_le length_rev skip_separators_def)

text \<open>
  The loop of \<open>collapse_segment\<close>: what is left of the segment (\<open>seg[..end]\<close>) and whether a run was
  stripped.
\<close>

function strip_runs :: "string \<Rightarrow> bool \<Rightarrow> string \<times> bool" where
  "strip_runs s stripped =
     (let q = skip_separators s in
      case random_run_start q of
        None \<Rightarrow> (s, stripped)
      | Some start \<Rightarrow> if bare (take start q) then (s, stripped) else strip_runs (take start q) True)"
  by pat_completeness auto
termination
proof (relation "measure (\<lambda>(s, _). length s)")
  fix s q start assume "q = skip_separators s" "random_run_start q = Some start"
  then show "((take start q, True), s, stripped) \<in> measure (\<lambda>(s, _). length s)" for stripped
    using random_run_start_less [of q start] skip_separators_length [of s] by simp
qed simp

declare strip_runs.simps [simp del]

definition collapse_segment :: "string \<Rightarrow> string option" where
  "collapse_segment seg = (let (s, stripped) = strip_runs seg False in if stripped then Some (s @ ''*'') else None)"

definition collapse_lane :: "string \<Rightarrow> string \<Rightarrow> string option" where
  "collapse_lane front s =
     (let (lane, tail) = cut_segment s in
      if lane \<noteq> [] \<and> lane \<noteq> ''*'' then Some (front @ ''/*'' @ tail) else None)"

definition project_worktree :: "string \<Rightarrow> string \<Rightarrow> string option" where
  "project_worktree user after_user =
     (case strip_prefix after_user ''Projects/'' of
        None \<Rightarrow> None
      | Some after_proj \<Rightarrow>
          (case split_once CHR ''/'' after_proj of
             None \<Rightarrow> None
           | Some (repo_wt, after_wt) \<Rightarrow>
               if suffix ''-worktrees'' repo_wt \<and> length repo_wt > length ''-worktrees''
               then collapse_lane (''/home/'' @ user @ ''/Projects/'' @ repo_wt) after_wt
               else None))"

definition collapse_ephemeral_worktree :: "string \<Rightarrow> string option" where
  "collapse_ephemeral_worktree dir =
     (case strip_prefix dir ''/home/'' of
        None \<Rightarrow> None
      | Some rest \<Rightarrow>
          (case split_once CHR ''/'' rest of
             None \<Rightarrow> None
           | Some (user, after_user) \<Rightarrow>
               if user = [] then None
               else case strip_prefix after_user ''.cache/claude-work/'' of
                      Some after_cw \<Rightarrow>
                        (case split_once CHR ''/'' after_cw of
                           None \<Rightarrow> None
                         | Some (pool, after_pool) \<Rightarrow>
                             (case (if prefix ''lanes'' pool \<or> prefix ''codex-'' pool
                                    then collapse_lane (''/home/'' @ user @ ''/.cache/claude-work/'' @ pool)
                                           after_pool
                                    else None) of
                                Some r \<Rightarrow> Some r
                              | None \<Rightarrow> project_worktree user after_user))
                    | None \<Rightarrow> project_worktree user after_user))"

definition TEMP_ROOTS :: "string list" where
  "TEMP_ROOTS = [''/tmp/'', ''/var/tmp/'', ''/dev/shm/'']"

definition collapse_volatile :: "string \<Rightarrow> string" where
  "collapse_volatile dir =
     (case collapse_ephemeral_worktree dir of
        Some c \<Rightarrow> c
      | None \<Rightarrow>
          (case List.find (\<lambda>r. prefix r dir) TEMP_ROOTS of
             None \<Rightarrow> dir
           | Some root \<Rightarrow>
               (let (first, tail) = cut_segment (drop (length root) dir) in
                case collapse_segment first of
                  Some c \<Rightarrow> root @ c @ tail
                | None \<Rightarrow> dir)))"

definition dir_of :: "string \<Rightarrow> string" where
  "dir_of path =
     collapse_volatile (case rfind_char CHR ''/'' path of
        Some i \<Rightarrow> if i = 0 then ''/'' else take i path
      | None \<Rightarrow> path)"

definition slash24 :: "string \<Rightarrow> string" where
  "slash24 ip =
     (let octets = split_on CHR ''.'' ip in
      if length octets = 4 \<and> list_all (\<lambda>x. parse_u8 x \<noteq> None) octets
      then octets ! 0 @ ''.'' @ octets ! 1 @ ''.'' @ octets ! 2 @ ''.0/24'' else ip)"

section \<open>Collapsing once is enough\<close>

lemma skip_separators_prefix: "prefix (skip_separators s) s"
  using suffix_dropWhile [of "\<lambda>c. c \<in> {CHR ''-'', CHR ''.''}" "rev s"]
  by (simp add: skip_separators_def suffix_to_prefix)

lemma strip_runs_prefix:
  "strip_runs s b = (p, c) \<Longrightarrow>
     prefix p s \<and> (c \<longrightarrow> b \<or> length p + 6 \<le> length s) \<and> (b \<longrightarrow> c)
     \<and> (c \<longrightarrow> b \<and> p = s \<or> \<not> bare p)"
proof (induction s b arbitrary: p c rule: strip_runs.induct)
  case (1 s b)
  let ?q = "skip_separators s"
  show ?case
  proof (cases "random_run_start ?q")
    case None
    with "1.prems" show ?thesis by (simp add: strip_runs.simps [of s b])
  next
    case (Some start)
    show ?thesis
    proof (cases "bare (take start ?q)")
      case True
      with Some "1.prems" show ?thesis by (simp add: strip_runs.simps [of s b])
    next
      case False
      with Some "1.prems" have run: "strip_runs (take start ?q) True = (p, c)"
        by (simp add: strip_runs.simps [of s b])
      note ih = "1.IH" [OF refl Some False run]
      have "start + 6 \<le> length ?q" by (rule random_run_start_less [OF Some])
      moreover have "prefix (take start ?q) s"
        using skip_separators_prefix [of s] take_is_prefix prefix_order.trans by blast
      moreover have "length p \<le> start" using ih prefix_length_le by fastforce
      ultimately show ?thesis
        using ih False skip_separators_length [of s] prefix_order.trans by auto
    qed
  qed
qed

lemma collapse_segment_Some:
  assumes "collapse_segment seg = Some r"
  obtains p where "r = p @ ''*''" and "prefix p seg" and "length p + 6 \<le> length seg" and "\<not> bare p"
proof -
  obtain p c where sr: "strip_runs seg False = (p, c)" by fastforce
  with assms have "r = p @ ''*''" c by (auto simp: collapse_segment_def split: if_splits)
  with strip_runs_prefix [OF sr] that show ?thesis by auto
qed

lemma star_not_run: "\<not> run_char CHR ''*''"
  by (simp add: run_char_def is_alnum_def is_upper_def is_lower_def is_digit_def)

lemma strip_runs_star: "strip_runs (p @ ''*'') b = (p @ ''*'', b)"
proof -
  have "skip_separators (p @ ''*'') = p @ ''*''" by (simp add: skip_separators_def)
  moreover have "random_run_start (p @ ''*'') = None"
    by (simp add: random_run_start_def run_start_of_def star_not_run)
  ultimately show ?thesis by (simp add: strip_runs.simps)
qed

lemma collapse_segment_star: "collapse_segment (p @ ''*'') = None"
  by (simp add: collapse_segment_def strip_runs_star)

lemma collapse_lane_Some:
  assumes "collapse_lane front s = Some r"
  obtains lane tail where "s = lane @ tail" and "r = front @ ''/*'' @ tail" and "lane \<noteq> []"
    and "lane \<noteq> ''*''" and "CHR ''/'' \<notin> set lane" and "tail = [] \<or> (\<exists>t. tail = CHR ''/'' # t)"
proof -
  obtain lane tail where cs: "cut_segment s = (lane, tail)" by fastforce
  from cut_segment_props [OF cs] assms that cs show ?thesis
    by (auto simp: collapse_lane_def split: if_splits)
qed

lemma collapse_lane_star:
  "tail = [] \<or> (\<exists>t. tail = CHR ''/'' # t) \<Longrightarrow> collapse_lane front (CHR ''*'' # tail) = None"
  using cut_segment_append [of "''*''" tail] by (simp add: collapse_lane_def)

lemma strip_prefix_append [simp]: "strip_prefix (p @ s) p = Some s"
  by (simp add: strip_prefix_def)

lemma strip_prefix_Some: "strip_prefix s p = Some r \<longleftrightarrow> s = p @ r"
  by (auto simp: strip_prefix_def prefix_def)

text \<open>What a worktree path collapses to, and that nothing is left to collapse.\<close>

definition slash_tail :: "string \<Rightarrow> bool" where
  "slash_tail t \<longleftrightarrow> t = [] \<or> (\<exists>r. t = CHR ''/'' # r)"

definition lane_path :: "string \<Rightarrow> string \<Rightarrow> string \<Rightarrow> string" where
  "lane_path user sub t = ''/home/'' @ (user @ CHR ''/'' # (sub @ CHR ''/'' # CHR ''*'' # t))"

lemma collapse_lane_shape:
  assumes "collapse_lane (''/home/'' @ user @ CHR ''/'' # sub) s = Some r"
  obtains t where "r = lane_path user sub t" and "slash_tail t"
  using assms by (elim collapse_lane_Some) (auto simp: lane_path_def slash_tail_def)

lemma project_worktree_shape:
  assumes "project_worktree user au = Some r"
  obtains repo t where "r = lane_path user (''Projects/'' @ repo) t" and "slash_tail t"
    and "CHR ''/'' \<notin> set repo"
proof -
  from assms obtain ap where 1: "strip_prefix au ''Projects/'' = Some ap"
    by (auto simp: project_worktree_def split: option.splits)
  with assms obtain repo wt where 2: "split_once CHR ''/'' ap = Some (repo, wt)"
    by (auto simp: project_worktree_def split: option.splits)
  with 1 assms have "collapse_lane (''/home/'' @ user @ CHR ''/'' # ''Projects/'' @ repo) wt = Some r"
    by (simp add: project_worktree_def split: if_splits)
  then obtain t where "r = lane_path user (''Projects/'' @ repo) t" "slash_tail t"
    by (rule collapse_lane_shape)
  moreover have "CHR ''/'' \<notin> set repo" using split_once_Some [OF 2] by simp
  ultimately show ?thesis by (rule that)
qed

lemma project_worktree_star:
  assumes "slash_tail t" and "CHR ''/'' \<notin> set repo"
  shows "project_worktree user (''Projects/'' @ repo @ CHR ''/'' # CHR ''*'' # t) = None"
proof -
  have "strip_prefix (''Projects/'' @ repo @ CHR ''/'' # CHR ''*'' # t) ''Projects/''
      = Some (repo @ CHR ''/'' # CHR ''*'' # t)" by (rule strip_prefix_append)
  then show ?thesis
    using assms collapse_lane_star [of t] unfolding project_worktree_def slash_tail_def
    by (simp add: split_once_append del: append.simps)
qed

lemma project_worktree_cache:
  "project_worktree user (''.cache/claude-work/'' @ s) = None"
  by (simp add: project_worktree_def strip_prefix_def)

definition lane_of :: "string \<Rightarrow> string \<Rightarrow> string option" where
  "lane_of user after_cw =
     (case split_once CHR ''/'' after_cw of None \<Rightarrow> None
      | Some (pool, after_pool) \<Rightarrow>
          if prefix ''lanes'' pool \<or> prefix ''codex-'' pool
          then collapse_lane (''/home/'' @ user @ ''/.cache/claude-work/'' @ pool) after_pool else None)"

lemma lane_of_shape:
  assumes "lane_of user s = Some r"
  obtains pool t where "r = lane_path user (''.cache/claude-work/'' @ pool) t" and "slash_tail t"
    and "CHR ''/'' \<notin> set pool"
proof -
  from assms obtain pool ap where 2: "split_once CHR ''/'' s = Some (pool, ap)"
    by (auto simp: lane_of_def split: option.splits)
  with assms have "collapse_lane (''/home/'' @ user @ CHR ''/'' # ''.cache/claude-work/'' @ pool) ap = Some r"
    by (simp add: lane_of_def split: if_splits)
  then obtain t where "r = lane_path user (''.cache/claude-work/'' @ pool) t" "slash_tail t"
    by (rule collapse_lane_shape)
  moreover have "CHR ''/'' \<notin> set pool" using split_once_Some [OF 2] by simp
  ultimately show ?thesis by (rule that)
qed

lemma lane_of_star:
  assumes "slash_tail t" and "CHR ''/'' \<notin> set pool"
  shows "lane_of user (pool @ CHR ''/'' # CHR ''*'' # t) = None"
  using assms collapse_lane_star [of t] by (simp add: lane_of_def slash_tail_def)

lemma collapse_worktree_unfold:
  "collapse_ephemeral_worktree dir =
     (case strip_prefix dir ''/home/'' of None \<Rightarrow> None
      | Some rest \<Rightarrow>
          (case split_once CHR ''/'' rest of None \<Rightarrow> None
           | Some (user, au) \<Rightarrow>
               if user = [] then None
               else case strip_prefix au ''.cache/claude-work/'' of
                      None \<Rightarrow> project_worktree user au
                    | Some cw \<Rightarrow> lane_of user cw))"
proof -
  have "project_worktree user au = None" if "strip_prefix au ''.cache/claude-work/'' = Some cw" for user au cw
    using that project_worktree_cache by (auto simp only: strip_prefix_Some)
  then show ?thesis
    by (auto simp: collapse_ephemeral_worktree_def lane_of_def split: option.splits)
qed

lemma collapse_worktree_shape:
  assumes "collapse_ephemeral_worktree dir = Some r"
  shows "prefix ''/home/'' r \<and> collapse_ephemeral_worktree r = None"
proof -
  from assms obtain rest where rest: "strip_prefix dir ''/home/'' = Some rest"
    by (cases "strip_prefix dir ''/home/''") (simp_all add: collapse_worktree_unfold)
  with assms obtain user au where su: "split_once CHR ''/'' rest = Some (user, au)"
    by (cases "split_once CHR ''/'' rest") (auto simp: collapse_worktree_unfold)
  with rest assms have u: "user \<noteq> []" "CHR ''/'' \<notin> set user"
    and r: "(case strip_prefix au ''.cache/claude-work/'' of
              None \<Rightarrow> project_worktree user au | Some cw \<Rightarrow> lane_of user cw) = Some r"
    using split_once_Some [OF su] by (auto simp: collapse_worktree_unfold split: if_splits)
  have redo: "collapse_ephemeral_worktree (lane_path user sub t) =
      (case strip_prefix (sub @ CHR ''/'' # CHR ''*'' # t) ''.cache/claude-work/'' of
         None \<Rightarrow> project_worktree user (sub @ CHR ''/'' # CHR ''*'' # t)
       | Some cw \<Rightarrow> lane_of user cw)" for sub t
    unfolding collapse_worktree_unfold lane_path_def strip_prefix_append option.case
    using u by (simp del: append.simps)
  have home: "prefix ''/home/'' (lane_path user sub t)" for sub t by (simp add: lane_path_def)
  show ?thesis
  proof (cases "strip_prefix au ''.cache/claude-work/''")
    case None
    with r have "project_worktree user au = Some r" by simp
    then obtain repo t where pw: "r = lane_path user (''Projects/'' @ repo) t" "slash_tail t"
      "CHR ''/'' \<notin> set repo" by (rule project_worktree_shape)
    have "strip_prefix ((''Projects/'' @ repo) @ CHR ''/'' # CHR ''*'' # t) ''.cache/claude-work/'' = None"
      by (simp add: strip_prefix_def)
    then have "collapse_ephemeral_worktree r = None"
      unfolding pw(1) redo using project_worktree_star [OF pw(2,3)] by (simp del: append.simps add: append_assoc)
    then show ?thesis using home pw(1) by blast
  next
    case (Some cw)
    with r have "lane_of user cw = Some r" by simp
    then obtain pool t where pw: "r = lane_path user (''.cache/claude-work/'' @ pool) t" "slash_tail t"
      "CHR ''/'' \<notin> set pool" by (rule lane_of_shape)
    have "collapse_ephemeral_worktree r = None"
      unfolding pw(1) redo append_assoc strip_prefix_append option.case
      by (rule lane_of_star [OF pw(2,3)])
    then show ?thesis using home pw(1) by blast
  qed
qed

lemma temp_root_find:
  assumes "List.find (\<lambda>r. prefix r dir) TEMP_ROOTS = Some root"
  shows "List.find (\<lambda>r. prefix r (root @ s)) TEMP_ROOTS = Some root" and "prefix root dir"
    and "collapse_ephemeral_worktree (root @ s) = None"
proof -
  from find_in_set [OF assms] have r: "root = ''/tmp/'' \<or> root = ''/var/tmp/'' \<or> root = ''/dev/shm/''"
    and "prefix root dir" by (auto simp: TEMP_ROOTS_def)
  then show "List.find (\<lambda>r. prefix r (root @ s)) TEMP_ROOTS = Some root" "prefix root dir"
    "collapse_ephemeral_worktree (root @ s) = None"
    by (auto simp: TEMP_ROOTS_def collapse_ephemeral_worktree_def strip_prefix_def)
qed

lemma collapse_volatile_temp:
  assumes "collapse_ephemeral_worktree dir = None"
    and "List.find (\<lambda>r. prefix r dir) TEMP_ROOTS = Some root"
  obtains first tail where "dir = root @ first @ tail" and "CHR ''/'' \<notin> set first" and "slash_tail tail"
    and "collapse_volatile dir = (case collapse_segment first of Some c \<Rightarrow> root @ c @ tail | None \<Rightarrow> dir)"
proof -
  obtain first tail where cs: "cut_segment (drop (length root) dir) = (first, tail)" by fastforce
  have "dir = root @ drop (length root) dir"
    using temp_root_find(2) [OF assms(2)] by (metis append_eq_conv_conj prefix_def)
  with cut_segment_props [OF cs] have "dir = root @ first @ tail" "CHR ''/'' \<notin> set first" "slash_tail tail"
    by (simp_all add: slash_tail_def)
  moreover have "collapse_volatile dir =
      (case collapse_segment first of Some c \<Rightarrow> root @ c @ tail | None \<Rightarrow> dir)"
    using assms cs by (simp add: collapse_volatile_def)
  ultimately show ?thesis by (rule that)
qed

text \<open>Collapsing the random part of a path is stable, so every key that is built from a path
  is built from the same path again: collapsing what was collapsed changes nothing.\<close>

theorem collapse_is_idempotent: "collapse_volatile (collapse_volatile dir) = collapse_volatile dir"
proof (cases "collapse_ephemeral_worktree dir")
  case (Some r)
  then have "prefix ''/home/'' r" "collapse_ephemeral_worktree r = None"
    using collapse_worktree_shape by blast+
  moreover from this(1) have "List.find (\<lambda>x. prefix x r) TEMP_ROOTS = None"
    by (auto simp: TEMP_ROOTS_def prefix_def)
  ultimately have "collapse_volatile r = r" by (simp add: collapse_volatile_def)
  with Some show ?thesis by (simp add: collapse_volatile_def)
next
  case None
  show ?thesis
  proof (cases "List.find (\<lambda>r. prefix r dir) TEMP_ROOTS")
    case no_root: None
    with None show ?thesis by (simp add: collapse_volatile_def)
  next
    case (Some root)
    obtain first tail where d: "dir = root @ first @ tail" "CHR ''/'' \<notin> set first" "slash_tail tail"
      and cv: "collapse_volatile dir = (case collapse_segment first of Some c \<Rightarrow> root @ c @ tail | None \<Rightarrow> dir)"
      by (rule collapse_volatile_temp [OF None Some])
    show ?thesis
    proof (cases "collapse_segment first")
      case no_run: None
      with cv show ?thesis by simp
    next
      case run: (Some c)
      from run obtain p where p: "c = p @ ''*''" "prefix p first" by (rule collapse_segment_Some)
      then have slash: "CHR ''/'' \<notin> set c" using d(2) by (auto dest: set_mono_prefix)
      have "cut_segment (c @ tail) = (c, tail)"
        using slash d(3) by (intro cut_segment_append) (auto simp: slash_tail_def)
      then have "collapse_volatile (root @ c @ tail) = root @ c @ tail"
        using temp_root_find(1,3) [OF Some, of "c @ tail"] collapse_segment_star [of p]
        by (simp add: collapse_volatile_def p(1))
      with cv run show ?thesis by simp
    qed
  qed
qed

text \<open>Two scratch directories are merged only if they are named alike. When the directory below
  a temp root is collapsed, only its own last six or more characters go, what is kept of its name
  is more than separators (so no key ever covers all hidden or all random directories at once), and
  the path below it stays as it was.\<close>

theorem collapse_keeps_the_name:
  assumes "collapse_ephemeral_worktree dir = None" and "collapse_volatile dir \<noteq> dir"
  shows "\<exists>root p gone tail. root \<in> set TEMP_ROOTS \<and> dir = root @ p @ gone @ tail
    \<and> collapse_volatile dir = root @ p @ ''*'' @ tail
    \<and> 6 \<le> length gone \<and> CHR ''/'' \<notin> set (p @ gone) \<and> slash_tail tail
    \<and> (\<exists>c \<in> set p. c \<notin> {CHR ''-'', CHR ''.'', CHR ''_''})"
proof (cases "List.find (\<lambda>r. prefix r dir) TEMP_ROOTS")
  case None
  with assms show ?thesis by (simp add: collapse_volatile_def)
next
  case (Some root)
  obtain first tail where d: "dir = root @ first @ tail" "CHR ''/'' \<notin> set first" "slash_tail tail"
    and cv: "collapse_volatile dir = (case collapse_segment first of Some c \<Rightarrow> root @ c @ tail | None \<Rightarrow> dir)"
    by (rule collapse_volatile_temp [OF assms(1) Some])
  with assms(2) obtain c where c: "collapse_segment first = Some c" by (auto split: option.splits)
  then obtain p where p: "c = p @ ''*''" "prefix p first" "length p + 6 \<le> length first" "\<not> bare p"
    by (rule collapse_segment_Some)
  then obtain gone where gone: "first = p @ gone" by (auto simp: prefix_def)
  moreover have "6 \<le> length gone" using p(3) gone by simp
  moreover have "root \<in> set TEMP_ROOTS" using find_in_set [OF Some] by blast
  moreover have "\<exists>c \<in> set p. c \<notin> {CHR ''-'', CHR ''.'', CHR ''_''}"
    using p(4) by (auto simp: bare_def list_all_iff)
  ultimately show ?thesis
    using d cv c p(1) by (intro exI [of _ root] exI [of _ p] exI [of _ gone] exI [of _ tail]) simp
qed

theorem collapse_keeps_the_name_witness:
  "\<exists>root p gone tail. root \<in> set TEMP_ROOTS \<and> ''/tmp/bun-dl-UfNh13/x'' = root @ p @ gone @ tail
    \<and> ''/tmp/bun-dl-*/x'' = root @ p @ ''*'' @ tail"
proof -
  have "collapse_ephemeral_worktree ''/tmp/bun-dl-UfNh13/x'' = None"
    and c: "collapse_volatile ''/tmp/bun-dl-UfNh13/x'' = ''/tmp/bun-dl-*/x''" by code_simp+
  with collapse_keeps_the_name [of "''/tmp/bun-dl-UfNh13/x''"] show ?thesis unfolding c by fastforce
qed

end
