(* ===== verification/Rarity_Store.thy ===== *)
theory Rarity_Store
  imports Collapse "HOL-Library.AList"
begin

text \<open>
  The second part of \<open>moatd/src/rarity.rs\<close>: the tuples and their keys, and the store of decayed
  counters with \<open>peek\<close>, \<open>observe\<close>, \<open>is_familiar\<close>, \<open>forget_dst\<close> and \<open>prune\<close>.

  The weights are \<open>f64\<close> numbers, and the store only adds 1 to them, decays them with \<open>powf\<close> and
  compares them. They are a type with a linear order (no weight is a NaN) and the operations are a
  parameter \<open>weighing\<close>. The map of the counters is a list of pairs with distinct keys: its order is
  the order in which \<open>HashMap\<close> iterates, about which nothing is assumed.
\<close>

section \<open>Tuples\<close>

datatype rtuple =
    Parent string string
  | File string string string
  | Net string string nat
  | PkgChild string string

text \<open>The fields in the order of the declarations: \<open>Parent exe parent\<close>, \<open>File exe dir verb\<close>,
  \<open>Net exe dst port\<close>, \<open>PkgChild root child\<close>.\<close>

fun kind :: "rtuple \<Rightarrow> string" where
  "kind (Parent _ _) = ''parent''"
| "kind (File _ _ _) = ''file''"
| "kind (Net _ _ _) = ''net''"
| "kind (PkgChild _ _) = ''pkgchild''"

abbreviation sep :: char where "sep \<equiv> CHR 0x01"

fun key_parts :: "rtuple \<Rightarrow> string list" where
  "key_parts (Parent exe parent) = [parent, exe]"
| "key_parts (File exe dir verb) = [exe, dir]"
| "key_parts (Net exe dst port) = [exe, dst, show_nat port]"
| "key_parts (PkgChild root child) = [root, child]"

definition key :: "rtuple \<Rightarrow> string" where
  "key t = kind t @ [sep] @ join_with [sep] (key_parts t)"

fun phrase :: "rtuple \<Rightarrow> string" where
  "phrase (Parent exe parent) = parent @ '' has launched '' @ exe"
| "phrase (File exe dir verb) = exe @ '' has '' @ verb @ '' '' @ dir"
| "phrase (Net exe dst port) = exe @ '' has connected to '' @ dst @ '':'' @ show_nat port"
| "phrase (PkgChild root child) = root @ '' has spawned '' @ child"

definition tuple_file :: "string \<Rightarrow> string \<Rightarrow> string \<Rightarrow> rtuple" where
  "tuple_file exe path verb = File (collapse_volatile exe) (dir_of path) verb"

definition tuple_parent :: "string \<Rightarrow> string \<Rightarrow> rtuple" where
  "tuple_parent exe parent = Parent (collapse_volatile exe) (collapse_volatile parent)"

definition tuple_pkg_child :: "string \<Rightarrow> string \<Rightarrow> rtuple" where
  "tuple_pkg_child root child = PkgChild (collapse_volatile root) (collapse_volatile child)"

definition tuple_net :: "string \<Rightarrow> string \<Rightarrow> nat \<Rightarrow> string option \<Rightarrow> rtuple" where
  "tuple_net exe ip port domain =
     Net (collapse_volatile exe) (case domain of Some d \<Rightarrow> d | None \<Rightarrow> slash24 ip) port"

section \<open>The store\<close>

record 'w weighing =
  wg_zero :: 'w
  wg_inc :: "'w \<Rightarrow> 'w"
  wg_decay :: "nat \<Rightarrow> 'w \<Rightarrow> 'w"
  wg_floor :: 'w

record 'w counter =
  ct_decayed :: 'w
  ct_total :: nat
  ct_first_seen :: nat
  ct_last_seen :: nat

record 'w rarity_store =
  ra_counters :: "(string \<times> 'w counter) list"
  ra_rare_max_count :: nat
  ra_rare_max_age_days :: nat
  ra_dirty :: bool

definition FAMILIAR_MIN_SPREAD_SECS :: nat where "FAMILIAR_MIN_SPREAD_SECS = 3600"
definition MAX_COUNTERS :: nat where "MAX_COUNTERS = 50000"

record rarity_info =
  ri_class :: rarity
  ri_text :: string
  ri_kind :: string
  ri_key :: string
  ri_total :: nat
  ri_first_seen :: nat

definition is_familiar :: "'w rarity_store \<Rightarrow> rtuple \<Rightarrow> nat \<Rightarrow> bool" where
  "is_familiar s t now =
     (case map_of (ra_counters s) (key t) of
        None \<Rightarrow> False
      | Some c \<Rightarrow>
          (if ct_total c < max (ra_rare_max_count s) 2 then False
           else let spread = ct_last_seen c - ct_first_seen c;
                    stale = (now - ct_last_seen c > ra_rare_max_age_days s * 86400)
                in spread \<ge> FAMILIAR_MIN_SPREAD_SECS \<and> \<not> stale))"

definition knows_destination :: "'w rarity_store \<Rightarrow> string \<Rightarrow> string \<Rightarrow> nat \<Rightarrow> nat \<Rightarrow> bool" where
  "knows_destination s exe ip port now = is_familiar s (tuple_net exe ip port None) now"

text \<open>Which keys a destination reaches; the dropped keys and the store without them.\<close>

definition forgets :: "string \<Rightarrow> string \<Rightarrow> bool" where
  "forgets dst k \<longleftrightarrow> prefix (''net'' @ [sep]) k \<and> sublist ([sep] @ dst @ [sep]) k"

definition forget_dst :: "string \<Rightarrow> 'w rarity_store \<Rightarrow> string list \<times> 'w rarity_store" where
  "forget_dst dst0 s =
     (let dst = slash24 dst0; hits = filter (forgets dst) (map fst (ra_counters s))
      in (hits, s\<lparr>ra_counters := filter (\<lambda>(k, c). k \<notin> set hits) (ra_counters s)\<rparr>))"

text \<open>\<open>date_of\<close> prints a day of the calendar: a parameter.\<close>

definition peek :: "(nat \<Rightarrow> string) \<Rightarrow> 'w rarity_store \<Rightarrow> rtuple \<Rightarrow> nat \<Rightarrow> rarity_info" where
  "peek date_of s t now =
     (case map_of (ra_counters s) (key t) of
        None \<Rightarrow> \<lparr>ri_class = FirstSeen, ri_text = ''first time '' @ phrase t @ '' on this machine'',
                 ri_kind = kind t, ri_key = key t, ri_total = 0, ri_first_seen = 0\<rparr>
      | Some c \<Rightarrow>
          (let stale_after = ra_rare_max_age_days s * 86400; age = now - ct_last_seen c;
               class = (if ct_total c < ra_rare_max_count s \<or> age > stale_after then Rare else Common);
               txt = phrase t @ '': seen '' @ show_nat (ct_total c) @ '' time''
                     @ (if ct_total c = 1 then [] else ''s'') @ '' since '' @ date_of (ct_first_seen c)
                     @ (if age > stale_after
                        then '', but nothing in the last '' @ show_nat (age div 86400) @ '' days'' else [])
           in \<lparr>ri_class = class, ri_text = txt, ri_kind = kind t, ri_key = key t,
               ri_total = ct_total c, ri_first_seen = ct_first_seen c\<rparr>))"

definition decay :: "'w weighing \<Rightarrow> 'w counter \<Rightarrow> nat \<Rightarrow> 'w" where
  "decay w c now = wg_decay w (now - ct_last_seen c) (ct_decayed c)"

definition prune_cold :: "('w::linorder) weighing \<Rightarrow> nat \<Rightarrow> (string \<times> 'w counter) list
    \<Rightarrow> (string \<times> 'w counter) list" where
  "prune_cold w now cs = filter (\<lambda>(k, c). decay w c now \<ge> wg_floor w) cs"

text \<open>\<open>retain\<close> with the counter \<open>dropped\<close>: the first \<open>n\<close> entries that satisfy the test go.\<close>

fun drop_first :: "nat \<Rightarrow> ('a \<Rightarrow> bool) \<Rightarrow> 'a list \<Rightarrow> 'a list" where
  "drop_first n p [] = []"
| "drop_first n p (x # xs) =
     (case n of 0 \<Rightarrow> x # xs
      | Suc m \<Rightarrow> if p x then drop_first m p xs else x # drop_first n p xs)"

definition evict_coldest :: "('w::linorder) weighing \<Rightarrow> nat \<Rightarrow> nat \<Rightarrow> (string \<times> 'w counter) list
    \<Rightarrow> (string \<times> 'w counter) list" where
  "evict_coldest w now surplus cs =
     (let weights = map (\<lambda>(k, c). decay w c now) cs; i = min surplus (length weights - 1);
          threshold = sort weights ! i
      in drop_first surplus (\<lambda>(k, c). decay w c now \<le> threshold) cs)"

definition prune_counters :: "('w::linorder) weighing \<Rightarrow> nat \<Rightarrow> 'w rarity_store \<Rightarrow> 'w rarity_store" where
  "prune_counters w now s =
     (let cs = prune_cold w now (ra_counters s);
          s1 = s\<lparr>ra_counters := cs,
                 ra_dirty := ra_dirty s \<or> length cs \<noteq> length (ra_counters s)\<rparr>
      in if length cs > MAX_COUNTERS then
           let target = MAX_COUNTERS - MAX_COUNTERS div 10; surplus = length cs - target in
           s1\<lparr>ra_counters := evict_coldest w now surplus cs, ra_dirty := True\<rparr>
         else s1)"

definition bump :: "'w weighing \<Rightarrow> nat \<Rightarrow> 'w counter option \<Rightarrow> 'w counter" where
  "bump w now old =
     (let decayed_before = (case old of Some c \<Rightarrow> decay w c now | None \<Rightarrow> wg_zero w);
          e = (case old of Some c \<Rightarrow> c
               | None \<Rightarrow> \<lparr>ct_decayed = wg_zero w, ct_total = 0, ct_first_seen = now, ct_last_seen = now\<rparr>)
      in e\<lparr>ct_decayed := wg_inc w decayed_before, ct_total := ct_total e + 1, ct_last_seen := now,
           ct_first_seen := (if ct_first_seen e = 0 then now else ct_first_seen e)\<rparr>)"

definition count_tuple :: "('w::linorder) weighing \<Rightarrow> rtuple \<Rightarrow> nat \<Rightarrow> 'w rarity_store \<Rightarrow> 'w rarity_store" where
  "count_tuple w t now s =
     (let k = key t;
          s1 = s\<lparr>ra_counters := AList.update k (bump w now (map_of (ra_counters s) k)) (ra_counters s),
                 ra_dirty := True\<rparr>
      in if length (ra_counters s1) > MAX_COUNTERS then prune_counters w now s1 else s1)"

definition observe_tuple :: "(nat \<Rightarrow> string) \<Rightarrow> ('w::linorder) weighing \<Rightarrow> rtuple \<Rightarrow> nat
    \<Rightarrow> 'w rarity_store \<Rightarrow> rarity_info \<times> 'w rarity_store" where
  "observe_tuple date_of w t now s = (peek date_of s t now, count_tuple w t now s)"

section \<open>Keys\<close>

definition clean_tuple :: "rtuple \<Rightarrow> bool" where
  "clean_tuple t \<longleftrightarrow> (\<forall>p \<in> set (key_parts t). sep \<notin> set p)"

lemma sep_show_nat: "sep \<notin> set (show_nat n)"
  using digits_show_nat [of sep n] by (auto simp: is_digit_def)

lemma key_split: "clean_tuple t \<Longrightarrow> split_on sep (key t) = kind t # key_parts t"
proof -
  assume "clean_tuple t"
  then have "split_on sep (join_with [sep] (key_parts t)) = key_parts t"
    by (intro split_on_join) (cases t; auto simp: clean_tuple_def)+
  moreover have "sep \<notin> set (kind t)" by (cases t) auto
  ultimately show ?thesis by (simp add: key_def)
qed

text \<open>The same tuple up to the word for the access, which is not part of the key.\<close>

definition same_tuple :: "rtuple \<Rightarrow> rtuple \<Rightarrow> bool" where
  "same_tuple t u =
     (case (t, u) of (File e d _, File e' d' _) \<Rightarrow> e = e' \<and> d = d' | _ \<Rightarrow> t = u)"

text \<open>The storage key identifies the tuple. Tuples whose fields have no separator byte in them
  have the same key only if they are of the same kind and agree in every field; only the word for
  the access of a file tuple is not part of its key.\<close>

theorem keys_identify_tuples:
  assumes "clean_tuple t" and "clean_tuple u"
  shows "key t = key u \<longleftrightarrow> same_tuple t u"
proof
  assume "key t = key u"
  then have "kind t # key_parts t = kind u # key_parts u" using assms key_split by metis
  then show "same_tuple t u"
    by (cases t; cases u) (auto simp: same_tuple_def show_nat_inj)
next
  assume "same_tuple t u"
  then show "key t = key u" by (cases t; cases u) (auto simp: same_tuple_def key_def)
qed

theorem keys_identify_tuples_witness:
  "key (Net ''/usr/bin/curl'' ''1.2.3.0/24'' 443) \<noteq> key (Net ''/usr/bin/curl'' ''1.2.3.0/24'' 80)"
  using keys_identify_tuples [of "Net ''/usr/bin/curl'' ''1.2.3.0/24'' 443" "Net ''/usr/bin/curl'' ''1.2.3.0/24'' 80"]
  by (simp add: clean_tuple_def same_tuple_def sep_show_nat)

section \<open>The map of counters\<close>

definition keyed :: "'w rarity_store \<Rightarrow> bool" where
  "keyed s \<longleftrightarrow> distinct (map fst (ra_counters s))"

lemma drop_first_subseq: "subseq (drop_first n p xs) xs"
  by (induction n p xs rule: drop_first.induct) (auto split: nat.splits)

lemma length_drop_first: "n \<le> length (filter p xs) \<Longrightarrow> length (drop_first n p xs) + n = length xs"
  by (induction n p xs rule: drop_first.induct) (auto split: nat.splits)

lemma subseq_map_of:
  assumes "subseq ys xs" and "distinct (map fst xs)" and "map_of ys k = Some v"
  shows "map_of xs k = Some v"
proof -
  have "set ys \<subseteq> set xs" using assms(1) by (auto simp: subseq_conv_nths dest: in_set_nthsD)
  then have "(k, v) \<in> set xs" using assms(3) map_of_SomeD by fast
  with assms(2) show ?thesis by (simp add: map_of_eq_Some_iff)
qed

lemma subseq_distinct_keys: "subseq ys xs \<Longrightarrow> distinct (map fst xs) \<Longrightarrow> distinct (map fst ys)"
  by (metis subseq_distinct subseq_map)

lemma prune_subseq: "subseq (ra_counters (prune_counters w now s)) (ra_counters s)"
proof -
  have cold: "subseq (prune_cold w now cs) cs" for cs by (simp add: prune_cold_def)
  have "subseq (evict_coldest w now n cs) cs" for n cs
    by (simp add: evict_coldest_def Let_def drop_first_subseq)
  with cold have "subseq (evict_coldest w now n (prune_cold w now cs)) cs" for n cs
    using subseq_order.order_trans by blast
  with cold show ?thesis by (simp add: prune_counters_def Let_def)
qed

lemma length_filter_sort: "length (filter p (sort xs)) = length (filter p xs)"
  by (simp add: filter_sort)

lemma enough_below_threshold:
  fixes xs :: "('w::linorder) list"
  assumes "n < length xs"
  shows "n < length (filter (\<lambda>x. x \<le> sort xs ! n) xs)"
proof -
  let ?s = "sort xs"
  have "\<forall>x \<in> set (take (Suc n) ?s). x \<le> ?s ! n"
    using assms by (auto simp: in_set_conv_nth intro!: sorted_nth_mono)
  then have "filter (\<lambda>x. x \<le> ?s ! n) (take (Suc n) ?s) = take (Suc n) ?s" by simp
  then have "Suc n \<le> length (filter (\<lambda>x. x \<le> ?s ! n) (take (Suc n) ?s @ drop (Suc n) ?s))"
    using assms by (simp only: filter_append length_append) simp
  then have "Suc n \<le> length (filter (\<lambda>x. x \<le> ?s ! n) ?s)" by (simp only: append_take_drop_id)
  then show ?thesis by (simp add: length_filter_sort)
qed

lemma length_evict:
  assumes "n < length cs"
  shows "length (evict_coldest w now n cs) + n = length cs"
proof -
  let ?f = "\<lambda>(k, c). decay w c now"
  have "n < length (filter (\<lambda>x. x \<le> sort (map ?f cs) ! n) (map ?f cs))"
    using assms by (intro enough_below_threshold) simp
  then have "n \<le> length (filter (\<lambda>(k, c). decay w c now \<le> sort (map ?f cs) ! n) cs)"
    unfolding split_beta' by (simp add: filter_map comp_def)
  moreover have "min n (length (map ?f cs) - 1) = n" using assms by simp
  ultimately show ?thesis unfolding evict_coldest_def Let_def by (simp add: length_drop_first)
qed

lemma length_prune:
  "length (ra_counters (prune_counters w now s)) \<le> MAX_COUNTERS"
proof -
  let ?cs = "prune_cold w now (ra_counters s)"
  let ?n = "length ?cs - (MAX_COUNTERS - MAX_COUNTERS div 10)"
  show ?thesis
  proof (cases "length ?cs > MAX_COUNTERS")
    case True
    then have "?n < length ?cs" by (simp add: MAX_COUNTERS_def)
    from length_evict [OF this, of w now] True show ?thesis
      by (simp add: prune_counters_def Let_def MAX_COUNTERS_def)
  next
    case False
    then show ?thesis by (simp add: prune_counters_def Let_def)
  qed
qed

lemma count_subseq:
  "subseq (ra_counters (count_tuple w t now s))
     (AList.update (key t) (bump w now (map_of (ra_counters s) (key t))) (ra_counters s))"
  using prune_subseq [of w now "s\<lparr>ra_counters := AList.update (key t)
    (bump w now (map_of (ra_counters s) (key t))) (ra_counters s), ra_dirty := True\<rparr>"]
  by (simp add: count_tuple_def Let_def)

lemma keyed_count: "keyed s \<Longrightarrow> keyed (count_tuple w t now s)"
  unfolding keyed_def by (rule subseq_distinct_keys [OF count_subseq distinct_update])

lemma count_map_of:
  assumes "keyed s" and "map_of (ra_counters (count_tuple w t now s)) k = Some c"
  shows "if k = key t then c = bump w now (map_of (ra_counters s) k)
    else map_of (ra_counters s) k = Some c"
  using subseq_map_of [OF count_subseq _ assms(2)] assms(1)
  by (auto simp: keyed_def distinct_update update_conv')

section \<open>What counting promises\<close>

definition count_all :: "('w::linorder) weighing \<Rightarrow> (rtuple \<times> nat) list \<Rightarrow> 'w rarity_store \<Rightarrow> 'w rarity_store" where
  "count_all w evs s = fold (\<lambda>(t, now). count_tuple w t now) evs s"

lemma keyed_count_all: "keyed s \<Longrightarrow> keyed (count_all w evs s)"
  by (induction evs arbitrary: s) (auto simp: count_all_def keyed_count)

lemma count_length: "length (ra_counters s) \<le> MAX_COUNTERS \<Longrightarrow> length (ra_counters (count_tuple w t now s)) \<le> MAX_COUNTERS"
  using length_prune by (auto simp: count_tuple_def Let_def not_less)

lemma count_settings [simp]:
  "ra_rare_max_count (count_tuple w t now s) = ra_rare_max_count s"
  "ra_rare_max_age_days (count_tuple w t now s) = ra_rare_max_age_days s"
  by (simp_all add: count_tuple_def prune_counters_def Let_def)

lemma count_all_length:
  "length (ra_counters s) \<le> MAX_COUNTERS \<Longrightarrow> length (ra_counters (count_all w evs s)) \<le> MAX_COUNTERS"
  by (induction evs arbitrary: s) (auto simp: count_all_def count_length)

text \<open>The store cannot be made to grow. Whatever tuples are counted, in whatever order the map
  iterates and however the weights decay, it never holds more than 50000 counters and no key twice;
  when a prune cannot get under the cap by dropping cold counters it goes down to 45000.\<close>

theorem counters_are_capped:
  assumes "keyed s" and "length (ra_counters s) \<le> MAX_COUNTERS"
  shows "keyed (count_all w evs s) \<and> length (ra_counters (count_all w evs s)) \<le> 50000
    \<and> (length (prune_cold w now (ra_counters t)) > MAX_COUNTERS
       \<longrightarrow> length (ra_counters (prune_counters w now t)) = 45000)"
proof -
  let ?cs = "prune_cold w now (ra_counters t)"
  have "length (ra_counters (prune_counters w now t)) = 45000" if "length ?cs > MAX_COUNTERS"
  proof -
    let ?n = "length ?cs - (MAX_COUNTERS - MAX_COUNTERS div 10)"
    have "?n < length ?cs" using that by (simp add: MAX_COUNTERS_def)
    from length_evict [OF this, of w now] that show ?thesis
      by (simp add: prune_counters_def Let_def MAX_COUNTERS_def)
  qed
  with assms keyed_count_all count_all_length [of s w evs] show ?thesis by (auto simp: MAX_COUNTERS_def)
qed

definition nat_weighing :: "nat weighing" where
  "nat_weighing = \<lparr>wg_zero = 0, wg_inc = Suc, wg_decay = (\<lambda>_ x. x), wg_floor = 1\<rparr>"

definition empty_store :: "'w rarity_store" where
  "empty_store = \<lparr>ra_counters = [], ra_rare_max_count = 5, ra_rare_max_age_days = 90, ra_dirty = False\<rparr>"

lemma empty_store_facts [simp]: "keyed empty_store" "ra_counters empty_store = []"
  by (simp_all add: keyed_def empty_store_def)

theorem counters_are_capped_witness:
  "keyed (count_all nat_weighing [(Net ''c'' ''d'' 1, 5)] empty_store)"
  using counters_are_capped [of "empty_store :: nat rarity_store" nat_weighing "[(Net ''c'' ''d'' 1, 5)]" 0 empty_store]
  by (simp add: MAX_COUNTERS_def)

text \<open>The times of a counter stay inside the interval of the events.\<close>

definition seen_within :: "nat \<Rightarrow> nat \<Rightarrow> string \<Rightarrow> 'w rarity_store \<Rightarrow> bool" where
  "seen_within a b k s \<longleftrightarrow>
     (\<forall>c. map_of (ra_counters s) k = Some c \<longrightarrow> a \<le> ct_first_seen c \<and> ct_last_seen c \<le> b)"

lemma seen_within_count:
  assumes "keyed s" and "seen_within a b k s" and "a \<le> now" and "now \<le> b"
  shows "seen_within a b k (count_tuple w t now s)"
  unfolding seen_within_def
proof (intro allI impI)
  fix c assume "map_of (ra_counters (count_tuple w t now s)) k = Some c"
  with count_map_of [OF assms(1)] have
    "if k = key t then c = bump w now (map_of (ra_counters s) k) else map_of (ra_counters s) k = Some c"
    by blast
  with assms(2-4) show "a \<le> ct_first_seen c \<and> ct_last_seen c \<le> b"
    by (auto simp: seen_within_def bump_def Let_def split: option.splits if_splits)
qed

lemma seen_within_all:
  "keyed s \<Longrightarrow> seen_within a b k s \<Longrightarrow> \<forall>(t, now) \<in> set evs. a \<le> now \<and> now \<le> b
    \<Longrightarrow> seen_within a b k (count_all w evs s)"
  by (induction evs arbitrary: s) (auto simp: count_all_def keyed_count seen_within_count)

text \<open>A burst cannot buy familiarity. However often a destination (or any other tuple) is
  counted, in any mix with other tuples, if this machine had no counter for it and all of it
  happens within less than an hour, then it is not familiar: not then and not at any later time
  without another sighting. Elapsed time is what the answer costs.\<close>

theorem a_burst_is_not_familiarity:
  assumes "keyed s" and "map_of (ra_counters s) (key t) = None"
    and "\<forall>(u, now) \<in> set evs. a \<le> now \<and> now \<le> b" and "b < a + 3600"
  shows "\<not> is_familiar (count_all w evs s) t later"
proof -
  have "seen_within a b (key t) (count_all w evs s)"
    using assms(1-3) by (intro seen_within_all) (auto simp: seen_within_def)
  with assms(4) show ?thesis
    by (auto simp: is_familiar_def seen_within_def Let_def FAMILIAR_MIN_SPREAD_SECS_def
        split: option.splits)
qed

theorem a_burst_is_not_familiarity_witness:
  "\<not> is_familiar (count_all nat_weighing (map (\<lambda>n. (Net ''c2'' ''1.2.3.0/24'' 443, 1000 + n)) [0..<40])
      empty_store) (Net ''c2'' ''1.2.3.0/24'' 443) 90000"
  by (rule a_burst_is_not_familiarity [of _ _ _ 1000 1040]) auto

text \<open>First time means first time. The answer is taken from the history before the event: it is
  "first seen" exactly when there was no counter. Below the cap the event then adds one to the
  honest count of its own tuple, keeps when it was first seen, and touches no other counter.\<close>

theorem first_time_means_first_time:
  assumes "keyed s" and "length (ra_counters s) < MAX_COUNTERS"
    and "observe_tuple date_of w t now s = (info, s')"
  shows "(ri_class info = FirstSeen \<longleftrightarrow> map_of (ra_counters s) (key t) = None)
    \<and> (\<exists>c. map_of (ra_counters s') (key t) = Some c \<and> ct_total c = ri_total info + 1 \<and> ct_last_seen c = now
         \<and> (ri_first_seen info \<noteq> 0 \<longrightarrow> ct_first_seen c = ri_first_seen info))
    \<and> (\<forall>k. k \<noteq> key t \<longrightarrow> map_of (ra_counters s') k = map_of (ra_counters s) k)"
proof -
  have len: "length (AList.update (key t) v xs) \<le> Suc (length xs)" for v and xs :: "(string \<times> 'a counter) list"
    by (induction xs) auto
  have s': "ra_counters s' =
      AList.update (key t) (bump w now (map_of (ra_counters s) (key t))) (ra_counters s)"
    using assms(2,3) len [of "bump w now (map_of (ra_counters s) (key t))" "ra_counters s"]
    by (auto simp: observe_tuple_def count_tuple_def Let_def)
  have info: "info = peek date_of s t now" using assms(3) by (simp add: observe_tuple_def)
  show ?thesis
  proof (cases "map_of (ra_counters s) (key t)")
    case None
    then show ?thesis by (simp add: s' info peek_def update_conv' bump_def)
  next
    case (Some c)
    then show ?thesis by (simp add: s' info peek_def Let_def update_conv' bump_def)
  qed
qed

theorem first_time_means_first_time_witness:
  "ri_class (fst (observe_tuple (\<lambda>_. []) nat_weighing (Parent ''a'' ''b'') 7 empty_store)) = FirstSeen"
  using first_time_means_first_time [of empty_store "\<lambda>_. []" nat_weighing "Parent ''a'' ''b''" 7,
      OF _ _ prod.collapse [symmetric]] by (simp add: MAX_COUNTERS_def)

section \<open>Forgetting a destination\<close>

lemma split_on_mid: "split_on c (u @ c # v) = split_on c u @ split_on c v"
proof (induction u)
  case (Cons x u)
  then show ?case by (cases "split_on c u") (auto split: list.splits)
qed simp

lemma join_with_append:
  "xs \<noteq> [] \<Longrightarrow> ys \<noteq> [] \<Longrightarrow> join_with [c] (xs @ ys) = join_with [c] xs @ c # join_with [c] ys"
proof (induction xs)
  case (Cons x xs)
  then show ?case by (cases "xs = []") (simp_all add: join_with_Cons)
qed simp

text \<open>The parts between two separators.\<close>

definition inner :: "'a list \<Rightarrow> 'a list" where
  "inner xs = butlast (tl xs)"

lemma inner_iff: "x \<in> set (inner xs) \<longleftrightarrow> (\<exists>a b. xs = a @ x # b \<and> a \<noteq> [] \<and> b \<noteq> [])"
proof
  assume "x \<in> set (inner xs)"
  then obtain p q where pq: "butlast (tl xs) = p @ x # q" by (auto simp: inner_def in_set_conv_decomp)
  then have "tl xs \<noteq> []" by auto
  then have "xs = (hd xs # p) @ x # (q @ [last (tl xs)])"
    using pq by (metis append_Cons append_assoc append_butlast_last_id list.collapse tl_Nil)
  then show "\<exists>a b. xs = a @ x # b \<and> a \<noteq> [] \<and> b \<noteq> []" by blast
next
  assume "\<exists>a b. xs = a @ x # b \<and> a \<noteq> [] \<and> b \<noteq> []"
  then obtain a b where ab: "xs = a @ x # b" "a \<noteq> []" "b \<noteq> []" by blast
  then have "tl xs = tl a @ x # b" by simp
  with ab show "x \<in> set (inner xs)" by (simp add: inner_def butlast_append)
qed

lemma sublist_inner:
  assumes "c \<notin> set d"
  shows "sublist ([c] @ d @ [c]) s \<longleftrightarrow> d \<in> set (inner (split_on c s))"
proof
  assume "sublist ([c] @ d @ [c]) s"
  then obtain u v where "s = u @ c # (d @ c # v)" by (auto simp: sublist_def)
  with assms have "split_on c s = split_on c u @ d # split_on c v" by (simp add: split_on_mid)
  then show "d \<in> set (inner (split_on c s))" unfolding inner_iff by (metis split_on_not_Nil)
next
  assume "d \<in> set (inner (split_on c s))"
  then obtain a b where ab: "split_on c s = a @ d # b" "a \<noteq> []" "b \<noteq> []" by (auto simp: inner_iff)
  have "s = join_with [c] (split_on c s)" by simp
  also have "\<dots> = join_with [c] a @ c # (d @ [c] @ join_with [c] b)"
    using ab by (simp add: join_with_append join_with_Cons)
  finally have "s = join_with [c] a @ ([c] @ d @ [c]) @ join_with [c] b" by simp
  then show "sublist ([c] @ d @ [c]) s" unfolding sublist_def by blast
qed

lemma net_prefix:
  assumes "clean_tuple t"
  shows "prefix (''net'' @ [sep]) (key t) \<longleftrightarrow> kind t = ''net''"
proof
  assume "prefix (''net'' @ [sep]) (key t)"
  then obtain v where "key t = ''net'' @ sep # v" by (auto simp: prefix_def)
  moreover have "split_on sep (''net'' @ sep # v) = ''net'' # split_on sep v" by (rule split_on_append) simp
  ultimately show "kind t = ''net''" using key_split [OF assms] by simp
qed (simp add: key_def)

lemma forgets_key:
  assumes "clean_tuple t" and "sep \<notin> set dst"
  shows "forgets dst (key t) \<longleftrightarrow> (\<exists>exe d port. t = Net exe d port \<and> (d = dst \<or> exe = dst))"
  unfolding forgets_def net_prefix [OF assms(1)] sublist_inner [OF assms(2)] key_split [OF assms(1)]
  by (cases t) (auto simp: inner_def)

lemma forget_dst_map:
  "map_of (ra_counters (snd (forget_dst dst s))) k =
     (if forgets (slash24 dst) k then None else map_of (ra_counters s) k)"
proof -
  have filt: "filter (\<lambda>(k', c). \<not> (P k' \<and> k' \<in> fst ` set cs)) cs = filter (\<lambda>(k', c). \<not> P k') cs"
    for P and cs :: "(string \<times> 'a counter) list"
    by (rule filter_cong) force+
  have "map_of (filter (\<lambda>(k', c). \<not> P k') cs) k = (if P k then None else map_of cs k)"
    for P and cs :: "(string \<times> 'a counter) list"
    by (induction cs) auto
  from this [of "forgets (slash24 dst)" "ra_counters s"] show ?thesis
    using filt [of "forgets (slash24 dst)" "ra_counters s"]
    by (simp add: forget_dst_def Let_def conj_commute)
qed

lemma slash24_clean: "sep \<notin> set ip \<Longrightarrow> sep \<notin> set (slash24 ip)"
proof -
  assume ip: "sep \<notin> set ip"
  have "sep \<notin> set x" if "x \<in> set (split_on CHR ''.'' ip)" for x
    using split_on_sub [OF that] ip by auto
  then show ?thesis using ip nth_mem [of _ "split_on CHR ''.'' ip"] by (auto simp: slash24_def Let_def)
qed

text \<open>Forgetting a destination forgets it for every program and every port, and no counter of
  another kind is lost. What is dropped are exactly the network counters with that destination (for
  an IPv4 address its /24) and, since the key is searched for the bare word, also every network
  counter of a program whose path is that word.\<close>

theorem forgetting_is_for_everyone:
  assumes "clean_tuple t" and "sep \<notin> set dst"
  shows "map_of (ra_counters (snd (forget_dst dst s))) (key t) =
    (if (\<exists>exe d port. t = Net exe d port \<and> (d = slash24 dst \<or> exe = slash24 dst)) then None
     else map_of (ra_counters s) (key t))"
  unfolding forget_dst_map forgets_key [OF assms(1) slash24_clean [OF assms(2)]] ..

definition two_counters :: "nat rarity_store" where
  "two_counters = count_all nat_weighing
     [(Net ''/usr/bin/curl'' ''1.2.3.0/24'' 443, 5), (Net ''/usr/bin/wget'' ''9.9.9.0/24'' 80, 6)] empty_store"

theorem forgetting_is_for_everyone_witness:
  "map_of (ra_counters (snd (forget_dst ''1.2.3.77'' two_counters))) (key (Net ''/usr/bin/curl'' ''1.2.3.0/24'' 443)) = None
   \<and> map_of (ra_counters (snd (forget_dst ''/usr/bin/wget'' two_counters))) (key (Net ''/usr/bin/wget'' ''9.9.9.0/24'' 80)) = None"
proof -
  have "slash24 ''1.2.3.77'' = ''1.2.3.0/24''" "slash24 ''/usr/bin/wget'' = ''/usr/bin/wget''" by code_simp+
  then show ?thesis
    using forgetting_is_for_everyone [of "Net ''/usr/bin/curl'' ''1.2.3.0/24'' 443" "''1.2.3.77''" two_counters]
      forgetting_is_for_everyone [of "Net ''/usr/bin/wget'' ''9.9.9.0/24'' 80" "''/usr/bin/wget''" two_counters]
    by (simp add: clean_tuple_def sep_show_nat)
qed

text \<open>The eviction does not always drop the coldest counters. The threshold is one place too
  high in the sorted weights, and entries at or below it go in the order of the map: with one
  counter to drop, a warmer one can go while the coldest stays.\<close>

theorem eviction_can_keep_the_coldest:
  "map fst (evict_coldest nat_weighing 0 1
     [(''warm'', \<lparr>ct_decayed = 7, ct_total = 7, ct_first_seen = 0, ct_last_seen = 0\<rparr>),
      (''cold'', \<lparr>ct_decayed = 1, ct_total = 1, ct_first_seen = 0, ct_last_seen = 0\<rparr>),
      (''hot'', \<lparr>ct_decayed = 9, ct_total = 9, ct_first_seen = 0, ct_last_seen = 0\<rparr>)]) = [''cold'', ''hot'']"
  by (simp add: evict_coldest_def decay_def nat_weighing_def Let_def)

end
