(* ===== verification/Codec.thy ===== *)
theory Codec
  imports Text_Lines Netmatch
begin

text \<open>
  The encodings of \<open>moatd/src/util.rs\<close> (\<open>hex\<close>, \<open>from_hex\<close>, \<open>to_base64\<close>, \<open>from_base64\<close>) and the base64
  reader of \<open>moatd/src/names.rs\<close>. The accumulator of a base64 reader is a \<open>u32\<close> that is shifted
  without ever being cleared: its upper bits fall off, and the proofs are about words of 32 bits.
\<close>

section \<open>Hexadecimal\<close>

definition hex_digit :: "nat \<Rightarrow> char" where
  "hex_digit n = ''0123456789abcdef'' ! n"

definition to_hex :: "octets \<Rightarrow> string" where
  "to_hex bytes = concat (map (\<lambda>b. [hex_digit (unat b div 16), hex_digit (unat b mod 16)]) bytes)"

fun hex_pairs :: "string \<Rightarrow> octets option" where
  "hex_pairs (h # l # s) =
     (case (hex_val h, hex_val l) of
        (Some a, Some b) \<Rightarrow> map_option ((#) (of_nat (a * 16 + b))) (hex_pairs s)
      | _ \<Rightarrow> None)"
| "hex_pairs _ = Some []"

definition from_hex :: "string \<Rightarrow> octets option" where
  "from_hex s0 =
     (let s = trim s0 in if s = [] \<or> length s mod 2 \<noteq> 0 then None else hex_pairs s)"

lemma hex_val_digit: "n < 16 \<Longrightarrow> hex_val (hex_digit n) = Some n \<and> \<not> is_white (hex_digit n)"
proof -
  have "list_all (\<lambda>n. hex_val (hex_digit n) = Some n \<and> \<not> is_white (hex_digit n)) [0..<16]" by code_simp
  then show "n < 16 \<Longrightarrow> ?thesis" by (simp add: list_all_iff)
qed

lemma unat_byte: "unat (b :: 8 word) < 256"
proof -
  have "unat b < 2 ^ LENGTH(8)" by (rule unsigned_less)
  then show ?thesis by simp
qed

lemma hex_pairs_to_hex: "hex_pairs (to_hex bytes) = Some bytes"
proof (induction bytes)
  case (Cons b bytes)
  have "unat b < 256" by (rule unat_byte)
  then have "unat b div 16 < 16" "unat b mod 16 < 16" by auto
  moreover have "of_nat (unat b div 16 * 16 + unat b mod 16) = b" by (simp only: div_mult_mod_eq) simp
  ultimately show ?case using Cons by (simp add: to_hex_def hex_val_digit)
qed (simp add: to_hex_def)

lemma dropWhile_none: "\<forall>c \<in> set s. \<not> P c \<Longrightarrow> dropWhile P s = s"
  by (cases s) auto

lemma trim_free: "\<forall>c \<in> set s. \<not> is_white c \<Longrightarrow> trim s = s"
  by (simp add: trim_def trim_start_def trim_end_def dropWhile_none)

lemma to_hex_free: "c \<in> set (to_hex bytes) \<Longrightarrow> \<not> is_white c"
proof -
  assume "c \<in> set (to_hex bytes)"
  then obtain b :: "8 word" where "c = hex_digit (unat b div 16) \<or> c = hex_digit (unat b mod 16)"
    by (auto simp: to_hex_def)
  moreover have "unat b < 256" by (rule unat_byte)
  then have "unat b div 16 < 16" "unat b mod 16 < 16" by auto
  ultimately show ?thesis using hex_val_digit by auto
qed

lemma length_to_hex: "length (to_hex bytes) = 2 * length bytes"
  by (induction bytes) (simp_all add: to_hex_def)

section \<open>Base64\<close>

definition B64 :: string where
  "B64 = ''ABCDEFGHIJKLMNOPQRSTUVWXYZabcdefghijklmnopqrstuvwxyz0123456789+/''"

definition b64_digit :: "32 word \<Rightarrow> char" where
  "b64_digit n = B64 ! unat (n AND 63)"

definition b64_group :: "8 word \<Rightarrow> 8 word \<Rightarrow> 8 word \<Rightarrow> 32 word" where
  "b64_group a b c = push_bit 16 (ucast a) OR push_bit 8 (ucast b) OR ucast c"

fun to_base64 :: "octets \<Rightarrow> string" where
  "to_base64 [] = []"
| "to_base64 [a] =
     (let n = b64_group a 0 0 in [b64_digit (drop_bit 18 n), b64_digit (drop_bit 12 n), CHR ''='', CHR ''=''])"
| "to_base64 [a, b] =
     (let n = b64_group a b 0 in
      [b64_digit (drop_bit 18 n), b64_digit (drop_bit 12 n), b64_digit (drop_bit 6 n), CHR ''=''])"
| "to_base64 (a # b # c # rest) =
     (let n = b64_group a b c in
      [b64_digit (drop_bit 18 n), b64_digit (drop_bit 12 n), b64_digit (drop_bit 6 n), b64_digit n]
      @ to_base64 rest)"

datatype b64_char = Skip | Bad | Digit nat

definition b64_letter :: "char \<Rightarrow> nat option" where
  "b64_letter ch =
     (if is_upper ch then Some (of_char ch - 65)
      else if is_lower ch then Some (of_char ch - 97 + 26)
      else if is_digit ch then Some (of_char ch - 48 + 52)
      else None)"

definition b64_any :: "char \<Rightarrow> b64_char" where
  "b64_any ch =
     (case b64_letter ch of Some v \<Rightarrow> Digit v
      | None \<Rightarrow>
          if ch = CHR ''+'' \<or> ch = CHR ''-'' then Digit 62
          else if ch = CHR ''/'' \<or> ch = CHR ''_'' then Digit 63
          else if ch = CHR ''='' then Skip
          else if ch \<in> {CHR 0x0A, CHR 0x0D, CHR '' '', CHR 0x09} then Skip
          else Bad)"

definition b64_standard :: "char \<Rightarrow> b64_char" where
  "b64_standard ch =
     (case b64_letter ch of Some v \<Rightarrow> Digit v
      | None \<Rightarrow>
          if ch = CHR ''+'' then Digit 62
          else if ch = CHR ''/'' then Digit 63
          else if ch \<in> {CHR ''='', CHR 0x0A, CHR 0x0D, CHR '' ''} then Skip
          else Bad)"

fun b64_loop :: "(char \<Rightarrow> b64_char) \<Rightarrow> 32 word \<Rightarrow> nat \<Rightarrow> string \<Rightarrow> octets option" where
  "b64_loop val acc bits [] = Some []"
| "b64_loop val acc bits (ch # s) =
     (case val ch of
        Bad \<Rightarrow> None
      | Skip \<Rightarrow> b64_loop val acc bits s
      | Digit v \<Rightarrow>
          (let acc' = push_bit 6 acc OR of_nat v; bits' = bits + 6 in
           if bits' \<ge> 8
           then map_option ((#) (ucast (drop_bit (bits' - 8) acc'))) (b64_loop val acc' (bits' - 8) s)
           else b64_loop val acc' bits' s))"

definition from_base64 :: "string \<Rightarrow> octets option" where
  "from_base64 s = b64_loop b64_any 0 0 (trim s)"

definition base64_decode :: "string \<Rightarrow> octets option" where
  "base64_decode s = b64_loop b64_standard 0 0 s"

text \<open>A reader that knows the digits and skips the padding.\<close>

definition reads_standard :: "(char \<Rightarrow> b64_char) \<Rightarrow> bool" where
  "reads_standard val \<longleftrightarrow> (\<forall>n < 64. val (B64 ! n) = Digit n) \<and> val CHR ''='' = Skip"

lemma digits_nth:
  assumes "map f B64 = map Digit [0..<64]"
  shows "list_all (\<lambda>n. f (B64 ! n) = Digit n) [0..<64]"
proof -
  have len: "length B64 = 64" by (simp add: B64_def)
  have "f (B64 ! n) = Digit n" if "n < 64" for n
  proof -
    have "map f B64 ! n = map Digit [0..<64] ! n" by (simp only: assms)
    with that len show ?thesis by simp
  qed
  then show ?thesis by (simp add: list_all_iff)
qed

lemma readers_standard: "reads_standard b64_any" "reads_standard b64_standard"
proof -
  have "map b64_any B64 = map Digit [0..<64]"
    by (simp add: B64_def b64_any_def b64_letter_def is_upper_def is_lower_def is_digit_def upt_rec)
  then have "list_all (\<lambda>n. b64_any (B64 ! n) = Digit n) [0..<64]" by (rule digits_nth)
  moreover have "map b64_standard B64 = map Digit [0..<64]"
    by (simp add: B64_def b64_standard_def b64_letter_def is_upper_def is_lower_def is_digit_def upt_rec)
  then have "list_all (\<lambda>n. b64_standard (B64 ! n) = Digit n) [0..<64]" by (rule digits_nth)
  moreover have "b64_any CHR ''='' = Skip" "b64_standard CHR ''='' = Skip"
    by (simp_all add: b64_any_def b64_standard_def b64_letter_def is_upper_def is_lower_def is_digit_def)
  ultimately show "reads_standard b64_any" "reads_standard b64_standard"
    by (simp_all add: reads_standard_def list_all_iff)
qed

lemma sixty_three: "(63 :: 32 word) = mask 6"
  by (simp add: mask_eq_exp_minus_1)

lemma read_digit: "reads_standard val \<Longrightarrow> val (b64_digit n) = Digit (unat (n AND 63))"
proof -
  assume r: "reads_standard val"
  have "unat (n AND 63) < 64"
    using and_mask_less' [of 6 n] by (simp add: sixty_three word_less_nat_alt)
  with r show ?thesis by (simp add: reads_standard_def b64_digit_def)
qed

text \<open>Two rounds of the loop put the bits of two digits at the bottom of the accumulator.\<close>

lemma bit_byte_limit: "bit (w :: 8 word) i \<Longrightarrow> i < 8"
  using bit_imp_le_length [of w i] by simp

lemma group_bits:
  shows "i < 8 \<Longrightarrow> bit (b64_group a b c) i = bit c i"
    and "i < 8 \<Longrightarrow> bit (b64_group a b c) (i + 8) = bit b i"
    and "i < 8 \<Longrightarrow> bit (b64_group a b c) (i + 16) = bit a i"
  by (auto simp: b64_group_def bit_simps dest: bit_byte_limit)

lemma round_low: "i < 6 \<Longrightarrow> bit (push_bit 6 u OR (v AND 63) :: 32 word) i = bit v i"
  by (auto simp: sixty_three bit_simps)

lemma round_high: "i < 6 \<Longrightarrow> bit (push_bit 6 u OR (v AND 63) :: 32 word) (i + 6) = bit u i"
  by (auto simp: sixty_three bit_simps)

lemma round_drop: "i + k < 32 \<Longrightarrow> bit (drop_bit k (n :: 32 word)) i = bit n (i + k)"
  by (simp add: bit_simps ac_simps)

lemma two_rounds:
  assumes "i < 12" and "k + 12 \<le> 32"
  shows "bit (push_bit 6 (push_bit 6 u OR (drop_bit (k + 6) n AND 63)) OR (drop_bit k n AND 63) :: 32 word) i
    = bit n (i + k)"
proof (cases "i < 6")
  case True
  with assms show ?thesis by (simp only: round_low round_drop)
next
  case False
  define j where "j = i - 6"
  with False assms have j: "i = j + 6" "j < 6" by auto
  with assms(2) have "j + (k + 6) < 32" by linarith
  then have "bit (drop_bit (k + 6) n) j = bit n (j + (k + 6))" by (rule round_drop)
  with j show ?thesis by (simp only: round_high round_low) (simp add: ac_simps)
qed

lemma group_bytes:
  fixes acc :: "32 word"
  assumes n: "n = b64_group a b c" and x: "x = push_bit 6 (push_bit 6 acc OR (drop_bit 18 n AND 63)) OR (drop_bit 12 n AND 63)"
    and y: "y = push_bit 6 x OR (drop_bit 6 n AND 63)" and z: "z = push_bit 6 y OR (n AND 63)"
  shows "ucast (drop_bit 4 x) = a" and "ucast (drop_bit 2 y) = b" and "ucast z = c"
proof -
  have low: "bit (ucast (drop_bit k w) :: 8 word) i = bit w (i + k)" if "i < 8" "i + k < 32"
    for k i and w :: "32 word" using that by (simp add: bit_simps ac_simps)
  have bx: "bit x i = bit n (i + 12)" if "i < 12" for i
    using two_rounds [OF that, of 12 acc n] by (simp add: x)
  have "y = push_bit 6 (push_bit 6 (push_bit 6 acc OR (drop_bit 18 n AND 63)) OR (drop_bit (6 + 6) n AND 63))
      OR (drop_bit 6 n AND 63)" by (simp add: y x)
  then have b_y: "bit y i = bit n (i + 6)" if "i < 12" for i
    using two_rounds [OF that, of 6 "push_bit 6 acc OR (drop_bit 18 n AND 63)" n] by simp
  have "z = push_bit 6 (push_bit 6 x OR (drop_bit (0 + 6) n AND 63)) OR (drop_bit 0 n AND 63)"
    by (simp add: z y)
  then have bz: "bit z i = bit n (i + 0)" if "i < 12" for i
    using two_rounds [OF that, of 0 x n] by simp
  show "ucast (drop_bit 4 x) = a"
    by (rule bit_word_eqI) (simp add: low bx group_bits(3) n add.assoc)
  show "ucast (drop_bit 2 y) = b"
    by (rule bit_word_eqI) (simp add: low b_y n add.commute [of 8] group_bits(2))
  have "bit (ucast (drop_bit 0 z) :: 8 word) i = bit c i" if "i < 8" for i
    using that by (simp only: low bz) (simp add: bz group_bits(1) n)
  then show "ucast z = c" by (intro bit_word_eqI) simp
qed

lemma b64_loop_group:
  assumes "reads_standard val"
  shows "b64_loop val acc 0 (to_base64 bytes) = Some bytes"
proof (induction bytes arbitrary: acc rule: to_base64.induct)
  case 1
  show ?case by simp
next
  case (2 a)
  note r = read_digit [OF assms] and eq = assms [unfolded reads_standard_def, THEN conjunct2]
  show ?case
    using group_bytes(1) [OF refl refl refl refl, of acc a 0 0]
    by (simp add: Let_def r eq)
next
  case (3 a b)
  note r = read_digit [OF assms] and eq = assms [unfolded reads_standard_def, THEN conjunct2]
  show ?case
    using group_bytes(1,2) [OF refl refl refl refl, of acc a b 0]
    by (simp add: Let_def r eq)
next
  case (4 a b c rest)
  note r = read_digit [OF assms]
  show ?case
    using group_bytes [OF refl refl refl refl, of acc a b c] "4.IH"
    by (simp add: Let_def r)
qed

lemma to_base64_set: "ch \<in> set (to_base64 bytes) \<Longrightarrow> ch = CHR ''='' \<or> (\<exists>n. ch = b64_digit n)"
  by (induction bytes rule: to_base64.induct) (auto simp: Let_def)

lemma b64_digit_visible: "\<not> is_white (b64_digit n)"
proof -
  have "list_all (\<lambda>i. \<not> is_white (B64 ! i)) [0..<64]" by code_simp
  moreover have "unat (n AND 63) < 64"
    using and_mask_less' [of 6 n] by (simp add: sixty_three word_less_nat_alt)
  ultimately show ?thesis by (simp add: b64_digit_def list_all_iff)
qed

text \<open>Keys and signatures survive their text form. Hexadecimal and base64 decode to the bytes they
  were made from, for every byte string, with the reader of the updates as with the one of the name
  stream, although the 32-bit accumulator is never cleared; only the empty string is refused by the
  strict hexadecimal reader.\<close>

theorem encodings_round_trip:
  "from_base64 (to_base64 bytes) = Some bytes \<and> base64_decode (to_base64 bytes) = Some bytes
   \<and> from_hex (to_hex bytes) = (if bytes = [] then None else Some bytes)"
proof (intro conjI)
  have "\<forall>ch \<in> set (to_base64 bytes). \<not> is_white ch"
    using to_base64_set b64_digit_visible by (fastforce simp: is_white_def)
  then have "trim (to_base64 bytes) = to_base64 bytes" by (rule trim_free)
  then show "from_base64 (to_base64 bytes) = Some bytes"
    by (simp add: from_base64_def b64_loop_group readers_standard)
  show "base64_decode (to_base64 bytes) = Some bytes"
    by (simp add: base64_decode_def b64_loop_group readers_standard)
  have "trim (to_hex bytes) = to_hex bytes" using to_hex_free by (intro trim_free) blast
  then show "from_hex (to_hex bytes) = (if bytes = [] then None else Some bytes)"
    using length_to_hex [of bytes]
    by (cases "bytes = []") (auto simp: from_hex_def Let_def hex_pairs_to_hex)
qed

end
