(* ===== verification/Json_Value.thy ===== *)
theory Json_Value
  imports Text_Numbers
begin

text \<open>
  A JSON value as the crate \<open>serde_json\<close> has it, with the accessors the program uses. An object is a
  list of pairs: \<open>get\<close> takes the first of two equal keys, of which the parser keeps one. A number
  that is no 64-bit integer is kept as its text.
\<close>

datatype json =
    JNull
  | JBool bool
  | JInt int
  | JFloat string
  | JStr string
  | JArr "json list"
  | JObj "(string \<times> json) list"

fun jget :: "string \<Rightarrow> json \<Rightarrow> json option" where
  "jget k (JObj kvs) = map_of kvs k"
| "jget k _ = None"

fun as_u64 :: "json \<Rightarrow> nat option" where
  "as_u64 (JInt n) = (if 0 \<le> n \<and> n < 2 ^ 64 then Some (nat n) else None)"
| "as_u64 _ = None"

fun as_str :: "json \<Rightarrow> string option" where
  "as_str (JStr s) = Some s"
| "as_str _ = None"

fun as_array :: "json \<Rightarrow> json list option" where
  "as_array (JArr xs) = Some xs"
| "as_array _ = None"

fun as_i64 :: "json \<Rightarrow> int option" where
  "as_i64 (JInt n) = (if - (2 ^ 63) \<le> n \<and> n < 2 ^ 63 then Some n else None)"
| "as_i64 _ = None"

lemma as_str_Some [simp]: "as_str v = Some s \<longleftrightarrow> v = JStr s"
  by (cases v) auto

lemma as_u64_bound: "as_u64 v = Some n \<Longrightarrow> n < 2 ^ 64"
  by (cases v) (auto split: if_splits)

lemma as_i64_bound: "as_i64 v = Some n \<Longrightarrow> - (2 ^ 63) \<le> n \<and> n < 2 ^ 63"
  by (cases v) (auto split: if_splits)

end
