(* ===== verification/Names.thy ===== *)
theory Names
  imports Codec Json_Value "HOL-Library.AList"
begin

text \<open>
  \<open>moatd/src/names.rs\<close>: the names that systemd-resolved reports for addresses. The address cache
  \<open>NameCache\<close> and the log of who asked \<open>QueryLog\<close>, both bounded and aged, and the parsing of the
  stream: messages, replies, the TTL of a wire record. The threads and sockets are not modelled. \<close>

section \<open>The address cache\<close>

record resolved =
  rv_question :: string
  rv_answer_name :: "string option"
  rv_ip :: ip_addr
  rv_ttl :: "nat option"

record name_entry =
  en_question :: string
  en_answer_name :: "string option"
  en_ttl :: "nat option"
  en_at :: nat

record lookup_result =
  lk_name :: string
  lk_cname :: "string option"
  lk_age_secs :: nat
  lk_ttl :: "nat option"

record name_cache =
  nc_by_ip :: "(ip_addr \<times> name_entry list) list"
  nc_order :: "ip_addr list"
  nc_retain_secs :: nat
  nc_max_addresses :: nat
  nc_recorded :: nat

definition PER_IP :: nat where "PER_IP = 4"

definition new_cache :: "nat \<Rightarrow> nat \<Rightarrow> name_cache" where
  "new_cache retain max_addresses = \<lparr>nc_by_ip = [], nc_order = [], nc_retain_secs = retain,
     nc_max_addresses = max max_addresses 1, nc_recorded = 0\<rparr>"

definition entry_of :: "resolved \<Rightarrow> nat \<Rightarrow> name_entry" where
  "entry_of r now = \<lparr>en_question = rv_question r, en_answer_name = rv_answer_name r, en_ttl = rv_ttl r,
     en_at = now\<rparr>"

definition refresh :: "name_entry \<Rightarrow> name_entry list \<Rightarrow> name_entry list" where
  "refresh e q = take PER_IP (e # filter (\<lambda>x. en_question x \<noteq> en_question e) q)"

definition make_room :: "name_cache \<Rightarrow> name_cache" where
  "make_room c =
     (if length (nc_by_ip c) \<ge> nc_max_addresses c then
        (case nc_order c of
           [] \<Rightarrow> c
         | old # rest \<Rightarrow> c\<lparr>nc_order := rest, nc_by_ip := AList.delete old (nc_by_ip c)\<rparr>)
      else c)"

definition record_name :: "resolved \<Rightarrow> nat \<Rightarrow> name_cache \<Rightarrow> name_cache" where
  "record_name r now c0 =
     (let c = c0\<lparr>nc_recorded := nc_recorded c0 + 1\<rparr>; e = entry_of r now in
      case map_of (nc_by_ip c) (rv_ip r) of
        Some q \<Rightarrow> c\<lparr>nc_by_ip := AList.update (rv_ip r) (refresh e q) (nc_by_ip c)\<rparr>
      | None \<Rightarrow>
          (let c1 = make_room c in
           c1\<lparr>nc_by_ip := AList.update (rv_ip r) [e] (nc_by_ip c1), nc_order := nc_order c1 @ [rv_ip r]\<rparr>))"

definition lookup_name :: "name_cache \<Rightarrow> ip_addr \<Rightarrow> nat \<Rightarrow> lookup_result option" where
  "lookup_name c ip now =
     (case map_of (nc_by_ip c) ip of
        None \<Rightarrow> None
      | Some q \<Rightarrow>
          (case q of [] \<Rightarrow> None
           | e # _ \<Rightarrow>
               (let age = now - en_at e in
                if age > nc_retain_secs c then None
                else Some \<lparr>lk_name = en_question e, lk_cname = en_answer_name e, lk_age_secs = age,
                           lk_ttl = en_ttl e\<rparr>)))"

definition prune_names :: "nat \<Rightarrow> name_cache \<Rightarrow> name_cache" where
  "prune_names now c =
     (let fresh = (\<lambda>e. now - en_at e \<le> nc_retain_secs c);
          kept = filter (\<lambda>(ip, q). q \<noteq> []) (map (\<lambda>(ip, q). (ip, filter fresh q)) (nc_by_ip c))
      in c\<lparr>nc_by_ip := kept, nc_order := filter (\<lambda>ip. ip \<in> fst ` set kept) (nc_order c)\<rparr>)"

section \<open>Who asked\<close>

text \<open>Lower case, no trailing dot.\<close>

definition normalize_name :: "string \<Rightarrow> string" where
  "normalize_name s = to_lower (trim_end_matches CHR ''.'' (trim s))"

record asker =
  as_pid :: nat
  as_exe :: string
  as_at :: nat

record query_log =
  ql_by_name :: "(string \<times> asker) list"
  ql_order :: "string list"
  ql_retain_secs :: nat
  ql_max_names :: nat
  ql_seen :: nat

definition new_log :: "nat \<Rightarrow> nat \<Rightarrow> query_log" where
  "new_log retain max_names = \<lparr>ql_by_name = [], ql_order = [], ql_retain_secs = retain,
     ql_max_names = max max_names 1, ql_seen = 0\<rparr>"

text \<open>The \<open>while\<close> loop at the cap.\<close>

fun pop_oldest :: "nat \<Rightarrow> (string \<times> asker) list \<Rightarrow> string list \<Rightarrow> (string \<times> asker) list \<times> string list" where
  "pop_oldest cap m [] = (m, [])"
| "pop_oldest cap m (x # xs) =
     (if length m > cap then pop_oldest cap (AList.delete x m) xs else (m, x # xs))"

definition record_query :: "string \<Rightarrow> nat \<Rightarrow> string \<Rightarrow> nat \<Rightarrow> query_log \<Rightarrow> query_log" where
  "record_query name0 pid exe now l =
     (let name = normalize_name name0 in
      if name = [] then l
      else
        let known = (map_of (ql_by_name l) name \<noteq> None);
            m = AList.update name \<lparr>as_pid = pid, as_exe = exe, as_at = now\<rparr> (ql_by_name l);
            order = (if known then ql_order l else ql_order l @ [name]);
            (m', order') = pop_oldest (ql_max_names l) m order
        in l\<lparr>ql_seen := ql_seen l + 1, ql_by_name := m', ql_order := order'\<rparr>)"

definition asked_by :: "query_log \<Rightarrow> string \<Rightarrow> nat \<Rightarrow> asker option" where
  "asked_by l name now =
     (case map_of (ql_by_name l) (normalize_name name) of
        None \<Rightarrow> None
      | Some a \<Rightarrow> if now - as_at a \<le> ql_retain_secs l then Some a else None)"

definition prune_log :: "nat \<Rightarrow> query_log \<Rightarrow> query_log" where
  "prune_log now l =
     (let kept = filter (\<lambda>(n, a). now - as_at a \<le> ql_retain_secs l) (ql_by_name l)
      in l\<lparr>ql_by_name := kept, ql_order := filter (\<lambda>n. n \<in> fst ` set kept) (ql_order l)\<rparr>)"

section \<open>JSON replies\<close>

definition QUERY_METHOD :: string where
  "QUERY_METHOD = ''io.systemd.Resolve.ResolveHostname''"

text \<open>The JSON parser is a parameter (the bytes that are not UTF-8 are refused by it).\<close>

definition query_name_from_payload :: "(string \<Rightarrow> json option) \<Rightarrow> string \<Rightarrow> string option" where
  "query_name_from_payload parse bytes =
     Option.bind (parse (trim_end_matches CHR 0x00 bytes)) (\<lambda>v.
     Option.bind (Option.bind (jget ''method'' v) as_str) (\<lambda>m.
       if m \<noteq> QUERY_METHOD then None
       else Option.bind (Option.bind (Option.bind (jget ''parameters'' v) (jget ''name'')) as_str) (\<lambda>n.
         let name = normalize_name n in if name = [] then None else Some name)))"

definition TYPE_A :: nat where "TYPE_A = 1"
definition TYPE_AAAA :: nat where "TYPE_AAAA = 28"

definition question_of :: "json \<Rightarrow> (nat \<times> string) option" where
  "question_of q =
     Option.bind (Option.bind (jget ''type'' q) as_u64) (\<lambda>t.
     Option.bind (Option.bind (jget ''name'' q) as_str) (\<lambda>n. Some (t, normalize_name n)))"

definition get_array :: "string \<Rightarrow> json \<Rightarrow> json list" where
  "get_array k v = (case Option.bind (jget k v) as_array of Some xs \<Rightarrow> xs | None \<Rightarrow> [])"

definition byte_of :: "json \<Rightarrow> 8 word option" where
  "byte_of b = (case as_u64 b of Some n \<Rightarrow> if n < 256 then Some (of_nat n) else None | None \<Rightarrow> None)"

definition address_of :: "nat \<Rightarrow> octets \<Rightarrow> ip_addr option" where
  "address_of rtype bytes =
     (if rtype = TYPE_A \<and> length bytes = 4 then Some (V4 bytes)
      else if rtype = TYPE_AAAA \<and> length bytes = 16 then Some (V6 bytes) else None)"

text \<open>The labels of a wire record end at a zero byte; a compression pointer is refused. The result is
  the index after the name.\<close>

function skip_labels :: "octets \<Rightarrow> nat \<Rightarrow> nat option" where
  "skip_labels bytes i =
     (if i \<ge> length bytes then None
      else let len = unat (bytes ! i) in
           if len = 0 then Some (i + 1)
           else if (bytes ! i AND 0xC0) \<noteq> 0 then None
           else skip_labels bytes (i + 1 + len))"
  by pat_completeness auto
termination by (relation "measure (\<lambda>(bytes, i). length bytes - i)") auto

declare skip_labels.simps [simp del]

definition be32 :: "octets \<Rightarrow> nat" where
  "be32 b = unat (b ! 0) * 2 ^ 24 + unat (b ! 1) * 2 ^ 16 + unat (b ! 2) * 2 ^ 8 + unat (b ! 3)"

definition rr_ttl_from_raw :: "string \<Rightarrow> nat option" where
  "rr_ttl_from_raw b64 =
     Option.bind (base64_decode b64) (\<lambda>bytes.
     Option.bind (skip_labels bytes 0) (\<lambda>i.
       if i + 8 \<le> length bytes then Some (be32 (take 4 (drop (i + 4) bytes))) else None))"

definition answer_of :: "string \<Rightarrow> json \<Rightarrow> resolved option" where
  "answer_of question a =
     Option.bind (jget ''rr'' a) (\<lambda>rr.
     Option.bind (jget ''key'' rr) (\<lambda>key.
     let rtype = (case Option.bind (jget ''type'' key) as_u64 of Some t \<Rightarrow> t | None \<Rightarrow> 0) in
     Option.bind (Option.bind (jget ''address'' rr) as_array) (\<lambda>addr.
     Option.bind (address_of rtype (List.map_filter byte_of addr)) (\<lambda>ip.
     let owner = (case Option.bind (jget ''name'' key) as_str of Some n \<Rightarrow> normalize_name n | None \<Rightarrow> []) in
     Some \<lparr>rv_question = question,
           rv_answer_name = (if owner \<noteq> [] \<and> owner \<noteq> question then Some owner else None),
           rv_ip = ip,
           rv_ttl = Option.bind (Option.bind (jget ''raw'' a) as_str) rr_ttl_from_raw\<rparr>))))"

definition parse_monitor_reply :: "json \<Rightarrow> resolved list" where
  "parse_monitor_reply v =
     (case jget ''parameters'' v of
        None \<Rightarrow> []
      | Some p \<Rightarrow>
          if Option.bind (jget ''state'' p) as_str \<noteq> Some ''success'' then []
          else
            case List.find (\<lambda>(t, n). t = TYPE_A \<or> t = TYPE_AAAA)
                   (List.map_filter question_of (get_array ''question'' p)) of
              None \<Rightarrow> []
            | Some (_, question) \<Rightarrow> List.map_filter (answer_of question) (get_array ''answer'' p))"

section \<open>Messages\<close>

text \<open>The complete messages of the buffer and what is left in it.\<close>

function split_messages :: "octets \<Rightarrow> octets list \<times> octets" where
  "split_messages buf =
     (case position (\<lambda>b. b = 0) buf of
        None \<Rightarrow> ([], buf)
      | Some pos \<Rightarrow>
          (let (ms, rest) = split_messages (drop (Suc pos) buf) in (take pos buf # ms, rest)))"
  by pat_completeness auto
termination
proof (relation "measure length")
  fix buf :: octets and pos assume "position (\<lambda>b. b = 0) buf = Some pos"
  then have "pos < length buf" by (drule_tac position_Some) simp
  then show "(drop (Suc pos) buf, buf) \<in> measure length" by simp
qed simp

declare split_messages.simps [simp del]

section \<open>The cache stays within its bounds and tells only what it was told\<close>

definition wf_cache :: "name_cache \<Rightarrow> bool" where
  "wf_cache c \<longleftrightarrow>
     distinct (map fst (nc_by_ip c)) \<and> distinct (nc_order c) \<and> set (nc_order c) = fst ` set (nc_by_ip c)
     \<and> length (nc_by_ip c) \<le> nc_max_addresses c \<and> 1 \<le> nc_max_addresses c
     \<and> (\<forall>(ip, q) \<in> set (nc_by_ip c). q \<noteq> [] \<and> length q \<le> PER_IP \<and> distinct (map en_question q))"

lemma keys_update: "fst ` set (AList.update k v xs) = insert k (fst ` set xs)"
  by (metis dom_map_of_conv_image_fst dom_fun_upd option.distinct(1) update_conv')

lemma keys_delete: "fst ` set (AList.delete k xs) = fst ` set xs - {k}"
  by (metis dom_fun_upd dom_map_of_conv_image_fst delete_conv')

lemma length_keys: "distinct (map fst xs) \<Longrightarrow> length xs = card (fst ` set xs)"
  by (metis distinct_card length_map list.set_map)

lemma set_update_val: "(k', v') \<in> set (AList.update k v xs) \<Longrightarrow> (k', v') = (k, v) \<or> (k', v') \<in> set xs"
  by (induction xs) (auto split: if_splits)

lemma set_delete_sub: "set (AList.delete k xs) \<subseteq> set xs"
  by (auto simp: AList.delete_eq)

lemma distinct_refresh:
  "distinct (map en_question q) \<Longrightarrow> distinct (map en_question (refresh e q))"
proof -
  assume "distinct (map en_question q)"
  then have "distinct (map en_question (e # filter (\<lambda>x. en_question x \<noteq> en_question e) q))"
    by (auto simp: distinct_map_filter)
  then show ?thesis unfolding refresh_def take_map [symmetric] by (rule distinct_take)
qed

lemma refresh_facts: "refresh e q \<noteq> []" "length (refresh e q) \<le> PER_IP" "hd (refresh e q) = e"
  by (simp_all add: refresh_def PER_IP_def)

lemma wf_make_room:
  assumes "wf_cache c"
  shows "wf_cache (make_room c) \<and> length (nc_by_ip (make_room c)) < nc_max_addresses c"
proof (cases "length (nc_by_ip c) \<ge> nc_max_addresses c")
  case True
  with assms have "nc_by_ip c \<noteq> []" by (auto simp: wf_cache_def)
  then obtain ip where "ip \<in> fst ` set (nc_by_ip c)" by (cases "nc_by_ip c") auto
  with assms obtain old rest where o: "nc_order c = old # rest"
    by (cases "nc_order c") (auto simp: wf_cache_def)
  with assms True have mk: "make_room c = c\<lparr>nc_order := rest, nc_by_ip := AList.delete old (nc_by_ip c)\<rparr>"
    by (simp add: make_room_def)
  have old: "old \<in> fst ` set (nc_by_ip c)" using assms o by (auto simp: wf_cache_def)
  have d: "distinct (map fst (AList.delete old (nc_by_ip c)))"
    using assms by (simp add: wf_cache_def distinct_delete)
  have "length (AList.delete old (nc_by_ip c)) = length (nc_by_ip c) - 1"
    unfolding length_keys [OF d] keys_delete using assms old
    by (simp add: wf_cache_def length_keys [of "nc_by_ip c"])
  moreover have "length (nc_by_ip c) \<noteq> 0" using \<open>nc_by_ip c \<noteq> []\<close> by simp
  ultimately show ?thesis
    using assms o d set_delete_sub [of old "nc_by_ip c"] True
    by (auto simp: mk wf_cache_def keys_delete)
next
  case False
  with assms show ?thesis by (simp add: make_room_def)
qed

lemma make_room_max [simp]:
  "nc_max_addresses (make_room c) = nc_max_addresses c" "nc_retain_secs (make_room c) = nc_retain_secs c"
  by (simp_all add: make_room_def split: list.split)

lemma make_room_sub: "map_of (nc_by_ip (make_room c)) ip = Some q \<Longrightarrow> map_of (nc_by_ip c) ip = Some q"
  by (auto simp: make_room_def delete_conv' split: if_splits list.splits)

lemma length_update_known:
  "distinct (map fst xs) \<Longrightarrow> k \<in> fst ` set xs \<Longrightarrow> length (AList.update k v xs) = length xs"
  by (metis distinct_update insert_absorb keys_update length_keys)

lemma length_update_new:
  "distinct (map fst xs) \<Longrightarrow> k \<notin> fst ` set xs \<Longrightarrow> length (AList.update k v xs) = Suc (length xs)"
  by (simp add: length_keys distinct_update keys_update)

lemma wf_record_name: "wf_cache c \<Longrightarrow> wf_cache (record_name r now c)"
proof -
  assume wf0: "wf_cache c"
  let ?c = "c\<lparr>nc_recorded := nc_recorded c + 1\<rparr>" and ?e = "entry_of r now" and ?ip = "rv_ip r"
  have wf: "wf_cache ?c" using wf0 by (simp add: wf_cache_def)
  show ?thesis
  proof (cases "map_of (nc_by_ip ?c) ?ip")
    case (Some q)
    then have mem: "(?ip, q) \<in> set (nc_by_ip c)" by (simp add: map_of_SomeD)
    then have key: "?ip \<in> fst ` set (nc_by_ip c)" by force
    have "q \<noteq> [] \<and> distinct (map en_question q)" using mem wf0 by (auto simp: wf_cache_def)
    then show ?thesis
      using wf0 Some key refresh_facts [of ?e q] distinct_refresh [of q ?e]
      by (auto simp: record_name_def Let_def wf_cache_def distinct_update keys_update insert_absorb
          length_update_known dest!: set_update_val)
  next
    case None
    let ?m = "make_room ?c"
    have m: "wf_cache ?m" "length (nc_by_ip ?m) < nc_max_addresses c" using wf_make_room [OF wf] by auto
    have new: "?ip \<notin> fst ` set (nc_by_ip ?m)"
    proof
      assume "?ip \<in> fst ` set (nc_by_ip ?m)"
      then obtain q where "map_of (nc_by_ip ?m) ?ip = Some q"
        by (metis map_of_eq_None_iff not_Some_eq)
      from make_room_sub [OF this] None show False by simp
    qed
    have order: "?ip \<notin> set (nc_order ?m)" using m new by (simp add: wf_cache_def)
    let ?new = "AList.update ?ip [?e] (nc_by_ip ?m)"
    have rec: "record_name r now c = ?m\<lparr>nc_by_ip := ?new, nc_order := nc_order ?m @ [?ip]\<rparr>"
      using None by (simp add: record_name_def Let_def)
    have "length ?new \<le> nc_max_addresses ?m"
      using m new length_update_new [of "nc_by_ip ?m" ?ip "[?e]"] by (simp add: wf_cache_def)
    moreover have "\<forall>(ip, q) \<in> set ?new. q \<noteq> [] \<and> length q \<le> PER_IP \<and> distinct (map en_question q)"
    proof (clarify)
      fix ip q assume "(ip, q) \<in> set ?new"
      then have "(ip, q) = (?ip, [?e]) \<or> (ip, q) \<in> set (nc_by_ip ?m)" by (rule set_update_val)
      with m(1) show "q \<noteq> [] \<and> length q \<le> PER_IP \<and> distinct (map en_question q)"
        by (auto simp: wf_cache_def PER_IP_def)
    qed
    moreover have "distinct (map fst ?new)" using m(1) by (simp add: wf_cache_def distinct_update)
    moreover have "set (nc_order ?m @ [?ip]) = fst ` set ?new"
      using m(1) by (simp add: wf_cache_def keys_update)
    ultimately show ?thesis using m(1) order unfolding rec wf_cache_def by simp
  qed
qed

lemma prune_elements:
  "(ip, q) \<in> set (nc_by_ip (prune_names now c)) \<Longrightarrow>
     \<exists>q0. (ip, q0) \<in> set (nc_by_ip c) \<and> q = filter (\<lambda>e. now - en_at e \<le> nc_retain_secs c) q0 \<and> q \<noteq> []"
  by (auto simp: prune_names_def Let_def)

lemma prune_distinct: "distinct (map fst (nc_by_ip c)) \<Longrightarrow> distinct (map fst (nc_by_ip (prune_names now c)))"
  by (auto simp: prune_names_def Let_def split_beta o_def intro!: distinct_map_filter)

lemma prune_length: "length (nc_by_ip (prune_names now c)) \<le> length (nc_by_ip c)"
  by (simp add: prune_names_def Let_def le_trans [OF length_filter_le])

lemma prune_order:
  "nc_order (prune_names now c) = filter (\<lambda>ip. ip \<in> fst ` set (nc_by_ip (prune_names now c))) (nc_order c)"
  by (simp add: prune_names_def Let_def)

lemma wf_prune_names: "wf_cache c \<Longrightarrow> wf_cache (prune_names now c)"
proof -
  assume wf: "wf_cache c"
  let ?p = "prune_names now c"
  have sub: "fst ` set (nc_by_ip ?p) \<subseteq> fst ` set (nc_by_ip c)"
    by (force dest: prune_elements)
  then have "set (nc_order ?p) = fst ` set (nc_by_ip ?p)"
    using wf by (auto simp: prune_order wf_cache_def)
  moreover have "distinct (nc_order ?p)" using wf by (simp add: prune_order wf_cache_def)
  moreover have "q \<noteq> [] \<and> length q \<le> PER_IP \<and> distinct (map en_question q)"
    if "(ip, q) \<in> set (nc_by_ip ?p)" for ip q
  proof -
    from prune_elements [OF that] obtain q0 where
      q0: "(ip, q0) \<in> set (nc_by_ip c)" "q = filter (\<lambda>e. now - en_at e \<le> nc_retain_secs c) q0" "q \<noteq> []"
      by blast
    with wf have "length q0 \<le> PER_IP" "distinct (map en_question q0)" by (auto simp: wf_cache_def)
    with q0 show ?thesis
      by (auto simp: distinct_map_filter intro: le_trans [OF length_filter_le])
  qed
  moreover have "nc_max_addresses ?p = nc_max_addresses c" by (simp add: prune_names_def Let_def)
  ultimately show ?thesis
    using wf prune_distinct [of c now] prune_length [of now c] unfolding wf_cache_def by auto
qed

text \<open>The runs of the cache: it starts empty, answers are recorded, the tick prunes.\<close>

inductive cache_run :: "nat \<Rightarrow> nat \<Rightarrow> (resolved \<times> nat) list \<Rightarrow> name_cache \<Rightarrow> bool" for retain mx where
  start: "cache_run retain mx [] (new_cache retain mx)"
| learn: "cache_run retain mx hist c \<Longrightarrow> cache_run retain mx ((r, t) # hist) (record_name r t c)"
| tick: "cache_run retain mx hist c \<Longrightarrow> cache_run retain mx hist (prune_names now c)"

lemma settings_record [simp]:
  "nc_retain_secs (record_name r t c) = nc_retain_secs c"
  "nc_max_addresses (record_name r t c) = nc_max_addresses c"
  "nc_retain_secs (prune_names t c) = nc_retain_secs c"
  "nc_max_addresses (prune_names t c) = nc_max_addresses c"
  by (simp_all add: record_name_def prune_names_def Let_def split: option.split)

lemma wf_new_cache: "wf_cache (new_cache retain mx) \<and> nc_retain_secs (new_cache retain mx) = retain
    \<and> nc_max_addresses (new_cache retain mx) = max mx 1"
  by (simp add: wf_cache_def new_cache_def)

lemma cache_run_wf:
  "cache_run retain mx hist c \<Longrightarrow> wf_cache c \<and> nc_retain_secs c = retain \<and> nc_max_addresses c = max mx 1"
  by (induction rule: cache_run.induct) (auto simp: wf_record_name wf_prune_names wf_new_cache)

definition told :: "(resolved \<times> nat) list \<Rightarrow> name_cache \<Rightarrow> bool" where
  "told hist c \<longleftrightarrow> (\<forall>(ip, q) \<in> set (nc_by_ip c). \<forall>e \<in> set q. \<exists>(r, t) \<in> set hist. rv_ip r = ip \<and> e = entry_of r t)"

lemma told_mono: "told hist c \<Longrightarrow> told (x # hist) c"
  by (fastforce simp: told_def)

lemma toldD:
  "told hist c \<Longrightarrow> (ip, q) \<in> set (nc_by_ip c) \<Longrightarrow> e \<in> set q
    \<Longrightarrow> \<exists>r t. (r, t) \<in> set hist \<and> rv_ip r = ip \<and> e = entry_of r t"
  by (fastforce simp: told_def)

lemma toldI:
  "(\<And>ip q e. (ip, q) \<in> set (nc_by_ip c) \<Longrightarrow> e \<in> set q
    \<Longrightarrow> \<exists>r t. (r, t) \<in> set hist \<and> rv_ip r = ip \<and> e = entry_of r t) \<Longrightarrow> told hist c"
  by (fastforce simp: told_def)

lemma record_elements:
  assumes "(ip, q) \<in> set (nc_by_ip (record_name r now c))" and "e \<in> set q"
  shows "(ip = rv_ip r \<and> e = entry_of r now) \<or> (\<exists>q'. (ip, q') \<in> set (nc_by_ip c) \<and> e \<in> set q')"
proof (cases "map_of (nc_by_ip c) (rv_ip r)")
  case (Some q0)
  then have q0: "(rv_ip r, q0) \<in> set (nc_by_ip c)" by (rule map_of_SomeD)
  from assms(1) Some have "(ip, q) = (rv_ip r, refresh (entry_of r now) q0) \<or> (ip, q) \<in> set (nc_by_ip c)"
    by (auto simp: record_name_def Let_def dest: set_update_val)
  moreover have "x = entry_of r now \<or> x \<in> set q0" if "x \<in> set (refresh (entry_of r now) q0)" for x
    using in_set_takeD [OF that [unfolded refresh_def]] by auto
  ultimately show ?thesis using assms(2) q0 by auto
next
  case None
  let ?m = "make_room (c\<lparr>nc_recorded := nc_recorded c + 1\<rparr>)"
  from assms(1) None have "(ip, q) = (rv_ip r, [entry_of r now]) \<or> (ip, q) \<in> set (nc_by_ip ?m)"
    by (auto simp: record_name_def Let_def dest: set_update_val)
  moreover have "set (nc_by_ip ?m) \<subseteq> set (nc_by_ip c)"
    using set_delete_sub [THEN subsetD] by (auto simp: make_room_def split: list.splits)
  ultimately show ?thesis using assms(2) by auto
qed

lemma cache_run_told: "cache_run retain mx hist c \<Longrightarrow> told hist c"
proof (induction rule: cache_run.induct)
  case start
  show ?case by (simp add: told_def new_cache_def)
next
  case (learn hist c r t)
  show ?case
  proof (rule toldI)
    fix ip q e assume "(ip, q) \<in> set (nc_by_ip (record_name r t c))" "e \<in> set q"
    from record_elements [OF this] show "\<exists>r' t'. (r', t') \<in> set ((r, t) # hist) \<and> rv_ip r' = ip \<and> e = entry_of r' t'"
      using toldD [OF learn.IH] by (metis list.set_intros(1,2))
  qed
next
  case (tick hist c now)
  show ?case
  proof (rule toldI)
    fix ip q e assume "(ip, q) \<in> set (nc_by_ip (prune_names now c))" "e \<in> set q"
    then obtain q' where "(ip, q') \<in> set (nc_by_ip c)" "e \<in> set q'"
      by (auto simp: prune_names_def Let_def)
    then show "\<exists>r t. (r, t) \<in> set hist \<and> rv_ip r = ip \<and> e = entry_of r t" by (rule toldD [OF tick.IH])
  qed
qed

text \<open>A name on an alert is never made up. Whatever answers were recorded and whenever the cache
  was pruned, a lookup tells a name that some answer gave for exactly this address, with that
  answer's canonical name and its true age, and nothing older than the retention; the cache holds
  at most the configured number of addresses and at most four names, all different, for each.\<close>

theorem names_are_never_made_up:
  assumes "cache_run retain mx hist c" and "lookup_name c ip now = Some l"
  shows "(\<exists>(r, t) \<in> set hist. rv_ip r = ip \<and> lk_name l = rv_question r \<and> lk_cname l = rv_answer_name r
      \<and> lk_age_secs l = now - t \<and> now - t \<le> retain)
    \<and> length (nc_by_ip c) \<le> max mx 1
    \<and> (\<forall>(ip, q) \<in> set (nc_by_ip c). length q \<le> 4 \<and> distinct (map en_question q))"
proof -
  note wf = cache_run_wf [OF assms(1)]
  from assms(2) obtain e q where e: "map_of (nc_by_ip c) ip = Some (e # q)" "now - en_at e \<le> nc_retain_secs c"
    "l = \<lparr>lk_name = en_question e, lk_cname = en_answer_name e, lk_age_secs = now - en_at e, lk_ttl = en_ttl e\<rparr>"
    by (auto simp: lookup_name_def Let_def split: option.splits list.splits if_splits)
  then obtain r t where "(r, t) \<in> set hist" "rv_ip r = ip" "e = entry_of r t"
    using toldD [OF cache_run_told [OF assms(1)] map_of_SomeD [OF e(1)], of e] by auto
  with e wf have "\<exists>(r, t) \<in> set hist. rv_ip r = ip \<and> lk_name l = rv_question r \<and> lk_cname l = rv_answer_name r
      \<and> lk_age_secs l = now - t \<and> now - t \<le> retain"
    by (intro bexI [of _ "(r, t)"]) (auto simp: entry_of_def)
  with wf show ?thesis by (auto simp: wf_cache_def PER_IP_def)
qed

definition example_answer :: resolved where
  "example_answer = \<lparr>rv_question = ''example.com'', rv_answer_name = None, rv_ip = V4 [1, 2, 3, 4], rv_ttl = Some 60\<rparr>"

theorem names_are_never_made_up_witness:
  "lookup_name (record_name example_answer 100 (new_cache 3600 8)) (V4 [1, 2, 3, 4]) 160
     = Some \<lparr>lk_name = ''example.com'', lk_cname = None, lk_age_secs = 60, lk_ttl = Some 60\<rparr>
   \<and> length (nc_by_ip (record_name example_answer 100 (new_cache 3600 8))) \<le> 8"
proof -
  have run: "cache_run 3600 8 [(example_answer, 100)] (record_name example_answer 100 (new_cache 3600 8))"
    by (intro cache_run.intros)
  have l: "lookup_name (record_name example_answer 100 (new_cache 3600 8)) (V4 [1, 2, 3, 4]) 160
     = Some \<lparr>lk_name = ''example.com'', lk_cname = None, lk_age_secs = 60, lk_ttl = Some 60\<rparr>"
    by (simp add: lookup_name_def record_name_def make_room_def new_cache_def example_answer_def
        entry_of_def Let_def)
  from names_are_never_made_up [OF run l] l show ?thesis by simp
qed

end
