(* ===== verification/Sensor_Event.thy ===== *)
theory Sensor_Event
  imports Json_Value Codec
begin

text \<open>
  \<open>moatd/src/event.rs\<close>: a line of the sensor's export and what the daemon reads of it. The records
  are the ones serde fills; deserialising a line is the crate's work and a parameter of
  \<open>parse_event\<close>. The accessors say what they answer when the sensor said nothing: the namespace
  answers are options and never a guess.
\<close>

section \<open>The process block\<close>

record namespace =
  ns_inum :: "nat option"
  ns_is_host :: "bool option"

record namespaces =
  ns_mnt :: "namespace option"
  ns_user :: "namespace option"

record capabilities =
  cp_permitted :: "string list"
  cp_effective :: "string list"
  cp_inheritable :: "string list"

record credentials =
  cr_uid :: "nat option"
  cr_gid :: "nat option"
  cr_euid :: "nat option"
  cr_egid :: "nat option"
  cr_suid :: "nat option"
  cr_sgid :: "nat option"
  cr_fsuid :: "nat option"
  cr_fsgid :: "nat option"

record binary_properties =
  bp_setuid :: "nat option"
  bp_setgid :: "nat option"
  bp_privileges_changed :: "string list"
  bp_file :: "json option"

record env_var =
  ev_key :: "string option"
  ev_value :: "string option"

record process =
  p_exec_id :: "string option"
  p_pid :: "nat option"
  p_tid :: "nat option"
  p_uid :: "nat option"
  p_auid :: "nat option"
  p_cwd :: "string option"
  p_binary :: "string option"
  p_arguments :: "string option"
  p_flags :: "string option"
  p_start_time :: "string option"
  p_parent_exec_id :: "string option"
  p_in_init_tree :: "bool option"
  p_ns :: "namespaces option"
  p_cap :: "capabilities option"
  p_credentials :: "credentials option"
  p_binary_properties :: "binary_properties option"
  p_env :: "env_var list"

definition GRAVE :: "string list" where
  "GRAVE =
    [''CAP_SYS_ADMIN'', ''DAC_OVERRIDE'', ''CAP_DAC_OVERRIDE'', ''CAP_DAC_READ_SEARCH'', ''CAP_SETUID'',
     ''CAP_SETGID'', ''CAP_SYS_MODULE'', ''CAP_SYS_PTRACE'', ''CAP_SYS_RAWIO'', ''CAP_BPF'', ''CAP_SYS_BOOT'']"

text \<open>Sorted (by bytes) and without repetition.\<close>

definition grave_caps :: "capabilities \<Rightarrow> string list" where
  "grave_caps c = remdups_adj (sort (filter (\<lambda>x. x \<in> set GRAVE) (cp_effective c @ cp_permitted c)))"

definition caps_empty :: "capabilities \<Rightarrow> bool" where
  "caps_empty c \<longleftrightarrow> cp_permitted c = [] \<and> cp_effective c = [] \<and> cp_inheritable c = []"

definition euid_raised :: "credentials \<Rightarrow> bool" where
  "euid_raised c =
     (case (cr_uid c, cr_euid c) of (Some r, Some e) \<Rightarrow> e \<noteq> r \<and> e = 0 | _ \<Rightarrow> False)"

definition host_identity :: "namespace \<Rightarrow> bool option" where
  "host_identity n =
     (case ns_is_host n of
        Some b \<Rightarrow> Some b
      | None \<Rightarrow> (case ns_inum n of Some i \<Rightarrow> if i > 0 then Some False else None | None \<Rightarrow> None))"

definition in_container :: "process \<Rightarrow> bool option" where
  "in_container p =
     Option.bind (p_ns p) (\<lambda>ns. Option.bind (ns_mnt ns) (\<lambda>m. map_option Not (host_identity m)))"

definition user_ns_is_host :: "process \<Rightarrow> bool option" where
  "user_ns_is_host p = Option.bind (p_ns p) (\<lambda>ns. Option.bind (ns_user ns) host_identity)"

definition dangerous_caps :: "process \<Rightarrow> string list" where
  "dangerous_caps p = (case p_cap p of Some c \<Rightarrow> grave_caps c | None \<Rightarrow> [])"

definition unwrap_str :: "string option \<Rightarrow> string" where
  "unwrap_str s = (case s of Some x \<Rightarrow> x | None \<Rightarrow> [])"

definition unwrap_nat :: "nat option \<Rightarrow> nat" where
  "unwrap_nat n = (case n of Some x \<Rightarrow> x | None \<Rightarrow> 0)"

definition p_exe :: "process \<Rightarrow> string" where "p_exe p = unwrap_str (p_binary p)"
definition p_comm :: "process \<Rightarrow> string" where "p_comm p = basename (p_exe p)"
definition p_args :: "process \<Rightarrow> string" where "p_args p = unwrap_str (p_arguments p)"

definition p_getenv :: "process \<Rightarrow> string \<Rightarrow> string option" where
  "p_getenv p key = Option.bind (List.find (\<lambda>e. ev_key e = Some key) (p_env p)) ev_value"

section \<open>Events\<close>

record exec_event =
  ex_process :: "process option"
  ex_parent :: "process option"
  ex_ancestors :: "process list"

record exit_event =
  xt_process :: "process option"
  xt_parent :: "process option"
  xt_signal :: "string option"
  xt_status :: "nat option"
  xt_time :: "string option"

record hook_event =
  h_process :: "process option"
  h_parent :: "process option"
  h_ancestors :: "process list"
  h_function_name :: "string option"
  h_subsys :: "string option"
  h_event :: "string option"
  h_args :: "json list"
  h_ret :: "json option"
  h_action :: "string option"
  h_return_action :: "string option"
  h_policy_name :: "string option"
  h_message :: "string option"
  h_tags :: "string list"
  h_ima_hash :: "string option"

record throttle_event =
  th_kind :: "string option"
  th_cgroup :: "string option"

record raw_event =
  rw_exec :: "exec_event option"
  rw_exit :: "exit_event option"
  rw_kprobe :: "hook_event option"
  rw_lsm :: "hook_event option"
  rw_tracepoint :: "hook_event option"
  rw_throttle :: "throttle_event option"
  rw_node_name :: "string option"
  rw_time :: "string option"

datatype hook_kind = Kprobe | Lsm | Tracepoint

fun hook_kind_str :: "hook_kind \<Rightarrow> string" where
  "hook_kind_str Kprobe = ''process_kprobe''"
| "hook_kind_str Lsm = ''process_lsm''"
| "hook_kind_str Tracepoint = ''process_tracepoint''"

record hook_hit =
  hh_kind :: hook_kind
  hh_ev :: hook_event

definition parse_event :: "(string \<Rightarrow> raw_event option) \<Rightarrow> string \<Rightarrow> raw_event option" where
  "parse_event decode line0 =
     (let line = trim line0 in
      if line = [] \<or> \<not> prefix ''{'' line then None else decode line)"

definition hook_of :: "raw_event \<Rightarrow> hook_hit option" where
  "hook_of ev =
     (case rw_kprobe ev of
        Some e \<Rightarrow> Some \<lparr>hh_kind = Kprobe, hh_ev = e\<rparr>
      | None \<Rightarrow>
          (case rw_lsm ev of
             Some e \<Rightarrow> Some \<lparr>hh_kind = Lsm, hh_ev = e\<rparr>
           | None \<Rightarrow> map_option (\<lambda>e. \<lparr>hh_kind = Tracepoint, hh_ev = e\<rparr>) (rw_tracepoint ev)))"

section \<open>What a hook carries\<close>

definition hook_name :: "hook_event \<Rightarrow> string" where
  "hook_name e =
     (case h_function_name e of
        Some f \<Rightarrow> f
      | None \<Rightarrow>
          (case (h_subsys e, h_event e) of
             (Some s, Some v) \<Rightarrow> s @ ''/'' @ v
           | (Some s, None) \<Rightarrow> s
           | _ \<Rightarrow> ''unknown''))"

definition policy_name :: "hook_event \<Rightarrow> string" where
  "policy_name e = unwrap_str (h_policy_name e)"

definition arg_file_path :: "json \<Rightarrow> string option" where
  "arg_file_path a =
     find_map (\<lambda>key.
       Option.bind (jget key a) (\<lambda>v.
       Option.bind (jget ''path'' v) (\<lambda>p.
       Option.bind (as_str p) (\<lambda>s. if s = [] then None else Some s))))
       [''file_arg'', ''path_arg'', ''linux_binprm_arg'']"

definition file_path :: "hook_event \<Rightarrow> string option" where
  "file_path e = find_map arg_file_path (h_args e)"

definition binprm_path :: "hook_event \<Rightarrow> string option" where
  "binprm_path e =
     find_map (\<lambda>a. Option.bind (Option.bind (jget ''linux_binprm_arg'' a) (jget ''path'')) as_str) (h_args e)"

text \<open>\<open>trim_start_matches("0x")\<close>: every repetition of the two characters goes.\<close>

fun trim_0x :: "string \<Rightarrow> string" where
  "trim_0x (a # b # s) = (if a = CHR ''0'' \<and> b = CHR ''x'' then trim_0x s else a # b # s)"
| "trim_0x s = s"

definition labelled_mask :: "json list \<Rightarrow> string \<Rightarrow> nat option" where
  "labelled_mask args label =
     Option.bind (List.find (\<lambda>a. Option.bind (jget ''label'' a) as_str = Some label) args) (\<lambda>a.
     Option.bind (Option.bind (jget ''cap_effective_arg'' a) as_str) (\<lambda>s.
     parse_radix hex_val 16 (2 ^ 64) (trim_0x s)))"

definition capability_request :: "hook_event \<Rightarrow> (nat \<times> nat) option" where
  "capability_request e =
     Option.bind (labelled_mask (h_args e) ''old_effective'') (\<lambda>old.
     Option.bind (labelled_mask (h_args e) ''requested_effective'') (\<lambda>req. Some (old, req)))"

text \<open>A 64-bit integer, which the export writes as a string.\<close>

definition json_i64 :: "json \<Rightarrow> int option" where
  "json_i64 v =
     (case as_i64 v of Some i \<Rightarrow> Some i | None \<Rightarrow> Option.bind (as_str v) parse_i64)"

definition int_arg :: "hook_event \<Rightarrow> int option" where
  "int_arg e =
     find_map (\<lambda>a. Option.bind (case jget ''int_arg'' a of Some v \<Rightarrow> Some v | None \<Rightarrow> jget ''uint_arg'' a) json_i64)
       (h_args e)"

definition bytes_arg :: "hook_event \<Rightarrow> octets option" where
  "bytes_arg e =
     find_map (\<lambda>a. Option.bind (Option.bind (jget ''bytes_arg'' a) as_str) from_base64) (h_args e)"

definition string_arg :: "hook_event \<Rightarrow> string option" where
  "string_arg e = find_map (\<lambda>a. Option.bind (jget ''string_arg'' a) as_str) (h_args e)"

text \<open>\<open>unwrap_or(0) as u16\<close>: the low sixteen bits.\<close>

definition port_of :: "json \<Rightarrow> string \<Rightarrow> nat" where
  "port_of s key =
     (case Option.bind (jget key s) json_i64 of Some i \<Rightarrow> nat (i mod 2 ^ 16) | None \<Rightarrow> 0)"

definition endpoint :: "string \<Rightarrow> string \<Rightarrow> json \<Rightarrow> (string \<times> nat) option" where
  "endpoint addr port s = map_option (\<lambda>ip. (ip, port_of s port)) (Option.bind (jget addr s) as_str)"

text \<open>The first argument with the key decides: the function returns when it has no address.\<close>

definition dest :: "hook_event \<Rightarrow> (string \<times> nat) option" where
  "dest e =
     (case find_map (jget ''sockaddr_arg'') (h_args e) of
        Some s \<Rightarrow> endpoint ''addr'' ''port'' s
      | None \<Rightarrow> Option.bind (find_map (jget ''sock_arg'') (h_args e)) (endpoint ''daddr'' ''dport''))"

definition action_is_deny :: "hook_event \<Rightarrow> bool" where
  "action_is_deny e \<longleftrightarrow> h_action e = Some ''KPROBE_ACTION_OVERRIDE''"

definition action_is_kill :: "hook_event \<Rightarrow> bool" where
  "action_is_kill e \<longleftrightarrow> h_action e \<in> {Some ''KPROBE_ACTION_SIGKILL'', Some ''KPROBE_ACTION_SIGNAL''}"

section \<open>Silence is not an answer\<close>

lemma in_container_silent: "p_ns p = None \<Longrightarrow> in_container p = None \<and> user_ns_is_host p = None"
  by (simp add: in_container_def user_ns_is_host_def)

lemma in_container_says:
  "in_container p = Some b \<Longrightarrow> \<exists>ns m. p_ns p = Some ns \<and> ns_mnt ns = Some m
     \<and> (ns_is_host m = Some (\<not> b) \<or> (ns_is_host m = None \<and> b \<and> (\<exists>i > 0. ns_inum m = Some i)))"
  by (auto simp: in_container_def host_identity_def split: Option.bind_splits option.splits if_splits)

lemma grave_caps_set: "set (grave_caps c) = set GRAVE \<inter> (set (cp_effective c) \<union> set (cp_permitted c))"
  by (auto simp: grave_caps_def)

lemma grave_caps_sorted: "sorted (grave_caps c)"
  unfolding grave_caps_def by (rule sorted_remdups_adj) (rule sorted_sort)

lemma grave_caps_distinct: "distinct (grave_caps c)"
  unfolding grave_caps_def by (rule distinct_remdups_adj_sorted) (rule sorted_sort)

lemma port_bound: "port_of s key < 2 ^ 16"
  by (simp add: port_of_def nat_less_iff split: option.split)

lemma dest_port: "dest e = Some (ip, port) \<Longrightarrow> port < 2 ^ 16"
  using port_bound
  by (auto simp: dest_def endpoint_def split: option.splits Option.bind_splits)

end
