(* ===== verification/Exec_Path.thy ===== *)
theory Exec_Path
  imports Text_Lines Text_Numbers
begin

text \<open>
  What a path on a command line stands for. From \<open>moatd/src/util.rs\<close>: the binary behind a file
  descriptor, the test for being under a root, the human home directories. From
  \<open>moatd/src/provenance.rs\<close>: which programs are interpreters, whether one runs a string of code,
  and the script it was handed.
\<close>

section \<open>Paths\<close>

text \<open>The components of \<open>std::path::Path\<close>: the root, a leading dot, and the named ones.\<close>

definition components :: "string \<Rightarrow> string list" where
  "components s =
     (let named = filter (\<lambda>x. x \<noteq> [] \<and> x \<noteq> ''.'') (split_on CHR ''/'' s) in
      if prefix ''/'' s then ''/'' # named
      else if hd (split_on CHR ''/'' s) = ''.'' then ''.'' # named else named)"

definition path_starts_with :: "string \<Rightarrow> string \<Rightarrow> bool" where
  "path_starts_with p r \<longleftrightarrow> prefix (components r) (components p)"

definition path_join :: "string \<Rightarrow> string \<Rightarrow> string" where
  "path_join a b =
     (if prefix ''/'' b then b
      else if a = [] \<or> last a = CHR ''/'' then a @ b else a @ ''/'' @ b)"

definition under_any :: "string \<Rightarrow> string list \<Rightarrow> bool" where
  "under_any path roots \<longleftrightarrow>
     list_ex (\<lambda>r0. let r = trim_end_matches CHR ''/'' r0 in path_starts_with path r \<and> length path > length r) roots"

section \<open>The binary behind a descriptor\<close>

definition PROC_SELF_FD :: string where "PROC_SELF_FD = ''/proc/self/fd/''"

definition is_proc_self_fd :: "string \<Rightarrow> bool" where
  "is_proc_self_fd exe \<longleftrightarrow> prefix PROC_SELF_FD exe"

definition is_systemd_executor_args :: "string \<Rightarrow> bool" where
  "is_systemd_executor_args args \<longleftrightarrow>
     (let words = split_whitespace args in
      length words \<ge> 6 \<and> words ! 0 = ''--deserialize'' \<and> words ! 1 \<noteq> [] \<and> list_all is_digit (words ! 1)
      \<and> list_ex (\<lambda>(a, b). a = ''--log-level'') (windows2 words)
      \<and> list_ex (\<lambda>(a, b). a = ''--log-target'') (windows2 words))"

definition fd_note :: "string \<Rightarrow> string \<Rightarrow> string" where
  "fd_note reported rest = ''binary reported as '' @ reported @ '' (executed from a file descriptor)'' @ rest"

definition unresolved_rest :: string where
  "unresolved_rest = '': the kernel had no path for it and neither the hook nor the parent's arguments named one, so the exe below is the descriptor, not a file you can inspect''"

definition real_path :: "string \<Rightarrow> bool" where
  "real_path p \<longleftrightarrow> prefix ''/'' p \<and> \<not> is_proc_self_fd p"

definition first_word :: "string \<Rightarrow> string option" where
  "first_word s = (case split_whitespace s of [] \<Rightarrow> None | w # _ \<Rightarrow> Some w)"

definition resolve_exec_binary ::
    "string \<Rightarrow> string option \<Rightarrow> string option \<Rightarrow> string \<times> string option" where
  "resolve_exec_binary reported binprm parent_args =
     (if \<not> is_proc_self_fd reported then (reported, None)
      else case Option.bind binprm (\<lambda>p. if real_path p then Some p else None) of
        Some p \<Rightarrow> (p, Some (fd_note reported (''; resolved to '' @ p @ '' from the hook's exec'd-file argument'')))
      | None \<Rightarrow>
          (case Option.bind (Option.bind parent_args first_word) (\<lambda>a. if real_path a then Some a else None) of
             Some a \<Rightarrow> (a, Some (fd_note reported (''; resolved to '' @ a @ '' from the parent's argument 0'')))
           | None \<Rightarrow> (reported, Some (fd_note reported unresolved_rest))))"

text \<open>A descriptor is replaced by an absolute path that is no descriptor, or kept; either way the
  alert says so. Every other binary is left alone.\<close>

lemma resolve_exec_binary_honest:
  "resolve_exec_binary reported binprm pargs = (exe, note) \<Longrightarrow>
     (note = None \<longleftrightarrow> \<not> is_proc_self_fd reported) \<and> (exe \<noteq> reported \<longrightarrow> real_path exe \<and> note \<noteq> None)"
  by (auto simp: resolve_exec_binary_def split: if_splits option.splits Option.bind_splits)

section \<open>Human home directories\<close>

definition is_human_home :: "string list \<Rightarrow> string option" where
  "is_human_home f =
     (if length f < 7 then None
      else case parse_u32 (f ! 2) of
        None \<Rightarrow> None
      | Some uid \<Rightarrow>
          if \<not> (1000 \<le> uid \<and> uid < 65534) then None
          else
            let home = trim_end_matches CHR ''/'' (f ! 5); shell = basename (f ! 6) in
            if \<not> (prefix ''/home/'' home \<or> prefix ''/var/home/'' home) then None
            else if shell \<in> {[], ''nologin'', ''false'', ''sync''} then None
            else Some home)"

definition human_homes :: "string option \<Rightarrow> string list" where
  "human_homes passwd =
     (case passwd of
        None \<Rightarrow> []
      | Some s \<Rightarrow>
          sort (foldl (\<lambda>homes line.
            case is_human_home (split_on CHR '':'' line) of
              None \<Rightarrow> homes
            | Some h \<Rightarrow> if h \<in> set homes then homes else homes @ [h]) [] (lines_of s)))"

lemma human_homes_fold:
  "distinct hs \<Longrightarrow> \<forall>h \<in> set hs. P h \<Longrightarrow> (\<And>l h. f l = Some h \<Longrightarrow> P h) \<Longrightarrow>
   let out = foldl (\<lambda>homes line. case f line of None \<Rightarrow> homes
       | Some h \<Rightarrow> if h \<in> set homes then homes else homes @ [h]) hs ls
   in distinct out \<and> (\<forall>h \<in> set out. P h)"
  by (induction ls arbitrary: hs) (auto split: option.splits)

lemma human_homes_sorted:
  "sorted (human_homes passwd) \<and> distinct (human_homes passwd)
   \<and> (\<forall>h \<in> set (human_homes passwd). prefix ''/home/'' h \<or> prefix ''/var/home/'' h)"
proof (cases passwd)
  case (Some s)
  let ?f = "\<lambda>l. is_human_home (split_on CHR '':'' l)"
  have "prefix ''/home/'' h \<or> prefix ''/var/home/'' h" if "?f l = Some h" for l h
    using that by (auto simp: is_human_home_def Let_def simp del: append.simps split: option.splits if_splits)
  then show ?thesis
    using human_homes_fold [of "[]" "\<lambda>h. prefix ''/home/'' h \<or> prefix ''/var/home/'' h" ?f "lines_of s"]
    unfolding human_homes_def Some by (simp add: Let_def)
qed (simp add: human_homes_def)

section \<open>Interpreters\<close>

definition SHELL_INTERPRETERS :: "string list" where
  "SHELL_INTERPRETERS = [''bash'', ''sh'', ''zsh'', ''dash'', ''ksh'', ''fish'']"

definition CODE_FLAGS :: "string list" where
  "CODE_FLAGS = [''-c'', ''-e'', ''-m'', ''--eval'', ''--command'', ''-E'']"

definition INLINE_CODE_FLAGS :: "string list" where
  "INLINE_CODE_FLAGS = [''-c'', ''-e'', ''--eval'', ''--command'', ''-E'']"

definition is_interpreter :: "string \<Rightarrow> bool" where
  "is_interpreter comm \<longleftrightarrow>
     comm \<in> set SHELL_INTERPRETERS \<or> prefix ''python'' comm
     \<or> comm \<in> {''node'', ''nodejs'', ''perl'', ''ruby'', ''deno'', ''bun''}"

definition runs_inline_code :: "string \<Rightarrow> string \<Rightarrow> bool" where
  "runs_inline_code exe args \<longleftrightarrow>
     is_interpreter (basename exe) \<and> list_ex (\<lambda>t. t \<in> set INLINE_CODE_FLAGS) (split_whitespace args)"

definition path_is_not_identity :: "string \<Rightarrow> bool" where
  "path_is_not_identity comm \<longleftrightarrow>
     is_interpreter comm \<or> prefix ''java'' comm
     \<or> comm \<in> {''dotnet'', ''mono'', ''scala'', ''kotlin'', ''groovy'', ''jruby''}
     \<or> comm \<in> {''npx'', ''pnpx'', ''bunx'', ''tsx'', ''ts-node''}
     \<or> comm \<in> {''uv'', ''uvx'', ''pipx'', ''poetry'', ''pdm'', ''hatch''}
     \<or> comm \<in> {''php'', ''lua'', ''luajit'', ''tclsh'', ''wish''}
     \<or> comm \<in> {''Rscript'', ''julia'', ''elixir'', ''erl'', ''escript''}
     \<or> comm \<in> {''busybox'', ''toybox''}
     \<or> comm \<in> {''env'', ''nohup'', ''setsid'', ''timeout'', ''stdbuf'', ''nice'', ''ionice''}"

definition absolutize :: "string \<Rightarrow> string \<Rightarrow> string option" where
  "absolutize tok cwd =
     (if prefix ''/'' tok then Some tok
      else if CHR ''/'' \<notin> set tok then None
      else if cwd = [] then None
      else Some (path_join cwd tok))"

fun script_of :: "string list \<Rightarrow> string \<Rightarrow> string option" where
  "script_of [] cwd = None"
| "script_of (tok # it) cwd =
     (if tok = ''--'' then (case it of [] \<Rightarrow> None | next # _ \<Rightarrow> absolutize next cwd)
      else if prefix ''-'' tok \<and> length tok > 1 then
        (if tok \<in> set CODE_FLAGS then None else script_of it cwd)
      else absolutize tok cwd)"

definition script_arg :: "string \<Rightarrow> string \<Rightarrow> string option" where
  "script_arg args cwd = script_of (split_whitespace args) cwd"

text \<open>A script is named by a word of the command line that is not an option, absolute when the
  directory is; code on the command line is never a script.\<close>

lemma absolutize_path: "absolutize tok cwd = Some p \<Longrightarrow> prefix ''/'' cwd \<Longrightarrow> prefix ''/'' p"
  by (cases cwd) (auto simp: absolutize_def path_join_def split: if_splits)

lemma script_of_path: "script_of ws cwd = Some p \<Longrightarrow> \<exists>tok \<in> set ws. absolutize tok cwd = Some p"
  by (induction ws cwd rule: script_of.induct) (auto split: if_splits list.splits)

lemma script_arg_absolute: "script_arg args cwd = Some p \<Longrightarrow> prefix ''/'' cwd \<Longrightarrow> prefix ''/'' p"
  unfolding script_arg_def using script_of_path absolutize_path by blast

end
