(* ===== verification/Agent.thy ===== *)
theory Agent
  imports Exec_Path
begin

text \<open>
  \<open>moatd/src/agent.rs\<close>: which process is an AI agent and which starts a session of its own. This is
  attribution by name and arguments; the process table inherits it along the lineage.
\<close>

record agent_session =
  as_id :: string
  as_root_pid :: nat
  as_agent :: string
  as_executable :: string
  as_workspace :: string

definition AI_CLIS :: "string list" where
  "AI_CLIS = [''claude'', ''codex'', ''gemini'', ''opencode'', ''q'', ''amp'', ''agy'', ''antigravity'']"

definition TOOL_FLAGS :: "string list" where
  "TOOL_FLAGS =
     [''--glob'', ''--hidden'', ''--no-config'', ''--no-ignore'', ''--files-with-matches'', ''--line-number'',
      ''--max-count'', ''--type-add'', ''--binary-files'', ''--json-lines'']"

definition looks_like_tool_invocation :: "string \<Rightarrow> bool" where
  "looks_like_tool_invocation args \<longleftrightarrow> list_ex (\<lambda>a. a \<in> set TOOL_FLAGS) (split_whitespace args)"

definition bare_name :: "string \<Rightarrow> string" where
  "bare_name exe = basename (case strip_suffix exe '' (deleted)'' of Some e \<Rightarrow> e | None \<Rightarrow> exe)"

definition MARKERS :: "(string \<times> string) list" where
  "MARKERS = [(''/@anthropic-ai/claude-code/'', ''claude''), (''/@openai/codex/'', ''codex''),
              (''/@google/gemini-cli/'', ''gemini'')]"

definition invocation :: "string \<Rightarrow> string \<Rightarrow> string option" where
  "invocation exe args =
     (let name = bare_name exe in
      if looks_like_tool_invocation args then None
      else if name = ''claude.exe'' \<and> sublist ''/@anthropic-ai/claude-code/bin/claude.exe'' exe then Some ''claude''
      else if name \<in> set AI_CLIS then Some name
      else if name \<notin> {''node'', ''bun''} then None
      else case split_whitespace args of
             [] \<Rightarrow> None
           | entry # _ \<Rightarrow>
               if prefix ''-'' entry then None
               else map_option snd (List.find (\<lambda>(marker, agent). sublist marker entry \<and> suffix ''.js'' entry) MARKERS))"

definition starts_nested_session :: "string \<Rightarrow> string \<Rightarrow> bool" where
  "starts_nested_session exe args \<longleftrightarrow>
     (let words = split_whitespace args in
      if invocation exe args = Some ''codex'' then
        (case words of [] \<Rightarrow> False | w # _ \<Rightarrow> w \<in> {''exec'', ''resume''})
        \<or> ((case words of [] \<Rightarrow> False | w # _ \<Rightarrow> w = ''app-server'') \<and> ''--managed-daemon'' \<in> set words
           \<and> (''--listen'', ''unix://'') \<in> set (windows2 words))
      else if bare_name exe \<notin> {''claude'', ''claude.exe''} \<or> invocation exe args \<noteq> Some ''claude'' then False
      else if prefix [''daemon'', ''run''] words then True
      else if length words = 2 \<and> words ! 0 = ''--bg-spare'' then
        prefix ''/tmp/cc-daemon-'' (words ! 1) \<and> suffix ''.claim.sock'' (words ! 1)
      else
        ''--fork-session'' \<in> set words
        \<and> list_ex (\<lambda>(a, b). a = ''--session-id'' \<and> \<not> prefix ''-'' b) (windows2 words)
        \<and> list_ex (\<lambda>(a, b). a = ''--resume'' \<and> \<not> prefix ''-'' b) (windows2 words))"

lemma tool_is_no_agent: "looks_like_tool_invocation args \<Longrightarrow> invocation exe args = None"
  by (simp add: invocation_def)

lemma invocation_names: "invocation exe args = Some a \<Longrightarrow> a \<in> set AI_CLIS"
  by (auto simp: invocation_def Let_def AI_CLIS_def MARKERS_def find_Some_iff less_Suc_eq numeral_3_eq_3
      split: if_splits list.splits)

lemma nested_is_agent: "starts_nested_session exe args \<Longrightarrow> invocation exe args \<in> {Some ''codex'', Some ''claude''}"
  by (auto simp: starts_nested_session_def Let_def split: if_splits)

end
