(* ===== verification/Proc_Text.thy ===== *)
theory Proc_Text
  imports Text_Lines Text_Numbers
begin

text \<open>
  What moatd reads of a process in \<open>/proc\<close>: the fields of \<open>/proc/<pid>/stat\<close> (\<open>read_session\<close> of
  \<open>moatd/src/proctable.rs\<close>, \<open>proc_start_nanos\<close> of \<open>moatd/src/util.rs\<close>) and the descendants of a
  process, the set a kill reaches (\<open>proc_descendants\<close>). The text of the files is an argument, \<open>None\<close>
  where it cannot be read.
\<close>

section \<open>The stat line\<close>

text \<open>The fields after the last closing parenthesis: the name of the program is before it.\<close>

definition stat_fields :: "string \<Rightarrow> string list option" where
  "stat_fields stat = map_option (\<lambda>i. split_whitespace (drop (Suc i) stat)) (rfind_char CHR '')'' stat)"

definition nth_field :: "nat \<Rightarrow> string list \<Rightarrow> string option" where
  "nth_field n fs = (if n < length fs then Some (fs ! n) else None)"

definition read_session :: "nat \<Rightarrow> string option \<Rightarrow> nat option \<times> nat option" where
  "read_session pid stat =
     (if pid = 0 then (None, None)
      else case Option.bind stat stat_fields of
        None \<Rightarrow> (None, None)
      | Some fs \<Rightarrow>
          (Option.bind (nth_field 3 fs) parse_u32,
           map_option (\<lambda>t. nat (max t 0)) (Option.bind (nth_field 4 fs) parse_i32)))"

definition boot_time_secs :: "string option \<Rightarrow> nat option" where
  "boot_time_secs stat =
     Option.bind stat (\<lambda>s.
     Option.bind (find_map (\<lambda>l. strip_prefix l ''btime '') (lines_of s)) (\<lambda>v. parse_u64 (trim v)))"

definition proc_start_nanos :: "nat \<Rightarrow> string option \<Rightarrow> string option \<Rightarrow> nat option" where
  "proc_start_nanos hz pid_stat proc_stat =
     Option.bind (Option.bind pid_stat stat_fields) (\<lambda>fs.
     Option.bind (Option.bind (nth_field 19 fs) parse_u64) (\<lambda>ticks.
     if hz = 0 then None
     else map_option (\<lambda>btime. btime * 1000000000 + ticks * 1000000000 div hz) (boot_time_secs proc_stat)))"

definition ppid_of :: "string \<Rightarrow> nat option" where
  "ppid_of stat = Option.bind (Option.bind (stat_fields stat) (nth_field 1)) parse_u32"

lemma stat_fields_last: "CHR '')'' \<notin> set b \<Longrightarrow> stat_fields (a @ CHR '')'' # b) = Some (split_whitespace b)"
  by (simp add: stat_fields_def rfind_char_last)

lemma stat_fields_line:
  "CHR '')'' \<notin> set rest \<Longrightarrow> stat_fields (pid @ '' ('' @ comm @ '')'' @ rest) = Some (split_whitespace rest)"
  using stat_fields_last [of rest "pid @ '' ('' @ comm"] by simp

section \<open>Descendants\<close>

text \<open>The entries of \<open>/proc\<close> that are processes, as (pid, parent), in the order of the directory.\<close>

definition proc_entries :: "(string \<times> string option) list \<Rightarrow> (nat \<times> nat) list" where
  "proc_entries dir =
     List.map_filter (\<lambda>(name, stat).
       Option.bind (parse_u32 name) (\<lambda>p. Option.bind (Option.bind stat ppid_of) (\<lambda>pp. Some (p, pp)))) dir"

definition kids_of :: "(nat \<times> nat) list \<Rightarrow> nat \<Rightarrow> nat list" where
  "kids_of entries p = map fst (filter (\<lambda>(q, pp). pp = p) entries)"

definition take_kid :: "nat \<Rightarrow> nat \<Rightarrow> nat list \<times> nat list \<Rightarrow> nat list \<times> nat list" where
  "take_kid pid k = (\<lambda>(out, queue).
     if k \<notin> set out \<and> k \<noteq> pid then (out @ [k], k # queue) else (out, queue))"

definition unvisited :: "(nat \<times> nat) list \<Rightarrow> nat list \<Rightarrow> nat set" where
  "unvisited entries out = fst ` set entries - set out"

lemma take_kid_measure:
  "k \<in> fst ` set entries \<Longrightarrow> take_kid pid k (out, queue) = (out', queue') \<Longrightarrow>
   2 * card (unvisited entries out') + length queue' \<le> 2 * card (unvisited entries out) + length queue"
proof -
  assume k: "k \<in> fst ` set entries" and t: "take_kid pid k (out, queue) = (out', queue')"
  show ?thesis
  proof (cases "k \<notin> set out \<and> k \<noteq> pid")
    case True
    then have "unvisited entries out' = unvisited entries out - {k}" "k \<in> unvisited entries out"
      using t k by (auto simp: take_kid_def unvisited_def)
    moreover have "finite (unvisited entries out)" by (simp add: unvisited_def)
    ultimately have "Suc (card (unvisited entries out')) = card (unvisited entries out)"
      by (metis card_Suc_Diff1)
    with True t show ?thesis by (auto simp: take_kid_def)
  qed (use t in \<open>auto simp: take_kid_def\<close>)
qed

lemma take_kids_measure:
  "set ks \<subseteq> fst ` set entries \<Longrightarrow> fold (take_kid pid) ks (out, queue) = (out', queue') \<Longrightarrow>
   2 * card (unvisited entries out') + length queue' \<le> 2 * card (unvisited entries out) + length queue"
proof (induction ks arbitrary: out queue)
  case (Cons k ks)
  obtain o1 q1 where s: "take_kid pid k (out, queue) = (o1, q1)" by fastforce
  from Cons.prems s have "fold (take_kid pid) ks (o1, q1) = (out', queue')" by simp
  from Cons.IH [OF _ this] take_kid_measure [OF _ s, of entries] Cons.prems(1) show ?case by fastforce
qed simp

lemma kids_of_entries: "set (kids_of entries p) \<subseteq> fst ` set entries"
  by (auto simp: kids_of_def)

text \<open>The work list of \<open>proc_descendants\<close>, its top first.\<close>

function desc_loop :: "(nat \<times> nat) list \<Rightarrow> nat \<Rightarrow> nat list \<Rightarrow> nat list \<Rightarrow> nat list" where
  "desc_loop entries pid out [] = out"
| "desc_loop entries pid out (p # queue) =
     (let (out', queue') = fold (take_kid pid) (kids_of entries p) (out, queue)
      in desc_loop entries pid out' queue')"
  by pat_completeness auto
termination
proof (relation "measure (\<lambda>(entries, pid, out, queue). 2 * card (unvisited entries out) + length queue)")
  fix entries :: "(nat \<times> nat) list" and pid out p queue x out' queue'
  assume "x = fold (take_kid pid) (kids_of entries p) (out, queue)" "(out', queue') = x"
  then have "fold (take_kid pid) (kids_of entries p) (out, queue) = (out', queue')" by simp
  from take_kids_measure [OF kids_of_entries this]
  show "((entries, pid, out', queue'), entries, pid, out, p # queue)
      \<in> measure (\<lambda>(entries, pid, out, queue). 2 * card (unvisited entries out) + length queue)"
    by simp
qed simp

definition proc_descendants :: "(string \<times> string option) list \<Rightarrow> nat \<Rightarrow> nat list" where
  "proc_descendants dir pid = desc_loop (proc_entries dir) pid [] [pid]"

section \<open>The descendants are exactly the processes below\<close>

text \<open>\<open>(p, q)\<close> when \<open>q\<close> names \<open>p\<close> as its parent.\<close>

definition child_rel :: "(nat \<times> nat) list \<Rightarrow> (nat \<times> nat) set" where
  "child_rel entries = {(pp, p). (p, pp) \<in> set entries}"

lemma kids_of_rel: "q \<in> set (kids_of entries p) \<longleftrightarrow> (p, q) \<in> child_rel entries"
  by (force simp: kids_of_def child_rel_def)

lemma take_kids_facts:
  assumes "fold (take_kid pid) ks (out, queue) = (out', queue')"
  shows "set out' = set out \<union> (set ks - {pid}) \<and> set out \<union> set queue' = set out \<union> set queue \<union> (set ks - {pid})
    \<and> set queue \<subseteq> set queue' \<and> (distinct out \<longrightarrow> distinct out')"
  using assms
proof (induction ks arbitrary: out queue)
  case (Cons k ks)
  obtain o1 q1 where s: "take_kid pid k (out, queue) = (o1, q1)" by fastforce
  from Cons.prems s have "fold (take_kid pid) ks (o1, q1) = (out', queue')" by simp
  from Cons.IH [OF this] s show ?case by (auto simp: take_kid_def split: if_splits)
qed simp

definition desc_inv :: "(nat \<times> nat) list \<Rightarrow> nat \<Rightarrow> nat list \<Rightarrow> nat list \<Rightarrow> bool" where
  "desc_inv entries pid out queue \<longleftrightarrow>
     pid \<notin> set out \<and> distinct out \<and> set queue \<subseteq> insert pid (set out)
     \<and> set out \<subseteq> {q. (pid, q) \<in> (child_rel entries)\<^sup>+}
     \<and> (\<forall>p \<in> insert pid (set out) - set queue. set (kids_of entries p) \<subseteq> insert pid (set out))"

lemma desc_inv_step:
  assumes inv: "desc_inv entries pid out (p # queue)"
    and step: "fold (take_kid pid) (kids_of entries p) (out, queue) = (out', queue')"
  shows "desc_inv entries pid out' queue'"
proof -
  note f = take_kids_facts [OF step]
  have reach: "(pid, p) \<in> (child_rel entries)\<^sup>*" using inv by (auto simp: desc_inv_def)
  have "set (kids_of entries p) \<subseteq> {q. (pid, q) \<in> (child_rel entries)\<^sup>+}"
    using rtrancl_into_trancl1 [OF reach] by (auto simp: kids_of_rel)
  with inv f show ?thesis by (auto simp: desc_inv_def)
qed

lemma desc_loop_inv: "desc_inv entries pid out queue \<Longrightarrow> desc_inv entries pid (desc_loop entries pid out queue) []"
proof (induction entries pid out queue rule: desc_loop.induct)
  case (2 entries pid out p queue)
  obtain out' queue' where s: "fold (take_kid pid) (kids_of entries p) (out, queue) = (out', queue')" by fastforce
  from "2.IH" [OF s [symmetric] refl] desc_inv_step [OF "2.prems" s] s show ?case by simp
qed simp

text \<open>What a kill of a process tree reaches is exactly the tree. The walk over the parents that
  \<open>/proc\<close> reports ends on every input, also when a reused number closes a cycle; it lists every
  process below the given one once, and neither the process itself nor any other.\<close>

theorem descendants_are_the_tree:
  "set (proc_descendants dir pid)
     = {q. q \<noteq> pid \<and> (pid, q) \<in> (child_rel (proc_entries dir))\<^sup>+}
   \<and> distinct (proc_descendants dir pid)"
proof -
  let ?e = "proc_entries dir" and ?out = "proc_descendants dir pid"
  have inv: "desc_inv ?e pid ?out []"
    unfolding proc_descendants_def by (rule desc_loop_inv) (simp add: desc_inv_def)
  have "q \<in> insert pid (set ?out)" if "(pid, q) \<in> (child_rel ?e)\<^sup>+" for q
    using that
  proof (induction rule: trancl_induct)
    case (base q)
    with inv show ?case by (auto simp: desc_inv_def kids_of_rel [symmetric])
  next
    case (step q r)
    with inv show ?case by (auto simp: desc_inv_def kids_of_rel [symmetric])
  qed
  with inv show ?thesis by (auto simp: desc_inv_def)
qed

text \<open>A program cannot forge its session. Whatever it is called, parentheses and numbers included,
  the session and the terminal are read from the fields the kernel writes after the name.\<close>

theorem program_name_cannot_forge_the_session:
  assumes "CHR '')'' \<notin> set rest" and "pid \<noteq> 0"
  shows "read_session pid (Some (show_nat pid @ '' ('' @ comm @ '')'' @ rest))
    = (Option.bind (nth_field 3 (split_whitespace rest)) parse_u32,
       map_option (\<lambda>t. nat (max t 0)) (Option.bind (nth_field 4 (split_whitespace rest)) parse_i32))"
  using assms stat_fields_line [OF assms(1), of "show_nat pid" comm] by (simp add: read_session_def)

theorem program_name_cannot_forge_the_session_witness:
  "read_session 7 (Some (show_nat 7 @ '' ('' @ '') S 1 1 9 9'' @ '')'' @ '' S 1 7 7 0''))
     = (Some 7, Some 0)"
proof -
  have "split_whitespace '' S 1 7 7 0'' = [''S'', ''1'', ''7'', ''7'', ''0'']"
    by (simp add: split_whitespace_def is_white_def)
  moreover have "parse_u32 ''7'' = Some 7" "parse_i32 ''0'' = Some 0"
    by (simp_all add: parse_unsigned_def parse_radix_def parse_signed_def digit_val_def is_digit_def)
  ultimately show ?thesis
    using program_name_cannot_forge_the_session [of "'' S 1 7 7 0''" 7 "'') S 1 1 9 9''"]
    by (simp add: nth_field_def del: append.simps append_Cons)
qed

end
