(* ===== verification/Proc_Table.thy ===== *)
theory Proc_Table
  imports Sensor_Event Agent Proc_Text "HOL-Library.AList" "HOL-Library.Product_Lexorder"
begin

text \<open>
  \<open>moatd/src/proctable.rs\<close>: the table of processes, keyed by the sensor's execution identity, with
  the index from a parent to its children. Both maps are association lists whose order stands for
  the iteration order of the hash map, which the program does not choose. \<open>/proc\<close> is an argument: the
  session reader of a pid, and the set of live pids at a prune.
\<close>

record proc_info =
  pi_agent_session :: "agent_session option"
  pi_exec_id :: string
  pi_pid :: nat
  pi_uid :: nat
  pi_exe :: string
  pi_args :: string
  pi_cwd :: string
  pi_start_time :: string
  pi_parent :: "string option"
  pi_exited_at :: "nat option"
  pi_exit_signal :: "string option"
  pi_in_container :: "bool option"
  pi_caps :: "string list"
  pi_user_ns_host :: "bool option"
  pi_exe_note :: "string option"
  pi_sid :: "nat option"
  pi_tty :: "nat option"

definition pi_comm :: "proc_info \<Rightarrow> string" where "pi_comm p = basename (pi_exe p)"

definition MAX_PROCS :: nat where "MAX_PROCS = 32768"

record proc_table =
  pt_map :: "(string \<times> proc_info) list"
  pt_children :: "(string \<times> string list) list"
  pt_max_depth :: nat
  pt_prune_secs :: nat

definition new_table :: "nat \<Rightarrow> nat \<Rightarrow> proc_table" where
  "new_table max_depth prune_secs =
     \<lparr>pt_map = [], pt_children = [], pt_max_depth = max_depth, pt_prune_secs = prune_secs\<rparr>"

definition get_proc :: "proc_table \<Rightarrow> string \<Rightarrow> proc_info option" where
  "get_proc t xid = map_of (pt_map t) xid"

section \<open>Recording a process\<close>

definition kids :: "(string \<times> string list) list \<Rightarrow> string \<Rightarrow> string list" where
  "kids ch p = (case map_of ch p of Some ks \<Rightarrow> ks | None \<Rightarrow> [])"

definition add_kid :: "string \<Rightarrow> string \<Rightarrow> (string \<times> string list) list \<Rightarrow> (string \<times> string list) list" where
  "add_kid parent xid ch =
     AList.update parent (if xid \<in> set (kids ch parent) then kids ch parent else kids ch parent @ [xid]) ch"

definition drop_kid :: "string \<Rightarrow> string \<Rightarrow> (string \<times> string list) list \<Rightarrow> (string \<times> string list) list" where
  "drop_kid parent xid ch =
     (case map_of ch parent of
        None \<Rightarrow> ch
      | Some ks \<Rightarrow> AList.update parent (filter (\<lambda>k. k \<noteq> xid) ks) ch)"

definition new_session :: "process \<Rightarrow> string \<Rightarrow> string \<Rightarrow> agent_session" where
  "new_session p exec_id agent =
     \<lparr>as_id = exec_id, as_root_pid = unwrap_nat (p_pid p), as_agent = agent, as_executable = p_exe p,
      as_workspace = unwrap_str (p_cwd p)\<rparr>"

definition inherited_agent :: "proc_table \<Rightarrow> process \<Rightarrow> agent_session option" where
  "inherited_agent t p = Option.bind (Option.bind (p_parent_exec_id p) (get_proc t)) pi_agent_session"

definition attribute_session :: "proc_table \<Rightarrow> process \<Rightarrow> string \<Rightarrow> agent_session option" where
  "attribute_session t p exec_id =
     (case (inherited_agent t p, invocation (p_exe p) (p_args p)) of
        (Some parent, Some agent) \<Rightarrow>
          if as_agent parent \<noteq> agent \<or> starts_nested_session (p_exe p) (p_args p)
          then Some (new_session p exec_id agent) else Some parent
      | (Some parent, None) \<Rightarrow> Some parent
      | (None, Some agent) \<Rightarrow> Some (new_session p exec_id agent)
      | (None, None) \<Rightarrow> None)"

definition non_empty :: "string option \<Rightarrow> string option" where
  "non_empty s = (case s of Some x \<Rightarrow> if x = [] then None else Some x | None \<Rightarrow> None)"

text \<open>What a further report changes of a known process.\<close>

definition merge_exe :: "process \<Rightarrow> proc_info \<Rightarrow> proc_info" where
  "merge_exe p e =
     (if p_exe p \<noteq> [] \<and> pi_exe e \<noteq> p_exe p then e\<lparr>pi_exe_note := None, pi_exe := p_exe p\<rparr> else e)"

definition merge_rest :: "process \<Rightarrow> proc_info \<Rightarrow> proc_info" where
  "merge_rest p e =
     e\<lparr>pi_args := (if p_args p \<noteq> [] then p_args p else pi_args e),
       pi_cwd := (case non_empty (p_cwd p) of Some c \<Rightarrow> c | None \<Rightarrow> pi_cwd e),
       pi_parent := (case non_empty (p_parent_exec_id p) of Some q \<Rightarrow> Some q | None \<Rightarrow> pi_parent e),
       pi_pid := (if pi_pid e = 0 then unwrap_nat (p_pid p) else pi_pid e),
       pi_in_container := (case in_container p of Some c \<Rightarrow> Some c | None \<Rightarrow> pi_in_container e)\<rparr>"

definition merge_proc :: "agent_session option \<Rightarrow> process \<Rightarrow> proc_info \<Rightarrow> proc_info" where
  "merge_proc session p e =
     merge_rest p (merge_exe p (if pi_agent_session e = None then e\<lparr>pi_agent_session := session\<rparr> else e))"

definition move_kid ::
    "string \<Rightarrow> string option \<Rightarrow> string option \<Rightarrow> (string \<times> string list) list \<Rightarrow> (string \<times> string list) list" where
  "move_kid xid old new ch =
     (case new of
        None \<Rightarrow> ch
      | Some q \<Rightarrow>
          if old = Some q then ch
          else add_kid q xid (case old of None \<Rightarrow> ch | Some o' \<Rightarrow> drop_kid o' xid ch))"

definition new_proc :: "agent_session option \<Rightarrow> nat option \<times> nat option \<Rightarrow> process \<Rightarrow> string \<Rightarrow> proc_info" where
  "new_proc session st p exec_id =
     \<lparr>pi_agent_session = session, pi_exec_id = exec_id, pi_pid = unwrap_nat (p_pid p), pi_uid = unwrap_nat (p_uid p),
      pi_exe = p_exe p, pi_args = p_args p, pi_cwd = unwrap_str (p_cwd p),
      pi_start_time = unwrap_str (p_start_time p), pi_parent = non_empty (p_parent_exec_id p),
      pi_exited_at = None, pi_exit_signal = None, pi_in_container = in_container p, pi_caps = dangerous_caps p,
      pi_user_ns_host = user_ns_is_host p, pi_exe_note = None, pi_sid = fst st, pi_tty = snd st\<rparr>"

definition observe_id ::
    "(nat \<Rightarrow> nat option \<times> nat option) \<Rightarrow> process \<Rightarrow> string \<Rightarrow> proc_table \<Rightarrow> proc_table" where
  "observe_id session_of p exec_id t =
     (let known = get_proc t exec_id;
          needs_agent = (case known of None \<Rightarrow> True | Some k \<Rightarrow> pi_agent_session k = None);
          session = (if needs_agent then attribute_session t p exec_id else None)
      in case known of
           Some e \<Rightarrow>
             t\<lparr>pt_map := AList.update exec_id (merge_proc session p e) (pt_map t),
               pt_children := move_kid exec_id (pi_parent e) (non_empty (p_parent_exec_id p)) (pt_children t)\<rparr>
         | None \<Rightarrow>
             t\<lparr>pt_map := AList.update exec_id (new_proc session (session_of (unwrap_nat (p_pid p))) p exec_id) (pt_map t),
               pt_children := move_kid exec_id None (non_empty (p_parent_exec_id p)) (pt_children t)\<rparr>)"

definition observe_proc ::
    "(nat \<Rightarrow> nat option \<times> nat option) \<Rightarrow> process \<Rightarrow> proc_table \<Rightarrow> string option \<times> proc_table" where
  "observe_proc session_of p t =
     (case p_exec_id p of
        None \<Rightarrow> (None, t)
      | Some exec_id \<Rightarrow> (Some exec_id, observe_id session_of p exec_id t))"

section \<open>Events\<close>

definition observe_opt ::
    "(nat \<Rightarrow> nat option \<times> nat option) \<Rightarrow> process option \<Rightarrow> proc_table \<Rightarrow> string option \<times> proc_table" where
  "observe_opt session_of p t = (case p of None \<Rightarrow> (None, t) | Some q \<Rightarrow> observe_proc session_of q t)"

definition SYSTEMD_EXECUTOR :: string where "SYSTEMD_EXECUTOR = ''/usr/lib/systemd/systemd-executor''"

definition started_by_systemd :: "proc_info \<Rightarrow> proc_info option \<Rightarrow> bool" where
  "started_by_systemd me parent \<longleftrightarrow>
     (case parent of
        None \<Rightarrow> False
      | Some q \<Rightarrow> pi_exe q \<in> {''/usr/lib/systemd/systemd'', ''<kernel>''} \<and> (pi_uid q = 0 \<or> pi_uid q = pi_uid me))"

definition fd_binary :: "proc_info \<Rightarrow> proc_info option \<Rightarrow> string option \<Rightarrow> string \<times> string option" where
  "fd_binary me parent binprm =
     (let (exe, note) = resolve_exec_binary (pi_exe me) binprm (map_option pi_args parent) in
      if is_proc_self_fd exe \<and> pi_cwd me = ''/'' \<and> is_systemd_executor_args (pi_args me)
         \<and> started_by_systemd me parent
      then (SYSTEMD_EXECUTOR, Some (fd_note (pi_exe me)
              (''; resolved to '' @ SYSTEMD_EXECUTOR @ '' from systemd's executor invocation'')))
      else (exe, note))"

definition resolve_fd_binary :: "string \<Rightarrow> string option \<Rightarrow> proc_table \<Rightarrow> proc_table" where
  "resolve_fd_binary exec_id binprm t =
     (case get_proc t exec_id of
        None \<Rightarrow> t
      | Some me \<Rightarrow>
          if \<not> is_proc_self_fd (pi_exe me) then t
          else let (exe, note) = fd_binary me (Option.bind (pi_parent me) (get_proc t)) binprm
               in t\<lparr>pt_map := AList.update exec_id (me\<lparr>pi_exe := exe, pi_exe_note := note\<rparr>) (pt_map t)\<rparr>)"

definition on_exec ::
    "(nat \<Rightarrow> nat option \<times> nat option) \<Rightarrow> exec_event \<Rightarrow> proc_table \<Rightarrow> string option \<times> proc_table" where
  "on_exec session_of ev t =
     (let t1 = fold (\<lambda>a s. snd (observe_proc session_of a s)) (ex_ancestors ev) t;
          t2 = snd (observe_opt session_of (ex_parent ev) t1);
          (xid, t3) = observe_opt session_of (ex_process ev) t2
      in case xid of None \<Rightarrow> (None, t3) | Some i \<Rightarrow> (Some i, resolve_fd_binary i None t3))"

definition set_exit :: "string \<Rightarrow> nat \<Rightarrow> string option \<Rightarrow> proc_table \<Rightarrow> proc_table" where
  "set_exit xid now signal t =
     (case get_proc t xid of
        None \<Rightarrow> t
      | Some e \<Rightarrow>
          t\<lparr>pt_map := AList.update xid (e\<lparr>pi_exited_at := Some now, pi_exit_signal := signal\<rparr>) (pt_map t)\<rparr>)"

definition on_exit ::
    "(nat \<Rightarrow> nat option \<times> nat option) \<Rightarrow> exit_event \<Rightarrow> nat \<Rightarrow> proc_table \<Rightarrow> string option \<times> proc_table" where
  "on_exit session_of ev now t =
     (let t1 = snd (observe_opt session_of (xt_parent ev) t);
          (xid, t2) = observe_opt session_of (xt_process ev) t1
      in case xid of None \<Rightarrow> (None, t2) | Some i \<Rightarrow> (Some i, set_exit i now (xt_signal ev) t2))"

section \<open>Pruning\<close>

definition stamp_lost :: "nat list option \<Rightarrow> nat \<Rightarrow> proc_info \<Rightarrow> proc_info" where
  "stamp_lost live now v =
     (case live of
        None \<Rightarrow> v
      | Some pids \<Rightarrow>
          if pi_exited_at v = None \<and> (pi_pid v = 0 \<or> pi_pid v \<notin> set pids) then v\<lparr>pi_exited_at := Some now\<rparr> else v)"

definition lingers :: "nat \<Rightarrow> nat \<Rightarrow> proc_info \<Rightarrow> bool" where
  "lingers secs now v = (case pi_exited_at v of Some t \<Rightarrow> now - t < secs | None \<Rightarrow> True)"

text \<open>Exited ones first (\<open>False\<close> is less than \<open>True\<close>), then the oldest start.\<close>

definition evict_order :: "(string \<times> proc_info) list \<Rightarrow> string list" where
  "evict_order m = map fst (sort_key (\<lambda>(k, v). (pi_exited_at v = None, pi_start_time v)) m)"

definition evict_procs :: "(string \<times> proc_info) list \<Rightarrow> (string \<times> proc_info) list" where
  "evict_procs m =
     (if length m > MAX_PROCS then
        (let target = MAX_PROCS - MAX_PROCS div 10; gone = take (length m - target) (evict_order m)
         in filter (\<lambda>(k, v). k \<notin> set gone) m)
      else m)"

definition prune_table :: "nat list option \<Rightarrow> nat \<Rightarrow> proc_table \<Rightarrow> proc_table" where
  "prune_table live now t =
     (let stamped = map (\<lambda>(k, v). (k, stamp_lost live now v)) (pt_map t);
          kept = evict_procs (filter (\<lambda>(k, v). lingers (pt_prune_secs t) now v) stamped);
          cleaned = filter (\<lambda>(p, ks). ks \<noteq> [])
            (map (\<lambda>(p, ks). (p, filter (\<lambda>k. k \<in> fst ` set kept) ks)) (pt_children t))
      in t\<lparr>pt_map := kept,
           pt_children := (if length kept \<noteq> length (pt_map t) \<or> length (pt_children t) > length kept
                           then cleaned else pt_children t)\<rparr>)"

section \<open>Questions\<close>

definition other_children :: "proc_table \<Rightarrow> string \<Rightarrow> string \<Rightarrow> proc_info list" where
  "other_children t parent on_path =
     (if parent = [] then []
      else case map_of (pt_children t) parent of
        None \<Rightarrow> []
      | Some ks \<Rightarrow>
          sort_key (\<lambda>p. (pi_start_time p, pi_pid p))
            (filter (\<lambda>p. pi_parent p = Some parent)
              (List.map_filter (get_proc t) (filter (\<lambda>k. k \<noteq> on_path) ks))))"

text \<open>\<open>max_by\<close>: of equal elements the last.\<close>

fun last_max :: "('a \<Rightarrow> 'k::linorder) \<Rightarrow> 'a list \<Rightarrow> 'a option" where
  "last_max f [] = None"
| "last_max f (x # xs) =
     (case last_max f xs of None \<Rightarrow> Some x | Some y \<Rightarrow> if f x \<le> f y then Some y else Some x)"

definition find_by_pid :: "proc_table \<Rightarrow> nat \<Rightarrow> proc_info option" where
  "find_by_pid t pid = last_max pi_start_time (filter (\<lambda>p. pi_pid p = pid) (map snd (pt_map t)))"

text \<open>The loop of \<open>ancestry\<close>: \<open>room\<close> is what is left of the depth, \<open>seen\<close> the identities met.\<close>

fun climb :: "proc_table \<Rightarrow> nat \<Rightarrow> string list \<Rightarrow> string option \<Rightarrow> proc_info list" where
  "climb t 0 seen cur = []"
| "climb t (Suc room) seen None = []"
| "climb t (Suc room) seen (Some xid) =
     (if xid \<in> set seen then []
      else case get_proc t xid of
        None \<Rightarrow> []
      | Some info \<Rightarrow> info # climb t room (seen @ [xid]) (pi_parent info))"

definition ancestry :: "proc_table \<Rightarrow> string \<Rightarrow> proc_info list" where
  "ancestry t xid = climb t (pt_max_depth t) [xid] (Option.bind (get_proc t xid) pi_parent)"

definition ancestry_line :: "proc_table \<Rightarrow> string \<Rightarrow> string" where
  "ancestry_line t xid =
     join_with '' -> ''
       (rev (map pi_comm (ancestry t xid)) @ (case get_proc t xid of Some me \<Rightarrow> [pi_comm me] | None \<Rightarrow> []))"

definition chain_has :: "proc_table \<Rightarrow> string \<Rightarrow> string list \<Rightarrow> proc_info option" where
  "chain_has t xid names =
     (case get_proc t xid of
        Some me \<Rightarrow> if pi_comm me \<in> set names then Some me
                   else List.find (\<lambda>p. pi_comm p \<in> set names) (ancestry t xid)
      | None \<Rightarrow> List.find (\<lambda>p. pi_comm p \<in> set names) (ancestry t xid))"

section \<open>The index of children\<close>

lemma pi_parent_merge:
  "pi_parent (merge_proc s p e) = (case non_empty (p_parent_exec_id p) of Some q \<Rightarrow> Some q | None \<Rightarrow> pi_parent e)"
  by (simp add: merge_proc_def merge_rest_def merge_exe_def split: option.split)

lemma pi_exec_id_merge [simp]: "pi_exec_id (merge_proc s p e) = pi_exec_id e"
  by (simp add: merge_proc_def merge_rest_def merge_exe_def)

lemma new_proc_fields [simp]:
  "pi_exec_id (new_proc s st p i) = i" "pi_parent (new_proc s st p i) = non_empty (p_parent_exec_id p)"
  "pi_agent_session (new_proc s st p i) = s"
  by (simp_all add: new_proc_def)

lemma non_empty_Some: "non_empty s = Some x \<longleftrightarrow> s = Some x \<and> x \<noteq> []"
  by (auto simp: non_empty_def split: option.splits)

lemma kids_add: "set (kids (add_kid p i ch) q) = (if q = p then insert i (set (kids ch q)) else set (kids ch q))"
  by (auto simp: add_kid_def kids_def update_conv')

lemma distinct_kids_add: "(\<And>q. distinct (kids ch q)) \<Longrightarrow> distinct (kids (add_kid p i ch) q)"
  by (simp add: add_kid_def kids_def update_conv')

lemma kids_drop: "kids (drop_kid p i ch) q = (if q = p then filter (\<lambda>k. k \<noteq> i) (kids ch q) else kids ch q)"
  by (auto simp: drop_kid_def kids_def update_conv' split: option.split)

definition indexed :: "(string \<times> proc_info) list \<Rightarrow> (string \<times> string list) list \<Rightarrow> bool" where
  "indexed m ch \<longleftrightarrow>
     (\<forall>q. distinct (kids ch q)
        \<and> (\<forall>k. k \<in> set (kids ch q) \<longleftrightarrow> (\<exists>v. map_of m k = Some v \<and> pi_parent v = Some q)))"

lemma indexed_distinct: "indexed m ch \<Longrightarrow> distinct (kids ch q)"
  by (simp add: indexed_def)

lemma kids_move:
  assumes "\<And>q. i \<in> set (kids ch q) \<longleftrightarrow> old = Some q"
  shows "k \<in> set (kids (move_kid i old new ch) q)
     \<longleftrightarrow> (if k = i then (case new of Some n \<Rightarrow> Some n | None \<Rightarrow> old) = Some q else k \<in> set (kids ch q))"
  using assms by (auto simp: move_kid_def kids_add kids_drop split: option.splits)

lemma distinct_kids_move: "(\<And>q. distinct (kids ch q)) \<Longrightarrow> distinct (kids (move_kid i old new ch) q)"
  by (auto simp: move_kid_def kids_drop intro!: distinct_kids_add split: option.split)

lemma indexed_move:
  assumes idx: "indexed m ch" and old: "old = Option.bind (map_of m i) pi_parent"
    and new: "pi_parent v = (case new of Some n \<Rightarrow> Some n | None \<Rightarrow> old)"
  shows "indexed (AList.update i v m) (move_kid i old new ch)"
proof -
  have i: "i \<in> set (kids ch q) \<longleftrightarrow> old = Some q" for q
    using idx old by (cases "map_of m i") (auto simp: indexed_def)
  show ?thesis
    unfolding indexed_def
  proof (intro allI conjI)
    show "distinct (kids (move_kid i old new ch) q)" for q
      by (rule distinct_kids_move) (rule indexed_distinct [OF idx])
    show "k \<in> set (kids (move_kid i old new ch) q)
        \<longleftrightarrow> (\<exists>w. map_of (AList.update i v m) k = Some w \<and> pi_parent w = Some q)" for q k
      using kids_move [OF i, of k new q] idx new by (auto simp: indexed_def update_conv')
  qed
qed

lemma distinct_move: "distinct (map fst ch) \<Longrightarrow> distinct (map fst (move_kid i old new ch))"
  by (auto simp: move_kid_def add_kid_def drop_kid_def distinct_update split: option.split)

lemma indexed_same_parent:
  assumes "indexed m ch" and "map_of m i = Some e" and "pi_parent v = pi_parent e"
  shows "indexed (AList.update i v m) ch"
  using assms by (auto simp: indexed_def update_conv')

text \<open>The invariant of the table: one entry for each identity, under its own identity; the index lists
  exactly the processes that name a parent, and no process has the empty name for a parent.\<close>

definition wf_table :: "proc_table \<Rightarrow> bool" where
  "wf_table t \<longleftrightarrow>
     distinct (map fst (pt_map t)) \<and> indexed (pt_map t) (pt_children t)
     \<and> distinct (map fst (pt_children t))
     \<and> (\<forall>k v. get_proc t k = Some v \<longrightarrow> pi_exec_id v = k \<and> pi_parent v \<noteq> Some [])"

lemma wf_tableD:
  assumes "wf_table t"
  shows "distinct (map fst (pt_map t))" and "indexed (pt_map t) (pt_children t)"
    and "get_proc t k = Some v \<Longrightarrow> pi_exec_id v = k" and "get_proc t k = Some v \<Longrightarrow> pi_parent v \<noteq> Some []"
  using assms by (auto simp: wf_table_def)

lemma get_proc_update [simp]:
  "get_proc (t\<lparr>pt_map := AList.update i v (pt_map t), pt_children := ch\<rparr>) k = (if k = i then Some v else get_proc t k)"
  "get_proc (t\<lparr>pt_map := AList.update i v (pt_map t)\<rparr>) k = (if k = i then Some v else get_proc t k)"
  by (auto simp: get_proc_def update_conv')

lemma wf_new_table: "wf_table (new_table d s)"
  by (simp add: wf_table_def new_table_def indexed_def kids_def get_proc_def)

lemma wf_observe_id: "wf_table t \<Longrightarrow> wf_table (observe_id session_of p i t)"
proof -
  assume wf: "wf_table t"
  have old: "pi_parent e = Option.bind (map_of (pt_map t) i) pi_parent" if "get_proc t i = Some e" for e
    using that by (simp add: get_proc_def)
  show ?thesis
  proof (cases "get_proc t i")
    case None
    then have "None = Option.bind (map_of (pt_map t) i) pi_parent" by (simp add: get_proc_def)
    from indexed_move [OF wf_tableD(2) [OF wf] this, of _ "non_empty (p_parent_exec_id p)"] wf None
    show ?thesis
      by (auto simp: observe_id_def wf_table_def distinct_update distinct_move Let_def non_empty_Some split: option.split)
  next
    case (Some e)
    from indexed_move [OF wf_tableD(2) [OF wf] old [OF Some], of _ "non_empty (p_parent_exec_id p)"] wf Some
    show ?thesis
      by (auto simp: observe_id_def wf_table_def distinct_update distinct_move Let_def pi_parent_merge non_empty_Some
          split: option.splits)
  qed
qed

lemma wf_observe: "wf_table t \<Longrightarrow> wf_table (snd (observe_proc session_of p t))"
  by (simp add: observe_proc_def wf_observe_id split: option.split)

lemma wf_observe_opt: "wf_table t \<Longrightarrow> wf_table (snd (observe_opt session_of p t))"
  by (simp add: observe_opt_def wf_observe split: option.split)

lemma wf_same_parent:
  assumes "wf_table t" and "get_proc t i = Some e" and "pi_parent v = pi_parent e" and "pi_exec_id v = pi_exec_id e"
  shows "wf_table (t\<lparr>pt_map := AList.update i v (pt_map t)\<rparr>)"
  using assms indexed_same_parent [of "pt_map t" "pt_children t" i e v]
  by (auto simp: wf_table_def distinct_update get_proc_def update_conv')

lemma wf_resolve_fd: "wf_table t \<Longrightarrow> wf_table (resolve_fd_binary i binprm t)"
  by (auto simp: resolve_fd_binary_def split: option.split prod.split intro!: wf_same_parent)

lemma wf_set_exit: "wf_table t \<Longrightarrow> wf_table (set_exit i now signal t)"
  by (auto simp: set_exit_def split: option.split intro!: wf_same_parent)

lemma wf_on_exec: "wf_table t \<Longrightarrow> wf_table (snd (on_exec session_of ev t))"
proof -
  assume wf: "wf_table t"
  have "wf_table (fold (\<lambda>a s. snd (observe_proc session_of a s)) as t)" for as
    using wf by (induction as arbitrary: t) (auto intro: wf_observe)
  then have "wf_table (snd (observe_opt session_of (ex_process ev)
      (snd (observe_opt session_of (ex_parent ev) (fold (\<lambda>a s. snd (observe_proc session_of a s)) (ex_ancestors ev) t)))))"
    by (intro wf_observe_opt)
  then show ?thesis
    by (auto simp: on_exec_def Let_def wf_resolve_fd split: prod.split option.split)
qed

lemma wf_on_exit: "wf_table t \<Longrightarrow> wf_table (snd (on_exit session_of ev now t))"
proof -
  assume "wf_table t"
  then have "wf_table (snd (observe_opt session_of (xt_process ev) (snd (observe_opt session_of (xt_parent ev) t))))"
    by (intro wf_observe_opt)
  then show ?thesis
    by (auto simp: on_exit_def Let_def wf_set_exit split: prod.split option.split)
qed

section \<open>Pruning\<close>

lemma stamp_parent [simp]:
  "pi_parent (stamp_lost live now v) = pi_parent v" "pi_exec_id (stamp_lost live now v) = pi_exec_id v"
  by (simp_all add: stamp_lost_def split: option.split)

lemma map_of_map_val: "map_of (map (\<lambda>(k, v). (k, f v)) xs) k = map_option f (map_of xs k)"
  by (induction xs) auto

lemma map_of_filter_keys: "map_of (filter (\<lambda>(k, v). P k) xs) k = (if P k then map_of xs k else None)"
  by (induction xs) auto

lemma map_of_filter_val:
  "distinct (map fst xs) \<Longrightarrow>
   map_of (filter (\<lambda>(k, v). P v) xs) k = Option.bind (map_of xs k) (\<lambda>v. if P v then Some v else None)"
  by (induction xs) (auto simp: map_of_eq_None_iff split: option.splits Option.bind_splits)

lemma distinct_keys_filter: "distinct (map fst xs) \<Longrightarrow> distinct (map fst (filter P xs))"
  by (rule distinct_map_filter)

definition stamped :: "nat list option \<Rightarrow> nat \<Rightarrow> (string \<times> proc_info) list \<Rightarrow> (string \<times> proc_info) list" where
  "stamped live now m = map (\<lambda>(k, v). (k, stamp_lost live now v)) m"

definition kept_procs :: "nat list option \<Rightarrow> nat \<Rightarrow> proc_table \<Rightarrow> (string \<times> proc_info) list" where
  "kept_procs live now t =
     evict_procs (filter (\<lambda>(k, v). lingers (pt_prune_secs t) now v) (stamped live now (pt_map t)))"

lemma stamped_keys [simp]: "map fst (stamped live now m) = map fst m"
  by (simp add: stamped_def split_beta)

lemma length_stamped [simp]: "length (stamped live now m) = length m"
  by (simp add: stamped_def)

lemma evict_filter: "\<exists>gone. evict_procs m = filter (\<lambda>(k, v). k \<notin> gone) m"
proof (cases "length m > MAX_PROCS")
  case False
  then have "evict_procs m = filter (\<lambda>(k, v). k \<notin> {}) m" by (simp add: evict_procs_def)
  then show ?thesis by blast
qed (auto simp: evict_procs_def Let_def)

lemma kept_distinct: "distinct (map fst (pt_map t)) \<Longrightarrow> distinct (map fst (kept_procs live now t))"
  using evict_filter [of "filter (\<lambda>(k, v). lingers (pt_prune_secs t) now v) (stamped live now (pt_map t))"]
  by (auto simp: kept_procs_def intro!: distinct_keys_filter)

lemma kept_value:
  assumes "distinct (map fst (pt_map t))" and "map_of (kept_procs live now t) k = Some v"
  shows "\<exists>v0. get_proc t k = Some v0 \<and> v = stamp_lost live now v0 \<and> lingers (pt_prune_secs t) now v"
proof -
  obtain gone where g: "kept_procs live now t
      = filter (\<lambda>(k, v). k \<notin> gone) (filter (\<lambda>(k, v). lingers (pt_prune_secs t) now v) (stamped live now (pt_map t)))"
    unfolding kept_procs_def using evict_filter by metis
  have "map_of (filter (\<lambda>(k, v). lingers (pt_prune_secs t) now v) (stamped live now (pt_map t))) k = Some v"
    using assms(2) unfolding g map_of_filter_keys by (simp split: if_splits)
  then show ?thesis
    using assms(1)
    by (auto simp: map_of_filter_val stamped_def map_of_map_val get_proc_def split_beta o_def
        split: Option.bind_splits if_splits)
qed

lemma filter_full: "length (filter P xs) = length xs \<Longrightarrow> filter P xs = xs"
  by (metis filter_True length_filter_less less_irrefl)

lemma kept_all:
  assumes "length (kept_procs live now t) = length (pt_map t)"
  shows "kept_procs live now t = stamped live now (pt_map t)"
proof -
  let ?s = "stamped live now (pt_map t)"
  obtain gone where g: "kept_procs live now t
      = filter (\<lambda>(k, v). k \<notin> gone) (filter (\<lambda>(k, v). lingers (pt_prune_secs t) now v) ?s)"
    unfolding kept_procs_def using evict_filter by metis
  then have "length (filter (\<lambda>x. fst x \<notin> gone \<and> lingers (pt_prune_secs t) now (snd x)) ?s) = length ?s"
    using assms by (simp add: split_beta conj_commute)
  from filter_full [OF this] g show ?thesis by (simp add: split_beta conj_commute)
qed

definition clean_index :: "string set \<Rightarrow> (string \<times> string list) list \<Rightarrow> (string \<times> string list) list" where
  "clean_index ks ch = filter (\<lambda>(p, l). l \<noteq> []) (map (\<lambda>(p, l). (p, filter (\<lambda>k. k \<in> ks) l)) ch)"

lemma kids_clean: "distinct (map fst ch) \<Longrightarrow> kids (clean_index ks ch) p = filter (\<lambda>k. k \<in> ks) (kids ch p)"
  by (simp add: kids_def clean_index_def map_of_filter_val map_of_map_val distinct_keys_filter split_beta o_def
      split: option.split)

lemma prune_table_eq:
  "prune_table live now t =
     t\<lparr>pt_map := kept_procs live now t,
       pt_children := (if length (kept_procs live now t) \<noteq> length (pt_map t)
                          \<or> length (pt_children t) > length (kept_procs live now t)
                       then clean_index (fst ` set (kept_procs live now t)) (pt_children t) else pt_children t)\<rparr>"
  by (simp add: prune_table_def Let_def kept_procs_def stamped_def clean_index_def)

lemma wf_prune_table: "wf_table t \<Longrightarrow> wf_table (prune_table live now t)"
proof -
  assume wf: "wf_table t"
  note d = wf_tableD(1) [OF wf] and idx = wf_tableD(2) [OF wf]
  let ?m = "kept_procs live now t" and ?p = "prune_table live now t"
  have fields: "pi_exec_id v = k \<and> pi_parent v \<noteq> Some []" if v: "map_of ?m k = Some v" for k v
    using kept_value [OF d v] wf_tableD(3,4) [OF wf] by auto
  have parents: "pi_parent v = Some q \<longleftrightarrow> (\<exists>v0. map_of (pt_map t) k = Some v0 \<and> pi_parent v0 = Some q)"
    if v: "map_of ?m k = Some v" for k v q
    using kept_value [OF d v] by (auto simp: get_proc_def)
  have mem: "k \<in> fst ` set ?m \<longleftrightarrow> (\<exists>v. map_of ?m k = Some v)" for k
    by (metis map_of_eq_None_iff not_None_eq)
  have dch: "distinct (map fst (pt_children t))" using wf by (simp add: wf_table_def)
  have "indexed ?m (clean_index (fst ` set ?m) (pt_children t))"
    using idx parents by (auto simp: indexed_def kids_clean [OF dch] mem)
  moreover have "indexed ?m (pt_children t)" if "length ?m = length (pt_map t)"
    using idx by (auto simp: indexed_def kept_all [OF that] stamped_def map_of_map_val)
  moreover have "distinct (map fst (clean_index ks (pt_children t)))" for ks
    unfolding clean_index_def using dch by (intro distinct_keys_filter) (simp add: split_beta o_def)
  ultimately show ?thesis
    using kept_distinct [OF d, of live now] fields dch
    unfolding wf_table_def prune_table_eq get_proc_def by auto
qed

text \<open>The steps of the table, and the tables that can be reached.\<close>

inductive table_step :: "proc_table \<Rightarrow> proc_table \<Rightarrow> bool" where
  seen: "table_step t (snd (observe_proc session_of p t))"
| exec: "table_step t (snd (on_exec session_of ev t))"
| exit: "table_step t (snd (on_exit session_of xt now t))"
| hook: "table_step t (resolve_fd_binary i binprm t)"
| tick: "table_step t (prune_table live now t)"

inductive_cases table_stepE: "table_step t t'"

inductive table_run :: "nat \<Rightarrow> nat \<Rightarrow> proc_table \<Rightarrow> bool" for depth secs where
  boot: "table_run depth secs (new_table depth secs)"
| move: "table_run depth secs t \<Longrightarrow> table_step t t' \<Longrightarrow> table_run depth secs t'"

lemma table_step_wf: "table_step t t' \<Longrightarrow> wf_table t \<Longrightarrow> wf_table t'"
  by (erule table_stepE) (simp_all add: wf_observe wf_on_exec wf_on_exit wf_resolve_fd wf_prune_table)

lemma table_run_wf: "table_run depth secs t \<Longrightarrow> wf_table t"
  by (induction rule: table_run.induct) (simp_all add: wf_new_table table_step_wf)

lemma other_children_eq:
  assumes "wf_table t" and "parent \<noteq> []"
  shows "set (other_children t parent on_path)
    = {p. \<exists>k. k \<noteq> on_path \<and> get_proc t k = Some p \<and> pi_parent p = Some parent}"
proof -
  have kid: "k \<in> set (kids (pt_children t) parent) \<longleftrightarrow> (\<exists>v. get_proc t k = Some v \<and> pi_parent v = Some parent)" for k
    using wf_tableD(2) [OF assms(1)] by (simp add: indexed_def get_proc_def)
  have "set (other_children t parent on_path)
      = {p. \<exists>k. k \<noteq> on_path \<and> k \<in> set (kids (pt_children t) parent) \<and> get_proc t k = Some p \<and> pi_parent p = Some parent}"
    using assms(2)
    by (auto simp: other_children_def kids_def in_map_filter split: option.split)
  then show ?thesis by (auto simp: kid)
qed

lemma map_filter_identities:
  "wf_table t \<Longrightarrow> map pi_exec_id (List.map_filter (get_proc t) ks) = filter (\<lambda>k. get_proc t k \<noteq> None) ks"
  by (induction ks) (auto simp: List.map_filter_simps dest: wf_tableD(3) split: option.split)

lemma other_children_once: "wf_table t \<Longrightarrow> distinct (map pi_exec_id (other_children t parent on_path))"
proof (cases "map_of (pt_children t) parent")
  case (Some ks)
  assume wf: "wf_table t"
  then have "distinct ks" using indexed_distinct [OF wf_tableD(2) [OF wf], of parent] Some by (simp add: kids_def)
  then have "distinct (map pi_exec_id (List.map_filter (get_proc t) (filter (\<lambda>k. k \<noteq> on_path) ks)))"
    by (simp add: map_filter_identities [OF wf])
  then have "distinct (map pi_exec_id (filter (\<lambda>p. pi_parent p = Some parent)
      (List.map_filter (get_proc t) (filter (\<lambda>k. k \<noteq> on_path) ks))))"
    by (rule distinct_map_filter)
  then show ?thesis using Some by (simp add: other_children_def distinct_map)
qed (simp add: other_children_def)

text \<open>C9: "What else was that shell doing" is answered from an index that is exact. However processes came,
  were reported again with another parent, exited and were pruned, the row of a process in the index of
  children holds, once each and without leftovers, the identities of the known processes that name it as
  parent. So the list of the other children of a process is every such process except the one on the
  path, each once, in the order of start and number.\<close>

theorem siblings_are_exactly_the_children:
  assumes "table_run depth secs t" and "parent \<noteq> []"
  shows "set (kids (pt_children t) parent) = {k. \<exists>v. get_proc t k = Some v \<and> pi_parent v = Some parent}
    \<and> distinct (kids (pt_children t) parent) \<and> distinct (map fst (pt_children t))
    \<and> set (other_children t parent on_path)
        = {p. \<exists>k. k \<noteq> on_path \<and> get_proc t k = Some p \<and> pi_parent p = Some parent}
    \<and> distinct (map pi_exec_id (other_children t parent on_path))
    \<and> sorted (map (\<lambda>p. (pi_start_time p, pi_pid p)) (other_children t parent on_path))"
proof -
  note wf = table_run_wf [OF assms(1)]
  have "sorted (map (\<lambda>p. (pi_start_time p, pi_pid p)) (other_children t parent on_path))"
    by (simp add: other_children_def split: option.split)
  moreover have "set (kids (pt_children t) parent) = {k. \<exists>v. get_proc t k = Some v \<and> pi_parent v = Some parent}"
    using wf_tableD(2) [OF wf] by (auto simp: indexed_def get_proc_def)
  moreover have "distinct (map fst (pt_children t))" using wf by (simp add: wf_table_def)
  ultimately show ?thesis
    using other_children_eq [OF wf assms(2)] other_children_once [OF wf] indexed_distinct [OF wf_tableD(2) [OF wf]]
    by blast
qed

definition example_proc :: "string \<Rightarrow> string \<Rightarrow> string option \<Rightarrow> process" where
  "example_proc i exe parent =
     \<lparr>p_exec_id = Some i, p_pid = Some 7, p_tid = None, p_uid = Some 1000, p_auid = None, p_cwd = None,
      p_binary = Some exe, p_arguments = None, p_flags = None, p_start_time = None, p_parent_exec_id = parent,
      p_in_init_tree = None, p_ns = None, p_cap = None, p_credentials = None, p_binary_properties = None,
      p_env = []\<rparr>"

text \<open>A process that is first seen below \<open>z\<close> and then reported below \<open>a\<close>.\<close>

definition example_first :: proc_table where
  "example_first = snd (observe_proc (\<lambda>_. (None, None)) (example_proc ''b'' ''/bin/sh'' (Some ''z'')) (new_table 8 60))"

definition example_table :: proc_table where
  "example_table = snd (observe_proc (\<lambda>_. (None, None)) (example_proc ''b'' ''/bin/ls'' (Some ''a'')) example_first)"

lemma example_table_run: "table_run 8 60 example_first" "table_run 8 60 example_table"
proof -
  show first: "table_run 8 60 example_first"
    unfolding example_first_def by (rule table_run.move [OF table_run.boot table_step.seen])
  show "table_run 8 60 example_table"
    unfolding example_table_def by (rule table_run.move [OF first table_step.seen])
qed

lemma example_table_get:
  "\<exists>p. get_proc example_first ''b'' = Some p \<and> pi_exe p = ''/bin/sh'' \<and> pi_parent p = Some ''z''"
  "\<exists>p. get_proc example_table ''b'' = Some p \<and> pi_exe p = ''/bin/ls'' \<and> pi_parent p = Some ''a''"
  by (simp_all add: example_table_def example_first_def observe_proc_def observe_id_def example_proc_def new_table_def
      Let_def new_proc_def merge_proc_def merge_exe_def merge_rest_def non_empty_def get_proc_def update_conv' p_exe_def unwrap_str_def)

theorem siblings_are_exactly_the_children_witness:
  "''b'' \<notin> set (kids (pt_children example_table) ''z'') \<and> (\<exists>p. p \<in> set (other_children example_table ''a'' ''c''))"
proof -
  obtain p where p: "get_proc example_table ''b'' = Some p" "pi_parent p = Some ''a''" using example_table_get by blast
  then have "\<exists>k. k \<noteq> ''c'' \<and> get_proc example_table k = Some p \<and> pi_parent p = Some ''a''"
    by (intro exI [of _ "''b''"]) simp
  with siblings_are_exactly_the_children [OF example_table_run(2), of "''a''" "''c''"]
    siblings_are_exactly_the_children [OF example_table_run(2), of "''z''" "''c''"] p
  show ?thesis by auto
qed

section \<open>A report never erases evidence\<close>

text \<open>The steps by name, and the processes a step reports.\<close>

datatype table_event =
  Seen "nat \<Rightarrow> nat option \<times> nat option" process
| Execed "nat \<Rightarrow> nat option \<times> nat option" exec_event
| Exited "nat \<Rightarrow> nat option \<times> nat option" exit_event nat
| Hooked string "string option"
| Pruned "nat list option" nat

fun table_after :: "table_event \<Rightarrow> proc_table \<Rightarrow> proc_table" where
  "table_after (Seen session_of p) t = snd (observe_proc session_of p t)"
| "table_after (Execed session_of ev) t = snd (on_exec session_of ev t)"
| "table_after (Exited session_of xt now) t = snd (on_exit session_of xt now t)"
| "table_after (Hooked i binprm) t = resolve_fd_binary i binprm t"
| "table_after (Pruned live now) t = prune_table live now t"

fun reported :: "table_event \<Rightarrow> process set" where
  "reported (Seen session_of p) = {p}"
| "reported (Execed session_of ev) =
     set (ex_ancestors ev) \<union> set_option (ex_parent ev) \<union> set_option (ex_process ev)"
| "reported (Exited session_of xt now) = set_option (xt_parent xt) \<union> set_option (xt_process xt)"
| "reported (Hooked i binprm) = {}"
| "reported (Pruned live now) = {}"

lemma table_step_event: "table_step t t' \<longleftrightarrow> (\<exists>ev. t' = table_after ev t)"
proof
  show "table_step t t' \<Longrightarrow> \<exists>ev. t' = table_after ev t"
    by (erule table_stepE) (metis table_after.simps)+
  show "\<exists>ev. t' = table_after ev t \<Longrightarrow> table_step t t'"
  proof (elim exE)
    fix ev assume "t' = table_after ev t"
    then show ?thesis by (cases ev) (auto intro: table_step.intros)
  qed
qed

text \<open>What stays of a process when it is reported again: the facts of its execution as they are, and
  every other fact that was known stays known.\<close>

definition keeps :: "proc_info \<Rightarrow> proc_info \<Rightarrow> bool" where
  "keeps e f \<longleftrightarrow>
     pi_exec_id f = pi_exec_id e \<and> pi_uid f = pi_uid e \<and> pi_start_time f = pi_start_time e
     \<and> pi_caps f = pi_caps e \<and> pi_user_ns_host f = pi_user_ns_host e \<and> pi_sid f = pi_sid e \<and> pi_tty f = pi_tty e
     \<and> (pi_pid e \<noteq> 0 \<longrightarrow> pi_pid f = pi_pid e)
     \<and> (pi_agent_session e \<noteq> None \<longrightarrow> pi_agent_session f = pi_agent_session e)
     \<and> (pi_exe e \<noteq> [] \<longrightarrow> pi_exe f \<noteq> []) \<and> (pi_args e \<noteq> [] \<longrightarrow> pi_args f \<noteq> [])
     \<and> (pi_cwd e \<noteq> [] \<longrightarrow> pi_cwd f \<noteq> []) \<and> (pi_parent e \<noteq> None \<longrightarrow> pi_parent f \<noteq> None)
     \<and> (pi_in_container e \<noteq> None \<longrightarrow> pi_in_container f \<noteq> None)
     \<and> (pi_exited_at e \<noteq> None \<longrightarrow> pi_exited_at f \<noteq> None)"

text \<open>Where a new value comes from: \<open>R\<close> are the reports of the process itself. The note on the path
  goes with the path it is about.\<close>

definition sourced :: "process set \<Rightarrow> proc_info \<Rightarrow> proc_info \<Rightarrow> bool" where
  "sourced R e f \<longleftrightarrow>
     (pi_args f = pi_args e \<or> (\<exists>p\<in>R. p_args p = pi_args f))
     \<and> (pi_cwd f = pi_cwd e \<or> (\<exists>p\<in>R. p_cwd p = Some (pi_cwd f)))
     \<and> (pi_parent f = pi_parent e \<or> (\<exists>p\<in>R. p_parent_exec_id p = pi_parent f))
     \<and> (pi_in_container f = pi_in_container e \<or> (\<exists>p\<in>R. in_container p = pi_in_container f))
     \<and> (pi_exe f = pi_exe e \<and> pi_exe_note f = pi_exe_note e
        \<or> is_proc_self_fd (pi_exe e)
        \<or> (\<exists>p\<in>R. p_exe p \<noteq> [] \<and> (pi_exe f = p_exe p \<and> pi_exe_note f = None \<or> is_proc_self_fd (p_exe p))))"

lemma keeps_refl [simp]: "keeps e e"
  by (simp add: keeps_def)

lemma keeps_trans: "keeps e f \<Longrightarrow> keeps f g \<Longrightarrow> keeps e g"
  by (simp add: keeps_def)

lemma sourced_refl [simp]: "sourced R e e"
  by (simp add: sourced_def)

lemma said_trans: "y = x \<or> P y \<Longrightarrow> z = y \<or> P z \<Longrightarrow> z = x \<or> P z"
  by blast

lemma sourced_trans:
  assumes "sourced R e f" and "sourced R f g"
  shows "sourced R e g"
proof -
  have "is_proc_self_fd (pi_exe f) \<Longrightarrow> is_proc_self_fd (pi_exe e) \<or> (\<exists>p\<in>R. p_exe p \<noteq> [] \<and> is_proc_self_fd (p_exe p))"
    using assms(1) unfolding sourced_def by metis
  moreover have "pi_exe g = pi_exe f \<Longrightarrow> pi_exe_note g = pi_exe_note f \<Longrightarrow>
      pi_exe g = pi_exe e \<and> pi_exe_note g = pi_exe_note e \<or> is_proc_self_fd (pi_exe e)
      \<or> (\<exists>p\<in>R. p_exe p \<noteq> [] \<and> (pi_exe g = p_exe p \<and> pi_exe_note g = None \<or> is_proc_self_fd (p_exe p)))"
    using assms(1) unfolding sourced_def by simp
  ultimately have "pi_exe g = pi_exe e \<and> pi_exe_note g = pi_exe_note e \<or> is_proc_self_fd (pi_exe e)
      \<or> (\<exists>p\<in>R. p_exe p \<noteq> [] \<and> (pi_exe g = p_exe p \<and> pi_exe_note g = None \<or> is_proc_self_fd (p_exe p)))"
    using assms(2) unfolding sourced_def by blast
  moreover note said_trans [of "pi_args f" "pi_args e" "\<lambda>x. \<exists>p\<in>R. p_args p = x" "pi_args g"]
    said_trans [of "pi_cwd f" "pi_cwd e" "\<lambda>x. \<exists>p\<in>R. p_cwd p = Some x" "pi_cwd g"]
    said_trans [of "pi_parent f" "pi_parent e" "\<lambda>x. \<exists>p\<in>R. p_parent_exec_id p = x" "pi_parent g"]
    said_trans [of "pi_in_container f" "pi_in_container e" "\<lambda>x. \<exists>p\<in>R. in_container p = x" "pi_in_container g"]
  ultimately show ?thesis using assms unfolding sourced_def by simp
qed

lemma sourced_mono: "sourced R e f \<Longrightarrow> R \<subseteq> S \<Longrightarrow> sourced S e f"
  unfolding sourced_def by blast

text \<open>A table grows by the reports \<open>ps\<close>: every process stays, keeps what was known of it and its exit
  signal, and what is new of it was reported of it.\<close>

definition of_proc :: "string \<Rightarrow> process set \<Rightarrow> process set" where
  "of_proc i ps = {p \<in> ps. p_exec_id p = Some i}"

definition grows :: "process set \<Rightarrow> proc_table \<Rightarrow> proc_table \<Rightarrow> bool" where
  "grows ps t u \<longleftrightarrow>
     (\<forall>i e. get_proc t i = Some e \<longrightarrow>
        (\<exists>f. get_proc u i = Some f \<and> keeps e f \<and> pi_exit_signal f = pi_exit_signal e \<and> sourced (of_proc i ps) e f))"

lemma grows_refl [simp]: "grows ps t t"
  by (simp add: grows_def)

lemma grows_trans:
  assumes "grows ps t u" and "grows ps u v"
  shows "grows ps t v"
  unfolding grows_def
proof (intro allI impI)
  fix i e assume "get_proc t i = Some e"
  then obtain f where f: "get_proc u i = Some f" "keeps e f" "pi_exit_signal f = pi_exit_signal e" "sourced (of_proc i ps) e f"
    using assms(1) unfolding grows_def by blast
  then obtain g where "get_proc v i = Some g" "keeps f g" "pi_exit_signal g = pi_exit_signal f" "sourced (of_proc i ps) f g"
    using assms(2) unfolding grows_def by blast
  with f show "\<exists>g. get_proc v i = Some g \<and> keeps e g \<and> pi_exit_signal g = pi_exit_signal e \<and> sourced (of_proc i ps) e g"
    by (metis keeps_trans sourced_trans)
qed

lemma growsD:
  "grows ps t u \<Longrightarrow> get_proc t i = Some e \<Longrightarrow>
   \<exists>f. get_proc u i = Some f \<and> keeps e f \<and> pi_exit_signal f = pi_exit_signal e \<and> sourced (of_proc i ps) e f"
  by (simp add: grows_def)

lemma keeps_merge: "keeps e (merge_proc s p e)"
  by (auto simp: keeps_def merge_proc_def merge_rest_def merge_exe_def non_empty_Some split: option.split)

lemma sourced_merge: "p \<in> R \<Longrightarrow> sourced R e (merge_proc s p e)"
  unfolding sourced_def merge_proc_def merge_rest_def merge_exe_def
  by (intro conjI) (auto simp: non_empty_Some split: option.split)

lemma signal_merge [simp]: "pi_exit_signal (merge_proc s p e) = pi_exit_signal e"
  by (simp add: merge_proc_def merge_rest_def merge_exe_def)

lemma grows_observe: "p \<in> ps \<Longrightarrow> grows ps t (snd (observe_proc session_of p t))"
  by (auto simp: grows_def observe_proc_def observe_id_def Let_def of_proc_def keeps_merge
      intro!: sourced_merge split: option.split)

lemma grows_observe_opt: "set_option p \<subseteq> ps \<Longrightarrow> grows ps t (snd (observe_opt session_of p t))"
  by (cases p) (simp_all add: observe_opt_def grows_observe)

lemma fd_binary_named: "fd_binary me parent binprm = (exe, note) \<Longrightarrow> pi_exe me \<noteq> [] \<Longrightarrow> exe \<noteq> []"
  using resolve_exec_binary_honest [of "pi_exe me" binprm "map_option pi_args parent"]
  by (fastforce simp: fd_binary_def SYSTEMD_EXECUTOR_def real_path_def split: prod.splits if_splits)

lemma grows_resolve: "grows ps t (resolve_fd_binary i binprm t)"
  by (auto simp: grows_def resolve_fd_binary_def keeps_def sourced_def dest: fd_binary_named
      split: option.split prod.split)

text \<open>What the end of a process adds.\<close>

lemma set_exit_get:
  "get_proc (set_exit i now signal t) k =
     (if k = i then map_option (\<lambda>e. e\<lparr>pi_exited_at := Some now, pi_exit_signal := signal\<rparr>) (get_proc t k)
      else get_proc t k)"
  by (auto simp: set_exit_def split: option.split)

lemma exited_facts:
  "keeps e (e\<lparr>pi_exited_at := Some now, pi_exit_signal := signal\<rparr>)"
  "sourced R e f \<Longrightarrow> sourced R e (f\<lparr>pi_exited_at := Some now, pi_exit_signal := signal\<rparr>)"
  "keeps e f \<Longrightarrow> keeps e (f\<lparr>pi_exited_at := Some now, pi_exit_signal := signal\<rparr>)"
  by (simp_all add: keeps_def sourced_def)

lemma grows_on_exec: "grows (reported (Execed session_of ev)) t (snd (on_exec session_of ev t))"
proof -
  let ?ps = "reported (Execed session_of ev)"
  have "set as \<subseteq> ?ps \<Longrightarrow> grows ?ps t (fold (\<lambda>a s. snd (observe_proc session_of a s)) as t)" for as
    by (induction as arbitrary: t) (auto intro: grows_trans [OF grows_observe])
  then have "grows ?ps t (snd (observe_opt session_of (ex_process ev)
      (snd (observe_opt session_of (ex_parent ev) (fold (\<lambda>a s. snd (observe_proc session_of a s)) (ex_ancestors ev) t)))))"
    by (intro grows_trans [OF _ grows_observe_opt]) auto
  then show ?thesis
    by (auto simp: on_exec_def Let_def simp del: reported.simps split: prod.split option.split
        elim!: grows_trans intro: grows_resolve)
qed

lemma exit_reports:
  "grows (reported (Exited session_of xt now)) t
     (snd (observe_opt session_of (xt_process xt) (snd (observe_opt session_of (xt_parent xt) t))))"
  by (intro grows_trans [OF grows_observe_opt grows_observe_opt]) auto

text \<open>An exit is the exit of the process it names.\<close>

definition exit_of :: "table_event \<Rightarrow> string \<Rightarrow> string option \<Rightarrow> bool" where
  "exit_of ev i signal \<longleftrightarrow>
     (\<exists>session_of xt now p. ev = Exited session_of xt now \<and> xt_process xt = Some p \<and> p_exec_id p = Some i
        \<and> signal = xt_signal xt)"

lemma on_exit_get:
  assumes "get_proc t i = Some e"
  shows "\<exists>f. get_proc (snd (on_exit session_of xt now t)) i = Some f \<and> keeps e f
    \<and> sourced (of_proc i (reported (Exited session_of xt now))) e f
    \<and> (pi_exit_signal f = pi_exit_signal e \<or> exit_of (Exited session_of xt now) i (pi_exit_signal f))"
proof -
  define x where "x = Option.bind (xt_process xt) p_exec_id"
  define u where "u = snd (observe_opt session_of (xt_process xt) (snd (observe_opt session_of (xt_parent xt) t)))"
  obtain f where f: "get_proc u i = Some f" "keeps e f" "pi_exit_signal f = pi_exit_signal e"
      "sourced (of_proc i (reported (Exited session_of xt now))) e f"
    using growsD [OF exit_reports assms] unfolding u_def by blast
  have "fst (observe_opt session_of (xt_process xt) s) = x" for s
    by (simp add: x_def observe_opt_def observe_proc_def split: option.split)
  then have "observe_opt session_of (xt_process xt) (snd (observe_opt session_of (xt_parent xt) t)) = (x, u)"
    by (simp add: prod_eq_iff u_def)
  then have after: "snd (on_exit session_of xt now t) = (case x of None \<Rightarrow> u | Some k \<Rightarrow> set_exit k now (xt_signal xt) u)"
    by (simp add: on_exit_def Let_def split: option.split)
  show ?thesis
  proof (cases "x = Some i")
    case True
    then have "exit_of (Exited session_of xt now) i (xt_signal xt)" by (auto simp: exit_of_def x_def bind_eq_Some_conv)
    with f True show ?thesis by (simp add: after set_exit_get exited_facts del: reported.simps)
  next
    case False
    then have "get_proc (snd (on_exit session_of xt now t)) i = get_proc u i"
      by (auto simp: after set_exit_get split: option.split)
    with f show ?thesis by simp
  qed
qed

lemma keeps_stamp: "keeps e (stamp_lost live now e)" "sourced R e (stamp_lost live now e)"
  "pi_exit_signal (stamp_lost live now e) = pi_exit_signal e"
  by (auto simp: keeps_def sourced_def stamp_lost_def split: option.split)

lemma event_grows:
  assumes "wf_table t" and "get_proc t i = Some e" and "get_proc (table_after ev t) i = Some f"
  shows "keeps e f \<and> sourced (of_proc i (reported ev)) e f
    \<and> (pi_exit_signal f = pi_exit_signal e \<or> exit_of ev i (pi_exit_signal f))"
proof -
  have grown: ?thesis if "grows (reported ev) t (table_after ev t)"
    using growsD [OF that assms(2)] assms(3) by auto
  show ?thesis
  proof (cases ev)
    case (Seen session_of p)
    then have "grows (reported ev) t (table_after ev t)" by (simp add: grows_observe)
    then show ?thesis by (rule grown)
  next
    case (Execed session_of x)
    then have "grows (reported ev) t (table_after ev t)" using grows_on_exec by (simp only: table_after.simps)
    then show ?thesis by (rule grown)
  next
    case (Hooked k binprm)
    then have "grows (reported ev) t (table_after ev t)" by (simp add: grows_resolve)
    then show ?thesis by (rule grown)
  next
    case (Exited session_of xt now)
    from on_exit_get [OF assms(2), of session_of xt now] assms(3) show ?thesis
      unfolding Exited by (simp only: table_after.simps) auto
  next
    case (Pruned live now)
    with kept_value [OF wf_tableD(1) [OF assms(1)], of live now i f] assms(2,3)
    have "f = stamp_lost live now e" by (auto simp: prune_table_eq get_proc_def)
    then show ?thesis by (simp add: keeps_stamp)
  qed
qed

lemma only_a_prune_removes:
  assumes "get_proc t i = Some e" and "get_proc (table_after ev t) i = None"
  shows "\<exists>live now. ev = Pruned live now"
proof -
  have no: False if "grows ps t (table_after ev t)" for ps
    using growsD [OF that assms(1)] assms(2) by auto
  show ?thesis
  proof (cases ev)
    case (Seen session_of p)
    with no [of "{p}"] show ?thesis by (simp add: grows_observe)
  next
    case (Execed session_of x)
    with no [of "reported ev"] show ?thesis by (simp add: grows_on_exec del: reported.simps)
  next
    case (Exited session_of xt now)
    then show ?thesis using on_exit_get [OF assms(1), of session_of xt now] assms(2) by auto
  next
    case (Hooked k binprm)
    with no [of "{}"] show ?thesis by (simp add: grows_resolve)
  qed blast
qed



end
