(* ===== verification/Proc_Lineage.thy ===== *)
theory Proc_Lineage
  imports Proc_Table
begin

text \<open>
  The lineage of a process and the limits of the table: \<open>ancestry\<close> is a chain of parents without
  repetition and within the depth, whatever cycles the identities form; pruning keeps the cap and
  drops what has exited before what runs. The interface \<open>lineage\<close> is what the classifiers built on
  the table (package installs, contexts) rely on.
\<close>

section \<open>The interface\<close>

text \<open>What a walk over ancestors promises: nobody twice, never the process itself, everybody known,
  and the walk from a parent continues the walk from its child.\<close>

locale lineage =
  fixes ok :: "'t \<Rightarrow> bool"
    and self :: "'t \<Rightarrow> 'i \<Rightarrow> 'p option"
    and up :: "'t \<Rightarrow> 'i \<Rightarrow> 'p list"
    and ident :: "'p \<Rightarrow> 'i"
  assumes up_fresh: "ok t \<Longrightarrow> p \<in> set (up t i) \<Longrightarrow> ident p \<noteq> i"
    and up_distinct: "ok t \<Longrightarrow> distinct (map ident (up t i))"
    and up_known: "ok t \<Longrightarrow> p \<in> set (up t i) \<Longrightarrow> self t (ident p) = Some p"
    and up_parent: "ok t \<Longrightarrow> up t i = p # ps \<Longrightarrow> prefix ps (up t (ident p))"
begin

lemma up_distinct_procs: "ok t \<Longrightarrow> distinct (up t i)"
  using up_distinct by (metis distinct_map)

text \<open>Of the processes above a child, those above its parent are the same, up to the depth: what is
  found nearest, or found last, from the child is found from the parent.\<close>

lemma parent_walk:
  assumes "ok t" and "up t i = p # ps" and "length (up t (ident p)) \<le> length ps"
  shows "up t (ident p) = ps"
  using up_parent [OF assms(1,2)] assms(3) by (auto simp: prefix_def)

lemma found_above_parent:
  assumes "ok t" and "up t i = p # ps" and "\<exists>q \<in> set ps. P q"
  shows "\<exists>q \<in> set (up t (ident p)). P q"
  using up_parent [OF assms(1,2)] assms(3) by (auto dest: set_mono_prefix)

end

section \<open>The ancestry of the table\<close>

lemma climb_length: "length (climb t room seen cur) \<le> room"
  by (induction t room seen cur rule: climb.induct) (auto split: option.split)

lemma climb_fresh:
  "wf_table t \<Longrightarrow> p \<in> set (climb t room seen cur) \<Longrightarrow> pi_exec_id p \<notin> set seen"
proof (induction t room seen cur rule: climb.induct)
  case (3 t room seen i)
  then show ?case using wf_tableD(3) [OF "3.prems"(1), of i] by (cases "get_proc t i") (auto split: if_splits)
qed auto

lemma climb_distinct: "wf_table t \<Longrightarrow> distinct (map pi_exec_id (climb t room seen cur))"
proof (induction t room seen cur rule: climb.induct)
  case (3 t room seen i)
  show ?case
  proof (cases "get_proc t i")
    case (Some info)
    then have info: "pi_exec_id info = i" using "3.prems" by (rule wf_tableD(3) [rotated])
    have "pi_exec_id info \<notin> pi_exec_id ` set (climb t room (seen @ [i]) (pi_parent info))"
      using climb_fresh [OF "3.prems"] info by fastforce
    with 3 Some show ?thesis by simp
  qed simp
qed simp_all

lemma climb_known:
  "wf_table t \<Longrightarrow> p \<in> set (climb t room seen cur) \<Longrightarrow> get_proc t (pi_exec_id p) = Some p"
proof (induction t room seen cur rule: climb.induct)
  case (3 t room seen i)
  then show ?case using wf_tableD(3) [OF "3.prems"(1), of i] by (cases "get_proc t i") (auto split: if_splits)
qed auto

lemma climb_prefix:
  "set seen \<subseteq> set seen' \<Longrightarrow> room' \<le> room \<Longrightarrow> prefix (climb t room' seen' cur) (climb t room seen cur)"
proof (induction t room seen cur arbitrary: seen' room' rule: climb.induct)
  case (3 t room seen i)
  show ?case
  proof (cases room')
    case (Suc r)
    show ?thesis
    proof (cases "get_proc t i")
      case (Some info)
      with 3 Suc show ?thesis by (auto simp: subset_iff)
    qed (simp add: Suc)
  qed simp
next
  case (2 t room seen)
  then show ?case by (cases room') auto
qed auto

lemma ancestry_parent: "wf_table t \<Longrightarrow> ancestry t i = p # ps \<Longrightarrow> prefix ps (ancestry t (pi_exec_id p))"
proof -
  assume wf: "wf_table t" and a: "ancestry t i = p # ps"
  then obtain room j where r: "pt_max_depth t = Suc room" and j: "j \<noteq> i" "get_proc t j = Some p"
    and ps: "ps = climb t room [i, j] (pi_parent p)"
    by (cases "pt_max_depth t"; cases "Option.bind (get_proc t i) pi_parent")
      (auto simp: ancestry_def split: if_splits option.splits)
  then have id: "pi_exec_id p = j" using wf_tableD(3) [OF wf] by blast
  show ?thesis
    unfolding ps id ancestry_def r j using j by (auto intro: climb_prefix)
qed

interpretation table: lineage wf_table get_proc ancestry pi_exec_id
proof
  fix t p i ps
  assume wf: "wf_table t"
  show "p \<in> set (ancestry t i) \<Longrightarrow> pi_exec_id p \<noteq> i"
    using climb_fresh [OF wf, of p _ "[i]"] by (auto simp: ancestry_def)
  show "distinct (map pi_exec_id (ancestry t i))"
    unfolding ancestry_def by (rule climb_distinct [OF wf])
  show "p \<in> set (ancestry t i) \<Longrightarrow> get_proc t (pi_exec_id p) = Some p"
    unfolding ancestry_def by (rule climb_known [OF wf])
  show "ancestry t i = p # ps \<Longrightarrow> prefix ps (ancestry t (pi_exec_id p))" by (rule ancestry_parent [OF wf])
qed

text \<open>Each ancestor is the parent that the one below it names.\<close>

fun linked :: "string option \<Rightarrow> proc_info list \<Rightarrow> bool" where
  "linked cur [] = True"
| "linked cur (p # ps) \<longleftrightarrow> cur = Some (pi_exec_id p) \<and> linked (pi_parent p) ps"

lemma climb_linked: "wf_table t \<Longrightarrow> linked cur (climb t room seen cur)"
proof (induction t room seen cur rule: climb.induct)
  case (3 t room seen i)
  then show ?case by (auto split: option.splits dest: wf_tableD(3))
qed simp_all

text \<open>C11: The walk to the ancestors ends and tells the truth. In every reachable table, also when
  identities were reused and parents form a cycle, the ancestry has at most the configured depth, every
  entry is the known process that the entry below names as its parent, nobody is in it twice and the
  process itself is not.\<close>

theorem ancestry_is_a_lineage:
  assumes "table_run depth secs t"
  shows "length (ancestry t i) \<le> pt_max_depth t
    \<and> linked (Option.bind (get_proc t i) pi_parent) (ancestry t i)
    \<and> distinct (map pi_exec_id (ancestry t i))
    \<and> (\<forall>p \<in> set (ancestry t i). pi_exec_id p \<noteq> i \<and> get_proc t (pi_exec_id p) = Some p)"
proof -
  note wf = table_run_wf [OF assms]
  have "length (ancestry t i) \<le> pt_max_depth t" by (simp add: ancestry_def climb_length)
  moreover have "linked (Option.bind (get_proc t i) pi_parent) (ancestry t i)"
    unfolding ancestry_def by (rule climb_linked [OF wf])
  ultimately show ?thesis
    using table.up_distinct [OF wf] table.up_fresh [OF wf] table.up_known [OF wf] by blast
qed

theorem ancestry_is_a_lineage_witness: "length (ancestry example_table ''b'') \<le> pt_max_depth example_table"
  using ancestry_is_a_lineage [OF example_table_run(2)] by blast

section \<open>The cap\<close>

lemma take_sort_key:
  assumes "x \<in> set (take n (sort_key f xs))" and "y \<in> set (drop n (sort_key f xs))"
  shows "f x \<le> f y"
proof -
  have "sorted (map f (take n (sort_key f xs)) @ map f (drop n (sort_key f xs)))"
    by (metis append_take_drop_id map_append sorted_sort_key)
  with assms show ?thesis by (auto simp: sorted_append)
qed

lemma length_without:
  "distinct (map fst m) \<Longrightarrow> distinct ks \<Longrightarrow> set ks \<subseteq> fst ` set m
    \<Longrightarrow> length (filter (\<lambda>(k, v). k \<notin> set ks) m) = length m - length ks"
proof -
  assume d: "distinct (map fst m)" "distinct ks" "set ks \<subseteq> fst ` set m"
  have keys: "map fst (filter (\<lambda>(k, v). k \<notin> set ks) m) = filter (\<lambda>k. k \<notin> set ks) (map fst m)"
    by (induction m) auto
  have "length (filter (\<lambda>(k, v). k \<notin> set ks) m) = card (set (filter (\<lambda>k. k \<notin> set ks) (map fst m)))"
    using d(1) keys by (metis distinct_card distinct_filter length_map)
  also have "\<dots> = card (fst ` set m - set ks)" by (rule arg_cong [of _ _ card]) auto
  also have "\<dots> = card (fst ` set m) - card (set ks)" using d(3) by (simp add: card_Diff_subset)
  also have "\<dots> = length m - length ks" using d by (metis distinct_card length_map list.set_map)
  finally show ?thesis .
qed

lemma length_evict_procs: "distinct (map fst m) \<Longrightarrow> length (evict_procs m) \<le> MAX_PROCS"
proof (cases "length m > MAX_PROCS")
  case True
  assume d: "distinct (map fst m)"
  let ?n = "length m - (MAX_PROCS - MAX_PROCS div 10)"
  let ?gone = "take ?n (evict_order m)"
  have "distinct (evict_order m)" using d by (simp add: evict_order_def distinct_map)
  moreover have "set (evict_order m) = fst ` set m" "length (evict_order m) = length m" by (simp_all add: evict_order_def)
  ultimately have "length (filter (\<lambda>(k, v). k \<notin> set ?gone) m) = length m - ?n"
    using length_without [OF d, of ?gone] by (simp add: distinct_take) (metis in_set_takeD subsetI)
  with True show ?thesis by (simp add: evict_procs_def Let_def MAX_PROCS_def)
qed (simp add: evict_procs_def)

lemma evict_spares_running:
  assumes d: "distinct (map fst m)" and v: "map_of m k = Some v" "pi_exited_at v = None" "map_of (evict_procs m) k = None"
    and w: "map_of (evict_procs m) j = Some w"
  shows "pi_exited_at w = None"
proof (rule ccontr)
  assume exited: "pi_exited_at w \<noteq> None"
  let ?f = "\<lambda>(k, v). (pi_exited_at v = None, pi_start_time v)"
  let ?n = "length m - (MAX_PROCS - MAX_PROCS div 10)"
  have big: "length m > MAX_PROCS" using v by (auto simp: evict_procs_def split: if_splits)
  let ?sorted = "sort_key ?f m"
  have e: "evict_procs m = filter (\<lambda>(k, v). k \<notin> set (take ?n (map fst ?sorted))) m"
    using big by (simp add: evict_procs_def evict_order_def Let_def)
  have "k \<in> set (take ?n (map fst ?sorted))" using v unfolding e map_of_filter_keys by (simp split: if_splits)
  then obtain x where x: "x \<in> set (take ?n ?sorted)" "fst x = k" by (auto simp: take_map)
  have "x \<in> set m" using in_set_takeD [OF x(1)] by simp
  then have "map_of m k = Some (snd x)" using d x(2) by (metis map_of_is_SomeI prod.collapse)
  then have xk: "x = (k, v)" using v(1) x(2) by (cases x) simp
  have w': "(j, w) \<in> set m" "j \<notin> set (take ?n (map fst ?sorted))"
    using w unfolding e map_of_filter_keys by (auto dest: map_of_SomeD split: if_splits)
  then have "(j, w) \<notin> set (take ?n ?sorted)" by (auto simp: take_map image_iff)
  with w'(1) have "(j, w) \<in> set (drop ?n ?sorted)"
    using set_append [of "take ?n ?sorted" "drop ?n ?sorted"] by (auto simp only: append_take_drop_id set_sort Un_iff)
  then have "?f x \<le> ?f (j, w)" by (rule take_sort_key [OF x(1)])
  with v(2) exited show False by (simp add: xk)
qed

text \<open>Pruning is bounded and drops the dead first. After a prune the table has at most 32768
  processes; a process that is gone had exited (or was seen gone from \<open>/proc\<close>) for the retention,
  or the table was over its cap, and then a running process was dropped only if no exited one was
  kept.\<close>

theorem pruning_spares_the_running:
  assumes "table_run depth secs t" and "t' = prune_table live now t"
  shows "length (pt_map t') \<le> 32768
    \<and> (\<forall>i e. get_proc t i = Some e \<and> get_proc t' i = None \<longrightarrow>
         \<not> lingers (pt_prune_secs t) now (stamp_lost live now e)
         \<or> (length (pt_map t) > 32768
            \<and> (pi_exited_at (stamp_lost live now e) = None \<longrightarrow>
                (\<forall>j f. get_proc t' j = Some f \<longrightarrow> pi_exited_at f = None))))"
proof -
  let ?m = "filter (\<lambda>(k, v). lingers (pt_prune_secs t) now v) (stamped live now (pt_map t))"
  note wf = table_run_wf [OF assms(1)]
  have d: "distinct (map fst ?m)" using wf_tableD(1) [OF wf] by (simp add: distinct_keys_filter)
  have kept: "pt_map t' = evict_procs ?m" unfolding assms(2) prune_table_eq by (simp add: kept_procs_def)
  have m: "map_of ?m i = Some (stamp_lost live now e)"
    if "get_proc t i = Some e" "lingers (pt_prune_secs t) now (stamp_lost live now e)" for i e
    using that wf_tableD(1) [OF wf]
    by (simp add: map_of_filter_val stamped_def map_of_map_val get_proc_def split_beta o_def)
  have small: "evict_procs ?m = ?m" if "length (pt_map t) \<le> 32768"
    using that length_filter_le [of "\<lambda>(k, v). lingers (pt_prune_secs t) now v" "stamped live now (pt_map t)"]
    by (simp add: evict_procs_def MAX_PROCS_def)
  have gone: "length (pt_map t) > 32768
      \<and> (pi_exited_at (stamp_lost live now e) = None \<longrightarrow> (\<forall>j f. get_proc t' j = Some f \<longrightarrow> pi_exited_at f = None))"
    if i: "get_proc t i = Some e" "get_proc t' i = None" "lingers (pt_prune_secs t) now (stamp_lost live now e)" for i e
  proof
    show "length (pt_map t) > 32768"
    proof (rule ccontr)
      assume "\<not> ?thesis"
      then have "evict_procs ?m = ?m" by (intro small) simp
      with m [OF i(1,3)] i(2) show False by (simp add: get_proc_def kept)
    qed
    from i(2) have "map_of (evict_procs ?m) i = None" by (simp add: get_proc_def kept)
    from evict_spares_running [OF d m [OF i(1,3)] _ this]
    show "pi_exited_at (stamp_lost live now e) = None \<longrightarrow> (\<forall>j f. get_proc t' j = Some f \<longrightarrow> pi_exited_at f = None)"
      unfolding get_proc_def kept by blast
  qed
  have "length (pt_map t') \<le> 32768"
    using length_evict_procs [OF d] unfolding kept by (simp add: MAX_PROCS_def)
  with gone show ?thesis by blast
qed

theorem pruning_spares_the_running_witness:
  "length (pt_map (prune_table None 5 example_table)) \<le> 32768"
  using pruning_spares_the_running [OF example_table_run(2) refl] by blast

end
