(* ===== verification/Pkg_Tree.thy ===== *)
theory Pkg_Tree
  imports Proc_Lineage
begin

text \<open>
  \<open>moatd/src/rules/pkgtree.rs\<close>: which processes are inside a package installation. A process is a
  root by its binary or by its arguments, and everything below a root inherits it through the exact
  ancestry of the process table. Whether a local npx command exists is a question to the file
  system, \<open>is_file\<close> on the components of a path.
\<close>

section \<open>Roots\<close>

definition PKG_ROOT_BINARIES :: "string list" where
  "PKG_ROOT_BINARIES =
     [''npx'', ''corepack'', ''pip'', ''pip3'', ''uv'', ''poetry'', ''pipx'', ''makepkg'', ''yay'',
      ''paru'', ''cpanm'', ''cpan'', ''mvn'', ''mvnw'', ''gradle'', ''gradlew'', ''gem'', ''bundle'',
      ''bundler'', ''composer'', ''brew'', ''mix'', ''rebar3'', ''cabal'', ''stack'']"

definition SCRIPT_MARKERS :: "string list" where "SCRIPT_MARKERS = [''npx-cli.js'']"

definition BARE_MARKERS :: "string list" where "BARE_MARKERS = [''makepkg'']"

text \<open>A tool and its subcommands.\<close>

type_synonym verb = "string \<times> string list"

definition VERB_MARKERS :: "verb list" where
  "VERB_MARKERS =
     [(''npm'', [''install'', ''i'', ''ci'', ''add'', ''update'', ''exec'']),
      (''npm-cli'', [''install'', ''i'', ''ci'', ''add'', ''update'', ''exec'']),
      (''pnpm'', [''install'', ''i'', ''add'', ''update'', ''dlx'']),
      (''yarn'', [''install'', ''add'', ''up'', ''dlx'']),
      (''bun'', [''install'', ''add'', ''x'']),
      (''pip'', [''install'']),
      (''pip3'', [''install'']),
      (''uv'', [''pip'', ''sync'', ''add'', ''run'', ''tool'']),
      (''cargo'', [''install'', ''add'', ''fetch'', ''update'']),
      (''go'', [''get'', ''install'', ''build'', ''run'', ''test'', ''generate'', ''mod'', ''work'']),
      (''dotnet'', [''restore'', ''build'', ''run'', ''test'', ''tool'', ''add'', ''publish'', ''pack'']),
      (''deno'', [''run'', ''install'', ''cache'', ''add'', ''task'', ''test'', ''compile'']),
      (''nix'', [''build'', ''run'', ''shell'', ''develop'', ''profile'', ''env'']),
      (''nix-env'', [''-i'', ''--install'', ''-iA'']),
      (''nix-shell'', [''-p'', ''--packages'', ''--run'']),
      (''conda'', [''install'', ''create'', ''env'', ''update'']),
      (''mamba'', [''install'', ''create'', ''env'', ''update'']),
      (''micromamba'', [''install'', ''create'', ''env'', ''update'']),
      (''setup'', [''install'', ''develop'', ''build'', ''bdist_wheel'', ''sdist''])]"

definition tool_name :: "string \<Rightarrow> string" where
  "tool_name token =
     (let base = basename token in
      case find_map (strip_suffix base) [''.js'', ''.cjs'', ''.mjs'', ''.py''] of Some stem \<Rightarrow> stem | None \<Rightarrow> base)"

definition argument_reason :: "string \<Rightarrow> string" where
  "argument_reason m = ''argument `'' @ m @ ''`''"

definition verb_reason :: "string \<Rightarrow> string list \<Rightarrow> verb \<Rightarrow> string option" where
  "verb_reason exe toks v =
     (let (tool, subs) = v;
          start = (if tool_name exe = tool then Some 0
                   else map_option Suc (position (\<lambda>t. tool_name t = tool) toks))
      in case start of
           None \<Rightarrow> None
         | Some s \<Rightarrow>
             (case List.find (\<lambda>t. \<not> prefix ''-'' t) (drop s toks) of
                None \<Rightarrow> None
              | Some sub \<Rightarrow> if sub \<in> set subs then Some (''arguments `'' @ tool @ '' '' @ sub @ ''`'') else None))"

definition root_reason :: "string \<Rightarrow> string \<Rightarrow> string option" where
  "root_reason exe args =
     (let comm = basename exe; toks = split_whitespace args in
      if prefix ''build-script-'' comm \<and> sublist ''/target/'' exe then Some ''Cargo dependency build script''
      else if trim args = [] \<and> comm \<in> {''yarn'', ''pnpm''} then Some ''default install command''
      else if comm \<in> set PKG_ROOT_BINARIES then Some (''binary basename `'' @ comm @ ''`'')
      else if runs_inline_code exe args then None
      else if comm \<in> {''node'', ''bun''} \<and> (case toks of [] \<Rightarrow> False | t # _ \<Rightarrow> basename t = ''npx'')
      then Some ''npx interpreter entrypoint''
      else case List.find (\<lambda>m. \<exists>t \<in> set toks. basename t = m) SCRIPT_MARKERS of
             Some m \<Rightarrow> Some (argument_reason m)
           | None \<Rightarrow>
               (case (if is_interpreter comm
                      then List.find (\<lambda>m. \<exists>t \<in> set toks. tool_name t = m) BARE_MARKERS else None) of
                  Some m \<Rightarrow> Some (argument_reason m)
                | None \<Rightarrow> find_map (verb_reason exe toks) VERB_MARKERS))"

section \<open>Local npx commands\<close>

definition npx_entry :: "string \<Rightarrow> bool" where
  "npx_entry arg \<longleftrightarrow> basename arg \<in> {''npx'', ''npx-cli.js''}"

definition js_runtime :: "string \<Rightarrow> bool" where
  "js_runtime s \<longleftrightarrow> basename s \<in> {''node'', ''bun''}"

text \<open>The word after the npx entry point.\<close>

definition npx_command :: "string \<Rightarrow> string list \<Rightarrow> string option" where
  "npx_command exe args =
     (let after_entry = (\<lambda>xs. case xs of e # rest \<Rightarrow> if npx_entry e then Some rest else None | [] \<Rightarrow> None);
          left = (if basename exe = ''npx'' then
                    (case args of a # rest \<Rightarrow> if js_runtime a then after_entry rest else Some args | [] \<Rightarrow> Some [])
                  else if js_runtime exe then after_entry args else None)
      in case left of Some (c # _) \<Rightarrow> Some c | _ \<Rightarrow> None)"

definition plain_command :: "string \<Rightarrow> bool" where
  "plain_command c \<longleftrightarrow>
     c \<noteq> [] \<and> list_all (\<lambda>b. is_alnum b \<or> b = CHR ''-'' \<or> b = CHR ''_'') c \<and> \<not> prefix ''-'' c"

text \<open>\<open>Path::ancestors\<close>: the directory, its parent, and so on to the root.\<close>

definition dir_ancestors :: "string \<Rightarrow> string list list" where
  "dir_ancestors dir = map (\<lambda>n. take n (components dir)) (rev [1..<Suc (length (components dir))])"

definition local_npx :: "(string list \<Rightarrow> bool) \<Rightarrow> proc_info \<Rightarrow> bool" where
  "local_npx is_file p \<longleftrightarrow>
     (if pi_in_container p \<noteq> Some False \<or> pi_user_ns_host p \<noteq> Some True then False
      else case npx_command (pi_exe p) (split_whitespace (pi_args p)) of
             None \<Rightarrow> False
           | Some command \<Rightarrow>
               plain_command command \<and> prefix ''/'' (pi_cwd p)
               \<and> list_ex (\<lambda>dir. is_file (dir @ [''node_modules'', ''.bin'', command])) (take 16 (dir_ancestors (pi_cwd p))))"

definition process_root_reason :: "(string list \<Rightarrow> bool) \<Rightarrow> proc_info \<Rightarrow> string option" where
  "process_root_reason is_file p = (if local_npx is_file p then None else root_reason (pi_exe p) (pi_args p))"

definition is_pkg_root :: "(string list \<Rightarrow> bool) \<Rightarrow> proc_info \<Rightarrow> bool" where
  "is_pkg_root is_file p \<longleftrightarrow> process_root_reason is_file p \<noteq> None"

section \<open>Subtrees\<close>

definition better_root ::
    "(string list \<Rightarrow> bool) \<Rightarrow> (proc_info \<times> string) option \<Rightarrow> proc_info \<Rightarrow> (proc_info \<times> string) option" where
  "better_root is_file best p =
     (case process_root_reason is_file p of Some r \<Rightarrow> Some (p, r) | None \<Rightarrow> best)"

definition pkg_root_with_reason ::
    "(string list \<Rightarrow> bool) \<Rightarrow> proc_table \<Rightarrow> string \<Rightarrow> (proc_info \<times> string) option" where
  "pkg_root_with_reason is_file t i =
     foldl (better_root is_file)
       (case get_proc t i of Some me \<Rightarrow> better_root is_file None me | None \<Rightarrow> None) (ancestry t i)"

definition pkg_root_for :: "(string list \<Rightarrow> bool) \<Rightarrow> proc_table \<Rightarrow> string \<Rightarrow> proc_info option" where
  "pkg_root_for is_file t i = map_option fst (pkg_root_with_reason is_file t i)"

definition in_pkg_subtree :: "(string list \<Rightarrow> bool) \<Rightarrow> proc_table \<Rightarrow> string \<Rightarrow> bool" where
  "in_pkg_subtree is_file t i \<longleftrightarrow> pkg_root_for is_file t i \<noteq> None"

section \<open>The outermost root\<close>

lemma find_map_append: "find_map g (xs @ ys) = (case find_map g xs of Some y \<Rightarrow> Some y | None \<Rightarrow> find_map g ys)"
  by (induction xs) (auto split: option.split)

lemma foldl_better_root:
  "foldl (better_root f) best ps
     = (case find_map (\<lambda>p. map_option (Pair p) (process_root_reason f p)) (rev ps) of Some x \<Rightarrow> Some x | None \<Rightarrow> best)"
proof (induction ps rule: rev_induct)
  case (snoc p ps)
  then show ?case by (simp add: better_root_def split: option.split)
qed simp

text \<open>The process and its ancestors, nearest first.\<close>

definition self_and_above :: "proc_table \<Rightarrow> string \<Rightarrow> proc_info list" where
  "self_and_above t i = (case get_proc t i of Some me \<Rightarrow> [me] | None \<Rightarrow> []) @ ancestry t i"

lemma pkg_root_find:
  "pkg_root_with_reason f t i
     = find_map (\<lambda>p. map_option (Pair p) (process_root_reason f p)) (rev (self_and_above t i))"
  by (auto simp: pkg_root_with_reason_def foldl_better_root self_and_above_def better_root_def find_map_append
      split: option.split)

lemma find_map_rev_last:
  "find_map g (rev xs) = Some y \<Longrightarrow> \<exists>n < length xs. g (xs ! n) = Some y \<and> (\<forall>m. n < m \<and> m < length xs \<longrightarrow> g (xs ! m) = None)"
proof (induction xs rule: rev_induct)
  case (snoc x xs)
  show ?case
  proof (cases "g x")
    case None
    with snoc obtain n where n: "n < length xs" "g (xs ! n) = Some y"
      "\<forall>m. n < m \<and> m < length xs \<longrightarrow> g (xs ! m) = None" by auto
    then have "\<forall>m. n < m \<and> m < length (xs @ [x]) \<longrightarrow> g ((xs @ [x]) ! m) = None"
      using None by (auto simp: nth_append less_Suc_eq)
    with n show ?thesis by (intro exI [of _ n]) (simp add: nth_append)
  next
    case (Some z)
    with snoc.prems show ?thesis by (intro exI [of _ "length xs"]) (auto simp: less_Suc_eq)
  qed
qed simp

text \<open>One installation has one identity. In every reachable table the root of a process inside an
  installation is a process that is a root itself, itself or an ancestor, and no ancestor further out
  within the walk is one; and a child whose parent is inside an installation is inside the same one
  (when the depth of the walk reaches as far from the child).\<close>

theorem install_has_one_root:
  assumes "table_run depth secs t"
  shows "(\<forall>r why. pkg_root_with_reason f t i = Some (r, why) \<longrightarrow>
      (\<exists>n < length (self_and_above t i). self_and_above t i ! n = r \<and> process_root_reason f r = Some why
         \<and> (\<forall>m. n < m \<and> m < length (self_and_above t i) \<longrightarrow> \<not> is_pkg_root f (self_and_above t i ! m))))
    \<and> (\<forall>p ps. ancestry t i = p # ps \<and> length (ancestry t (pi_exec_id p)) \<le> length ps
         \<and> in_pkg_subtree f t (pi_exec_id p) \<longrightarrow>
         pkg_root_for f t i = pkg_root_for f t (pi_exec_id p))"
proof (intro conjI allI impI)
  fix r why
  assume "pkg_root_with_reason f t i = Some (r, why)"
  from find_map_rev_last [OF this [unfolded pkg_root_find]]
  show "\<exists>n < length (self_and_above t i). self_and_above t i ! n = r \<and> process_root_reason f r = Some why
         \<and> (\<forall>m. n < m \<and> m < length (self_and_above t i) \<longrightarrow> \<not> is_pkg_root f (self_and_above t i ! m))"
    by (auto simp: is_pkg_root_def)
next
  fix p ps
  assume a: "ancestry t i = p # ps \<and> length (ancestry t (pi_exec_id p)) \<le> length ps
    \<and> in_pkg_subtree f t (pi_exec_id p)"
  note wf = table_run_wf [OF assms]
  have "ancestry t (pi_exec_id p) = ps" using a table.parent_walk [OF wf] by blast
  moreover have "get_proc t (pi_exec_id p) = Some p" using a table.up_known [OF wf, of p i] by simp
  ultimately have above: "self_and_above t (pi_exec_id p) = p # ps" by (simp add: self_and_above_def)
  have "foldl (better_root f) b (p # ps) = foldl (better_root f) None (p # ps)"
    if "foldl (better_root f) None (p # ps) \<noteq> None" for b
    using that unfolding foldl_better_root by (simp split: option.splits)
  moreover have "pkg_root_with_reason f t (pi_exec_id p) = foldl (better_root f) None (p # ps)"
    using above by (simp add: pkg_root_find foldl_better_root better_root_def find_map_append split: option.split)
  ultimately have "foldl (better_root f) b (p # ps) = pkg_root_with_reason f t (pi_exec_id p)" for b
    using a by (metis in_pkg_subtree_def option.map_disc_iff pkg_root_for_def)
  moreover have "ancestry t i = p # ps" using a by blast
  ultimately show "pkg_root_for f t i = pkg_root_for f t (pi_exec_id p)"
    by (simp only: pkg_root_for_def pkg_root_with_reason_def [of f t i])
qed

definition makepkg_table :: proc_table where
  "makepkg_table =
     snd (observe_proc (\<lambda>_. (None, None)) (example_proc ''b'' ''/usr/bin/makepkg'' (Some ''a'')) (new_table 8 60))"

theorem install_has_one_root_witness:
  "\<exists>r. pkg_root_with_reason (\<lambda>_. False) makepkg_table ''b'' = Some (r, ''binary basename `makepkg`'')
     \<and> r \<in> set (self_and_above makepkg_table ''b'')"
proof -
  have run: "table_run 8 60 makepkg_table"
    unfolding makepkg_table_def by (rule table_run.move [OF table_run.boot table_step.seen])
  have base: "basename ''/usr/bin/makepkg'' = ''makepkg''" by (simp add: basename_def)
  obtain r where r: "get_proc makepkg_table ''b'' = Some r" "pi_exe r = ''/usr/bin/makepkg''" "ancestry makepkg_table ''b'' = []"
    by (simp add: makepkg_table_def observe_proc_def observe_id_def example_proc_def new_table_def Let_def
        new_proc_def non_empty_def get_proc_def ancestry_def p_exe_def unwrap_str_def numeral_eq_Suc)
  have "process_root_reason (\<lambda>_. False) r = Some ''binary basename `makepkg`''"
    using r(2) base by (simp add: process_root_reason_def local_npx_def root_reason_def PKG_ROOT_BINARIES_def
        list_ex_iff split: option.split)
  then have "pkg_root_with_reason (\<lambda>_. False) makepkg_table ''b'' = Some (r, ''binary basename `makepkg`'')"
    using r by (simp add: pkg_root_with_reason_def better_root_def)
  then show ?thesis
    using install_has_one_root [OF run, of "\<lambda>_. False" "''b''"] by (metis nth_mem)
qed

section \<open>What the arguments prove\<close>

lemma interpreter_is_no_root:
  "is_interpreter comm \<Longrightarrow> comm \<notin> set PKG_ROOT_BINARIES \<and> comm \<notin> {''yarn'', ''pnpm''}
     \<and> \<not> prefix ''build-script-'' comm"
  by (auto simp: is_interpreter_def SHELL_INTERPRETERS_def PKG_ROOT_BINARIES_def prefix_def)

lemma inline_code_is_no_install: "runs_inline_code exe args \<Longrightarrow> root_reason exe args = None"
  using interpreter_is_no_root [of "basename exe"]
  by (auto simp: root_reason_def Let_def runs_inline_code_def)

lemma verb_needs_a_word: "verb_reason exe toks (tool, subs) = Some r \<Longrightarrow> \<exists>s \<in> set subs. \<not> prefix ''-'' s"
  by (auto simp: verb_reason_def find_Some_iff split: option.splits if_splits)

text \<open>A Nix installation is never seen. The subcommands the table lists for nix-env and nix-shell all
  begin with a dash, and the search for the subcommand skips every word that does; so neither tool is
  the root of an installation by its verb, whatever its arguments, and \<open>nix-env -i hello\<close> has no reason
  at all.\<close>

theorem nix_env_is_never_an_install:
  "map fst (filter (\<lambda>(tool, subs). tool \<in> {''nix-env'', ''nix-shell''}) VERB_MARKERS) = [''nix-env'', ''nix-shell'']
   \<and> list_all (\<lambda>v. verb_reason exe toks v = None)
       (filter (\<lambda>(tool, subs). tool \<in> {''nix-env'', ''nix-shell''}) VERB_MARKERS)
   \<and> root_reason ''/usr/bin/nix-env'' ''-i hello'' = None"
proof (intro conjI)
  let ?nix = "filter (\<lambda>(tool, subs). tool \<in> {''nix-env'', ''nix-shell''}) VERB_MARKERS"
  have nix: "?nix = [(''nix-env'', [''-i'', ''--install'', ''-iA'']), (''nix-shell'', [''-p'', ''--packages'', ''--run''])]"
    by (simp add: VERB_MARKERS_def)
  show "map fst ?nix = [''nix-env'', ''nix-shell'']" unfolding nix by simp
  have "verb_reason exe toks (tool, subs) = None" if "\<forall>s \<in> set subs. prefix ''-'' s" for tool subs
    using that verb_needs_a_word [of exe toks tool subs] by (cases "verb_reason exe toks (tool, subs)") auto
  then show "list_all (\<lambda>v. verb_reason exe toks v = None) ?nix" unfolding nix by simp
  show "root_reason ''/usr/bin/nix-env'' ''-i hello'' = None" by code_simp
qed

end
