(* ===== verification/Proc_Context.thy ===== *)
theory Proc_Context
  imports Provenance Pkg_Tree Chain
begin

text \<open>
  \<open>moatd/src/context.rs\<close>: the one context of a process, from its exact ancestry, and the sentence that
  says why. The order of the questions is the design: a package installation wins outright, then the
  observed agent lineage, then a controlling terminal anywhere above, then the nearest telling name.
\<close>

record context_config =
  cc_interactive_roots :: "string list"
  cc_service_roots :: "string list"

definition INTERACTIVE_EXTRA :: "string list" where
  "INTERACTIVE_EXTRA =
     [''footclient'', ''terminator'', ''tilix'', ''zellij'', ''byobu'', ''su'', ''sudo'', ''vi'', ''hx'',
      ''helix'', ''emacsclient'', ''kak'', ''micro'', ''code-insiders'', ''zeditor'', ''sublime_text'',
      ''idea'', ''pycharm'', ''goland'', ''webstorm'', ''clion'', ''rustrover'', ''phpstorm'',
      ''rubymine'', ''datagrip'', ''jetbrains-toolbox'', ''studio'']"

definition SERVICE_ROOTS :: "string list" where
  "SERVICE_ROOTS =
     [''systemd'', ''systemd-executor'', ''systemd-user'', ''init'', ''Hyprland'', ''hyprland'',
      ''quickshell'', ''uwsm'', ''hyprctl'', ''waybar'', ''sway'', ''river'', ''gdm'',
      ''gdm-session-worker'', ''sddm'', ''sddm-helper'', ''greetd'', ''ly'', ''lightdm'', ''cron'',
      ''crond'', ''anacron'', ''atd'', ''fcron'', ''dbus-daemon'', ''dbus-broker'',
      ''dbus-broker-launch'', ''xdg-desktop-portal'', ''gio-launch-desktop'', ''xdg-open'',
      ''plasmashell'', ''gnome-shell'', ''containerd'', ''dockerd'', ''podman'', ''supervisord'',
      ''runit'', ''s6-supervise'']"

definition TRANSPARENT :: "string list" where
  "TRANSPARENT =
     [''claude'', ''codex'', ''gemini'', ''opencode'', ''amp'', ''q'', ''aider'', ''agy'', ''antigravity'']"

definition name_context :: "string \<Rightarrow> context_config \<Rightarrow> proc_context option" where
  "name_context comm cfg =
     (if comm \<in> set (cc_interactive_roots cfg) then Some Interactive
      else if comm \<in> set (cc_service_roots cfg) then Some Service
      else if comm \<in> set INTERACTIVE \<or> comm \<in> set INTERACTIVE_EXTRA then Some Interactive
      else if comm \<in> set SERVICE_ROOTS then Some Service
      else None)"

text \<open>\<open>chain_of\<close> is \<open>self_and_above\<close> of the package trees.\<close>

definition chain_of :: "proc_table \<Rightarrow> string \<Rightarrow> proc_info list" where
  "chain_of t i = (case get_proc t i of Some me \<Rightarrow> [me] | None \<Rightarrow> []) @ ancestry t i"

definition tty_holder :: "proc_info list \<Rightarrow> (proc_info \<times> nat) option" where
  "tty_holder chain =
     find_map (\<lambda>p. case pi_tty p of Some tt \<Rightarrow> if tt \<noteq> 0 then Some (p, tt) else None | None \<Rightarrow> None) chain"

definition desktop_launch :: "proc_info \<Rightarrow> bool" where
  "desktop_launch p \<longleftrightarrow> list_ex (\<lambda>a. suffix ''.desktop'' a) (split_whitespace (pi_args p))"

text \<open>What one process of the name walk says.\<close>

definition walk_context :: "context_config \<Rightarrow> proc_info \<Rightarrow> proc_context option" where
  "walk_context cfg p =
     (let comm = basename (pi_exe p) in
      if comm \<in> set TRANSPARENT then None
      else case name_context comm cfg of
             Some c \<Rightarrow> Some c
           | None \<Rightarrow> if desktop_launch p then Some Service else None)"

definition classify :: "(string list \<Rightarrow> bool) \<Rightarrow> proc_table \<Rightarrow> string \<Rightarrow> context_config \<Rightarrow> proc_context" where
  "classify is_file t i cfg =
     (if in_pkg_subtree is_file t i then PkgInstall
      else if Option.bind (get_proc t i) pi_agent_session \<noteq> None then Agent
      else if tty_holder (chain_of t i) \<noteq> None then Interactive
      else case find_map (walk_context cfg) (chain_of t i) of Some c \<Rightarrow> c | None \<Rightarrow> UnknownCtx)"

definition root_name :: "proc_info list \<Rightarrow> context_config \<Rightarrow> string" where
  "root_name chain cfg =
     (case List.find (\<lambda>c. c \<notin> set TRANSPARENT \<and> name_context c cfg \<noteq> None) (map (\<lambda>p. basename (pi_exe p)) chain) of
        Some c \<Rightarrow> c | None \<Rightarrow> ''a desktop entry'')"

definition evidence :: "(string list \<Rightarrow> bool) \<Rightarrow> proc_table \<Rightarrow> string \<Rightarrow> proc_context \<Rightarrow> context_config \<Rightarrow> string" where
  "evidence is_file t i ctx cfg =
     (case ctx of
        PkgInstall \<Rightarrow>
          (case pkg_root_with_reason is_file t i of
             Some (root, why) \<Rightarrow>
               ''context: pkg-install '' @ em_dash @ '' inside a `'' @ pi_comm root @ ''` subtree (matched on '' @ why
               @ ''); a package install is never downgraded''
           | None \<Rightarrow> ''context: pkg-install'')
      | Agent \<Rightarrow>
          ''context: agent '' @ em_dash @ '' observed agent lineage; a terminal is not per-action approval''
      | UnknownCtx \<Rightarrow>
          ''context: unknown '' @ em_dash @ '' the ancestry does not reach a terminal, a package manager or a service manager, so no context adjustment was applied''
      | _ \<Rightarrow>
          (let chain = chain_of t i; root = root_name chain cfg in
           case (ctx, tty_holder chain) of
             (Interactive, Some (p, tt)) \<Rightarrow>
               ''context: interactive '' @ em_dash @ '' pid '' @ show_nat (pi_pid p) @ '' ('' @ pi_comm p
               @ '') has a controlling terminal (tty '' @ show_nat tt @ '')''
           | _ \<Rightarrow>
               if ctx = Service \<and> list_ex (\<lambda>p. pi_tty p \<noteq> None) chain
               then ''context: service '' @ em_dash @ '' no controlling terminal anywhere in the chain; root is '' @ root
               else ''context: '' @ context_str ctx @ '' '' @ em_dash @ '' root of the process chain is '' @ root))"

section \<open>What a context rests on\<close>

lemma chain_of_self_and_above: "chain_of t i = self_and_above t i"
  by (simp add: chain_of_def self_and_above_def)

lemma tty_holder_Some: "tty_holder ps = Some (p, tt) \<Longrightarrow> p \<in> set ps \<and> pi_tty p = Some tt \<and> tt \<noteq> 0"
  by (auto simp: tty_holder_def dest!: find_map_Some split: option.splits if_splits)

lemma tty_holder_None: "tty_holder ps = None \<longleftrightarrow> (\<forall>p \<in> set ps. pi_tty p = None \<or> pi_tty p = Some 0)"
  by (auto simp: tty_holder_def find_map_None split: option.splits if_splits) (metis not_None_eq neq0_conv)

lemma find_map_first:
  "find_map f xs = Some y \<Longrightarrow> \<exists>n < length xs. f (xs ! n) = Some y \<and> (\<forall>m < n. f (xs ! m) = None)"
proof (induction xs)
  case (Cons x xs)
  show ?case
  proof (cases "f x")
    case None
    with Cons obtain n where "n < length xs" "f (xs ! n) = Some y" "\<forall>m < n. f (xs ! m) = None" by auto
    with None show ?thesis by (intro exI [of _ "Suc n"]) (auto simp: less_Suc_eq_0_disj)
  next
    case (Some z)
    with Cons.prems show ?thesis by (intro exI [of _ 0]) simp
  qed
qed simp

text \<open>A terminal is the mechanism and a name the fallback. Outside a package installation and an
  agent session a process is interactive whenever it or an ancestor within the walk holds a controlling
  terminal, whatever the programs are called; it is a service, the context no rule is softened in,
  only when none does and the nearest ancestor that says anything is one; and a package installation is
  one whatever terminal it was typed at.\<close>

theorem terminal_decides_before_names:
  assumes "classify f t i cfg = c"
  shows "(in_pkg_subtree f t i \<longleftrightarrow> c = PkgInstall)
    \<and> (c \<noteq> PkgInstall \<longrightarrow> (c = Agent \<longleftrightarrow> Option.bind (get_proc t i) pi_agent_session \<noteq> None))
    \<and> (c \<notin> {PkgInstall, Agent} \<and> (\<exists>p \<in> set (chain_of t i). \<exists>tt. pi_tty p = Some tt \<and> tt \<noteq> 0) \<longrightarrow> c = Interactive)
    \<and> (c = Service \<longrightarrow> (\<forall>p \<in> set (chain_of t i). pi_tty p = None \<or> pi_tty p = Some 0)
         \<and> (\<exists>n < length (chain_of t i). walk_context cfg (chain_of t i ! n) = Some Service
              \<and> (\<forall>m < n. walk_context cfg (chain_of t i ! m) = None)))"
proof -
  have names: "x = Interactive \<or> x = Service" if "find_map (walk_context cfg) (chain_of t i) = Some x" for x
    using find_map_Some [OF that] by (auto simp: walk_context_def name_context_def Let_def split: if_splits option.splits)
  have "c = Service \<Longrightarrow> find_map (walk_context cfg) (chain_of t i) = Some Service \<and> tty_holder (chain_of t i) = None"
    using assms by (cases "tty_holder (chain_of t i)") (auto simp: classify_def split: if_splits option.splits)
  moreover have "(\<exists>p \<in> set (chain_of t i). \<exists>tt. pi_tty p = Some tt \<and> tt \<noteq> 0) \<Longrightarrow> tty_holder (chain_of t i) \<noteq> None"
    by (auto simp: tty_holder_None)
  ultimately show ?thesis
    using assms names find_map_first [of "walk_context cfg" "chain_of t i" Service]
    by (auto simp: classify_def tty_holder_None split: if_splits option.splits)
qed

theorem terminal_decides_before_names_witness:
  "classify (\<lambda>_. False) (new_table 8 60) ''x'' \<lparr>cc_interactive_roots = [], cc_service_roots = []\<rparr> = UnknownCtx
   \<and> \<not> in_pkg_subtree (\<lambda>_. False) (new_table 8 60) ''x''"
proof -
  have c: "classify (\<lambda>_. False) (new_table 8 60) ''x'' \<lparr>cc_interactive_roots = [], cc_service_roots = []\<rparr> = UnknownCtx"
    by (simp add: classify_def chain_of_def tty_holder_def in_pkg_subtree_def pkg_root_for_def
        pkg_root_with_reason_def get_proc_def new_table_def ancestry_def numeral_eq_Suc)
  with terminal_decides_before_names [OF c] show ?thesis by simp
qed

end
