(* ===== verification/Triage.thy ===== *)
theory Triage
  imports Severity Exec_Path
begin

text \<open>
  \<open>moatd/src/triage.rs\<close>: what an agent's verdict may do to an alert, for how long a verdict stands in
  for another look, how the answer is taken out of what the agent printed, and how the agent is
  started. The prompt's text and the JSON reader are parameters.
\<close>

section \<open>Verdicts\<close>

datatype triage_mode = TriageOff | TriageAnnotate | TriageDemote

fun triage_mode_str :: "triage_mode \<Rightarrow> string" where
  "triage_mode_str TriageOff = ''off''"
| "triage_mode_str TriageAnnotate = ''annotate''"
| "triage_mode_str TriageDemote = ''demote''"

datatype verdict = Benign | Suspicious | Malicious | Unclear

datatype confidence = Low | Medium | High

fun confidence_word :: "confidence \<Rightarrow> string" where
  "confidence_word Low = ''low''"
| "confidence_word Medium = ''medium''"
| "confidence_word High = ''high''"

record triage_result =
  tr_verdict :: verdict
  tr_confidence :: confidence
  tr_summary :: string
  tr_reasoning :: string
  tr_proposed_allowlist :: "string option"
  tr_recommend :: "string list"

record triage =
  tg_agent :: string
  tg_at :: string
  tg_result :: triage_result
  tg_outcome :: string
  tg_restore_severity :: "string option"
  tg_restore_surface :: "string option"

datatype triage_action = Annotate | Demote | Raise

fun action_outcome :: "triage_action \<Rightarrow> string option \<Rightarrow> string" where
  "action_outcome Demote _ = ''demoted''"
| "action_outcome Raise _ = ''raised''"
| "action_outcome Annotate (Some r) = ''withheld: '' @ r"
| "action_outcome Annotate None = ''annotated''"

section \<open>The ceiling\<close>

definition NEVER_DEMOTE :: "string list" where
  "NEVER_DEMOTE =
     [''moat-x-noisy-rule'', ''moat-x-baseline-revoked'', ''moat-x-sensor-mismatch'', ''moat-x-binary-modified'',
      ''moat-x-new-exec-ioc'', ''moat-x-protection-changed'', ''moat-x-sensor-throttled'',
      ''moat-x-nobody-is-watching'', ''moat-x-was-not-running'']"

definition NEVER_DEMOTE_FAMILIES :: "string list" where
  "NEVER_DEMOTE_FAMILIES = [''rootkit'', ''ransom'']"

definition NEVER_SILENCE :: "string list" where
  "NEVER_SILENCE =
     [''moat-x-protection-changed'', ''moat-x-was-not-running'', ''moat-x-nobody-is-watching'',
      ''moat-x-sensor-throttled'', ''moat-x-sensor-mismatch'']"

definition decide ::
    "triage_mode \<Rightarrow> string \<Rightarrow> string \<Rightarrow> string \<Rightarrow> string \<Rightarrow> string \<Rightarrow> triage_result \<Rightarrow> triage_action \<times> string option" where
  "decide mode rule family severity rarity demote_max result =
     (if mode \<noteq> TriageDemote then (Annotate, None)
      else if tr_verdict result = Malicious \<and> tr_confidence result = High then
        (if severity_rank severity < severity_rank ''high'' then (Raise, None) else (Annotate, None))
      else if tr_verdict result \<noteq> Benign then (Annotate, None)
      else if tr_confidence result \<noteq> High then
        (Annotate, Some (''confidence is '' @ confidence_word (tr_confidence result) @ '', not high''))
      else if rule \<in> set NEVER_DEMOTE \<or> family \<in> set NEVER_DEMOTE_FAMILIES then
        (Annotate, Some (rule @ '' is never demoted''))
      else if rarity = ''first_seen'' then
        (Annotate, Some ''first time this pattern has been seen here'')
      else if severity_rank severity > severity_rank demote_max then
        (Annotate, Some (severity @ '' is above the '' @ demote_max @ '' demote ceiling''))
      else (Demote, None))"

section \<open>Inheriting a verdict\<close>

definition INHERIT_DAYS :: int where "INHERIT_DAYS = 14"

definition rarity_rank :: "string \<Rightarrow> nat" where
  "rarity_rank class = (if class = ''common'' then 2 else if class = ''rare'' then 1 else 0)"

text \<open>\<open>str::get(0..10)\<close>: the first ten bytes, when they end between two characters.\<close>

definition first_ten :: "string \<Rightarrow> string option" where
  "first_ten ts =
     (if length ts < 10 \<or> (length ts > 10 \<and> is_continuation (ts ! 10)) then None else Some (take 10 ts))"

definition stamp_date :: "string \<Rightarrow> (int \<times> int \<times> int) option" where
  "stamp_date ts =
     Option.bind (first_ten ts) (\<lambda>d.
     case split_on CHR ''-'' d of
       y # m # day # _ \<Rightarrow>
         Option.bind (parse_i64 y) (\<lambda>y'. Option.bind (parse_i64 m) (\<lambda>m'.
         Option.bind (parse_i64 day) (\<lambda>d'. Some (y', m', d'))))
     | _ \<Rightarrow> None)"

definition day_number :: "string \<Rightarrow> int option" where
  "day_number ts = map_option (\<lambda>(y, m, d). y * 372 + m * 31 + d) (stamp_date ts)"

definition within_days :: "string \<Rightarrow> string \<Rightarrow> int \<Rightarrow> bool" where
  "within_days before now days \<longleftrightarrow>
     (case (day_number before, day_number now) of
        (Some a, Some b) \<Rightarrow> b \<ge> a \<and> b - a \<le> days
      | _ \<Rightarrow> False)"

definition may_inherit :: "triage \<Rightarrow> string \<Rightarrow> string \<Rightarrow> string \<Rightarrow> string \<Rightarrow> bool" where
  "may_inherit prior prior_ts now source_rarity target_rarity \<longleftrightarrow>
     (if tr_verdict (tg_result prior) \<noteq> Benign then False
      else if rarity_rank target_rarity < rarity_rank source_rarity then False
      else within_days prior_ts now INHERIT_DAYS)"

definition record_inherited :: "triage \<Rightarrow> string \<Rightarrow> string \<Rightarrow> triage" where
  "record_inherited prior source_id at =
     \<lparr>tg_agent = tg_agent prior, tg_at = at, tg_result = tg_result prior,
      tg_outcome = ''inherited: same pattern as '' @ source_id, tg_restore_severity = None, tg_restore_surface = None\<rparr>"

definition record_triage :: "string \<Rightarrow> string \<Rightarrow> triage_result \<Rightarrow> triage_action \<Rightarrow> string option \<Rightarrow> triage" where
  "record_triage agent at result action withheld =
     \<lparr>tg_agent = agent, tg_at = at, tg_result = result, tg_outcome = action_outcome action withheld,
      tg_restore_severity = None, tg_restore_surface = None\<rparr>"

section \<open>Starting the agent\<close>

definition headless_argv :: "string \<Rightarrow> string \<Rightarrow> string + string list" where
  "headless_argv agent prompt =
     (if agent = ''claude'' then
        Inr [''claude'', ''-p'', ''--safe-mode'', ''--output-format'', ''text'', ''--permission-mode'', ''plan'',
             ''--allowed-tools'', ''Read,Grep,Glob'', ''--'', prompt]
      else if agent = ''codex'' then Inr [''codex'', ''exec'', ''--sandbox'', ''read-only'', ''--'', prompt]
      else Inl agent)"

definition supported_agents :: "string list" where
  "supported_agents = [''claude'', ''codex'']"

definition unsupported_text :: "string \<Rightarrow> string" where
  "unsupported_text agent =
     ''auto-triage has no read-only headless mode for '' @ agent
     @ '', so it is off. `moatctl analyze <id>` still works by hand. Supported: ''
     @ join_with '', '' supported_agents @ ''.''"

text \<open>\<open>Path::with_file_name\<close>: the last named component is replaced, or the name appended when there is
  none.\<close>

definition named_segs :: "string list \<Rightarrow> string list" where
  "named_segs segs = rev (dropWhile (\<lambda>s. s = [] \<or> s = ''.'') (rev segs))"

definition with_file_name :: "string \<Rightarrow> string \<Rightarrow> string" where
  "with_file_name p name =
     (let segs = named_segs (split_on CHR ''/'' p) in
      if segs = [] \<or> last segs = ''..'' then path_join p name
      else let dir = named_segs (butlast segs) in
           path_join (if dir = [] then (if prefix ''/'' p then ''/'' else if hd (segs @ [[]]) = ''.'' then ''.'' else [])
                      else join_with ''/'' dir) name)"

definition evidence_sandbox_argv :: "string \<Rightarrow> string \<Rightarrow> string \<Rightarrow> string list" where
  "evidence_sandbox_argv agent sandbox_bin bundle =
     [with_file_name sandbox_bin ''moat-triage-sandbox'', ''--agent'', agent, ''--bundle'', bundle]"

definition launch_argv :: "string \<Rightarrow> string \<Rightarrow> string option \<Rightarrow> string \<Rightarrow> string + string list" where
  "launch_argv agent prompt sandbox_bin bundle =
     bind_res (headless_argv agent prompt) (\<lambda>inner.
       case sandbox_bin of
         None \<Rightarrow> Inl ''missing evidence sandbox''
       | Some bin \<Rightarrow> Inr (evidence_sandbox_argv agent bin bundle @ [''--''] @ inner))"

section \<open>The answer\<close>

text \<open>The loop from the first brace on: how many bytes the object has.\<close>

fun scan_object :: "nat \<Rightarrow> bool \<Rightarrow> bool \<Rightarrow> string \<Rightarrow> nat option" where
  "scan_object depth in_str esc [] = None"
| "scan_object depth in_str esc (c # cs) =
     (if in_str then
        map_option Suc
          (if esc then scan_object depth True False cs
           else if c = CHR 0x5C then scan_object depth True True cs
           else if c = CHR 0x22 then scan_object depth False esc cs
           else scan_object depth True esc cs)
      else if c = CHR 0x22 then map_option Suc (scan_object depth True esc cs)
      else if c = CHR ''{'' then map_option Suc (scan_object (Suc depth) False esc cs)
      else if c = CHR ''}'' then
        (if depth - 1 = 0 then Some 1 else map_option Suc (scan_object (depth - 1) False esc cs))
      else map_option Suc (scan_object depth False esc cs))"

definition extract_json :: "string \<Rightarrow> string option" where
  "extract_json out =
     Option.bind (position (\<lambda>c. c = CHR ''{'') out) (\<lambda>start.
       map_option (\<lambda>n. take n (drop start out)) (scan_object 0 False False (drop start out)))"

definition quota_exhausted :: "string \<Rightarrow> bool" where
  "quota_exhausted output \<longleftrightarrow>
     (if extract_json output \<noteq> None then False
      else let s = to_lower (trim output) in
           prefix ''you've hit your weekly limit'' s \<or> prefix ''you've hit your limit'' s
           \<or> prefix ''you have exceeded your usage limit'' s \<or> prefix ''quota exceeded'' s)"

definition parse_result :: "(string \<Rightarrow> string + triage_result) \<Rightarrow> string \<Rightarrow> string + triage_result" where
  "parse_result decode out =
     (if quota_exhausted out
      then Inl ''agent usage quota exhausted; triage is paused for this batch until capacity is available''
      else case extract_json out of
        None \<Rightarrow> Inl ''no JSON object in the agent's output''
      | Some js \<Rightarrow>
          (case decode js of
             Inl e \<Rightarrow> Inl (''unusable answer: '' @ e)
           | Inr r \<Rightarrow>
               if trim (tr_summary r) = [] then Inl ''answer has an empty summary''
               else if trim (tr_reasoning r) = [] then Inl ''answer has an empty reasoning''
               else Inr r))"

definition agent_args_ignored :: "string \<Rightarrow> (string \<Rightarrow> string list option) \<Rightarrow> string option" where
  "agent_args_ignored agent cfg =
     (case cfg agent of
        Some (v # vs) \<Rightarrow>
          Some (''[analysis] agent_args.'' @ agent @ '' is not applied to auto-triage; its flags are what keep the unattended run read-only. It still applies to `moatctl analyze`.'')
      | _ \<Rightarrow> None)"

section \<open>How long a verdict stands\<close>

text \<open>The calendar: a date as the number of days since the year 0.\<close>

definition leap :: "nat \<Rightarrow> bool" where
  "leap y \<longleftrightarrow> y mod 4 = 0 \<and> (y mod 100 \<noteq> 0 \<or> y mod 400 = 0)"

definition month_len :: "nat \<Rightarrow> nat \<Rightarrow> nat" where
  "month_len y m = (if m = 2 then (if leap y then 29 else 28) else if m \<in> {4, 6, 9, 11} then 30 else 31)"

definition month_start :: "nat \<Rightarrow> nat" where
  "month_start k = (\<Sum>i<k. month_len (i div 12) (i mod 12 + 1))"

definition calendar_day :: "int \<times> int \<times> int \<Rightarrow> int" where
  "calendar_day = (\<lambda>(y, m, d). int (month_start (nat (12 * y + m - 1))) + d)"

definition valid_date :: "int \<times> int \<times> int \<Rightarrow> bool" where
  "valid_date = (\<lambda>(y, m, d). 0 \<le> y \<and> 1 \<le> m \<and> m \<le> 12 \<and> 1 \<le> d \<and> d \<le> 31)"

lemma month_start_le: "j \<le> k \<Longrightarrow> month_start k \<le> month_start j + 31 * (k - j)"
proof (induction k)
  case (Suc k)
  have "month_len y m \<le> 31" for y m by (simp add: month_len_def)
  then have "month_start (Suc k) \<le> month_start k + 31" by (simp add: month_start_def)
  with Suc show ?case by (cases "j = Suc k") auto
qed simp

text \<open>Counting every month as 31 days never makes two dates closer than they are.\<close>

lemma crude_days_are_no_fewer:
  assumes "valid_date (y, m, d)" and "valid_date (y', m', d')"
    and "y * 372 + m * 31 + d \<le> y' * 372 + m' * 31 + d'"
  shows "calendar_day (y', m', d') - calendar_day (y, m, d) \<le> (y' * 372 + m' * 31 + d') - (y * 372 + m * 31 + d)"
proof -
  let ?k = "12 * y + m - 1" and ?k' = "12 * y' + m' - 1"
  have k: "0 \<le> ?k" "0 \<le> ?k'" using assms(1,2) by (auto simp: valid_date_def)
  have "31 * (?k' - ?k) \<ge> d - d'" using assms(3) by simp
  then have "?k \<le> ?k'" using assms(1,2) by (auto simp: valid_date_def)
  then have "month_start (nat ?k') \<le> month_start (nat ?k) + 31 * (nat ?k' - nat ?k)" by (intro month_start_le) simp
  then have "int (month_start (nat ?k')) \<le> int (month_start (nat ?k) + 31 * (nat ?k' - nat ?k))"
    by (simp only: of_nat_le_iff)
  also have "\<dots> = int (month_start (nat ?k)) + 31 * (?k' - ?k)"
    using k \<open>?k \<le> ?k'\<close> by (simp add: of_nat_diff nat_le_eq_zle)
  finally show ?thesis by (simp add: calendar_day_def)
qed

text \<open>A verdict never stands for longer than two weeks. When a verdict is inherited it is benign, the
  new alert is no rarer than the one that was read, and by the calendar at most fourteen days lie
  between the two: the window counts every month as 31 days, which ends it early, never late.\<close>

theorem verdicts_expire:
  assumes "may_inherit prior prior_ts now source_rarity target_rarity"
    and "stamp_date prior_ts = Some a" and "stamp_date now = Some b" and "valid_date a" and "valid_date b"
  shows "tr_verdict (tg_result prior) = Benign \<and> rarity_rank source_rarity \<le> rarity_rank target_rarity
    \<and> calendar_day b - calendar_day a \<le> 14"
proof -
  obtain y m d where a: "a = (y, m, d)" by (cases a)
  obtain y' m' d' where b: "b = (y', m', d')" by (cases b)
  have "y * 372 + m * 31 + d \<le> y' * 372 + m' * 31 + d'"
    and "(y' * 372 + m' * 31 + d') - (y * 372 + m * 31 + d) \<le> 14"
    using assms(1-3) by (auto simp: may_inherit_def within_days_def day_number_def INHERIT_DAYS_def a b split: if_splits)
  with crude_days_are_no_fewer [of y m d y' m' d'] assms show ?thesis
    by (auto simp: may_inherit_def a b split: if_splits)
qed

definition benign_read :: triage where
  "benign_read = \<lparr>tg_agent = ''claude'', tg_at = [], tg_result = \<lparr>tr_verdict = Benign, tr_confidence = High,
     tr_summary = ''s'', tr_reasoning = ''r'', tr_proposed_allowlist = None, tr_recommend = []\<rparr>,
     tg_outcome = [], tg_restore_severity = None, tg_restore_surface = None\<rparr>"

lemma stamp_examples:
  "stamp_date ''2026-02-27T10:00:00Z'' = Some (2026, 2, 27)" "stamp_date ''2026-03-05T10:00:00Z'' = Some (2026, 3, 5)"
  by (simp_all add: stamp_date_def first_ten_def is_continuation_def parse_signed_def parse_unsigned_def
      parse_radix_def digit_val_def is_digit_def)

theorem verdicts_expire_witness:
  "may_inherit benign_read ''2026-02-27T10:00:00Z'' ''2026-03-05T10:00:00Z'' ''rare'' ''common''
   \<and> calendar_day (2026, 3, 5) - calendar_day (2026, 2, 27) \<le> 14"
proof -
  have "may_inherit benign_read ''2026-02-27T10:00:00Z'' ''2026-03-05T10:00:00Z'' ''rare'' ''common''"
    by (simp add: may_inherit_def benign_read_def rarity_rank_def within_days_def day_number_def stamp_examples
        INHERIT_DAYS_def)
  with verdicts_expire [OF this stamp_examples] show ?thesis by (simp add: valid_date_def)
qed

section \<open>Reading the answer\<close>

lemma scan_object_take:
  "scan_object depth in_str esc s = Some n \<Longrightarrow>
     0 < n \<and> n \<le> length s \<and> (\<forall>post. scan_object depth in_str esc (take n s @ post) = Some n)"
proof (induction depth in_str esc s arbitrary: n rule: scan_object.induct)
  case (2 depth in_str esc c cs)
  then show ?case by (auto split: if_splits)
qed simp

lemma position_append: "\<forall>x \<in> set pre. \<not> p x \<Longrightarrow> position p (pre @ xs) = map_option (\<lambda>i. length pre + i) (position p xs)"
  by (induction pre) (cases "position p xs"; auto)+

lemma position_hd: "xs \<noteq> [] \<Longrightarrow> p (hd xs) \<Longrightarrow> position p xs = Some 0"
  by (cases xs) auto

lemma extract_json_shape:
  assumes "extract_json out = Some obj"
  shows "obj \<noteq> [] \<and> hd obj = CHR ''{'' \<and> (\<exists>n. scan_object 0 False False obj = Some n \<and> n = length obj
      \<and> (\<forall>post. scan_object 0 False False (obj @ post) = Some n))"
proof -
  from assms obtain start n where p: "position (\<lambda>c. c = CHR ''{'') out = Some start"
    and n: "scan_object 0 False False (drop start out) = Some n" "obj = take n (drop start out)"
    by (auto simp: extract_json_def split: Option.bind_splits)
  note sc = scan_object_take [OF n(1)]
  have "start < length out" "out ! start = CHR ''{''" using position_Some [OF p] by auto
  then have "hd (drop start out) = CHR ''{''" by (simp add: hd_drop_conv_nth)
  with sc n(2) have "obj \<noteq> []" "hd obj = CHR ''{''" by (auto simp: hd_take)
  moreover have "n = length obj" using sc n(2) by simp
  moreover have post: "scan_object 0 False False (obj @ post) = Some n" for post using sc n(2) by simp
  moreover from post [of "[]"] have "scan_object 0 False False obj = Some n" by simp
  ultimately show ?thesis by auto
qed

text \<open>Prose around the answer does not matter. The object taken out of what the agent printed is the
  same when any text without a brace is put before it and any text at all behind it.\<close>

theorem answer_survives_prose:
  assumes "extract_json out = Some obj" and "CHR ''{'' \<notin> set before"
  shows "extract_json (before @ obj @ behind) = Some obj"
proof -
  note o = extract_json_shape [OF assms(1)]
  then have "position (\<lambda>c. c = CHR ''{'') (obj @ behind) = Some 0" by (intro position_hd) auto
  then have "position (\<lambda>c. c = CHR ''{'') (before @ obj @ behind) = Some (length before)"
    using position_append [of before "\<lambda>c. c = CHR ''{''" "obj @ behind"] assms(2) by auto
  with o show ?thesis by (auto simp: extract_json_def)
qed

theorem answer_survives_prose_witness: "extract_json (''ok: '' @ ''{x}'' @ '' done'') = Some ''{x}''"
  by (rule answer_survives_prose [of "''{x}''"]) (simp_all add: extract_json_def)

section \<open>Starting the agent\<close>

lemma no_sandbox_no_agent: "launch_argv agent prompt None bundle \<noteq> Inr argv"
  by (simp add: launch_argv_def bind_res_def split: sum.split)

lemma agent_is_confined:
  "launch_argv agent prompt sandbox bundle = Inr argv \<Longrightarrow>
     agent \<in> set supported_agents \<and> last argv = prompt
     \<and> (\<exists>bin inner. sandbox = Some bin \<and> argv = evidence_sandbox_argv agent bin bundle @ ''--'' # inner)"
  by (auto simp: launch_argv_def headless_argv_def supported_agents_def bind_res_Inr split: option.splits if_splits)

end
