(* ===== verification/Alert_Record.thy ===== *)
theory Alert_Record
  imports Chain_Store Collapse Triage Agent Provenance Json_Value
begin

text \<open>
  \<open>moatd/src/alert.rs\<close>: the record of an alert, the lines that change it, and the predicates every
  reader shares. The incident snapshot and the content analyses are type parameters, with their
  JSON readers and the evidence lines of an analysis as the parameter record \<open>readers\<close>.
\<close>

section \<open>The record\<close>

record sibling =
  sb_pid :: nat
  sb_exe :: string
  sb_args :: string
  sb_state :: string

record ancestor_row =
  ar_pid :: nat
  ar_exe :: string
  ar_args :: string
  ar_cwd :: string
  ar_start_time :: string
  ar_uid :: "nat option"
  ar_others :: "sibling list"
  ar_others_total :: nat

definition ancestor_new :: "nat \<Rightarrow> string \<Rightarrow> ancestor_row" where
  "ancestor_new pid exe =
     \<lparr>ar_pid = pid, ar_exe = exe, ar_args = [], ar_cwd = [], ar_start_time = [], ar_uid = None, ar_others = [],
      ar_others_total = 0\<rparr>"

record process_ref =
  pr_agent_session :: "agent_session option"
  pr_pid :: nat
  pr_uid :: nat
  pr_exe :: string
  pr_args :: string
  pr_cwd :: string
  pr_start_ts :: string
  pr_in_container :: "bool option"
  pr_ancestry :: "ancestor_row list"

record file_ref =
  fr_path :: string
  fr_sha256 :: "string option"

record net_ref =
  nr_dst_ip :: string
  nr_dst_port :: nat
  nr_domain :: "string option"
  nr_domain_age_secs :: "nat option"
  nr_domain_queried_by :: "string option"
  nr_domain_cname :: "string option"

definition net_ref_new :: "string \<Rightarrow> nat \<Rightarrow> net_ref" where
  "net_ref_new ip port =
     \<lparr>nr_dst_ip = ip, nr_dst_port = port, nr_domain = None, nr_domain_age_secs = None, nr_domain_queried_by = None,
      nr_domain_cname = None\<rparr>"

definition endpoint_text :: "net_ref \<Rightarrow> string" where
  "endpoint_text n =
     (case nr_domain n of
        Some d \<Rightarrow> nr_dst_ip n @ '':'' @ show_nat (nr_dst_port n) @ '' ('' @ d @ '')''
      | None \<Rightarrow> nr_dst_ip n @ '':'' @ show_nat (nr_dst_port n))"

record ioc_ref =
  ir_source :: string
  ir_matched :: string

record explain_option =
  eo_scope :: string
  eo_cmd :: string
  eo_line :: string

record if_expected =
  ie_hint :: string
  ie_options :: "explain_option list"
  ie_file :: string

record explain =
  ex_what :: string
  ex_why :: string
  ex_evidence :: "string list"
  ex_expected :: string
  ex_if_expected :: if_expected
  ex_next :: "string list"

record carried =
  ca_at :: string
  ca_generation :: nat

definition PROTECTED_META_RULES :: "string list" where
  "PROTECTED_META_RULES =
     [''moat-x-protection-changed'', ''moat-x-sensor-mismatch'', ''moat-x-sensor-throttled'',
      ''moat-x-was-not-running'', ''moat-x-nobody-is-watching'', ''moat-x-baseline-revoked'',
      ''moat-x-noisy-rule'', ''moat-x-binary-modified'']"

record ('i, 'c) alert =
  al_v :: nat
  al_id :: string
  al_ts :: string
  al_severity :: string
  al_rule :: string
  al_family :: string
  al_title :: string
  al_summary :: string
  al_process :: process_ref
  al_file :: "file_ref option"
  al_net :: "net_ref option"
  al_ioc :: "ioc_ref option"
  al_rotate :: "string list"
  al_explain :: explain
  al_action_taken :: string
  al_actions :: "string list"
  al_acked :: bool
  al_acked_by :: "string option"
  al_mode :: string
  al_count :: "nat option"
  al_actor :: actor
  al_context :: proc_context
  al_severity_base :: string
  al_severity_reason :: string
  al_surface :: string
  al_tier :: string
  al_pkg_install_escalation :: bool
  al_suppressed_by :: "string option"
  al_rarity :: rarity
  al_rarity_text :: string
  al_triage :: "triage option"
  al_incident :: "'i option"
  al_chain :: "chain_rec option"
  al_chain_id :: "string option"
  al_content :: "'c list"
  al_carried :: "carried option"
  al_exec_id :: string

section \<open>The shared predicates\<close>

definition is_chain_anchor :: "('i, 'c) alert \<Rightarrow> bool" where
  "is_chain_anchor a \<longleftrightarrow> (case al_chain a of Some c \<Rightarrow> ch_id c = al_id a | None \<Rightarrow> False)"

definition is_suppressed :: "('i, 'c) alert \<Rightarrow> bool" where
  "is_suppressed a \<longleftrightarrow> al_suppressed_by a \<noteq> None"

definition is_building_block :: "('i, 'c) alert \<Rightarrow> bool" where
  "is_building_block a \<longleftrightarrow> al_tier a = ''signal'' \<and> \<not> al_pkg_install_escalation a"

definition in_high_chain :: "('i, 'c) alert \<Rightarrow> bool" where
  "in_high_chain a \<longleftrightarrow>
     (case al_chain a of Some c \<Rightarrow> severity_rank (ch_severity c) \<ge> severity_rank ''high'' | None \<Rightarrow> False)"

definition is_protected :: "('i, 'c) alert \<Rightarrow> bool" where
  "is_protected a \<longleftrightarrow>
     (let high = severity_rank ''high'' in
      if al_surface a = ''alerts'' \<and> \<not> al_acked a \<and> \<not> is_suppressed a then True
      else if al_action_taken a \<noteq> ''none'' then True
      else if in_high_chain a then True
      else if al_incident a \<noteq> None then True
      else if al_rule a \<in> set PROTECTED_META_RULES then True
      else al_surface a = ''alerts'' \<and> severity_rank (al_severity a) \<ge> high)"

definition alert_tuple_key :: "('i, 'c) alert \<Rightarrow> string" where
  "alert_tuple_key a =
     (let dir = (case al_file a of Some f \<Rightarrow> dir_of (fr_path f) | None \<Rightarrow> []);
          parent = (case pr_ancestry (al_process a) of p # _ \<Rightarrow> ar_exe p | [] \<Rightarrow> []) in
      al_rule a @ ''|'' @ pr_exe (al_process a) @ ''|'' @ parent @ ''|'' @ dir)"

definition group_key :: "('i, 'c) alert \<Rightarrow> string" where
  "group_key a = (case ac_script (al_actor a) of Some s \<Rightarrow> s | None \<Rightarrow> pr_exe (al_process a))"

section \<open>Updates\<close>

record ('i, 'c) readers =
  rd_incident :: "json \<Rightarrow> 'i option"
  rd_chain :: "json \<Rightarrow> chain_rec option"
  rd_triage :: "json \<Rightarrow> triage option"
  rd_content :: "json \<Rightarrow> 'c list option"
  rd_evidence :: "'c \<Rightarrow> string list"

text \<open>The evidence lines of the analyses, each pushed unless it is there.\<close>

definition push_evidence :: "string list \<Rightarrow> string list \<Rightarrow> string list" where
  "push_evidence new old = foldl (\<lambda>acc l. if l \<in> set acc then acc else acc @ [l]) old new"

definition fold_content :: "('i, 'c) readers \<Rightarrow> json \<Rightarrow> ('i, 'c) alert \<Rightarrow> ('i, 'c) alert" where
  "fold_content rd v a =
     (case rd_content rd v of
        None \<Rightarrow> a
      | Some c \<Rightarrow>
          a\<lparr>al_explain := (al_explain a)\<lparr>ex_evidence := push_evidence (concat (map (rd_evidence rd) c))
                                                        (ex_evidence (al_explain a))\<rparr>,
            al_content := c\<rparr>)"

definition is_number :: "json \<Rightarrow> bool" where
  "is_number v \<longleftrightarrow> (case v of JInt _ \<Rightarrow> True | JFloat _ \<Rightarrow> True | _ \<Rightarrow> False)"

text \<open>The keys \<open>fold\<close> knows and what each does with its value; any other key is skipped.\<close>

datatype update_key = KAcked | KAckedBy | KActionTaken | KCount | KSeverity | KTs | KSurface | KSuppressedBy
  | KIncident | KChain | KChainId | KContent | KTriage

fun key_name :: "update_key \<Rightarrow> string" where
  "key_name KAcked = ''acked''"
| "key_name KAckedBy = ''acked_by''"
| "key_name KActionTaken = ''action_taken''"
| "key_name KCount = ''count''"
| "key_name KSeverity = ''severity''"
| "key_name KTs = ''ts''"
| "key_name KSurface = ''surface''"
| "key_name KSuppressedBy = ''suppressed_by''"
| "key_name KIncident = ''incident''"
| "key_name KChain = ''chain''"
| "key_name KChainId = ''chain_id''"
| "key_name KContent = ''content''"
| "key_name KTriage = ''triage''"

definition update_keys :: "update_key list" where
  "update_keys = [KAcked, KAckedBy, KActionTaken, KCount, KSeverity, KTs, KSurface, KSuppressedBy, KIncident, KChain,
     KChainId, KContent, KTriage]"

definition key_of :: "string \<Rightarrow> update_key option" where
  "key_of k = List.find (\<lambda>f. key_name f = k) update_keys"

fun fold_key :: "('i, 'c) readers \<Rightarrow> update_key \<Rightarrow> json \<Rightarrow> ('i, 'c) alert \<Rightarrow> ('i, 'c) alert" where
  "fold_key rd KAcked v a = (case v of JBool b \<Rightarrow> a\<lparr>al_acked := b\<rparr> | _ \<Rightarrow> a)"
| "fold_key rd KAckedBy v a = (case v of JStr s \<Rightarrow> a\<lparr>al_acked_by := Some s\<rparr> | _ \<Rightarrow> a)"
| "fold_key rd KActionTaken v a = (case v of JStr s \<Rightarrow> a\<lparr>al_action_taken := s\<rparr> | _ \<Rightarrow> a)"
| "fold_key rd KCount v a = (if is_number v then a\<lparr>al_count := as_u64 v\<rparr> else a)"
| "fold_key rd KSeverity v a = (case v of JStr s \<Rightarrow> a\<lparr>al_severity := s\<rparr> | _ \<Rightarrow> a)"
| "fold_key rd KTs v a = (case v of JStr s \<Rightarrow> a\<lparr>al_ts := s\<rparr> | _ \<Rightarrow> a)"
| "fold_key rd KSurface v a = (case v of JStr s \<Rightarrow> a\<lparr>al_surface := s\<rparr> | _ \<Rightarrow> a)"
| "fold_key rd KSuppressedBy v a =
     (case v of JStr s \<Rightarrow> a\<lparr>al_suppressed_by := Some s\<rparr> | JNull \<Rightarrow> a\<lparr>al_suppressed_by := None\<rparr> | _ \<Rightarrow> a)"
| "fold_key rd KIncident v a = a\<lparr>al_incident := rd_incident rd v\<rparr>"
| "fold_key rd KChain v a =
     (if v = JNull then a\<lparr>al_chain := None\<rparr>
      else case rd_chain rd v of Some c \<Rightarrow> a\<lparr>al_chain := Some c\<rparr> | None \<Rightarrow> a)"
| "fold_key rd KChainId v a =
     (case v of JStr s \<Rightarrow> a\<lparr>al_chain_id := Some s\<rparr> | JNull \<Rightarrow> a\<lparr>al_chain_id := None\<rparr> | _ \<Rightarrow> a)"
| "fold_key rd KContent v a = fold_content rd v a"
| "fold_key rd KTriage v a =
     (if v = JNull then a\<lparr>al_triage := None\<rparr>
      else case rd_triage rd v of Some t \<Rightarrow> a\<lparr>al_triage := Some t\<rparr> | None \<Rightarrow> a)"

definition fold_entry :: "('i, 'c) readers \<Rightarrow> string \<Rightarrow> json \<Rightarrow> ('i, 'c) alert \<Rightarrow> ('i, 'c) alert" where
  "fold_entry rd k v a = (case key_of k of Some f \<Rightarrow> fold_key rd f v a | None \<Rightarrow> a)"

record update_line =
  up_v :: nat
  up_id :: string
  up_update :: "(string \<times> json) list"

fun fold_update :: "('i, 'c) readers \<Rightarrow> (string \<times> json) list \<Rightarrow> ('i, 'c) alert \<Rightarrow> ('i, 'c) alert" where
  "fold_update rd [] a = a"
| "fold_update rd ((k, v) # kvs) a = fold_update rd kvs (fold_entry rd k v a)"

section \<open>What an update does\<close>

text \<open>A field that one key governs: its value after the whole update is what the update says about it.\<close>

lemma key_of_iff: "key_of k = Some f \<longleftrightarrow> k = key_name f"
proof -
  have u: "f \<in> set update_keys" for f by (cases f) (simp_all add: update_keys_def)
  have d: "distinct (map key_name update_keys)" by (simp add: update_keys_def)
  have inj: "f = g" if "key_name f = key_name g" for f g
    using d u that by (auto simp: distinct_map inj_on_def)
  show ?thesis
  proof
    assume "key_of k = Some f"
    then show "k = key_name f" by (auto simp: key_of_def find_Some_iff)
  next
    assume k: "k = key_name f"
    then have "key_of k \<noteq> None" using u by (auto simp: key_of_def find_None_iff)
    then obtain g where "key_of k = Some g" by blast
    with k inj show "key_of k = Some f" by (auto simp: key_of_def find_Some_iff)
  qed
qed

lemma governed_field:
  assumes "\<And>g v a. sel (fold_key rd g v a) = (if g = f then h v (sel a) else sel a)" and "distinct (map fst u)"
  shows "sel (fold_update rd u a) = (case map_of u (key_name f) of Some v \<Rightarrow> h v (sel a) | None \<Rightarrow> sel a)"
  using assms(2)
proof (induction u arbitrary: a)
  case (Cons e u)
  obtain k v where e: "e = (k, v)" by fastforce
  have "map_of u k = None" using Cons.prems e by (simp add: map_of_eq_None_iff)
  moreover have "sel (fold_entry rd k v a) = (if k = key_name f then h v (sel a) else sel a)"
  proof (cases "key_of k")
    case None
    with key_of_iff [of k f] have "k \<noteq> key_name f" by auto
    with None show ?thesis by (simp add: fold_entry_def)
  next
    case (Some g)
    then have "k = key_name g" "k = key_name f \<longleftrightarrow> g = f" using key_of_iff [of k g] key_of_iff [of k f] by auto
    with Some assms(1) show ?thesis by (simp add: fold_entry_def)
  qed
  ultimately show ?case using Cons e by (auto split: option.splits)
qed simp

lemma ungoverned_field:
  assumes "\<And>f v a. sel (fold_key rd f v a) = sel a"
  shows "sel (fold_update rd u a) = sel a"
proof (induction u arbitrary: a)
  case (Cons e u)
  then show ?case by (cases e) (simp add: fold_entry_def assms split: option.split)
qed simp

lemma set_push_evidence: "set (push_evidence new old) = set old \<union> set new"
  unfolding push_evidence_def by (induction new arbitrary: old) auto

lemma push_evidence_known: "set new \<subseteq> set old \<Longrightarrow> push_evidence new old = old"
  unfolding push_evidence_def by (induction new) auto

lemma push_evidence_twice: "push_evidence new (push_evidence new old) = push_evidence new old"
  by (rule push_evidence_known) (simp add: set_push_evidence)

text \<open>What the text of an update says about each field.\<close>

definition said_bool :: "json \<Rightarrow> bool \<Rightarrow> bool" where
  "said_bool v old = (case v of JBool b \<Rightarrow> b | _ \<Rightarrow> old)"

definition said_str :: "json \<Rightarrow> string \<Rightarrow> string" where
  "said_str v old = (case v of JStr s \<Rightarrow> s | _ \<Rightarrow> old)"

definition said_some :: "json \<Rightarrow> string option \<Rightarrow> string option" where
  "said_some v old = (case v of JStr s \<Rightarrow> Some s | _ \<Rightarrow> old)"

definition said_null :: "json \<Rightarrow> string option \<Rightarrow> string option" where
  "said_null v old = (case v of JStr s \<Rightarrow> Some s | JNull \<Rightarrow> None | _ \<Rightarrow> old)"

definition said_count :: "json \<Rightarrow> nat option \<Rightarrow> nat option" where
  "said_count v old = (if is_number v then as_u64 v else old)"

definition said_read :: "(json \<Rightarrow> 'x option) \<Rightarrow> json \<Rightarrow> 'x option \<Rightarrow> 'x option" where
  "said_read rd v old = (if v = JNull then None else case rd v of Some x \<Rightarrow> Some x | None \<Rightarrow> old)"

definition said_content :: "('i, 'c) readers \<Rightarrow> json \<Rightarrow> string list \<times> 'c list \<Rightarrow> string list \<times> 'c list" where
  "said_content rd v old =
     (case rd_content rd v of
        Some c \<Rightarrow> (push_evidence (concat (map (rd_evidence rd) c)) (fst old), c)
      | None \<Rightarrow> old)"

lemmas said_defs = said_bool_def said_str_def said_some_def said_null_def said_count_def said_read_def said_content_def

lemma key_fields:
  "al_acked (fold_key rd f v a) = (if f = KAcked then said_bool v (al_acked a) else al_acked a)"
  "al_acked_by (fold_key rd f v a) = (if f = KAckedBy then said_some v (al_acked_by a) else al_acked_by a)"
  "al_action_taken (fold_key rd f v a) = (if f = KActionTaken then said_str v (al_action_taken a) else al_action_taken a)"
  "al_count (fold_key rd f v a) = (if f = KCount then said_count v (al_count a) else al_count a)"
  "al_severity (fold_key rd f v a) = (if f = KSeverity then said_str v (al_severity a) else al_severity a)"
  "al_ts (fold_key rd f v a) = (if f = KTs then said_str v (al_ts a) else al_ts a)"
  "al_surface (fold_key rd f v a) = (if f = KSurface then said_str v (al_surface a) else al_surface a)"
  "al_suppressed_by (fold_key rd f v a) = (if f = KSuppressedBy then said_null v (al_suppressed_by a) else al_suppressed_by a)"
  "al_incident (fold_key rd f v a) = (if f = KIncident then rd_incident rd v else al_incident a)"
  "al_chain (fold_key rd f v a) = (if f = KChain then said_read (rd_chain rd) v (al_chain a) else al_chain a)"
  "al_chain_id (fold_key rd f v a) = (if f = KChainId then said_null v (al_chain_id a) else al_chain_id a)"
  "al_triage (fold_key rd f v a) = (if f = KTriage then said_read (rd_triage rd) v (al_triage a) else al_triage a)"
  "(ex_evidence (al_explain (fold_key rd f v a)), al_content (fold_key rd f v a)) =
     (if f = KContent then said_content rd v (ex_evidence (al_explain a), al_content a)
      else (ex_evidence (al_explain a), al_content a))"
  by (cases f; simp add: fold_content_def said_defs split: json.split option.split)+

lemma update_fields:
  assumes "distinct (map fst u)"
  shows
    "al_acked (fold_update rd u a) =
       (case map_of u (key_name KAcked) of Some v \<Rightarrow> said_bool v (al_acked a) | None \<Rightarrow> al_acked a)"
    "al_acked_by (fold_update rd u a) =
       (case map_of u (key_name KAckedBy) of Some v \<Rightarrow> said_some v (al_acked_by a) | None \<Rightarrow> al_acked_by a)"
    "al_action_taken (fold_update rd u a) =
       (case map_of u (key_name KActionTaken) of Some v \<Rightarrow> said_str v (al_action_taken a) | None \<Rightarrow> al_action_taken a)"
    "al_count (fold_update rd u a) =
       (case map_of u (key_name KCount) of Some v \<Rightarrow> said_count v (al_count a) | None \<Rightarrow> al_count a)"
    "al_severity (fold_update rd u a) =
       (case map_of u (key_name KSeverity) of Some v \<Rightarrow> said_str v (al_severity a) | None \<Rightarrow> al_severity a)"
    "al_ts (fold_update rd u a) =
       (case map_of u (key_name KTs) of Some v \<Rightarrow> said_str v (al_ts a) | None \<Rightarrow> al_ts a)"
    "al_surface (fold_update rd u a) =
       (case map_of u (key_name KSurface) of Some v \<Rightarrow> said_str v (al_surface a) | None \<Rightarrow> al_surface a)"
    "al_suppressed_by (fold_update rd u a) =
       (case map_of u (key_name KSuppressedBy) of Some v \<Rightarrow> said_null v (al_suppressed_by a) | None \<Rightarrow> al_suppressed_by a)"
    "al_incident (fold_update rd u a) =
       (case map_of u (key_name KIncident) of Some v \<Rightarrow> rd_incident rd v | None \<Rightarrow> al_incident a)"
    "al_chain (fold_update rd u a) =
       (case map_of u (key_name KChain) of Some v \<Rightarrow> said_read (rd_chain rd) v (al_chain a) | None \<Rightarrow> al_chain a)"
    "al_chain_id (fold_update rd u a) =
       (case map_of u (key_name KChainId) of Some v \<Rightarrow> said_null v (al_chain_id a) | None \<Rightarrow> al_chain_id a)"
    "al_triage (fold_update rd u a) =
       (case map_of u (key_name KTriage) of Some v \<Rightarrow> said_read (rd_triage rd) v (al_triage a) | None \<Rightarrow> al_triage a)"
    "(ex_evidence (al_explain (fold_update rd u a)), al_content (fold_update rd u a)) =
       (case map_of u (key_name KContent) of
          Some v \<Rightarrow> said_content rd v (ex_evidence (al_explain a), al_content a)
        | None \<Rightarrow> (ex_evidence (al_explain a), al_content a))"
  by (rule governed_field [OF _ assms], rule key_fields)+

text \<open>The fields no update line can name.\<close>

definition fixed_fields where
  "fixed_fields a = (al_v a, al_id a, al_rule a, al_family a, al_title a, al_summary a, al_process a, al_file a, al_net a,
     al_ioc a, al_rotate a, al_actions a, al_mode a, al_actor a, al_context a, al_severity_base a, al_severity_reason a,
     al_tier a, al_pkg_install_escalation a, al_rarity a, al_rarity_text a, al_carried a, al_exec_id a, alert.more a)"

lemma key_frame:
  "fixed_fields (fold_key rd f v a) = fixed_fields a"
  "(al_explain (fold_key rd f v a))\<lparr>ex_evidence := []\<rparr> = (al_explain a)\<lparr>ex_evidence := []\<rparr>"
  by (cases f; simp add: fixed_fields_def fold_content_def split: json.split option.split)+

lemma update_frame:
  "fixed_fields (fold_update rd u a) = fixed_fields a"
  "(al_explain (fold_update rd u a))\<lparr>ex_evidence := []\<rparr> = (al_explain a)\<lparr>ex_evidence := []\<rparr>"
  by (rule ungoverned_field, rule key_frame)+

lemma said_again:
  "said_bool v (said_bool v x) = said_bool v x" "said_str v (said_str v y) = said_str v y"
  "said_some v (said_some v z) = said_some v z" "said_null v (said_null v z) = said_null v z"
  "said_count v (said_count v n) = said_count v n" "said_read f v (said_read f v w) = said_read f v w"
  "said_content rd v (said_content rd v p) = said_content rd v p"
  by (cases v; simp add: said_defs push_evidence_twice split: option.split)+

lemma explain_eqI:
  "ex_what e = ex_what e' \<Longrightarrow> ex_why e = ex_why e' \<Longrightarrow> ex_evidence e = ex_evidence e' \<Longrightarrow> ex_expected e = ex_expected e'
   \<Longrightarrow> ex_if_expected e = ex_if_expected e' \<Longrightarrow> ex_next e = ex_next e' \<Longrightarrow> (e::explain) = e'"
  by (cases e; cases e') simp

lemma alert_eqI:
  assumes "fixed_fields a = fixed_fields b" and "(al_explain a)\<lparr>ex_evidence := []\<rparr> = (al_explain b)\<lparr>ex_evidence := []\<rparr>"
    and "(ex_evidence (al_explain a), al_content a) = (ex_evidence (al_explain b), al_content b)"
    and "al_ts a = al_ts b" "al_severity a = al_severity b" "al_action_taken a = al_action_taken b" "al_acked a = al_acked b"
      "al_acked_by a = al_acked_by b" "al_count a = al_count b" "al_surface a = al_surface b"
      "al_suppressed_by a = al_suppressed_by b" "al_triage a = al_triage b" "al_incident a = al_incident b"
      "al_chain a = al_chain b" "al_chain_id a = al_chain_id b"
  shows "(a :: ('i, 'c) alert) = b"
proof -
  have "al_explain a = al_explain b"
    using assms(2,3) by (cases "al_explain a"; cases "al_explain b") simp
  with assms show ?thesis by (cases a; cases b) (simp add: fixed_fields_def)
qed

text \<open>The log can be folded again. Reading an update line a second time, as a reader does that starts
  over or meets a line twice, leaves the alert as the first time left it: no evidence line is said
  twice and no field drifts. And no update line, whatever it holds, can touch who acted, what the
  rule said, the rarity or the stamp of a carried row.\<close>

theorem refold_is_idempotent:
  assumes "distinct (map fst u)"
  shows "fold_update rd u (fold_update rd u a) = fold_update rd u a
    \<and> al_id (fold_update rd u a) = al_id a \<and> al_rule (fold_update rd u a) = al_rule a
    \<and> al_process (fold_update rd u a) = al_process a \<and> al_file (fold_update rd u a) = al_file a
    \<and> al_net (fold_update rd u a) = al_net a \<and> al_severity_base (fold_update rd u a) = al_severity_base a
    \<and> al_rarity (fold_update rd u a) = al_rarity a \<and> al_carried (fold_update rd u a) = al_carried a"
proof -
  have "fold_update rd u (fold_update rd u a) = fold_update rd u a"
    by (rule alert_eqI, (simp only: update_frame)+)
       (simp_all only: update_fields [OF assms], simp_all add: said_again split: option.split)
  then show ?thesis using update_frame(1) [of rd u a] by (simp add: fixed_fields_def)
qed

text \<open>A plain alert and readers that accept nothing but one content analysis, for concrete instances.\<close>

definition plain_alert :: "string \<Rightarrow> string \<Rightarrow> (unit, unit) alert" where
  "plain_alert i sev =
     \<lparr>al_v = 1, al_id = i, al_ts = [], al_severity = sev, al_rule = ''r'', al_family = ''exec'', al_title = [],
      al_summary = [],
      al_process = \<lparr>pr_agent_session = None, pr_pid = 7, pr_uid = 1000, pr_exe = ''/tmp/x'', pr_args = [], pr_cwd = [],
        pr_start_ts = [], pr_in_container = None, pr_ancestry = []\<rparr>,
      al_file = None, al_net = None, al_ioc = None, al_rotate = [],
      al_explain = \<lparr>ex_what = [], ex_why = [], ex_evidence = [], ex_expected = [],
        ex_if_expected = \<lparr>ie_hint = [], ie_options = [], ie_file = []\<rparr>, ex_next = []\<rparr>,
      al_action_taken = ''none'', al_actions = [], al_acked = False, al_acked_by = None, al_mode = ''monitor'',
      al_count = None,
      al_actor = \<lparr>ac_provenance = UnknownProv, ac_package = None, ac_script = None, ac_modified = None\<rparr>,
      al_context = UnknownCtx, al_severity_base = sev, al_severity_reason = [], al_surface = ''timeline'',
      al_tier = ''detection'', al_pkg_install_escalation = False, al_suppressed_by = None, al_rarity = Common,
      al_rarity_text = [], al_triage = None, al_incident = None, al_chain = None, al_chain_id = None, al_content = [],
      al_carried = None, al_exec_id = []\<rparr>"

definition plain_readers :: "(unit, unit) readers" where
  "plain_readers = \<lparr>rd_incident = (\<lambda>_. None), rd_chain = (\<lambda>_. None), rd_triage = (\<lambda>_. None),
     rd_content = (\<lambda>_. Some [()]), rd_evidence = (\<lambda>_. [''two markers''])\<rparr>"

lemma plain_process [simp]: "pr_exe (al_process (plain_alert i s)) = ''/tmp/x''" by (simp add: plain_alert_def)

theorem refold_is_idempotent_witness:
  "let u = [(''acked'', JBool True), (''content'', JArr []), (''rule'', JStr ''other'')] in
   fold_update plain_readers u (fold_update plain_readers u (plain_alert ''a'' ''low''))
     = fold_update plain_readers u (plain_alert ''a'' ''low'')
   \<and> al_rule (fold_update plain_readers u (plain_alert ''a'' ''low'')) = ''r''"
  using refold_is_idempotent
    [of "[(''acked'', JBool True), (''content'', JArr []), (''rule'', JStr ''other'')]" plain_readers "plain_alert ''a'' ''low''"]
  by (simp add: plain_alert_def)

end
