(* ===== verification/Triage_Control.thy ===== *)
theory Triage_Control
  imports Alert_Record
begin

text \<open>
  The triage verb of the control socket (\<open>cmd_triage\<close> of \<open>moatd/src/control.rs\<close>, and
  \<open>inherit_triage_by_tuple\<close> of \<open>engine.rs\<close>): how a verdict that \<open>Triage\<close> decides on reaches the row of an
  alert. Each \<open>mark\<close> appends one update line, which the fold of \<open>Alert_Record\<close> applies; an append can
  fail, and then the marks after it are not made. The JSON text of a verdict is the parameter \<open>wr\<close>.
\<close>

section \<open>The verb\<close>

text \<open>\<open>submit\<close>: the marks in the order they are written, or the refusal.\<close>

definition triage_submit ::
    "(triage \<Rightarrow> json) \<Rightarrow> triage_mode \<Rightarrow> string \<Rightarrow> string \<Rightarrow> string \<Rightarrow> triage_result \<Rightarrow> ('i, 'c) alert
     \<Rightarrow> string + (string \<times> json) list" where
  "triage_submit wr mode demote_max agent now result a =
     (if mode = TriageOff then Inl ''auto_triage is off''
      else
        (let (action, withheld) = decide mode (al_rule a) (al_family a) (al_severity a) (rarity_str (al_rarity a))
               demote_max result;
             t = record_triage agent now result action withheld;
             t' = (if action = Raise
                   then t\<lparr>tg_restore_severity := Some (al_severity a), tg_restore_surface := Some (al_surface a)\<rparr>
                   else t)
         in Inr ((''triage'', wr t') #
              (case action of
                 Demote \<Rightarrow> [(''surface'', JStr ''timeline'')]
               | Raise \<Rightarrow> [(''severity'', JStr ''high''), (''surface'', JStr ''alerts'')]
               | Annotate \<Rightarrow> []))))"

definition triage_undo :: "('i, 'c) alert \<Rightarrow> string + (string \<times> json) list" where
  "triage_undo a =
     (case al_triage a of
        None \<Rightarrow> Inl (''alert '' @ al_id a @ '' has not been triaged'')
      | Some t \<Rightarrow>
          Inr ((''triage'', JNull) #
            (if tg_outcome t = ''demoted'' then [(''surface'', JStr ''alerts'')] else []) @
            (if tg_outcome t = ''raised''
             then (case tg_restore_severity t of Some s \<Rightarrow> [(''severity'', JStr s)] | None \<Rightarrow> []) @
                  (case tg_restore_surface t of Some s \<Rightarrow> [(''surface'', JStr s)] | None \<Rightarrow> [])
             else [])))"

text \<open>What stands in for another read: for each pattern the newest benign verdict that was itself read.\<close>

definition inherit_source ::
    "(string \<rightharpoonup> ('i, 'c) alert \<times> triage) \<Rightarrow> ('i, 'c) alert \<Rightarrow> (string \<rightharpoonup> ('i, 'c) alert \<times> triage)" where
  "inherit_source m a =
     (case al_triage a of
        None \<Rightarrow> m
      | Some t \<Rightarrow>
          if tr_verdict (tg_result t) \<noteq> Benign then m
          else if starts_with (tg_outcome t) ''inherited:'' then m
          else (case m (alert_tuple_key a) of
                  Some (prev, _) \<Rightarrow> if al_ts prev \<ge> al_ts a then m else m(alert_tuple_key a \<mapsto> (a, t))
                | None \<Rightarrow> m(alert_tuple_key a \<mapsto> (a, t))))"

definition inherit_one ::
    "(string \<rightharpoonup> ('i, 'c) alert \<times> triage) \<Rightarrow> string \<Rightarrow> ('i, 'c) alert \<Rightarrow> (string \<times> triage) option" where
  "inherit_one source now a =
     (if al_acked a \<or> al_triage a \<noteq> None \<or> al_surface a \<noteq> ''alerts'' then None
      else if in_high_chain a then None
      else case source (alert_tuple_key a) of
        None \<Rightarrow> None
      | Some (src, prior) \<Rightarrow>
          if al_id src = al_id a then None
          else if \<not> may_inherit prior (al_ts src) now (rarity_str (al_rarity src)) (rarity_str (al_rarity a)) then None
          else Some (al_id a, record_inherited prior (al_id src) now))"

definition inherit_triage_by_tuple :: "string \<Rightarrow> ('i, 'c) alert list \<Rightarrow> (string \<times> triage) list" where
  "inherit_triage_by_tuple now alerts =
     List.map_filter (inherit_one (foldl inherit_source Map.empty alerts) now) alerts"

text \<open>The row after the first marks of a command.\<close>

definition mark_all :: "('i, 'c) readers \<Rightarrow> (string \<times> json) list \<Rightarrow> ('i, 'c) alert \<Rightarrow> ('i, 'c) alert" where
  "mark_all rd ms a = foldl (\<lambda>b m. fold_update rd [m] b) a ms"

section \<open>Runs\<close>

text \<open>What can happen to the row of one alert, with the verdicts that were submitted for it: the mode, the
  configured ceiling and the answer. \<open>n\<close> marks of the command were written.\<close>

type_synonym submission = "triage_mode \<times> string \<times> triage_result"

inductive triage_run ::
    "('i, 'c) readers \<Rightarrow> (triage \<Rightarrow> json) \<Rightarrow> ('i, 'c) alert \<Rightarrow> submission list \<Rightarrow> ('i, 'c) alert \<Rightarrow> bool"
  for rd wr a where
  start: "triage_run rd wr a [] a"
| submit: "triage_run rd wr a subs b \<Longrightarrow> triage_submit wr mode demote_max agent now result b = Inr ms
     \<Longrightarrow> triage_run rd wr a (subs @ [(mode, demote_max, result)]) (mark_all rd (take n ms) b)"
| undo: "triage_run rd wr a subs b \<Longrightarrow> triage_undo b = Inr ms \<Longrightarrow> triage_run rd wr a subs (mark_all rd (take n ms) b)"
| inherit: "triage_run rd wr a subs b \<Longrightarrow> b \<in> set alerts \<Longrightarrow> (al_id b, t) \<in> set (inherit_triage_by_tuple now alerts)
     \<Longrightarrow> triage_run rd wr a subs (mark_all rd [(''triage'', wr t)] b)"

definition may_demote :: "('i, 'c) alert \<Rightarrow> submission \<Rightarrow> bool" where
  "may_demote a = (\<lambda>(mode, demote_max, r).
     mode = TriageDemote \<and> tr_verdict r = Benign \<and> tr_confidence r = High
     \<and> al_rule a \<notin> set NEVER_DEMOTE \<and> al_family a \<notin> {''rootkit'', ''ransom''} \<and> al_rarity a \<noteq> FirstSeen
     \<and> severity_rank (al_severity a) \<le> severity_rank demote_max)"

definition may_raise :: "('i, 'c) alert \<Rightarrow> submission \<Rightarrow> bool" where
  "may_raise a = (\<lambda>(mode, demote_max, r).
     mode = TriageDemote \<and> tr_verdict r = Malicious \<and> tr_confidence r = High \<and> severity_rank (al_severity a) < 2)"

section \<open>The marks on the row\<close>

definition untouched where
  "untouched a = (fixed_fields a, al_explain a, al_ts a, al_action_taken a, al_acked a, al_acked_by a, al_count a,
     al_suppressed_by a, al_incident a, al_chain a, al_chain_id a, al_content a)"

lemma mark_keys:
  "fold_update rd [(''triage'', v)] a = fold_key rd KTriage v a"
  "fold_update rd [(''surface'', v)] a = fold_key rd KSurface v a"
  "fold_update rd [(''severity'', v)] a = fold_key rd KSeverity v a"
  using key_of_iff [of "''triage''" KTriage] key_of_iff [of "''surface''" KSurface] key_of_iff [of "''severity''" KSeverity]
  by (simp_all add: fold_entry_def)

lemma mark_all_simps [simp]: "mark_all rd [] a = a" "mark_all rd (m # ms) a = mark_all rd ms (fold_update rd [m] a)"
  by (simp_all add: mark_all_def)

lemma mark_untouched:
  "untouched (fold_update rd [(''triage'', v)] a) = untouched a"
  "untouched (fold_update rd [(''surface'', v)] a) = untouched a"
  "untouched (fold_update rd [(''severity'', v)] a) = untouched a"
  by (simp_all only: mark_keys untouched_def fixed_fields_def) (simp_all split: json.split option.split)

lemma decide_iff:
  "fst (decide mode rule family severity rarity demote_max result) = Demote \<longleftrightarrow>
     mode = TriageDemote \<and> tr_verdict result = Benign \<and> tr_confidence result = High
     \<and> rule \<notin> set NEVER_DEMOTE \<and> family \<notin> {''rootkit'', ''ransom''} \<and> rarity \<noteq> ''first_seen''
     \<and> severity_rank severity \<le> severity_rank demote_max"
  "fst (decide mode rule family severity rarity demote_max result) = Raise \<longleftrightarrow>
     mode = TriageDemote \<and> tr_verdict result = Malicious \<and> tr_confidence result = High \<and> severity_rank severity < 2"
  by (auto simp: decide_def NEVER_DEMOTE_FAMILIES_def)

lemma outcome_words [simp]:
  "action_outcome act w = ''demoted'' \<longleftrightarrow> act = Demote" "action_outcome act w = ''raised'' \<longleftrightarrow> act = Raise"
  by (cases act; cases w; simp)+

lemma rarity_first [simp]: "rarity_str r = ''first_seen'' \<longleftrightarrow> r = FirstSeen"
  by (cases r) simp_all

text \<open>The first marks of a command.\<close>

lemma take_marks:
  "mark_all rd (take n (m # ms)) a = (case n of 0 \<Rightarrow> a | Suc k \<Rightarrow> mark_all rd (take k ms) (fold_update rd [m] a))"
  by (cases n) simp_all

section \<open>The ceiling\<close>

text \<open>What the row shows of the verdicts so far.\<close>

definition held :: "('i, 'c) alert \<Rightarrow> submission list \<Rightarrow> ('i, 'c) alert \<Rightarrow> bool" where
  "held a subs b \<longleftrightarrow>
     untouched b = untouched a
     \<and> (al_severity b = al_severity a \<or> al_severity b = ''high'' \<and> (\<exists>s \<in> set subs. may_raise a s))
     \<and> (al_surface a = ''alerts'' \<longrightarrow> al_surface b = ''alerts'' \<or> (\<exists>s \<in> set subs. may_demote a s))
     \<and> (\<forall>t s. al_triage b = Some t \<longrightarrow> tg_restore_severity t = Some s \<longrightarrow> s = al_severity a)
     \<and> (\<forall>t s. al_triage b = Some t \<longrightarrow> tg_restore_surface t = Some s \<longrightarrow> al_surface a = ''alerts''
          \<longrightarrow> s = ''alerts'' \<or> (\<exists>s \<in> set subs. may_demote a s))"

lemma held_refl: "al_triage a = None \<Longrightarrow> held a [] a"
  by (simp add: held_def)

lemma held_more: "held a subs b \<Longrightarrow> held a (subs @ xs) b"
  by (auto simp: held_def)

lemma mark_fields:
  "al_severity (fold_update rd [(''triage'', v)] b) = al_severity b"
  "al_surface (fold_update rd [(''triage'', v)] b) = al_surface b"
  "al_triage (fold_update rd [(''triage'', v)] b) =
     (if v = JNull then None else case rd_triage rd v of Some t \<Rightarrow> Some t | None \<Rightarrow> al_triage b)"
  "al_severity (fold_update rd [(''surface'', JStr x)] b) = al_severity b"
  "al_surface (fold_update rd [(''surface'', JStr x)] b) = x"
  "al_triage (fold_update rd [(''surface'', JStr x)] b) = al_triage b"
  "al_severity (fold_update rd [(''severity'', JStr x)] b) = x"
  "al_surface (fold_update rd [(''severity'', JStr x)] b) = al_surface b"
  "al_triage (fold_update rd [(''severity'', JStr x)] b) = al_triage b"
  by (simp_all only: mark_keys) (simp_all split: option.split)

text \<open>Each mark keeps what is held, given what the mark says.\<close>

lemma held_triage:
  assumes "held a subs b" and "al_triage c = Some t \<or> al_triage c = None"
    and "untouched c = untouched b" "al_severity c = al_severity b" "al_surface c = al_surface b"
    and "\<And>s. tg_restore_severity t = Some s \<Longrightarrow> s = al_severity a"
    and "\<And>s. tg_restore_surface t = Some s \<Longrightarrow> al_surface a = ''alerts''
          \<Longrightarrow> s = ''alerts'' \<or> (\<exists>s \<in> set subs. may_demote a s)"
  shows "held a subs c"
  using assms unfolding held_def by auto

lemma held_surface:
  "held a subs b \<Longrightarrow> x = ''alerts'' \<or> al_surface a \<noteq> ''alerts'' \<or> (\<exists>s \<in> set subs. may_demote a s)
   \<Longrightarrow> held a subs (fold_update rd [(''surface'', JStr x)] b)"
  unfolding held_def by (simp only: mark_fields mark_untouched) blast

lemma held_severity:
  "held a subs b \<Longrightarrow> x = al_severity a \<or> x = ''high'' \<and> (\<exists>s \<in> set subs. may_raise a s)
   \<Longrightarrow> held a subs (fold_update rd [(''severity'', JStr x)] b)"
  unfolding held_def by (simp only: mark_fields mark_untouched) blast

definition triage_codec :: "('i, 'c) readers \<Rightarrow> (triage \<Rightarrow> json) \<Rightarrow> bool" where
  "triage_codec rd wr \<longleftrightarrow> (\<forall>t. wr t \<noteq> JNull \<and> rd_triage rd (wr t) = Some t)"

lemma inherit_one_Some: "inherit_one source now a = Some (i, t) \<Longrightarrow> \<exists>prior src. t = record_inherited prior src now"
  unfolding inherit_one_def by (simp split: if_splits option.splits prod.splits) blast

lemma held_inherit:
  assumes "triage_codec rd wr" and "held a subs b" and "(al_id b, t) \<in> set (inherit_triage_by_tuple now alerts)"
  shows "held a subs (mark_all rd [(''triage'', wr t)] b)"
proof -
  have "tg_restore_severity t = None \<and> tg_restore_surface t = None"
    using assms(3) inherit_one_Some
    by (fastforce simp: inherit_triage_by_tuple_def in_map_filter record_inherited_def)
  with assms(1,2) show ?thesis
    by (intro held_triage [OF assms(2), of _ t])
       (simp_all only: mark_all_simps mark_fields mark_untouched triage_codec_def, simp_all)
qed

lemma held_untouched:
  assumes "held a subs b"
  shows "al_rule b = al_rule a" "al_family b = al_family a" "al_rarity b = al_rarity a"
  using assms by (auto simp: held_def untouched_def fixed_fields_def)

lemma held_demote:
  assumes "held a subs b" and "may_demote b s"
  shows "may_demote a s"
proof -
  have "severity_rank (al_severity a) \<le> severity_rank (al_severity b)"
    using assms(1) by (auto simp: held_def may_raise_def)
  with assms(2) held_untouched [OF assms(1)] show ?thesis
    by (auto simp: may_demote_def)
qed

lemma held_raise:
  assumes "held a subs b" and "may_raise b s"
  shows "may_raise a s \<and> al_severity b = al_severity a"
  using assms by (auto simp: held_def may_raise_def)

text \<open>The commands.\<close>

lemma held_submit:
  assumes codec: "triage_codec rd wr" and h: "held a subs b"
    and ms: "triage_submit wr mode demote_max agent now result b = Inr ms"
  shows "held a (subs @ [(mode, demote_max, result)]) (mark_all rd (take n ms) b)"
proof -
  let ?s = "(mode, demote_max, result)"
  let ?subs = "subs @ [?s]"
  obtain action withheld where d: "decide mode (al_rule b) (al_family b) (al_severity b) (rarity_str (al_rarity b))
      demote_max result = (action, withheld)" by fastforce
  define t where "t = (let t = record_triage agent now result action withheld in
     if action = Raise then t\<lparr>tg_restore_severity := Some (al_severity b), tg_restore_surface := Some (al_surface b)\<rparr> else t)"
  define c where "c = fold_update rd [(''triage'', wr t)] b"
  note h' = held_more [OF h, of "[?s]"]
  have demote: "action = Demote \<Longrightarrow> may_demote a ?s"
    using held_demote [OF h, of ?s] decide_iff(1) [of mode "al_rule b" "al_family b" "al_severity b" "rarity_str (al_rarity b)" demote_max result] d
    by (simp add: may_demote_def)
  have raise: "action = Raise \<Longrightarrow> may_raise a ?s \<and> al_severity b = al_severity a"
    using held_raise [OF h, of ?s] decide_iff(2) [of mode "al_rule b" "al_family b" "al_severity b" "rarity_str (al_rarity b)" demote_max result] d
    by (simp add: may_raise_def)
  have hc: "held a ?subs c"
  proof (rule held_triage [OF h', of _ t])
    show "al_triage c = Some t \<or> al_triage c = None"
      using codec unfolding c_def mark_fields triage_codec_def by simp
    show "s = al_severity a" if "tg_restore_severity t = Some s" for s
      using that raise by (auto simp: t_def record_triage_def Let_def split: if_splits)
    show "s = ''alerts'' \<or> (\<exists>s \<in> set ?subs. may_demote a s)"
      if "tg_restore_surface t = Some s" "al_surface a = ''alerts''" for s
      using that h by (auto simp: t_def record_triage_def Let_def held_def split: if_splits)
  qed (simp_all only: c_def mark_fields mark_untouched)
  have ms': "ms = (''triage'', wr t) # (case action of Demote \<Rightarrow> [(''surface'', JStr ''timeline'')]
      | Raise \<Rightarrow> [(''severity'', JStr ''high''), (''surface'', JStr ''alerts'')] | Annotate \<Rightarrow> [])"
    using ms d by (auto simp: triage_submit_def Let_def t_def split: if_splits)
  have dem: "held a ?subs (fold_update rd [(''surface'', JStr ''timeline'')] c)" if "action = Demote"
    using demote [OF that] by (intro held_surface [OF hc]) auto
  have sev: "held a ?subs (fold_update rd [(''severity'', JStr ''high'')] c)" if "action = Raise"
    using raise [OF that] by (intro held_severity [OF hc]) auto
  have srf: "held a ?subs (fold_update rd [(''surface'', JStr ''alerts'')] (fold_update rd [(''severity'', JStr ''high'')] c))"
    if "action = Raise"
    using held_surface [OF sev [OF that]] by simp
  show ?thesis
    using h' hc dem sev srf unfolding ms' take_marks
    by (cases action) (auto simp only: take_marks take_Nil mark_all_simps c_def [symmetric]
        triage_action.case split: nat.split)
qed

lemma held_undo:
  assumes h: "held a subs b" and ms: "triage_undo b = Inr ms"
  shows "held a subs (mark_all rd (take n ms) b)"
proof -
  obtain t where t: "al_triage b = Some t" using ms by (auto simp: triage_undo_def split: option.splits)
  define c where "c = fold_update rd [(''triage'', JNull)] b"
  have hc: "held a subs c"
    using h unfolding held_def c_def mark_fields mark_untouched by simp
  have again: "held a subs (mark_all rd (take k ns) d)"
    if "held a subs d" and "\<forall>m \<in> set ns. (\<exists>x. m = (''surface'', JStr x) \<and>
          (x = ''alerts'' \<or> al_surface a \<noteq> ''alerts'' \<or> (\<exists>s \<in> set subs. may_demote a s)))
        \<or> m = (''severity'', JStr (al_severity a))" for k ns d
    using that
  proof (induction ns arbitrary: k d)
    case (Cons m ns)
    show ?case
    proof (cases k)
      case (Suc j)
      have "held a subs (fold_update rd [m] d)"
        using Cons.prems held_surface held_severity by fastforce
      from Cons.IH [OF this, of j] Cons.prems Suc show ?thesis by simp
    qed (use Cons in simp)
  qed simp
  have "\<exists>ns. ms = (''triage'', JNull) # ns \<and> (\<forall>m \<in> set ns. (\<exists>x. m = (''surface'', JStr x) \<and>
          (x = ''alerts'' \<or> al_surface a \<noteq> ''alerts'' \<or> (\<exists>s \<in> set subs. may_demote a s)))
        \<or> m = (''severity'', JStr (al_severity a)))"
    using ms h t by (auto simp: triage_undo_def held_def split: option.splits if_splits)
  then show ?thesis using h again [OF hc] unfolding c_def by (auto simp only: take_marks split: nat.split)
qed

lemma run_held: "triage_run rd wr a subs b \<Longrightarrow> triage_codec rd wr \<Longrightarrow> al_triage a = None \<Longrightarrow> held a subs b"
  by (induction rule: triage_run.induct) (simp_all add: held_refl held_submit held_undo held_inherit del: mark_all_simps)

lemma undo_restores:
  assumes "triage_codec rd wr" and "al_triage a = None" and "al_surface a = ''alerts''"
    and ms: "triage_submit wr mode demote_max agent now result a = Inr ms" and us: "triage_undo (mark_all rd ms a) = Inr us"
  shows "mark_all rd us (mark_all rd ms a) = a"
proof -
  obtain action withheld where d: "decide mode (al_rule a) (al_family a) (al_severity a) (rarity_str (al_rarity a))
      demote_max result = (action, withheld)" by fastforce
  have read: "fold_update rd [(''triage'', wr t)] b = b\<lparr>al_triage := Some t\<rparr>" for t b
    using assms(1) by (simp only: mark_keys) (simp add: triage_codec_def)
  have others: "fold_update rd [(''triage'', JNull)] b = b\<lparr>al_triage := None\<rparr>"
    "fold_update rd [(''surface'', JStr x)] b = b\<lparr>al_surface := x\<rparr>"
    "fold_update rd [(''severity'', JStr x)] b = b\<lparr>al_severity := x\<rparr>" for b x
    by (simp_all only: mark_keys) simp_all
  note marks = mark_all_simps read others
  have sane: "a\<lparr>al_triage := None\<rparr> = a" "a\<lparr>al_surface := ''alerts''\<rparr> = a" using assms(2,3) by (cases a, simp)+
  show ?thesis
  proof (cases action)
    case Annotate
    then have "mark_all rd ms a = a\<lparr>al_triage := Some (record_triage agent now result Annotate withheld)\<rparr>"
      using ms d by (auto simp: triage_submit_def Let_def marks simp del: fold_update.simps split: if_splits)
    with us show ?thesis
      by (auto simp: triage_undo_def record_triage_def marks sane simp del: fold_update.simps)
  next
    case Demote
    then have "mark_all rd ms a
        = a\<lparr>al_triage := Some (record_triage agent now result Demote withheld), al_surface := ''timeline''\<rparr>"
      using ms d by (auto simp: triage_submit_def Let_def marks simp del: fold_update.simps split: if_splits)
    with us assms(2,3) show ?thesis
      by (cases a) (auto simp: triage_undo_def record_triage_def marks simp del: fold_update.simps)
  next
    case Raise
    then have "mark_all rd ms a
        = a\<lparr>al_triage := Some ((record_triage agent now result Raise withheld)
              \<lparr>tg_restore_severity := Some (al_severity a), tg_restore_surface := Some (al_surface a)\<rparr>),
            al_severity := ''high'', al_surface := ''alerts''\<rparr>"
      using ms d by (auto simp: triage_submit_def Let_def marks simp del: fold_update.simps split: if_splits)
    with us assms(2,3) show ?thesis
      by (cases a) (auto simp: triage_undo_def record_triage_def marks simp del: fold_update.simps)
  qed
qed

text \<open>C12: The ceiling on an agent's verdict, over everything that can happen to a row: verdicts submitted one
  after the other under whatever mode and configured ceiling, undone, inherited, with writes that fail
  half way. A row of the badge leaves it only when one of the submissions was made in demote mode with a
  benign answer of high confidence, the rule is not one that reports on moat itself, the family is not
  rootkit or ransom, the pattern was seen before, and the severity the alert was raised with is at most
  the ceiling configured at that submission (a word that is no severity counts as low, so a critical
  alert leaves only under a ceiling of critical). The severity never falls; it changes only to high, for
  a malicious answer of high confidence about an alert below high. No verdict acknowledges, suppresses
  or changes anything else of the row, and undoing the first verdict on a badge row gives the row back.\<close>

theorem verdict_ceiling:
  assumes "triage_codec rd wr" and "triage_run rd wr a subs b" and "al_triage a = None"
  shows "untouched b = untouched a
    \<and> severity_rank (al_severity a) \<le> severity_rank (al_severity b)
    \<and> (al_severity b \<noteq> al_severity a \<longrightarrow> al_severity b = ''high'' \<and> (\<exists>s \<in> set subs. may_raise a s))
    \<and> (al_surface a = ''alerts'' \<longrightarrow> al_surface b \<noteq> ''alerts'' \<longrightarrow> (\<exists>s \<in> set subs. may_demote a s))
    \<and> (\<forall>mode demote_max agent now result ms us.
         al_surface a = ''alerts'' \<longrightarrow> triage_submit wr mode demote_max agent now result a = Inr ms
         \<longrightarrow> triage_undo (mark_all rd ms a) = Inr us \<longrightarrow> mark_all rd us (mark_all rd ms a) = a)
    \<and> set NEVER_SILENCE \<subseteq> set NEVER_DEMOTE"
proof -
  have h: "held a subs b" using assms by (intro run_held)
  have "set NEVER_SILENCE \<subseteq> set NEVER_DEMOTE" by (simp add: NEVER_SILENCE_def NEVER_DEMOTE_def)
  moreover have "severity_rank (al_severity a) \<le> severity_rank (al_severity b)"
    using h by (auto simp: held_def may_raise_def)
  ultimately show ?thesis using h undo_restores [OF assms(1,3)] unfolding held_def by blast
qed

text \<open>A writer and a reader of verdicts, for a concrete instance.\<close>

definition json_opt :: "string option \<Rightarrow> json" where
  "json_opt s = (case s of None \<Rightarrow> JNull | Some x \<Rightarrow> JStr x)"

definition array_triage :: "triage \<Rightarrow> json" where
  "array_triage t =
     (let r = tg_result t in
      JArr [JStr (tg_agent t), JStr (tg_at t),
        JInt (case tr_verdict r of Benign \<Rightarrow> 0 | Suspicious \<Rightarrow> 1 | Malicious \<Rightarrow> 2 | Unclear \<Rightarrow> 3),
        JInt (case tr_confidence r of Low \<Rightarrow> 0 | Medium \<Rightarrow> 1 | High \<Rightarrow> 2),
        JStr (tr_summary r), JStr (tr_reasoning r), json_opt (tr_proposed_allowlist r), JArr (map JStr (tr_recommend r)),
        JStr (tg_outcome t), json_opt (tg_restore_severity t), json_opt (tg_restore_surface t)])"

definition triage_array :: "json \<Rightarrow> triage option" where
  "triage_array v =
     (case v of
        JArr js \<Rightarrow>
          (let str = (\<lambda>i. the (as_str (js ! i))) in
           Some \<lparr>tg_agent = str 0, tg_at = str 1,
             tg_result = \<lparr>
               tr_verdict = (if js ! 2 = JInt 0 then Benign else if js ! 2 = JInt 1 then Suspicious
                             else if js ! 2 = JInt 2 then Malicious else Unclear),
               tr_confidence = (if js ! 3 = JInt 0 then Low else if js ! 3 = JInt 1 then Medium else High),
               tr_summary = str 4, tr_reasoning = str 5, tr_proposed_allowlist = as_str (js ! 6),
               tr_recommend = List.map_filter as_str (case js ! 7 of JArr rs \<Rightarrow> rs | _ \<Rightarrow> [])\<rparr>,
             tg_outcome = str 8, tg_restore_severity = as_str (js ! 9), tg_restore_surface = as_str (js ! 10)\<rparr>)
      | _ \<Rightarrow> None)"

definition array_readers :: "(unit, unit) readers" where
  "array_readers = plain_readers\<lparr>rd_triage := triage_array\<rparr>"

lemma as_str_opt [simp]: "as_str (json_opt s) = s"
  by (cases s) (simp_all add: json_opt_def)

lemma map_filter_strs [simp]: "List.map_filter as_str (map JStr xs) = xs"
  by (induction xs) (simp_all add: List.map_filter_simps)

lemma array_codec: "triage_codec array_readers array_triage"
proof -
  have "triage_array (array_triage t) = Some t" for t
    by (cases t; cases "tg_result t"; cases "tr_verdict (tg_result t)"; cases "tr_confidence (tg_result t)")
       (simp_all add: triage_array_def array_triage_def Let_def)
  then show ?thesis by (simp add: triage_codec_def array_readers_def array_triage_def Let_def)
qed

definition sure_benign :: triage_result where
  "sure_benign = \<lparr>tr_verdict = Benign, tr_confidence = High, tr_summary = ''a build'', tr_reasoning = ''its script'',
     tr_proposed_allowlist = None, tr_recommend = []\<rparr>"

definition critical_row :: "(unit, unit) alert" where
  "critical_row = (plain_alert ''a'' ''critical'')\<lparr>al_surface := ''alerts''\<rparr>"

theorem verdict_ceiling_witness:
  "\<exists>b. triage_run array_readers array_triage critical_row [(TriageDemote, ''high'', sure_benign)] b
     \<and> al_triage b \<noteq> None \<and> al_surface b = ''alerts'' \<and> al_severity b = ''critical''"
proof -
  obtain ms where ms: "triage_submit array_triage TriageDemote ''high'' ''claude'' [] sure_benign critical_row = Inr ms"
      "ms \<noteq> []" "fst (hd ms) = ''triage''" "\<exists>t. snd (hd ms) = array_triage t"
    by (cases "decide TriageDemote (al_rule critical_row) (al_family critical_row) (al_severity critical_row)
      (rarity_str (al_rarity critical_row)) ''high'' sure_benign") (auto simp: triage_submit_def Let_def)
  let ?b = "mark_all array_readers (take 1 ms) critical_row"
  have run: "triage_run array_readers array_triage critical_row ([] @ [(TriageDemote, ''high'', sure_benign)]) ?b"
    by (rule triage_run.submit [OF triage_run.start ms(1)])
  obtain t where t: "take 1 ms = [(''triage'', array_triage t)]"
    using ms(2-4) by (cases ms) auto
  have "al_triage ?b = Some t"
    unfolding t mark_all_simps mark_fields using array_codec by (simp add: triage_codec_def)
  moreover have row: "al_triage critical_row = None" "al_surface critical_row = ''alerts''" "al_severity critical_row = ''critical''"
    by (simp_all add: critical_row_def plain_alert_def)
  ultimately show ?thesis
    using verdict_ceiling [OF array_codec run row(1)] run
    by (auto simp: may_demote_def may_raise_def row)
qed

text \<open>A later verdict overwrites the record of a raise and with it what the raise had replaced: undoing
  then drops the verdict and leaves the raised severity and surface.\<close>

theorem second_verdict_forgets_the_way_back:
  assumes "triage_codec rd wr" and "tr_verdict result = Suspicious"
    and "triage_submit wr mode demote_max agent now result b = Inr ms"
  shows "triage_undo (mark_all rd ms b) = Inr [(''triage'', JNull)] \<and> al_severity (mark_all rd ms b) = al_severity b
    \<and> al_surface (mark_all rd ms b) = al_surface b"
proof -
  have "ms = [(''triage'', wr (record_triage agent now result Annotate None))]"
    using assms(2,3) by (auto simp: triage_submit_def decide_def Let_def split: if_splits)
  then have "mark_all rd ms b = fold_update rd [(''triage'', wr (record_triage agent now result Annotate None))] b"
    by (simp only: mark_all_simps)
  with assms(1) show ?thesis
    by (simp only: triage_undo_def mark_fields triage_codec_def) (simp add: record_triage_def)
qed

end
