(* ===== verification/Contain.thy ===== *)
theory Contain
  imports Allowlist_Edit Json_Value "HOL-Library.Multiset" "HOL-Library.AList"
begin

text \<open>
  \<open>moatd/src/contain.rs\<close>: the temporary containment of a correlated sequence. Which binaries and
  destinations it names, the policy text that refuses their connections, the bounded store of live
  containments, and its form in the state file. Resolving symbolic links is a parameter; loading and
  deleting the policy is the engine's work.
\<close>

section \<open>Containments\<close>

record containment =
  cn_chain :: string
  cn_policy :: string
  cn_exes :: "string list"
  cn_dests :: "string list"
  cn_since :: nat
  cn_expires :: nat

text \<open>Printable characters as they are, the others as escapes that YAML defines.\<close>

definition yaml_char :: "char \<Rightarrow> string" where
  "yaml_char c =
     (if c = CHR 0x5C then [CHR 0x5C, CHR 0x5C]
      else if c = CHR 0x22 then [CHR 0x5C, CHR 0x22]
      else if c = CHR 0x0A then [CHR 0x5C, CHR ''n'']
      else if c = CHR 0x0D then [CHR 0x5C, CHR ''r'']
      else if c = CHR 0x09 then [CHR 0x5C, CHR ''t'']
      else if is_ctrl c then
        [CHR 0x5C, CHR ''u'', CHR ''0'', CHR ''0'', hex_digit_upper (of_char c div 16),
         hex_digit_upper (of_char c mod 16)]
      else [c])"

definition yaml_scalar :: "string \<Rightarrow> string" where
  "yaml_scalar s = CHR 0x22 # concat (map yaml_char s) @ [CHR 0x22]"

definition is_contain_policy :: "string \<Rightarrow> bool" where
  "is_contain_policy name \<longleftrightarrow> prefix ''moat-contain-'' name"

definition contain_policy_name :: "nat \<Rightarrow> string" where
  "contain_policy_name slot = ''moat-contain-'' @ show_nat slot"

definition binary_aliases :: "(string \<Rightarrow> string option) \<Rightarrow> string \<Rightarrow> string list" where
  "binary_aliases canonicalize exe =
     exe # (case canonicalize exe of Some real \<Rightarrow> if real \<noteq> exe then [real] else [] | None \<Rightarrow> [])"

section \<open>The policy\<close>

abbreviation dq :: string where "dq \<equiv> [CHR 0x22]"

definition policy_head :: "string \<Rightarrow> string \<Rightarrow> nat \<Rightarrow> string list" where
  "policy_head name chain ttl_secs =
    [''apiVersion: cilium.io/v1alpha1'',
     ''kind: TracingPolicy'',
     ''metadata:'',
     ''  name: '' @ name,
     ''  annotations:'',
     ''    moat.omarchy/severity: '' @ dq @ ''critical'' @ dq,
     ''    moat.omarchy/title: '' @ dq @ ''Contained: a correlated sequence's connection was refused'' @ dq,
     ''    moat.omarchy/enforce: '' @ dq @ ''deny'' @ dq,
     ''    moat.omarchy/actions: '' @ dq @ ''ignore'' @ dq,
     ''    moat.omarchy/generated-for: '' @ dq @ chain @ dq,
     ''    moat.omarchy/expires-after-secs: '' @ dq @ show_nat ttl_secs @ dq,
     ''    moat.omarchy/why: >-'',
     ''      moatd wrote this policy by itself, because a sequence it correlated reached high'',
     ''      severity and included a connection to a destination this machine had never used.'',
     ''      It names one binary and one destination and nothing else, and it is deleted when'',
     ''      it expires. `moatctl contain` lists it; `moatctl release` removes it now.'',
     ''    moat.omarchy/expected: >-'',
     ''      Never on its own. It exists only for as long as the containment lasts.'',
     ''    moat.omarchy/fp-hint: '' @ dq @ ''exe'' @ dq,
     ''spec:'',
     ''  options:'',
     ''  - name: '' @ dq @ ''policy-mode'' @ dq,
     ''    value: '' @ dq @ ''enforce'' @ dq,
     ''  lsmhooks:'',
     ''  - hook: '' @ dq @ ''socket_connect'' @ dq,
     ''    message: '' @ dq @ ''Contained binary tried to reach a refused destination'' @ dq,
     ''    args:'',
     ''    - index: 0'',
     ''      type: '' @ dq @ ''socket'' @ dq,
     ''    - index: 1'',
     ''      type: '' @ dq @ ''sockaddr'' @ dq,
     ''    selectors:'',
     ''    - matchNamespaces:'',
     ''      - namespace: Mnt'',
     ''        operator: '' @ dq @ ''In'' @ dq,
     ''        values:'',
     ''        - '' @ dq @ ''host_ns'' @ dq,
     ''      matchBinaries:'',
     ''      - operator: '' @ dq @ ''In'' @ dq,
     ''        values:'']"

definition policy_args :: "string list" where
  "policy_args =
    [''      matchArgs:'',
     ''      - index: 1'',
     ''        operator: '' @ dq @ ''SAddr'' @ dq,
     ''        values:'']"

definition policy_actions :: "string list" where
  "policy_actions =
    [''      matchActions:'',
     ''      - action: Override'',
     ''        argError: -1'']"

definition item_line :: "string \<Rightarrow> string" where
  "item_line v = ''        - '' @ yaml_scalar v"

definition policy_lines :: "string \<Rightarrow> string list \<Rightarrow> string list \<Rightarrow> string \<Rightarrow> nat \<Rightarrow> string list" where
  "policy_lines name exes dests chain ttl_secs =
     policy_head name chain ttl_secs @ map item_line exes @ policy_args @ map item_line dests @ policy_actions"

definition policy_yaml :: "string \<Rightarrow> string list \<Rightarrow> string list \<Rightarrow> string \<Rightarrow> nat \<Rightarrow> string" where
  "policy_yaml name exes dests chain ttl_secs =
     concat (map (\<lambda>l. l @ [newline]) (policy_lines name exes dests chain ttl_secs))"

section \<open>The store\<close>

record contain_store =
  kn_live :: "containment list"

text \<open>The \<open>while\<close> loop at the cap: what is dropped, oldest first, and what stays.\<close>

fun make_space :: "nat \<Rightarrow> containment list \<Rightarrow> containment list \<times> containment list" where
  "make_space mx [] = ([], [])"
| "make_space mx (x # xs) =
     (if length (x # xs) + 1 > max mx 1 then (let (d, l) = make_space mx xs in (x # d, l)) else ([], x # xs))"

definition insert_containment ::
    "containment \<Rightarrow> nat \<Rightarrow> contain_store \<Rightarrow> containment list \<times> contain_store" where
  "insert_containment c mx s =
     (let same = filter (\<lambda>x. cn_chain x = cn_chain c) (kn_live s);
          (oldest, live) = make_space mx (filter (\<lambda>x. cn_chain x \<noteq> cn_chain c) (kn_live s))
      in (same @ oldest, s\<lparr>kn_live := live @ [c]\<rparr>))"

definition expired :: "nat \<Rightarrow> contain_store \<Rightarrow> containment list \<times> contain_store" where
  "expired now s =
     (filter (\<lambda>c. cn_expires c \<le> now) (kn_live s), s\<lparr>kn_live := filter (\<lambda>c. \<not> cn_expires c \<le> now) (kn_live s)\<rparr>)"

definition release :: "string \<Rightarrow> contain_store \<Rightarrow> containment option \<times> contain_store" where
  "release chain s =
     (case position (\<lambda>c. cn_chain c = chain) (kn_live s) of
        None \<Rightarrow> (None, s)
      | Some i \<Rightarrow> (Some (kn_live s ! i), s\<lparr>kn_live := remove_nth i (kn_live s)\<rparr>))"

definition for_chain :: "contain_store \<Rightarrow> string \<Rightarrow> containment option" where
  "for_chain s chain = List.find (\<lambda>c. cn_chain c = chain) (kn_live s)"

definition is_contained :: "contain_store \<Rightarrow> string \<Rightarrow> bool" where
  "is_contained s chain \<longleftrightarrow> list_ex (\<lambda>c. cn_chain c = chain) (kn_live s)"

section \<open>The state file\<close>

definition containment_json :: "containment \<Rightarrow> json" where
  "containment_json c =
     JObj [(''chain'', JStr (cn_chain c)), (''policy'', JStr (cn_policy c)),
           (''exes'', JArr (map JStr (cn_exes c))), (''dests'', JArr (map JStr (cn_dests c))),
           (''since'', JInt (int (cn_since c))), (''expires'', JInt (int (cn_expires c)))]"

definition to_state :: "contain_store \<Rightarrow> json" where
  "to_state s = JArr (map containment_json (kn_live s))"

definition str_list :: "string \<Rightarrow> json \<Rightarrow> string list" where
  "str_list key e =
     (case Option.bind (jget key e) as_array of Some a \<Rightarrow> List.map_filter as_str a | None \<Rightarrow> [])"

definition num_or_zero :: "string \<Rightarrow> json \<Rightarrow> nat" where
  "num_or_zero key e = (case Option.bind (jget key e) as_u64 of Some n \<Rightarrow> n | None \<Rightarrow> 0)"

definition containment_of :: "json \<Rightarrow> containment option" where
  "containment_of e =
     (case Option.bind (jget ''chain'' e) as_str of
        None \<Rightarrow> None
      | Some chain \<Rightarrow>
          if str_list ''exes'' e = [] then None
          else Some \<lparr>cn_chain = chain,
                     cn_policy = (case Option.bind (jget ''policy'' e) as_str of Some p \<Rightarrow> p
                                  | None \<Rightarrow> contain_policy_name 0),
                     cn_exes = str_list ''exes'' e, cn_dests = str_list ''dests'' e,
                     cn_since = num_or_zero ''since'' e, cn_expires = num_or_zero ''expires'' e\<rparr>)"

definition from_state :: "json option \<Rightarrow> contain_store" where
  "from_state v =
     \<lparr>kn_live = (case Option.bind v as_array of Some arr \<Rightarrow> List.map_filter containment_of arr | None \<Rightarrow> [])\<rparr>"

section \<open>The targets\<close>

text \<open>The members of a chain, each an executable and a destination, in the order of their keys; the
  result is sorted by the executable, as the map it comes from.\<close>

definition add_target :: "(string \<times> string list) list \<Rightarrow> string \<times> string \<Rightarrow> (string \<times> string list) list" where
  "add_target by_exe m =
     (let (exe, dst) = m in
      if exe = [] \<or> dst = [] then by_exe
      else let ds = (case map_of by_exe exe of Some ds \<Rightarrow> ds | None \<Rightarrow> [])
           in AList.update exe (if dst \<in> set ds then ds else ds @ [dst]) by_exe)"

definition targets :: "(string \<times> string) list \<Rightarrow> (string \<times> string list) list" where
  "targets members = sort_key fst (foldl add_target [] members)"

section \<open>Quoting\<close>

lemma yaml_scalar_toml: "yaml_scalar s = toml_str s"
  by (simp add: yaml_scalar_def toml_str_def yaml_char_def [abs_def] toml_char_def [abs_def])

lemma plain_item: "plain_line (item_line v)"
proof -
  have "newline \<notin> set (toml_str v)" using toml_str_printable [of newline v] by (auto simp: is_ctrl_def)
  moreover have "last (toml_str v) = CHR 0x22" "toml_str v \<noteq> []" by (simp_all add: toml_str_def)
  ultimately show ?thesis by (simp add: plain_line_def item_line_def yaml_scalar_toml)
qed

lemma plain_policy_head:
  assumes "newline \<notin> set name" and "newline \<notin> set chain" and "name = [] \<or> last name \<noteq> cr"
  shows "list_all plain_line (policy_head name chain ttl)"
proof -
  have "newline \<notin> set (show_nat ttl)" using digits_show_nat [of newline ttl] by (auto simp: is_digit_def)
  with assms show ?thesis by (auto simp: policy_head_def plain_line_def)
qed

lemma plain_policy_rest: "list_all plain_line policy_args" "list_all plain_line policy_actions"
  by (simp_all add: policy_args_def policy_actions_def plain_line_def)

text \<open>A binary cannot exempt itself from containment by its name. Whatever characters the names of the
  binaries and the destinations hold, the policy has one line for each of them, in place and in order,
  and each reads back as the name it was made of.\<close>

theorem policy_names_every_target:
  assumes "newline \<notin> set name" and "newline \<notin> set chain" and "name = [] \<or> last name \<noteq> cr"
  shows "lines_of (policy_yaml name exes dests chain ttl)
      = policy_head name chain ttl @ map item_line exes @ policy_args @ map item_line dests @ policy_actions
    \<and> (\<forall>v \<in> set (exes @ dests). \<exists>q. item_line v = ''        - '' @ CHR 0x22 # q \<and> toml_read q = Some (v, []))"
proof
  have "list_all plain_line (policy_lines name exes dests chain ttl)"
    using plain_policy_head [OF assms] plain_policy_rest plain_item
    by (auto simp: policy_lines_def list_all_iff)
  then show "lines_of (policy_yaml name exes dests chain ttl)
      = policy_head name chain ttl @ map item_line exes @ policy_args @ map item_line dests @ policy_actions"
    by (simp only: policy_yaml_def join_lines_concat [symmetric] lines_of_join_lines policy_lines_def)
  show "\<forall>v \<in> set (exes @ dests). \<exists>q. item_line v = ''        - '' @ CHR 0x22 # q \<and> toml_read q = Some (v, [])"
  proof
    fix v
    show "\<exists>q. item_line v = ''        - '' @ CHR 0x22 # q \<and> toml_read q = Some (v, [])"
      using toml_read_str [of v "[]"]
      by (intro exI [of _ "tl (toml_str v)"]) (simp add: item_line_def yaml_scalar_toml toml_str_def)
  qed
qed

theorem policy_names_every_target_witness:
  "\<exists>q. item_line (''helper'' @ [CHR 0x7F]) = ''        - '' @ CHR 0x22 # q \<and> toml_read q = Some (''helper'' @ [CHR 0x7F], [])"
  using policy_names_every_target [of "''moat-contain-0''" "''c''" "[''helper'' @ [CHR 0x7F]]" "[]" 60] by simp

section \<open>No policy is left behind\<close>

lemma make_space_facts:
  "make_space mx xs = (d, l) \<Longrightarrow> xs = d @ l \<and> length l + 1 \<le> max mx 1 \<and> (length xs + 1 \<le> max mx 1 \<longrightarrow> d = [])"
  by (induction mx xs arbitrary: d l rule: make_space.induct) (auto split: if_splits prod.splits)

lemma insert_live:
  assumes "insert_containment c mx s = (dropped, s')"
  shows "\<exists>d l. filter (\<lambda>x. cn_chain x \<noteq> cn_chain c) (kn_live s) = d @ l \<and> kn_live s' = l @ [c]
    \<and> dropped = filter (\<lambda>x. cn_chain x = cn_chain c) (kn_live s) @ d \<and> length l + 1 \<le> max mx 1
    \<and> (length (filter (\<lambda>x. cn_chain x \<noteq> cn_chain c) (kn_live s)) + 1 \<le> max mx 1 \<longrightarrow> d = [])"
proof -
  obtain d l where dl: "make_space mx (filter (\<lambda>x. cn_chain x \<noteq> cn_chain c) (kn_live s)) = (d, l)" by fastforce
  from make_space_facts [OF this] assms dl show ?thesis by (auto simp: insert_containment_def)
qed

interpretation live: capped_store "\<lambda>c s. snd (insert_containment c mx s)" kn_live "max mx 1" for mx
proof
  fix c and s :: contain_store
  obtain dropped s' where s': "insert_containment c mx s = (dropped, s')" by fastforce
  from insert_live [OF s'] obtain d l where
    l: "filter (\<lambda>x. cn_chain x \<noteq> cn_chain c) (kn_live s) = d @ l" "kn_live s' = l @ [c]" "length l + 1 \<le> max mx 1"
    by blast
  show "length (kn_live (snd (insert_containment c mx s))) \<le> max mx 1" using l s' by simp
  show "c \<in> set (kn_live (snd (insert_containment c mx s)))" using l s' by simp
  have "set l \<subseteq> set (kn_live s)" using l(1) by (metis Un_upper2 filter_is_subset order_trans set_append)
  then show "set (kn_live (snd (insert_containment c mx s))) \<subseteq> insert c (set (kn_live s))" using l s' by auto
qed

text \<open>The store through its operations, with everything that was put in and everything handed back.\<close>

inductive contain_run :: "nat \<Rightarrow> containment multiset \<Rightarrow> containment multiset \<Rightarrow> contain_store \<Rightarrow> bool" for mx where
  boot: "contain_run mx {#} {#} \<lparr>kn_live = []\<rparr>"
| contained: "contain_run mx put out s \<Longrightarrow> insert_containment c mx s = (dropped, s')
    \<Longrightarrow> contain_run mx (put + {#c#}) (out + mset dropped) s'"
| ttl: "contain_run mx put out s \<Longrightarrow> expired now s = (gone, s') \<Longrightarrow> contain_run mx put (out + mset gone) s'"
| released: "contain_run mx put out s \<Longrightarrow> release chain s = (Some c, s') \<Longrightarrow> contain_run mx put (out + {#c#}) s'"

lemma mset_remove_nth: "i < length xs \<Longrightarrow> mset xs = mset (remove_nth i xs) + {#xs ! i#}"
  by (metis add.commute add_mset_add_single id_take_nth_drop mset.simps(2) mset_append remove_nth_def
      union_mset_add_mset_right)

lemma distinct_chain_filter: "distinct (map cn_chain xs) \<Longrightarrow> distinct (map cn_chain (filter P xs))"
  by (rule distinct_map_filter)

lemma contain_run_facts:
  "contain_run mx put out s \<Longrightarrow>
     put = out + mset (kn_live s) \<and> length (kn_live s) \<le> max mx 1 \<and> distinct (map cn_chain (kn_live s))"
proof (induction rule: contain_run.induct)
  case (contained put out s c dropped s')
  from insert_live [OF contained.hyps(2)] obtain d l where
    l: "filter (\<lambda>x. cn_chain x \<noteq> cn_chain c) (kn_live s) = d @ l" "kn_live s' = l @ [c]"
       "dropped = filter (\<lambda>x. cn_chain x = cn_chain c) (kn_live s) @ d" "length l + 1 \<le> max mx 1" by blast
  have "mset (kn_live s) = mset (filter (\<lambda>x. cn_chain x = cn_chain c) (kn_live s)) + mset (d @ l)"
    unfolding l(1) [symmetric] by (metis mset_filter multiset_partition)
  moreover have "distinct (map cn_chain (d @ l))" using contained.IH distinct_chain_filter by (metis l(1))
  moreover have "cn_chain c \<notin> cn_chain ` set l" using arg_cong [OF l(1), of set] by force
  ultimately show ?case using contained.IH l by auto
next
  case (ttl put out s now gone s')
  have "mset (kn_live s) = mset (filter (\<lambda>c. cn_expires c \<le> now) (kn_live s))
      + mset (filter (\<lambda>c. \<not> cn_expires c \<le> now) (kn_live s))"
    by (metis mset_filter multiset_partition)
  moreover have "gone = filter (\<lambda>c. cn_expires c \<le> now) (kn_live s)"
    "kn_live s' = filter (\<lambda>c. \<not> cn_expires c \<le> now) (kn_live s)" using ttl.hyps(2) by (auto simp: expired_def)
  ultimately show ?case
    using ttl.IH le_trans [OF length_filter_le] distinct_chain_filter by (metis add.assoc)
next
  case (released put out s chain c s')
  from released.hyps(2) obtain i where
    i: "position (\<lambda>c. cn_chain c = chain) (kn_live s) = Some i" "c = kn_live s ! i" "kn_live s' = remove_nth i (kn_live s)"
    by (auto simp: release_def split: option.splits)
  then have "i < length (kn_live s)" using position_Some by fast
  with mset_remove_nth [OF this] released.IH i show ?case
    by (auto simp: map_remove_nth add.commute)
qed auto

text \<open>No refusal outlives its record. In every run of the store the containments that were put in are
  exactly those that are live and those that were handed back to be unloaded, each once; at most the
  configured number is live, at most one for each chain, and the newest always is.\<close>

theorem every_policy_is_accounted_for:
  assumes "contain_run mx put out s"
  shows "put = out + mset (kn_live s) \<and> length (kn_live s) \<le> max mx 1 \<and> distinct (map cn_chain (kn_live s))
    \<and> (\<forall>c. c \<in> set (kn_live (snd (insert_containment c mx s)))
           \<and> contain_run mx (put + {#c#}) (out + mset (fst (insert_containment c mx s))) (snd (insert_containment c mx s)))"
  using contain_run_facts [OF assms] live.put_mem contain_run.contained [OF assms] by (metis prod.collapse)

definition example_containment :: containment where
  "example_containment = \<lparr>cn_chain = ''c1'', cn_policy = ''moat-contain-0'', cn_exes = [''/tmp/x''],
     cn_dests = [''10.0.0.1''], cn_since = 1, cn_expires = 61\<rparr>"

theorem every_policy_is_accounted_for_witness:
  "example_containment \<in> set (kn_live (snd (insert_containment example_containment 2 \<lparr>kn_live = []\<rparr>)))"
  using every_policy_is_accounted_for [OF contain_run.boot] by blast

section \<open>Across a restart\<close>

lemma map_filter_as_str [simp]: "List.map_filter as_str (map JStr xs) = xs"
  by (induction xs) (simp_all add: List.map_filter_simps)

lemma containment_of_json:
  "cn_exes c \<noteq> [] \<Longrightarrow> cn_since c < 2 ^ 64 \<Longrightarrow> cn_expires c < 2 ^ 64 \<Longrightarrow> containment_of (containment_json c) = Some c"
  by (simp add: containment_of_def containment_json_def str_list_def num_or_zero_def)

text \<open>A containment survives a restart. What the state file says of the live containments reads back as
  they were, provided each names a binary and its times fit 64 bits.\<close>

theorem containments_survive_a_restart:
  assumes "\<forall>c \<in> set (kn_live s). cn_exes c \<noteq> [] \<and> cn_since c < 2 ^ 64 \<and> cn_expires c < 2 ^ 64"
  shows "from_state (Some (to_state s)) = s"
proof -
  have "List.map_filter containment_of (map containment_json xs) = xs"
    if "\<forall>c \<in> set xs. cn_exes c \<noteq> [] \<and> cn_since c < 2 ^ 64 \<and> cn_expires c < 2 ^ 64" for xs
    using that by (induction xs) (simp_all add: List.map_filter_simps containment_of_json)
  with assms show ?thesis by (simp add: from_state_def to_state_def)
qed

theorem containments_survive_a_restart_witness:
  "from_state (Some (to_state \<lparr>kn_live = [example_containment]\<rparr>)) = \<lparr>kn_live = [example_containment]\<rparr>"
  by (rule containments_survive_a_restart) (simp add: example_containment_def)

end
