(* ===== verification/Selectors.thy ===== *)
theory Selectors
  imports Contain
begin

text \<open>
  \<open>moatd/src/selectors.rs\<close>: the second look at an event. Every policy event is checked against the
  selectors of the policy that produced it, and only a value that the policy provably excludes makes
  a mismatch. A policy document is a YAML value, in the data type of \<open>Json_Value\<close>; resolving a
  binary's symbolic links is the parameter of \<open>binary_aliases\<close>. The evidence sentences are not
  modelled.
\<close>

section \<open>Operators\<close>

datatype selector_op =
  Equal | In | Prefix | Postfix | NotEqual | NotIn | NotPrefix | NotPostfix | UnknownOp

definition parse_op :: "string \<Rightarrow> selector_op" where
  "parse_op s =
     (let l = to_lower s in
      if l = ''equal'' then Equal else if l = ''in'' then In
      else if l = ''prefix'' then Prefix else if l = ''postfix'' then Postfix
      else if l = ''notequal'' then NotEqual else if l = ''notin'' then NotIn
      else if l = ''notprefix'' then NotPrefix else if l = ''notpostfix'' then NotPostfix
      else UnknownOp)"

fun accepts :: "selector_op \<Rightarrow> string list \<Rightarrow> string \<Rightarrow> bool" where
  "accepts Equal values v \<longleftrightarrow> list_ex (\<lambda>x. x = v) values"
| "accepts In values v \<longleftrightarrow> list_ex (\<lambda>x. x = v) values"
| "accepts NotEqual values v \<longleftrightarrow> \<not> list_ex (\<lambda>x. x = v) values"
| "accepts NotIn values v \<longleftrightarrow> \<not> list_ex (\<lambda>x. x = v) values"
| "accepts Prefix values v \<longleftrightarrow> list_ex (\<lambda>x. prefix x v) values"
| "accepts NotPrefix values v \<longleftrightarrow> \<not> list_ex (\<lambda>x. prefix x v) values"
| "accepts Postfix values v \<longleftrightarrow> list_ex (\<lambda>x. suffix x v) values"
| "accepts NotPostfix values v \<longleftrightarrow> \<not> list_ex (\<lambda>x. suffix x v) values"
| "accepts UnknownOp values v \<longleftrightarrow> True"

section \<open>Selectors\<close>

record clause =
  cl_kind :: string
  cl_index :: "nat option"
  cl_op :: selector_op
  cl_op_text :: string
  cl_values :: "string list"

record selector =
  sl_path :: "clause list"
  sl_binaries :: "clause list"

record hook_selectors =
  hs_hook :: string
  hs_selectors :: "selector list"

record mismatch =
  mm_policy :: string
  mm_hook :: string
  mm_reported :: string
  mm_clause :: clause

record selector_set =
  ss_hooks :: "hook_selectors list"

definition selector_is_empty :: "selector \<Rightarrow> bool" where
  "selector_is_empty s \<longleftrightarrow> sl_path s = [] \<and> sl_binaries s = []"

text \<open>\<open>None\<close> when every clause accepts, otherwise the first clause that does not and the value.\<close>

definition check_selector ::
    "(string \<Rightarrow> string option) \<Rightarrow> selector \<Rightarrow> string option \<Rightarrow> string \<Rightarrow> (clause \<times> string) option" where
  "check_selector canonicalize s path binary =
     (case (case path of
              Some p \<Rightarrow> if p = [] then None
                        else map_option (\<lambda>c. (c, p)) (List.find (\<lambda>c. \<not> accepts (cl_op c) (cl_values c) p) (sl_path s))
            | None \<Rightarrow> None) of
        Some r \<Rightarrow> Some r
      | None \<Rightarrow>
          if binary = [] then None
          else let names = binary_aliases canonicalize binary in
               map_option (\<lambda>c. (c, binary))
                 (List.find (\<lambda>c. \<not> list_ex (\<lambda>n. accepts (cl_op c) (cl_values c) n) names) (sl_binaries s)))"

text \<open>The loops of \<open>validate\<close>: \<open>Inr ()\<close> as soon as something matches, otherwise the first failure.\<close>

fun try_selectors ::
    "(selector \<Rightarrow> (clause \<times> string) option) \<Rightarrow> string \<Rightarrow> selector list
     \<Rightarrow> (clause \<times> string \<times> string) option \<Rightarrow> (clause \<times> string \<times> string) option + unit" where
  "try_selectors chk hook [] first = Inl first"
| "try_selectors chk hook (s # ss) first =
     (case chk s of
        None \<Rightarrow> Inr ()
      | Some (c, reported) \<Rightarrow>
          try_selectors chk hook ss (case first of None \<Rightarrow> Some (c, reported, hook) | Some f \<Rightarrow> Some f))"

fun try_hooks ::
    "(selector \<Rightarrow> (clause \<times> string) option) \<Rightarrow> hook_selectors list
     \<Rightarrow> (clause \<times> string \<times> string) option \<Rightarrow> (clause \<times> string \<times> string) option + unit" where
  "try_hooks chk [] first = Inl first"
| "try_hooks chk (h # hs) first =
     (if hs_selectors h = [] \<or> list_all selector_is_empty (hs_selectors h) then Inr ()
      else case try_selectors chk (hs_hook h) (hs_selectors h) first of
             Inr u \<Rightarrow> Inr u
           | Inl f \<Rightarrow> try_hooks chk hs f)"

definition hook_candidates :: "selector_set \<Rightarrow> string \<Rightarrow> hook_selectors list" where
  "hook_candidates sset hook =
     (let named = filter (\<lambda>h. hs_hook h = hook) (ss_hooks sset) in if named = [] then ss_hooks sset else named)"

definition validate ::
    "(string \<Rightarrow> string option) \<Rightarrow> selector_set \<Rightarrow> string \<Rightarrow> string \<Rightarrow> string option \<Rightarrow> string \<Rightarrow> mismatch + unit" where
  "validate canonicalize sset policy hook path binary =
     (let cs = hook_candidates sset hook in
      if cs = [] then Inr ()
      else case try_hooks (\<lambda>s. check_selector canonicalize s path binary) cs None of
        Inr u \<Rightarrow> Inr u
      | Inl None \<Rightarrow> Inr ()
      | Inl (Some (c, reported, hook_name)) \<Rightarrow>
          Inl \<lparr>mm_policy = policy, mm_hook = (if hook_name = [] then hook else hook_name),
               mm_reported = reported, mm_clause = c\<rparr>)"

definition selector_set_is_empty :: "selector_set \<Rightarrow> bool" where
  "selector_set_is_empty sset \<longleftrightarrow> list_all (\<lambda>h. hs_selectors h = []) (ss_hooks sset)"

section \<open>Parsing a policy\<close>

definition HOOK_SECTIONS :: "string list" where
  "HOOK_SECTIONS = [''kprobes'', ''lsmhooks'', ''tracepoints'', ''uprobes'']"

definition PATH_TYPES :: "string list" where
  "PATH_TYPES = [''file'', ''path'', ''linux_binprm'', ''fd'', ''dentry'']"

definition seq_of :: "string \<Rightarrow> json \<Rightarrow> json list" where
  "seq_of key v = (case Option.bind (jget key v) as_array of Some xs \<Rightarrow> xs | None \<Rightarrow> [])"

definition show_int :: "int \<Rightarrow> string" where
  "show_int i = (if i < 0 then ''-'' @ show_nat (nat (- i)) else show_nat (nat i))"

fun scalar_text :: "json \<Rightarrow> string option" where
  "scalar_text (JStr s) = Some s"
| "scalar_text (JInt i) = Some (show_int i)"
| "scalar_text (JFloat t) = Some t"
| "scalar_text _ = None"

definition str_of :: "string \<Rightarrow> json \<Rightarrow> string option" where
  "str_of key v = Option.bind (jget key v) as_str"

definition parse_clause :: "json \<Rightarrow> string \<Rightarrow> nat option \<Rightarrow> clause option" where
  "parse_clause m kind index =
     (let op_text = (case str_of ''operator'' m of Some s \<Rightarrow> s | None \<Rightarrow> []); op = parse_op op_text;
          values = List.map_filter scalar_text (seq_of ''values'' m)
      in if op = UnknownOp then None
         else if values = [] then None
         else Some \<lparr>cl_kind = kind, cl_index = index, cl_op = op, cl_op_text = op_text, cl_values = values\<rparr>)"

definition entry_hook_name :: "json \<Rightarrow> string" where
  "entry_hook_name entry =
     (case find_map (\<lambda>key. str_of key entry) [''hook'', ''call'', ''path''] of
        Some s \<Rightarrow> s
      | None \<Rightarrow>
          (case (str_of ''subsystem'' entry, str_of ''event'' entry) of
             (Some s, Some e) \<Rightarrow> s @ ''/'' @ e
           | (Some s, None) \<Rightarrow> s
           | _ \<Rightarrow> []))"

definition path_arg_indexes :: "json \<Rightarrow> nat list" where
  "path_arg_indexes entry =
     List.map_filter (\<lambda>a. Option.bind (jget ''index'' a) as_u64)
       (filter (\<lambda>a. case str_of ''type'' a of Some t \<Rightarrow> t \<in> set PATH_TYPES | None \<Rightarrow> False) (seq_of ''args'' entry))"

definition path_clause :: "nat list \<Rightarrow> json \<Rightarrow> clause option" where
  "path_clause path_indexes m =
     (case Option.bind (jget ''index'' m) as_u64 of
        Some i \<Rightarrow> if i \<in> set path_indexes then parse_clause m ''matchArgs'' (Some i) else None
      | None \<Rightarrow> None)"

definition parse_selector :: "nat list \<Rightarrow> json \<Rightarrow> selector" where
  "parse_selector path_indexes sel =
     \<lparr>sl_path = List.map_filter (path_clause path_indexes) (seq_of ''matchArgs'' sel),
      sl_binaries = List.map_filter (\<lambda>m. parse_clause m ''matchBinaries'' None) (seq_of ''matchBinaries'' sel)\<rparr>"

definition parse_hook :: "json \<Rightarrow> hook_selectors" where
  "parse_hook entry =
     \<lparr>hs_hook = entry_hook_name entry,
      hs_selectors = map (parse_selector (path_arg_indexes entry)) (seq_of ''selectors'' entry)\<rparr>"

definition hook_entries :: "json \<Rightarrow> json list" where
  "hook_entries doc =
     (case jget ''spec'' doc of
        None \<Rightarrow> []
      | Some spec \<Rightarrow> concat (map (\<lambda>section. seq_of section spec) HOOK_SECTIONS))"

definition parse_set :: "json \<Rightarrow> selector_set" where
  "parse_set doc = \<lparr>ss_hooks = map parse_hook (hook_entries doc)\<rparr>"

section \<open>The filter in the kernel\<close>

text \<open>
  What the document means to the sensor: the entries of \<open>selectors\<close> are alternatives, the items of
  one selector are all required, and the values of one item are alternatives. An item the program
  does not model is any function of the item, \<open>other\<close>; \<open>arg\<close> gives the argument with an index and
  \<open>real\<close> the binary as the kernel resolved it.
\<close>

definition kernel_arg :: "(json \<Rightarrow> bool) \<Rightarrow> (nat \<Rightarrow> string) \<Rightarrow> nat list \<Rightarrow> json \<Rightarrow> bool" where
  "kernel_arg other arg path_indexes m =
     (case path_clause path_indexes m of
        Some c \<Rightarrow> accepts (cl_op c) (cl_values c) (case cl_index c of Some i \<Rightarrow> arg i | None \<Rightarrow> [])
      | None \<Rightarrow> other m)"

definition kernel_binary :: "(json \<Rightarrow> bool) \<Rightarrow> string \<Rightarrow> json \<Rightarrow> bool" where
  "kernel_binary other real m =
     (case parse_clause m ''matchBinaries'' None of
        Some c \<Rightarrow> accepts (cl_op c) (cl_values c) real
      | None \<Rightarrow> other m)"

definition kernel_selector :: "(json \<Rightarrow> bool) \<Rightarrow> (nat \<Rightarrow> string) \<Rightarrow> string \<Rightarrow> nat list \<Rightarrow> json \<Rightarrow> bool" where
  "kernel_selector other arg real path_indexes sel \<longleftrightarrow>
     list_all (kernel_arg other arg path_indexes) (seq_of ''matchArgs'' sel)
     \<and> list_all (kernel_binary other real) (seq_of ''matchBinaries'' sel) \<and> other sel"

definition kernel_hook :: "(json \<Rightarrow> bool) \<Rightarrow> (nat \<Rightarrow> string) \<Rightarrow> string \<Rightarrow> json \<Rightarrow> bool" where
  "kernel_hook other arg real entry \<longleftrightarrow>
     seq_of ''selectors'' entry = []
     \<or> list_ex (kernel_selector other arg real (path_arg_indexes entry)) (seq_of ''selectors'' entry)"

lemma try_selectors_first: "try_selectors chk hook ss first = Inr () \<longleftrightarrow> (\<exists>s \<in> set ss. chk s = None)"
  by (induction chk hook ss first rule: try_selectors.induct) (auto split: option.split)

lemma try_hooks_ok:
  "h \<in> set hs \<Longrightarrow> hs_selectors h = [] \<or> (\<exists>s \<in> set (hs_selectors h). chk s = None)
    \<Longrightarrow> try_hooks chk hs first = Inr ()"
proof (induction chk hs first rule: try_hooks.induct)
  case (2 chk h' hs first)
  show ?case
  proof (cases "try_selectors chk (hs_hook h') (hs_selectors h') first")
    case (Inl f)
    then have "\<not> (\<exists>s \<in> set (hs_selectors h'). chk s = None)"
      using try_selectors_first [of chk "hs_hook h'" "hs_selectors h'" first] by auto
    with 2 Inl show ?thesis by (auto simp: list_all_iff)
  qed simp
qed simp

lemma path_clause_index: "path_clause idx m = Some c \<Longrightarrow> \<exists>i \<in> set idx. cl_index c = Some i"
  by (auto simp: path_clause_def parse_clause_def Let_def split: option.splits if_splits)

lemma kernel_selector_checks:
  assumes k: "kernel_selector other arg real idx sel" and idx: "\<forall>i \<in> set idx. arg i = p"
    and real: "real \<in> set (binary_aliases canonicalize binary)"
  shows "check_selector canonicalize (parse_selector idx sel) (Some p) binary = None"
proof -
  have "accepts (cl_op c) (cl_values c) p" if "c \<in> set (sl_path (parse_selector idx sel))" for c
  proof -
    from that obtain m where m: "m \<in> set (seq_of ''matchArgs'' sel)" "path_clause idx m = Some c"
      by (auto simp: parse_selector_def in_map_filter)
    with k path_clause_index [OF m(2)] idx show ?thesis
      by (fastforce simp: kernel_selector_def list_all_iff kernel_arg_def)
  qed
  moreover have "accepts (cl_op c) (cl_values c) real" if "c \<in> set (sl_binaries (parse_selector idx sel))" for c
    using that k by (fastforce simp: parse_selector_def in_map_filter kernel_selector_def list_all_iff kernel_binary_def)
  ultimately have
    "List.find (\<lambda>c. \<not> accepts (cl_op c) (cl_values c) p) (sl_path (parse_selector idx sel)) = None"
    "List.find (\<lambda>c. \<not> list_ex (\<lambda>n. accepts (cl_op c) (cl_values c) n) (binary_aliases canonicalize binary))
       (sl_binaries (parse_selector idx sel)) = None"
    using real by (auto simp: find_None_iff list_ex_iff)
  then show ?thesis by (simp add: check_selector_def Let_def)
qed

text \<open>C13: A real detection is never rejected. Whenever the sensor's own filter lets an event through one of
  the hooks the event can belong to, whatever the parts of the filter that are not modelled say, the
  second look accepts it, provided the path that is reported is the one the filter tested and the
  binary it tested is the reported one or what that resolves to.\<close>

theorem real_detections_are_never_rejected:
  assumes "entry \<in> set (hook_entries doc)" and "kernel_hook other arg real entry"
    and "entry_hook_name entry = hook \<or> (\<forall>e \<in> set (hook_entries doc). entry_hook_name e \<noteq> hook)"
    and "\<forall>i \<in> set (path_arg_indexes entry). arg i = p"
    and "real \<in> set (binary_aliases canonicalize binary)"
  shows "validate canonicalize (parse_set doc) policy hook (Some p) binary = Inr ()"
proof -
  let ?chk = "\<lambda>s. check_selector canonicalize s (Some p) binary"
  have "parse_hook entry \<in> set (hook_candidates (parse_set doc) hook)"
    using assms(1,3) by (auto simp: hook_candidates_def Let_def parse_set_def parse_hook_def filter_empty_conv)
  moreover have "hs_selectors (parse_hook entry) = [] \<or> (\<exists>s \<in> set (hs_selectors (parse_hook entry)). ?chk s = None)"
    using assms(2) kernel_selector_checks [OF _ assms(4,5), of other]
    by (auto simp: kernel_hook_def parse_hook_def list_ex_iff)
  ultimately have "try_hooks ?chk (hook_candidates (parse_set doc) hook) None = Inr ()" by (rule try_hooks_ok)
  then show ?thesis by (simp add: validate_def Let_def)
qed

text \<open>A policy with one hook that lets one key file through.\<close>

definition key_policy :: json where
  "key_policy = JObj [(''spec'', JObj [(''lsmhooks'', JArr [JObj
     [(''hook'', JStr ''file_open''),
      (''args'', JArr [JObj [(''index'', JInt 0), (''type'', JStr ''file'')]]),
      (''selectors'', JArr [JObj [(''matchArgs'', JArr [JObj
         [(''index'', JInt 0), (''operator'', JStr ''Equal''), (''values'', JArr [JStr ''/k''])]])]])]])])]"

lemma key_policy_facts:
  "hook_entries key_policy = [JObj
     [(''hook'', JStr ''file_open''),
      (''args'', JArr [JObj [(''index'', JInt 0), (''type'', JStr ''file'')]]),
      (''selectors'', JArr [JObj [(''matchArgs'', JArr [JObj
         [(''index'', JInt 0), (''operator'', JStr ''Equal''), (''values'', JArr [JStr ''/k''])]])]])]]"
  by (simp add: hook_entries_def key_policy_def HOOK_SECTIONS_def seq_of_def)

lemma equal_op: "parse_op ''Equal'' = Equal"
  by code_simp

theorem real_detections_are_never_rejected_witness:
  "validate (\<lambda>_. None) (parse_set key_policy) ''ssh'' ''file_open'' (Some ''/k'') ''/bin/cat'' = Inr ()
   \<and> (\<exists>m. validate (\<lambda>_. None) (parse_set key_policy) ''ssh'' ''file_open'' (Some ''/sys'') ''/bin/cat'' = Inl m)"
proof
  show "validate (\<lambda>_. None) (parse_set key_policy) ''ssh'' ''file_open'' (Some ''/k'') ''/bin/cat'' = Inr ()"
  proof (rule real_detections_are_never_rejected)
    show "hd (hook_entries key_policy) \<in> set (hook_entries key_policy)" by (simp add: key_policy_facts)
    show "kernel_hook (\<lambda>_. True) (\<lambda>_. ''/k'') ''/bin/cat'' (hd (hook_entries key_policy))"
      by (simp add: key_policy_facts kernel_hook_def kernel_selector_def kernel_arg_def path_clause_def
          path_arg_indexes_def seq_of_def str_of_def PATH_TYPES_def parse_clause_def equal_op List.map_filter_simps)
  qed (simp_all add: key_policy_facts entry_hook_name_def str_of_def binary_aliases_def)
  show "\<exists>m. validate (\<lambda>_. None) (parse_set key_policy) ''ssh'' ''file_open'' (Some ''/sys'') ''/bin/cat'' = Inl m"
    by (simp add: validate_def hook_candidates_def parse_set_def key_policy_facts parse_hook_def entry_hook_name_def
        str_of_def parse_selector_def path_clause_def path_arg_indexes_def seq_of_def PATH_TYPES_def
        parse_clause_def equal_op List.map_filter_simps check_selector_def selector_is_empty_def)
qed

text \<open>What a mismatch says is true of the event: the named clause rejects the reported value.\<close>

lemma try_selectors_true:
  "try_selectors chk hook ss first = Inl (Some (c, v, h)) \<Longrightarrow> first = Some (c, v, h) \<or> (\<exists>s \<in> set ss. chk s = Some (c, v))"
  by (induction chk hook ss first rule: try_selectors.induct) (auto split: option.splits)

lemma check_selector_true:
  "check_selector canonicalize s path binary = Some (c, v) \<Longrightarrow>
     (path = Some v \<and> c \<in> set (sl_path s) \<or> binary = v \<and> c \<in> set (sl_binaries s)) \<and> \<not> accepts (cl_op c) (cl_values c) v"
  by (auto simp: check_selector_def find_Some_iff binary_aliases_def split: option.splits if_splits)

end
