(* ===== verification/Ordered_Map.thy ===== *)
theory Ordered_Map
  imports Moat_Prelude
begin

text \<open>
  A \<open>BTreeMap\<close> as the list of its entries in the order of the keys: \<open>insert\<close> replaces, \<open>get_mut\<close>
  changes the value in place, \<open>values\<close> goes through the list. \<open>map_of\<close> is \<open>get\<close>. A \<open>BTreeSet\<close> is its
  sorted list.
\<close>

fun bt_insert :: "'k::linorder \<Rightarrow> 'v \<Rightarrow> ('k \<times> 'v) list \<Rightarrow> ('k \<times> 'v) list" where
  "bt_insert k v [] = [(k, v)]"
| "bt_insert k v ((k', v') # m) =
     (if k < k' then (k, v) # (k', v') # m
      else if k = k' then (k, v) # m
      else (k', v') # bt_insert k v m)"

definition bt_adjust :: "'k \<Rightarrow> ('v \<Rightarrow> 'v) \<Rightarrow> ('k \<times> 'v) list \<Rightarrow> ('k \<times> 'v) list" where
  "bt_adjust k f m = map (\<lambda>(k', v). (k', if k' = k then f v else v)) m"

definition bt_sorted :: "('k::linorder \<times> 'v) list \<Rightarrow> bool" where
  "bt_sorted m \<longleftrightarrow> sorted_wrt (<) (map fst m)"

lemma set_bt_insert: "set (bt_insert k v m) \<subseteq> insert (k, v) (set m)"
  by (induction m) (auto split: if_splits)

lemma bt_sorted_Nil [simp]: "bt_sorted []"
  by (simp add: bt_sorted_def)

lemma keys_bt_insert: "fst ` set (bt_insert k v m) = insert k (fst ` set m)"
  by (induction k v m rule: bt_insert.induct) auto

lemma bt_sorted_insert [simp]: "bt_sorted m \<Longrightarrow> bt_sorted (bt_insert k v m)"
  unfolding bt_sorted_def
proof (induction k v m rule: bt_insert.induct)
  case (2 k v k' v' m)
  consider "k < k'" | "k = k'" | "k' < k" "\<not> k < k'" "k \<noteq> k'" by force
  then show ?case
  proof cases
    case 3
    then have "\<forall>x \<in> fst ` set (bt_insert k v m). k' < x" using 2(2) by (auto simp: keys_bt_insert)
    with 2 3 show ?thesis by simp
  next
    case 1
    with 2(2) show ?thesis by (auto intro: less_trans)
  qed (use 2(2) in auto)
qed simp

lemma keys_bt_adjust [simp]: "map fst (bt_adjust k f m) = map fst m"
  by (induction m) (auto simp: bt_adjust_def)

lemma bt_sorted_adjust [simp]: "bt_sorted (bt_adjust k f m) = bt_sorted m"
  by (simp add: bt_sorted_def)

lemma bt_sorted_distinct: "bt_sorted m \<Longrightarrow> distinct (map fst m)"
  by (simp add: bt_sorted_def strict_sorted_iff)

lemma map_of_bt_insert [simp]: "map_of (bt_insert k v m) = (map_of m)(k \<mapsto> v)"
  by (induction k v m rule: bt_insert.induct) (auto simp: fun_eq_iff)

lemma map_of_bt_adjust [simp]:
  "map_of (bt_adjust k f m) k' = (if k' = k then map_option f (map_of m k') else map_of m k')"
  by (induction m) (auto simp: bt_adjust_def)

lemma bt_sorted_entry: "bt_sorted m \<Longrightarrow> (k, v) \<in> set m \<longleftrightarrow> map_of m k = Some v"
  by (auto dest: map_of_SomeD bt_sorted_distinct intro: map_of_is_SomeI)

text \<open>A \<open>BTreeSet\<close> as its sorted list.\<close>

definition btree_set :: "('k::linorder) list \<Rightarrow> 'k list" where
  "btree_set xs = remdups_adj (sort xs)"

lemma set_btree [simp]: "set (btree_set xs) = set xs"
  by (simp add: btree_set_def)

lemma btree_empty [simp]: "btree_set xs = [] \<longleftrightarrow> xs = []"
  by (metis set_btree set_empty)

lemma distinct_btree [simp]: "distinct (btree_set xs)"
  by (simp add: btree_set_def distinct_remdups_adj_sorted)

lemma length_btree: "length (btree_set xs) = card (set xs)"
  using distinct_card [OF distinct_btree [of xs]] by simp

lemma btree_two: "2 \<le> length (btree_set xs) \<longleftrightarrow> (\<exists>x \<in> set xs. \<exists>y \<in> set xs. x \<noteq> y)"
  unfolding length_btree by (metis One_nat_def Suc_1 card_le_Suc0_iff_eq finite_set not_less_eq_eq)

end
