(* ===== verification/Arming.thy ===== *)
theory Arming
  imports Text_Lines Json_Value Ordered_Map "HOL-Library.AList"
begin

text \<open>
  The arming of the kernel's policies in \<open>moatd/src/engine.rs\<close>: which policies have to enforce, the
  bounded wait for the sensor after a start, the retries, and the verification that reads the
  kernel back. The sensor is an environment with a state of its own: every call to \<open>tetra\<close> may change
  it, may fail and may lie about its success. A \<open>BTreeSet\<close> is its sorted list.
\<close>

section \<open>What has to be armed\<close>

definition mode_for :: "string list \<Rightarrow> string \<Rightarrow> string \<Rightarrow> string" where
  "mode_for enforcing_rules mode rule = (if rule \<in> set enforcing_rules then ''enforce'' else mode)"

definition enforcement_to_apply :: "string list \<Rightarrow> string list \<Rightarrow> string \<Rightarrow> string list \<Rightarrow> string list" where
  "enforcement_to_apply names enforcing_rules mode armable_userland =
     filter (\<lambda>n. n \<notin> set armable_userland)
       (filter (\<lambda>n. mode_for enforcing_rules mode n = ''enforce'') names)"

section \<open>What the kernel reports\<close>

definition upper_char :: "char \<Rightarrow> char" where
  "upper_char c = (if is_lower c then char_of ((of_char c :: nat) - 32) else c)"

definition to_ascii_uppercase :: "string \<Rightarrow> string" where
  "to_ascii_uppercase s = map upper_char s"

definition normalise_mode :: "json \<Rightarrow> string" where
  "normalise_mode v =
     (case as_u64 v of
        Some n \<Rightarrow> if n = 1 then ''enforce'' else if n = 2 \<or> n = 3 then ''monitor'' else ''unknown''
      | None \<Rightarrow>
          let s = to_ascii_uppercase (case as_str v of Some s \<Rightarrow> s | None \<Rightarrow> []) in
          if contains_str s ''ENFORCE'' then ''enforce''
          else if contains_str s ''MONITOR'' then ''monitor''
          else to_lower s)"

type_synonym modes = "(string \<times> string) list"

definition note_mode :: "json \<Rightarrow> modes \<Rightarrow> modes" where
  "note_mode v out =
     (case (Option.bind (case jget ''name'' v of Some n \<Rightarrow> Some n | None \<Rightarrow> jget ''Name'' v) as_str,
            case jget ''mode'' v of Some m \<Rightarrow> Some m | None \<Rightarrow> jget ''Mode'' v) of
        (Some name, Some mode) \<Rightarrow> AList.update name (normalise_mode mode) out
      | _ \<Rightarrow> out)"

fun collect_policy_modes :: "json \<Rightarrow> modes \<Rightarrow> modes"
  and collect_elements :: "json list \<Rightarrow> modes \<Rightarrow> modes"
  and collect_members :: "(string \<times> json) list \<Rightarrow> modes \<Rightarrow> modes" where
  "collect_policy_modes (JArr a) out = collect_elements a out"
| "collect_policy_modes (JObj kvs) out = collect_members kvs (note_mode (JObj kvs) out)"
| "collect_policy_modes _ out = out"
| "collect_elements [] out = out"
| "collect_elements (e # es) out = collect_elements es (collect_policy_modes e out)"
| "collect_members [] out = out"
| "collect_members ((k, e) # kvs) out = collect_members kvs (collect_policy_modes e out)"

text \<open>The loop over the lines of the text table, with \<open>saw_header\<close> threaded through.\<close>

fun table_lines :: "string list \<Rightarrow> bool \<Rightarrow> modes \<Rightarrow> modes option" where
  "table_lines [] saw out = (if saw then Some out else None)"
| "table_lines (l # ls) saw out =
     (let f = split_whitespace l in
      if ''NAME'' \<in> set f \<and> ''MODE'' \<in> set f then table_lines ls True out
      else if \<not> saw \<or> length f < 3 \<or> parse_u64 (f ! 0) = None then table_lines ls saw out
      else case List.find (\<lambda>t. starts_with t ''TP_MODE_'') f of
             Some m \<Rightarrow> table_lines ls saw (AList.update (f ! 1) (normalise_mode (JStr m)) out)
           | None \<Rightarrow> table_lines ls saw out)"

definition parse_policy_modes :: "(string \<Rightarrow> json option) \<Rightarrow> string \<Rightarrow> modes option" where
  "parse_policy_modes decode txt =
     (case decode txt of
        Some v \<Rightarrow> Some (collect_policy_modes v [])
      | None \<Rightarrow> table_lines (lines_of txt) False [])"

definition disagreeing :: "string list \<Rightarrow> modes \<Rightarrow> string list" where
  "disagreeing want modes =
     filter (\<lambda>n. case map_of modes n of Some m \<Rightarrow> m \<noteq> ''enforce'' | None \<Rightarrow> True) want"

section \<open>The sensor\<close>

text \<open>
  \<open>sn_arm\<close> is \<open>tetra tp set-mode name enforce\<close>: whether it reported success. \<open>sn_list\<close> is \<open>tetra
  tracingpolicy list\<close>: its output, if it succeeded. \<open>sn_pins\<close> counts the pinned sensors, if they can
  be read. \<open>sn_decode\<close> is the JSON reader.
\<close>

record 'k sensor =
  sn_arm :: "string \<Rightarrow> 'k \<Rightarrow> bool \<times> 'k"
  sn_list :: "'k \<Rightarrow> string option \<times> 'k"
  sn_pins :: "'k \<Rightarrow> nat option"
  sn_decode :: "string \<Rightarrow> json option"

definition kernel_policy_modes :: "'k sensor \<Rightarrow> 'k \<Rightarrow> modes option \<times> 'k" where
  "kernel_policy_modes sn k =
     (let (out, k1) = sn_list sn k in (Option.bind out (parse_policy_modes (sn_decode sn)), k1))"

definition sensor_ready_for :: "'k sensor \<Rightarrow> nat \<Rightarrow> string list \<Rightarrow> 'k \<Rightarrow> bool \<times> 'k" where
  "sensor_ready_for sn expected want k =
     (case sn_pins sn k of
        Some n \<Rightarrow> (expected > 0 \<and> n \<ge> expected, k)
      | None \<Rightarrow>
          let (r, k1) = kernel_policy_modes sn k in
          (case r of
             Some modes \<Rightarrow> modes \<noteq> [] \<and> list_all (\<lambda>n. n \<in> fst ` set modes) want
           | None \<Rightarrow> False, k1))"

fun arm_all :: "'k sensor \<Rightarrow> string list \<Rightarrow> 'k \<Rightarrow> nat \<times> nat \<times> 'k" where
  "arm_all sn [] k = (0, 0, k)"
| "arm_all sn (n # ns) k =
     (let (taken, k1) = sn_arm sn n k; (ok, failed, k2) = arm_all sn ns k1 in
      if taken then (ok + 1, failed, k2) else (ok, failed + 1, k2))"

definition reapply_enforcement :: "'k sensor \<Rightarrow> string list \<Rightarrow> 'k \<Rightarrow> nat \<times> nat \<times> 'k" where
  "reapply_enforcement sn want k = (if want = [] then (0, 0, k) else arm_all sn want k)"

section \<open>The state\<close>

datatype arming = Idle | Waiting nat nat nat

record arm_state =
  am_arming :: arming
  am_last_verify :: nat
  am_verified :: "string list"
  am_unverified :: "string list"
  am_last_alert :: "string list"
  am_in_meta :: bool

definition sat_u64 :: "nat \<Rightarrow> nat \<Rightarrow> nat" where
  "sat_u64 a b = min (2 ^ 64 - 1) (a + b)"

definition arm_backoff :: "nat \<Rightarrow> nat" where
  "arm_backoff tries = (if tries \<le> 3 then 2 else if tries \<le> 7 then 5 else if tries \<le> 15 then 15 else 30)"

definition begin_arming :: "nat \<Rightarrow> string list \<Rightarrow> nat \<Rightarrow> arm_state \<Rightarrow> arm_state" where
  "begin_arming arm_wait_secs want now s =
     (if want = [] then s\<lparr>am_arming := Idle\<rparr>
      else s\<lparr>am_arming := Waiting (sat_u64 now (max arm_wait_secs 1)) now 0\<rparr>)"

text \<open>The alert about a gap: the names and how many are wanted. \<open>in_meta_alert\<close> stops a nested one.\<close>

definition raise_enforcement_gap :: "string list \<Rightarrow> nat \<Rightarrow> arm_state \<Rightarrow> (string list \<times> nat) option" where
  "raise_enforcement_gap names wanted s = (if am_in_meta s then None else Some (names, wanted))"

text \<open>The end of \<open>verify_enforcement\<close>: what is published, and whether it is worth an alert.\<close>

definition publish_verdict :: "string list \<Rightarrow> string list \<Rightarrow> arm_state \<Rightarrow> (string list \<times> nat) option \<times> arm_state" where
  "publish_verdict want still_wrong s =
     (let unverified = btree_set still_wrong;
          s1 = s\<lparr>am_verified := btree_set (filter (\<lambda>n. n \<notin> set unverified) want), am_unverified := unverified\<rparr>
      in if unverified = [] then (None, s1\<lparr>am_last_alert := []\<rparr>)
         else if unverified \<noteq> am_last_alert s1 then
           (let s2 = s1\<lparr>am_last_alert := unverified\<rparr> in (raise_enforcement_gap unverified (length want) s2, s2))
         else (None, s1))"

definition verify_enforcement ::
    "'k sensor \<Rightarrow> string list \<Rightarrow> nat \<Rightarrow> 'k \<Rightarrow> arm_state \<Rightarrow> (string list \<times> nat) option \<times> 'k \<times> arm_state" where
  "verify_enforcement sn want now k s0 =
     (let s = s0\<lparr>am_last_verify := now\<rparr> in
      if want = [] then (None, k, s\<lparr>am_verified := [], am_unverified := [], am_last_alert := []\<rparr>)
      else let (r, k1) = kernel_policy_modes sn k in
        case r of
          None \<Rightarrow> (None, k1, s)
        | Some modes \<Rightarrow>
            let disagreed = disagreeing want modes in
            if disagreed = [] then (let (a, s1) = publish_verdict want [] s in (a, k1, s1))
            else
              let (ok, failed, k2) = arm_all sn disagreed k1; (r2, k3) = kernel_policy_modes sn k2 in
              case r2 of
                None \<Rightarrow> (None, k3, s)
              | Some m \<Rightarrow> (let (a, s1) = publish_verdict want (disagreeing want m) s in (a, k3, s1)))"

definition arm_tick ::
    "'k sensor \<Rightarrow> nat \<Rightarrow> string list \<Rightarrow> nat \<Rightarrow> 'k \<Rightarrow> arm_state \<Rightarrow> (string list \<times> nat) option \<times> 'k \<times> arm_state" where
  "arm_tick sn expected want now k s =
     (case am_arming s of
        Idle \<Rightarrow> (None, k, s)
      | Waiting deadline next_try tries \<Rightarrow>
          if now < next_try then (None, k, s)
          else if want = [] then (None, k, s\<lparr>am_arming := Idle\<rparr>)
          else
            let out_of_time = (now \<ge> deadline); (ready, k1) = sensor_ready_for sn expected want k;
                again = Waiting deadline (sat_u64 now (arm_backoff tries)) (min (2 ^ 32 - 1) (tries + 1))
            in if \<not> ready \<and> \<not> out_of_time then (None, k1, s\<lparr>am_arming := again\<rparr>)
               else let (ok, failed, k2) = reapply_enforcement sn want k1 in
                 verify_enforcement sn want now k2
                   (s\<lparr>am_arming := (if failed = 0 \<or> out_of_time then Idle else again)\<rparr>))"

definition invalidate_verification :: "arm_state \<Rightarrow> arm_state" where
  "invalidate_verification s = s\<lparr>am_last_verify := 0\<rparr>"

definition verify_tick ::
    "'k sensor \<Rightarrow> string list \<Rightarrow> nat \<Rightarrow> 'k \<Rightarrow> arm_state \<Rightarrow> (string list \<times> nat) option \<times> 'k \<times> arm_state" where
  "verify_tick sn want now k s =
     (case am_arming s of
        Waiting d n t \<Rightarrow> (None, k, s)
      | Idle \<Rightarrow> if now - am_last_verify s < 60 then (None, k, s) else verify_enforcement sn want now k s)"

section \<open>The wait ends\<close>

text \<open>A run of ticks: for each the time, what is wanted and how many policies are on disk.\<close>

fun arm_run :: "'k sensor \<Rightarrow> (nat \<times> string list \<times> nat) list \<Rightarrow> 'k \<Rightarrow> arm_state \<Rightarrow> 'k \<times> arm_state" where
  "arm_run sn [] k s = (k, s)"
| "arm_run sn ((now, want, expected) # ts) k s =
     (let (a, k1, s1) = arm_tick sn expected want now k s in arm_run sn ts k1 s1)"

text \<open>While the machine waits, the next try is less than one backoff behind the deadline.\<close>

definition due_by :: "nat \<Rightarrow> arm_state \<Rightarrow> bool" where
  "due_by d s \<longleftrightarrow> (case am_arming s of Idle \<Rightarrow> True | Waiting deadline next_try tries \<Rightarrow> deadline = d \<and> next_try \<le> d + 30)"

lemma arm_backoff_bound: "0 < arm_backoff n \<and> arm_backoff n \<le> 30"
  by (simp add: arm_backoff_def)

lemma publish_arming [simp]: "am_arming (snd (publish_verdict want wrong s)) = am_arming s"
  by (simp add: publish_verdict_def Let_def)

lemma verify_arming [simp]: "am_arming (snd (snd (verify_enforcement sn want now k s))) = am_arming s"
proof -
  have "am_arming s' = am_arming s1" if "publish_verdict want wrong s1 = (a, s')" for a s' s1 wrong
    using publish_arming [of want wrong s1] that by simp
  then show ?thesis by (auto simp: verify_enforcement_def Let_def split: prod.split option.split)
qed

lemma again_due: "now < d \<Longrightarrow> sat_u64 now (arm_backoff t) \<le> d + 30"
  using arm_backoff_bound [of t] unfolding sat_u64_def by (intro min.coboundedI2) simp

lemma tick_due:
  assumes "due_by d s"
  shows "due_by d (snd (snd (arm_tick sn expected want now k s)))"
proof (cases "am_arming s")
  case Idle
  then show ?thesis by (simp add: arm_tick_def due_by_def)
next
  case (Waiting deadline next_try tries)
  with assms have "deadline = d" "next_try \<le> d + 30" by (auto simp: due_by_def)
  with Waiting again_due [of now d tries] show ?thesis
    by (simp add: arm_tick_def due_by_def Let_def split: prod.split arming.split)
qed

lemma run_due: "due_by d s \<Longrightarrow> due_by d (snd (arm_run sn ts k s))"
proof (induction sn ts k s rule: arm_run.induct)
  case (2 sn now want expected ts k s)
  then show ?case using tick_due [of d s sn expected want now k] by (auto split: prod.split)
qed simp

lemma tick_settles:
  assumes "due_by d s" and "d + 30 \<le> now"
  shows "am_arming (snd (snd (arm_tick sn expected want now k s))) = Idle"
  using assms by (auto simp: due_by_def arm_tick_def Let_def split: arming.splits prod.split)

lemma tick_past_deadline:
  assumes "due_by d s" and "d \<le> now" and "\<And>dl n t. am_arming s = Waiting dl n t \<Longrightarrow> n \<le> now"
  shows "am_arming (snd (snd (arm_tick sn expected want now k s))) = Idle"
  using assms by (auto simp: due_by_def arm_tick_def Let_def split: arming.splits prod.split)

lemma begun_due: "now0 + max arm_wait_secs 1 < 2 ^ 64 \<Longrightarrow>
  due_by (now0 + max arm_wait_secs 1) (begin_arming arm_wait_secs want0 now0 s)"
  by (auto simp: due_by_def begin_arming_def sat_u64_def)

text \<open>C21: The wait for the sensor ends, at most thirty seconds after its deadline. Whatever the sensor answers,
  however often it fails and however the ticks are spread, after any number of ticks the machine is idle or
  waits with the deadline it began with and with its next try at most thirty seconds behind it. The first
  tick that is neither before the deadline nor before the next try leaves it idle, so every tick from thirty
  seconds after the deadline on does; a tick at the deadline alone need not, since the last try before it
  may have put the next one off past it. From then on the verification once a minute takes over.\<close>

theorem arming_settles:
  assumes "now0 + max arm_wait_secs 1 < 2 ^ 64"
    and "s' = snd (arm_run sn ts k (begin_arming arm_wait_secs want0 now0 s))"
  shows "(am_arming s' = Idle
        \<or> (\<exists>next_try tries. am_arming s' = Waiting (now0 + max arm_wait_secs 1) next_try tries
            \<and> next_try \<le> now0 + max arm_wait_secs 1 + 30
            \<and> (now0 + max arm_wait_secs 1 \<le> now \<longrightarrow> next_try \<le> now
                \<longrightarrow> am_arming (snd (snd (arm_tick sn expected want now k' s'))) = Idle)))
    \<and> (now0 + max arm_wait_secs 1 + 30 \<le> now
        \<longrightarrow> am_arming (snd (snd (arm_tick sn expected want now k' s'))) = Idle)"
proof -
  have d: "due_by (now0 + max arm_wait_secs 1) s'" unfolding assms(2) by (intro run_due begun_due assms(1))
  show ?thesis
  proof (cases "am_arming s'")
    case (Waiting dl n t)
    with d have "dl = now0 + max arm_wait_secs 1" "n \<le> now0 + max arm_wait_secs 1 + 30" by (auto simp: due_by_def)
    with Waiting tick_past_deadline [OF d, of now sn expected want k'] tick_settles [OF d, of now sn expected want k']
    show ?thesis by auto
  qed (use tick_settles [OF d] in auto)
qed

text \<open>A sensor that says it armed and stays in monitor: after the deadline the machine is idle and the
  gap is published.\<close>

definition deaf_sensor :: "unit sensor" where
  "deaf_sensor = \<lparr>sn_arm = (\<lambda>_ k. (True, k)), sn_list = (\<lambda>k. (Some ''x'', k)), sn_pins = (\<lambda>_. None),
     sn_decode = (\<lambda>_. Some (JArr [JObj [(''name'', JStr ''p''), (''mode'', JStr ''TP_MODE_MONITOR'')]]))\<rparr>"

definition fresh_arm :: arm_state where
  "fresh_arm = \<lparr>am_arming = Idle, am_last_verify = 0, am_verified = [], am_unverified = [], am_last_alert = [],
     am_in_meta = False\<rparr>"

lemma deaf_modes: "kernel_policy_modes deaf_sensor k = (Some [(''p'', ''monitor'')], k)"
proof -
  have "normalise_mode (JStr ''TP_MODE_MONITOR'') = ''monitor''" by code_simp
  then show ?thesis
    by (simp add: kernel_policy_modes_def deaf_sensor_def parse_policy_modes_def note_mode_def)
qed

theorem arming_settles_witness:
  "am_arming (snd (snd (arm_tick deaf_sensor 1 [''p''] 1150 ()
     (snd (arm_run deaf_sensor [(1000, [''p''], 1), (1001, [''p''], 1)] () (begin_arming 120 [''p''] 1000 fresh_arm)))))) = Idle"
  using arming_settles [of 1000 120 _ deaf_sensor "[(1000, [''p''], 1), (1001, [''p''], 1)]" "()" "[''p'']" fresh_arm 1150,
    OF _ refl] by simp

text \<open>The doc says that on the deadline it pushes regardless. A try just before the deadline (at 1120) of a
  machine that has tried often puts the next one thirty seconds off, and the ticks at and after the deadline
  leave the sensor alone.\<close>

definition absent_sensor :: "unit sensor" where
  "absent_sensor = deaf_sensor\<lparr>sn_pins := \<lambda>_. Some 0\<rparr>"

theorem deadline_can_pass_without_a_push:
  "arm_tick absent_sensor 1 [''p''] 1145 () (snd (snd (arm_tick absent_sensor 1 [''p''] 1119 ()
     (fresh_arm\<lparr>am_arming := Waiting 1120 1119 16\<rparr>)))) = (None, (), fresh_arm\<lparr>am_arming := Waiting 1120 1149 17\<rparr>)"
  by (simp add: arm_tick_def sensor_ready_for_def absent_sensor_def arm_backoff_def sat_u64_def Let_def)

section \<open>What is published was read\<close>

lemma set_disagreeing: "set (disagreeing want m) = set want - {n. map_of m n = Some ''enforce''}"
  by (auto simp: disagreeing_def split: option.splits)

lemma publish_parts [simp]:
  "am_unverified (snd (publish_verdict want wrong s)) = btree_set wrong"
  "am_verified (snd (publish_verdict want wrong s)) = btree_set (filter (\<lambda>n. n \<notin> set wrong) want)"
  "am_last_alert (snd (publish_verdict want wrong s)) = btree_set wrong"
  "fst (publish_verdict want wrong s) =
     (if wrong \<noteq> [] \<and> btree_set wrong \<noteq> am_last_alert s \<and> \<not> am_in_meta s then Some (btree_set wrong, length want) else None)"
proof -
  have nil: "btree_set [] = []" by (simp add: btree_set_def)
  show "am_unverified (snd (publish_verdict want wrong s)) = btree_set wrong"
    "am_verified (snd (publish_verdict want wrong s)) = btree_set (filter (\<lambda>n. n \<notin> set wrong) want)"
    "am_last_alert (snd (publish_verdict want wrong s)) = btree_set wrong"
    "fst (publish_verdict want wrong s) =
     (if wrong \<noteq> [] \<and> btree_set wrong \<noteq> am_last_alert s \<and> \<not> am_in_meta s then Some (btree_set wrong, length want) else None)"
    unfolding publish_verdict_def raise_enforcement_gap_def Let_def set_btree by (simp_all add: nil)
qed

lemma publish_sets:
  assumes "publish_verdict want (disagreeing want m) s = (a, s')"
  shows "set (am_verified s') = set want \<inter> {n. map_of m n = Some ''enforce''}"
    and "set (am_unverified s') = set want - {n. map_of m n = Some ''enforce''}"
    and "am_last_alert s' = am_unverified s'"
    and "a = (if am_unverified s' \<noteq> [] \<and> am_unverified s' \<noteq> am_last_alert s \<and> \<not> am_in_meta s
              then Some (am_unverified s', length want) else None)"
proof -
  have s': "s' = snd (publish_verdict want (disagreeing want m) s)" and a: "a = fst (publish_verdict want (disagreeing want m) s)"
    using assms by simp_all
  show "set (am_verified s') = set want \<inter> {n. map_of m n = Some ''enforce''}"
    unfolding s' publish_parts set_btree set_filter set_disagreeing by blast
  show "set (am_unverified s') = set want - {n. map_of m n = Some ''enforce''}"
    unfolding s' publish_parts set_btree set_disagreeing by (rule refl)
  show "am_last_alert s' = am_unverified s'" unfolding s' publish_parts by (rule refl)
  show "a = (if am_unverified s' \<noteq> [] \<and> am_unverified s' \<noteq> am_last_alert s \<and> \<not> am_in_meta s
              then Some (am_unverified s', length want) else None)"
    unfolding s' a publish_parts btree_empty by (rule refl)
qed

text \<open>C22: Nothing is called armed that was not read back. Each verification either keeps the previous
  verdict, because the sensor could not be asked, or has nothing to verify, or publishes a reading
  of the kernel itself: verified are exactly the wanted policies that the last list showed in enforce,
  unverified all the others, whatever the calls that armed them claimed. It alerts exactly when the
  published gap is a new one.\<close>

theorem verification_is_observed:
  assumes v: "verify_enforcement sn want now k s = (a, k', s')"
  shows "(am_verified s' = am_verified s \<and> am_unverified s' = am_unverified s \<and> am_last_alert s' = am_last_alert s \<and> a = None)
    \<or> (want = [] \<and> am_verified s' = [] \<and> am_unverified s' = [] \<and> a = None)
    \<or> (\<exists>k0 m. kernel_policy_modes sn k0 = (Some m, k')
         \<and> set (am_verified s') = set want \<inter> {n. map_of m n = Some ''enforce''}
         \<and> set (am_unverified s') = set want - {n. map_of m n = Some ''enforce''}
         \<and> am_last_alert s' = am_unverified s'
         \<and> a = (if am_unverified s' \<noteq> [] \<and> am_unverified s' \<noteq> am_last_alert s \<and> \<not> am_in_meta s
                then Some (am_unverified s', length want) else None))"
proof (cases "want = []")
  case True
  with v show ?thesis by (auto simp: verify_enforcement_def Let_def)
next
  case False
  obtain r k1 where r: "kernel_policy_modes sn k = (r, k1)" by fastforce
  show ?thesis
  proof (cases r)
    case None
    with v r False show ?thesis by (auto simp: verify_enforcement_def Let_def)
  next
    case (Some m)
    show ?thesis
    proof (cases "disagreeing want m = []")
      case True
      with v r False Some have "publish_verdict want (disagreeing want m) (s\<lparr>am_last_verify := now\<rparr>) = (a, s')" "k' = k1"
        by (auto simp: verify_enforcement_def Let_def split: prod.splits)
      with r Some publish_sets [OF this(1)] show ?thesis by auto
    next
      case dis: False
      obtain ok failed k2 where k2: "arm_all sn (disagreeing want m) k1 = (ok, failed, k2)" using prod_cases3 by blast
      obtain r2 k3 where r2: "kernel_policy_modes sn k2 = (r2, k3)" by fastforce
      show ?thesis
      proof (cases r2)
        case None
        with v r False Some dis k2 r2 show ?thesis by (auto simp: verify_enforcement_def Let_def)
      next
        case (Some m2)
        with v r False \<open>r = Some m\<close> dis k2 r2
        have "publish_verdict want (disagreeing want m2) (s\<lparr>am_last_verify := now\<rparr>) = (a, s')" "k' = k3"
          by (auto simp: verify_enforcement_def Let_def split: prod.splits)
        with r2 Some publish_sets [OF this(1)] show ?thesis by auto
      qed
    qed
  qed
qed

text \<open>The deaf sensor claims success twice and is found out.\<close>

lemma deaf_verify:
  "verify_enforcement deaf_sensor [''p''] 1200 () fresh_arm
   = (Some ([''p''], 1), (), fresh_arm\<lparr>am_last_verify := 1200, am_unverified := [''p''], am_last_alert := [''p'']\<rparr>)"
  by (simp add: verify_enforcement_def deaf_modes disagreeing_def publish_verdict_def btree_set_def Let_def
      raise_enforcement_gap_def fresh_arm_def split: prod.split)

theorem verification_is_observed_witness:
  "\<exists>k0 m. kernel_policy_modes deaf_sensor k0 = (Some m, ()) \<and> map_of m ''p'' \<noteq> Some ''enforce''"
  using verification_is_observed [OF deaf_verify] by (auto simp: fresh_arm_def deaf_modes)

end
