(* ===== verification/Alert_Store.thy ===== *)
theory Alert_Store
  imports Alert_Record Ordered_Map "HOL-Library.Product_Lexorder" "HOL-Library.Multiset"
begin

text \<open>
  \<open>moatd/src/store.rs\<close>: the append-only log of alerts, its fold, and the rotation that carries the
  protected rows forward. A file is the list of its lines. What the crate \<open>serde_json\<close> and the
  redaction of \<open>privacy.rs\<close> do to a line is the parameter record \<open>codec\<close>.
\<close>

section \<open>Lines\<close>

record ('i, 'c, 'r) codec =
  cd_json :: "string \<Rightarrow> json option"
  cd_update :: "json \<Rightarrow> update_line option"
  cd_alert :: "json \<Rightarrow> ('i, 'c) alert option"
  cd_receipt :: "string \<Rightarrow> 'r option"
  cd_render :: "('i, 'c) alert \<Rightarrow> string"
  cd_redact :: "string \<Rightarrow> string"
  cd_readers :: "('i, 'c) readers"

datatype ('i, 'c) line_record = Full "('i, 'c) alert" | Update update_line

definition parse_record :: "('i, 'c, 'r) codec \<Rightarrow> string \<Rightarrow> ('i, 'c) line_record option" where
  "parse_record cd line =
     Option.bind (cd_json cd line) (\<lambda>v.
       if jget ''update'' v \<noteq> None then map_option Update (cd_update cd v)
       else map_option Full (cd_alert cd v))"

section \<open>The fold\<close>

record ('i, 'c, 'r) cache =
  ca_map :: "(string \<times> ('i, 'c) alert) list"
  ca_receipts :: "'r list"

definition hydrate :: "string \<Rightarrow> (string \<times> ('i, 'c) alert) list \<Rightarrow> (string \<times> ('i, 'c) alert) list" where
  "hydrate i m =
     (case map_of m i of None \<Rightarrow> m | Some a \<Rightarrow>
     (case al_chain_id a of None \<Rightarrow> m | Some cid \<Rightarrow>
      if cid = i then m
      else case Option.bind (map_of m cid) al_chain of None \<Rightarrow> m | Some chain \<Rightarrow>
        if ch_id chain \<noteq> cid
           \<or> (case al_chain a of Some own \<Rightarrow> ch_steps_total own > ch_steps_total chain | None \<Rightarrow> False)
        then m
        else bt_adjust i (\<lambda>b. b\<lparr>al_chain := Some chain\<rparr>) m))"

definition give_chain :: "string \<Rightarrow> chain_rec \<Rightarrow> ('i, 'c) alert \<Rightarrow> ('i, 'c) alert" where
  "give_chain i chain b = (if al_chain_id b = Some i then b\<lparr>al_chain := Some chain\<rparr> else b)"

definition propagate :: "string \<Rightarrow> (string \<times> ('i, 'c) alert) list \<Rightarrow> (string \<times> ('i, 'c) alert) list" where
  "propagate i m =
     (case Option.bind (map_of m i) al_chain of None \<Rightarrow> m | Some chain \<Rightarrow>
      if ch_id chain \<noteq> i then m
      else foldl (\<lambda>acc j. if j = i then acc else bt_adjust j (give_chain i chain) acc) m (member_ids chain))"

definition fold_update_line ::
    "('i, 'c) readers \<Rightarrow> update_line \<Rightarrow> (string \<times> ('i, 'c) alert) list \<Rightarrow> (string \<times> ('i, 'c) alert) list" where
  "fold_update_line rd u m =
     (if map_of m (up_id u) = None then m
      else
        let m1 = bt_adjust (up_id u) (fold_update rd (up_update u)) m;
            m2 = (if ''chain_id'' \<in> fst ` set (up_update u) then hydrate (up_id u) m1 else m1)
        in if ''chain'' \<in> fst ` set (up_update u) then propagate (up_id u) m2 else m2)"

definition fold_line :: "('i, 'c, 'r) codec \<Rightarrow> string \<Rightarrow> ('i, 'c, 'r) cache \<Rightarrow> ('i, 'c, 'r) cache" where
  "fold_line cd line c =
     (case parse_record cd line of
        Some (Full a) \<Rightarrow> c\<lparr>ca_map := propagate (al_id a) (hydrate (al_id a) (bt_insert (al_id a) a (ca_map c)))\<rparr>
      | Some (Update u) \<Rightarrow> c\<lparr>ca_map := fold_update_line (cd_readers cd) u (ca_map c)\<rparr>
      | None \<Rightarrow>
          if contains_str line (CHR 0x22 # ''receipt'' @ [CHR 0x22]) then
            (case cd_receipt cd line of Some r \<Rightarrow> c\<lparr>ca_receipts := ca_receipts c @ [r]\<rparr> | None \<Rightarrow> c)
          else c)"

definition fold_lines :: "('i, 'c, 'r) codec \<Rightarrow> string list \<Rightarrow> ('i, 'c, 'r) cache \<Rightarrow> ('i, 'c, 'r) cache" where
  "fold_lines cd ls c = foldl (\<lambda>acc l. fold_line cd (cd_redact cd l) acc) c ls"

definition fold_from_disk :: "('i, 'c, 'r) codec \<Rightarrow> string list \<Rightarrow> string list \<Rightarrow> ('i, 'c, 'r) cache" where
  "fold_from_disk cd rotated live = fold_lines cd live (fold_lines cd rotated \<lparr>ca_map = [], ca_receipts = []\<rparr>)"

section \<open>What is carried\<close>

definition index_of_anchor :: "('i, 'c) alert list \<Rightarrow> string \<Rightarrow> nat option" where
  "index_of_anchor rows cid =
     map_of (rev (map (\<lambda>(i, a). (al_id a, i)) (filter (\<lambda>(i, a). is_chain_anchor a) (enumerate 0 rows)))) cid"

definition anchor_for :: "('i, 'c) alert list \<Rightarrow> ('i, 'c) alert \<Rightarrow> nat option" where
  "anchor_for rows a =
     (case al_chain_id a of None \<Rightarrow> None | Some cid \<Rightarrow>
      if cid = al_id a \<or> (case al_chain a of None \<Rightarrow> True | Some c \<Rightarrow> ch_id c \<noteq> cid) then None
      else index_of_anchor rows cid)"

definition strip_shared_chains :: "('i, 'c) alert list \<Rightarrow> ('i, 'c) alert list \<times> nat option list" where
  "strip_shared_chains rows =
     (let anchor_of = map (anchor_for rows) rows in
      (map2 (\<lambda>a anchor. if anchor \<noteq> None then a\<lparr>al_chain := None\<rparr> else a) rows anchor_of, anchor_of))"

definition line_len :: "('i, 'c, 'r) codec \<Rightarrow> ('i, 'c) alert \<Rightarrow> nat" where
  "line_len cd a = length (cd_render cd a) + 1"

definition still_wanted_a_human :: "('i, 'c) alert \<Rightarrow> bool" where
  "still_wanted_a_human a \<longleftrightarrow> al_surface a = ''alerts'' \<and> \<not> al_acked a \<and> \<not> is_suppressed a"

definition carry_priority :: "('i, 'c) alert \<Rightarrow> nat" where
  "carry_priority a =
     (if al_surface a = ''alerts'' \<and> \<not> al_acked a \<and> \<not> is_suppressed a then 3
      else if al_action_taken a \<noteq> ''none'' \<or> al_incident a \<noteq> None \<or> in_high_chain a then 2
      else if al_rule a \<in> set PROTECTED_META_RULES then 1
      else 0)"

text \<open>The keys of the eviction order: an anchor is lifted over every row that was stripped against it.\<close>

definition lift_anchor :: "nat \<times> nat option \<Rightarrow> (nat \<times> nat \<times> nat) list \<Rightarrow> (nat \<times> nat \<times> nat) list" where
  "lift_anchor e key =
     (case e of (i, None) \<Rightarrow> key
      | (i, Some j) \<Rightarrow> key[j := (max (fst (key ! j)) (fst (key ! i)), max (fst (snd (key ! j))) (fst (snd (key ! i))), 1)])"

definition carry_keys :: "('i, 'c) alert list \<Rightarrow> nat option list \<Rightarrow> (nat \<times> nat \<times> nat) list" where
  "carry_keys rows anchor_of =
     foldl (\<lambda>key e. lift_anchor e key) (map (\<lambda>(i, a). (carry_priority a, i, 0)) (enumerate 0 rows)) (enumerate 0 anchor_of)"

text \<open>The loop over the victims: what is evicted, in order, and how many of them wanted a human.\<close>

fun evict_loop :: "nat \<Rightarrow> nat \<Rightarrow> (nat \<Rightarrow> nat) \<Rightarrow> (nat \<Rightarrow> bool) \<Rightarrow> nat list \<Rightarrow> nat \<Rightarrow> nat \<Rightarrow> nat list \<times> nat" where
  "evict_loop cmax bmax sz wanted [] kept_count kept_bytes = ([], 0)"
| "evict_loop cmax bmax sz wanted (x # xs) kept_count kept_bytes =
     (if kept_count \<le> cmax \<and> kept_bytes \<le> bmax then ([], 0)
      else let (gone, w) = evict_loop cmax bmax sz wanted xs (kept_count - 1) (kept_bytes - sz x) in
           (x # gone, (if wanted x then w + 1 else w)))"

definition apply_carry_caps ::
    "('i, 'c, 'r) codec \<Rightarrow> nat \<Rightarrow> nat \<Rightarrow> ('i, 'c) alert list \<Rightarrow> ('i, 'c) alert list \<times> nat" where
  "apply_carry_caps cd carry_max carry_max_bytes rows0 =
     (let (rows, anchor_of) = strip_shared_chains rows0;
          sizes = map (line_len cd) rows; bytes = sum_list sizes in
      if length rows \<le> carry_max \<and> bytes \<le> carry_max_bytes then (rows, 0)
      else
        let key = carry_keys rows anchor_of;
            order = sort_key (\<lambda>x. key ! x) [0..<length rows];
            (gone, w) = evict_loop carry_max carry_max_bytes (\<lambda>x. sizes ! x) (\<lambda>x. still_wanted_a_human (rows ! x))
                          order (length rows) bytes
        in (map snd (filter (\<lambda>(i, a). i \<notin> set gone) (enumerate 0 rows)), w))"

definition stamp_carried :: "string \<Rightarrow> ('i, 'c) alert \<Rightarrow> ('i, 'c) alert" where
  "stamp_carried now a =
     a\<lparr>al_carried := Some \<lparr>ca_at = now,
         ca_generation = (case al_carried a of Some c \<Rightarrow> ca_generation c | None \<Rightarrow> 0) + 1\<rparr>\<rparr>"

definition protected_carry_set ::
    "('i, 'c, 'r) codec \<Rightarrow> nat \<Rightarrow> nat \<Rightarrow> string \<Rightarrow> ('i, 'c, 'r) cache \<Rightarrow> ('i, 'c) alert list \<times> nat" where
  "protected_carry_set cd carry_max carry_max_bytes now c =
     apply_carry_caps cd carry_max carry_max_bytes
       (map (stamp_carried now) (filter is_protected (map snd (ca_map c))))"

section \<open>The files\<close>

text \<open>
  The three files of the store, each there or not, and the fold that is kept between reads. The stamp
  of the source compares inode and length: \<open>fs_cache\<close> is dropped exactly when the files were
  replaced. \<open>None\<close> for the size of an absent file is 0.
\<close>

record store_files =
  fs_live :: "string list option"
  fs_rotated :: "string list option"
  fs_staging :: "string list option"

definition lines_in :: "string list option \<Rightarrow> string list" where
  "lines_in f = (case f of Some ls \<Rightarrow> ls | None \<Rightarrow> [])"

definition reconcile_staging :: "store_files \<Rightarrow> store_files" where
  "reconcile_staging f =
     (if fs_staging f = None then f
      else if fs_live f \<noteq> None then f\<lparr>fs_staging := None\<rparr>
      else f\<lparr>fs_live := fs_staging f, fs_staging := None\<rparr>)"

definition reopen :: "store_files \<Rightarrow> store_files" where
  "reopen f = f\<lparr>fs_live := Some (lines_in (fs_live f))\<rparr>"

definition open_store :: "store_files \<Rightarrow> store_files" where
  "open_store f = reopen (reconcile_staging f)"

text \<open>The two renames of a rotation.\<close>

definition rename_aside :: "store_files \<Rightarrow> store_files" where
  "rename_aside f = f\<lparr>fs_rotated := fs_live f, fs_live := None\<rparr>"

definition rename_in :: "store_files \<Rightarrow> store_files" where
  "rename_in f = f\<lparr>fs_live := fs_staging f, fs_staging := None\<rparr>"

text \<open>What a rotation asks of the file system, call by call. The staging file is emptied, written in one
  piece and synced before the renames.\<close>

datatype file_op = Truncate_staging | Write_staging "string list" | Rename_aside | Rename_in | Reopen_live

fun do_op :: "file_op \<Rightarrow> store_files \<Rightarrow> store_files" where
  "do_op Truncate_staging f = f\<lparr>fs_staging := Some []\<rparr>"
| "do_op (Write_staging ls) f = f\<lparr>fs_staging := Some (lines_in (fs_staging f) @ ls)\<rparr>"
| "do_op Rename_aside f = rename_aside f"
| "do_op Rename_in f = rename_in f"
| "do_op Reopen_live f = reopen f"

definition do_ops :: "file_op list \<Rightarrow> store_files \<Rightarrow> store_files" where
  "do_ops ops f = foldl (\<lambda>g op. do_op op g) f ops"

definition write_carried :: "('i, 'c, 'r) codec \<Rightarrow> ('i, 'c) alert list \<Rightarrow> file_op list" where
  "write_carried cd rows = [Truncate_staging, Write_staging (map (\<lambda>a. cd_redact cd (cd_render cd a)) rows)]"

definition rotate_ops :: "('i, 'c, 'r) codec \<Rightarrow> ('i, 'c) alert list \<Rightarrow> file_op list" where
  "rotate_ops cd rows = write_carried cd rows @ [Rename_aside, Rename_in, Reopen_live]"

definition rotate_files :: "('i, 'c, 'r) codec \<Rightarrow> ('i, 'c) alert list \<Rightarrow> store_files \<Rightarrow> store_files" where
  "rotate_files cd rows f = do_ops (rotate_ops cd rows) f"

record store_config =
  sc_max_bytes :: nat
  sc_carry_max_bytes :: nat
  sc_carry_max :: nat

record ('i, 'c, 'r) alert_store =
  as_files :: store_files
  as_size :: nat
  as_cache :: "('i, 'c, 'r) cache option"

definition disk_fold :: "('i, 'c, 'r) codec \<Rightarrow> store_files \<Rightarrow> ('i, 'c, 'r) cache" where
  "disk_fold cd f = fold_from_disk cd (lines_in (fs_rotated f)) (lines_in (fs_live f))"

definition file_size :: "string list \<Rightarrow> nat" where
  "file_size ls = sum_list (map (\<lambda>l. length l + 1) ls)"

text \<open>\<open>with_fold\<close>: the cache, rebuilt when there is none.\<close>

definition current_fold :: "('i, 'c, 'r) codec \<Rightarrow> ('i, 'c, 'r) alert_store \<Rightarrow> ('i, 'c, 'r) cache" where
  "current_fold cd s = (case as_cache s of Some c \<Rightarrow> c | None \<Rightarrow> disk_fold cd (as_files s))"

definition rotate_store :: "('i, 'c, 'r) codec \<Rightarrow> store_config \<Rightarrow> string \<Rightarrow> ('i, 'c, 'r) alert_store \<Rightarrow> ('i, 'c, 'r) alert_store" where
  "rotate_store cd cfg now s =
     (let (rows, w) = protected_carry_set cd (sc_carry_max cfg) (sc_carry_max_bytes cfg) now (current_fold cd s);
          f = rotate_files cd rows (as_files s)
      in s\<lparr>as_files := f, as_cache := None, as_size := file_size (lines_in (fs_live f))\<rparr>)"

definition write_line :: "('i, 'c, 'r) codec \<Rightarrow> store_config \<Rightarrow> string \<Rightarrow> string \<Rightarrow> ('i, 'c, 'r) alert_store \<Rightarrow> ('i, 'c, 'r) alert_store" where
  "write_line cd cfg now line0 s =
     (let line = cd_redact cd line0; f = as_files s;
          s1 = s\<lparr>as_files := f\<lparr>fs_live := Some (lines_in (fs_live f) @ [line])\<rparr>,
                 as_size := as_size s + length line + 1,
                 as_cache := map_option (fold_line cd (cd_redact cd line)) (as_cache s)\<rparr>
      in if as_size s1 \<ge> sc_max_bytes cfg then rotate_store cd cfg now s1 else s1)"

text \<open>A read leaves the fold it computed.\<close>

definition read_fold :: "('i, 'c, 'r) codec \<Rightarrow> ('i, 'c, 'r) alert_store \<Rightarrow> ('i, 'c, 'r) cache \<times> ('i, 'c, 'r) alert_store" where
  "read_fold cd s = (current_fold cd s, s\<lparr>as_cache := Some (current_fold cd s)\<rparr>)"

definition load_alerts :: "('i, 'c, 'r) cache \<Rightarrow> ('i, 'c) alert list" where
  "load_alerts c = map snd (ca_map c)"

definition find_alert :: "('i, 'c, 'r) cache \<Rightarrow> string \<Rightarrow> ('i, 'c) alert option" where
  "find_alert c i = map_of (ca_map c) i"

section \<open>What waits for a person\<close>

text \<open>\<open>BTreeMap::entry(k).or_insert(0) += 1\<close>.\<close>

definition bump_count :: "string \<Rightarrow> (string \<times> nat) list \<Rightarrow> (string \<times> nat) list" where
  "bump_count k m = bt_insert k ((case map_of m k of Some n \<Rightarrow> n | None \<Rightarrow> 0) + 1) m"

definition unacked :: "('i, 'c) alert list \<Rightarrow> (string \<times> nat) list" where
  "unacked as =
     foldl (\<lambda>m a. if \<not> al_acked a \<and> \<not> is_suppressed a \<and> al_surface a = ''alerts'' then bump_count (al_severity a) m else m)
       (foldl (\<lambda>m s. bt_insert s 0 m) [] [''critical'', ''high'', ''medium'', ''low'']) as"

definition incident_key :: "('i, 'c) alert \<Rightarrow> string" where
  "incident_key a =
     (let cid = (case al_chain a of Some c \<Rightarrow> Some (ch_id c) | None \<Rightarrow> al_chain_id a);
          script = (case ac_script (al_actor a) of Some s \<Rightarrow> s | None \<Rightarrow> []);
          exe = (if script = [] then pr_exe (al_process a) else script);
          plain = al_rule a @ [CHR 0x01] @ last (split_on CHR ''/'' exe)
      in case cid of
           Some i \<Rightarrow> if i \<noteq> [] then ''chain'' @ [CHR 0x01] @ i else plain
         | None \<Rightarrow> plain)"

record ledger =
  le_needs_you :: nat
  le_recorded :: nat
  le_suppressed :: nat
  le_signal :: nat

definition ledger_of :: "('i, 'c) alert list \<Rightarrow> ledger" where
  "ledger_of as =
     (let open_rows = filter (\<lambda>a. \<not> is_suppressed a) as;
          rest = filter (\<lambda>a. al_surface a \<noteq> ''alerts'') open_rows in
      \<lparr>le_needs_you = length (remdups (map incident_key
                        (filter (\<lambda>a. al_surface a = ''alerts'' \<and> \<not> al_acked a) open_rows))),
       le_recorded = length rest,
       le_suppressed = length (filter is_suppressed as),
       le_signal = length (filter (\<lambda>a. al_tier a = ''signal'') rest)\<rparr>)"

section \<open>The cache is the log\<close>

lemma fold_lines_append [simp]: "fold_lines cd (xs @ ys) c = fold_lines cd ys (fold_lines cd xs c)"
  by (simp add: fold_lines_def)

definition coherent :: "('i, 'c, 'r) codec \<Rightarrow> ('i, 'c, 'r) alert_store \<Rightarrow> bool" where
  "coherent cd s \<longleftrightarrow> (case as_cache s of Some c \<Rightarrow> c = disk_fold cd (as_files s) | None \<Rightarrow> True)"

lemma current_fold_disk: "coherent cd s \<Longrightarrow> current_fold cd s = disk_fold cd (as_files s)"
  by (simp add: coherent_def current_fold_def split: option.splits)

lemma coherent_rotate: "coherent cd (rotate_store cd cfg now s)"
  by (simp add: rotate_store_def coherent_def Let_def split: prod.split)

lemma disk_fold_write:
  "disk_fold cd (f\<lparr>fs_live := Some (lines_in (fs_live f) @ [l])\<rparr>) = fold_line cd (cd_redact cd l) (disk_fold cd f)"
  by (simp add: disk_fold_def fold_from_disk_def lines_in_def fold_lines_def)

lemma coherent_write: "coherent cd s \<Longrightarrow> coherent cd (write_line cd cfg now l s)"
proof -
  assume c: "coherent cd s"
  let ?s = "s\<lparr>as_files := (as_files s)\<lparr>fs_live := Some (lines_in (fs_live (as_files s)) @ [cd_redact cd l])\<rparr>,
      as_size := as_size s + length (cd_redact cd l) + 1,
      as_cache := map_option (fold_line cd (cd_redact cd (cd_redact cd l))) (as_cache s)\<rparr>"
  have "coherent cd ?s" using c by (cases "as_cache s") (auto simp: coherent_def disk_fold_write)
  then show ?thesis by (simp add: write_line_def Let_def coherent_rotate)
qed

lemma coherent_read: "coherent cd s \<Longrightarrow> coherent cd (snd (read_fold cd s))"
  by (simp add: read_fold_def current_fold_disk) (simp add: coherent_def)

text \<open>What happens to a store: it is opened, written, read.\<close>

inductive store_run :: "('i, 'c, 'r) codec \<Rightarrow> store_config \<Rightarrow> ('i, 'c, 'r) alert_store \<Rightarrow> bool" for cd cfg where
  opened: "store_run cd cfg \<lparr>as_files = open_store f, as_size = file_size (lines_in (fs_live (open_store f))), as_cache = None\<rparr>"
| written: "store_run cd cfg s \<Longrightarrow> store_run cd cfg (write_line cd cfg now l s)"
| was_read: "store_run cd cfg s \<Longrightarrow> store_run cd cfg (snd (read_fold cd s))"

lemma store_run_coherent: "store_run cd cfg s \<Longrightarrow> coherent cd s"
  by (induction rule: store_run.induct)
     (auto intro: coherent_write coherent_read simp: coherent_def [of _ "\<lparr>as_files = _, as_size = _, as_cache = _\<rparr>"])

text \<open>C15: The cache is the log. However lines were written, read and rotated, what a reader is given is
  what folding the two files from the top would give, so keeping the fold between reads changes no
  answer.\<close>

theorem cache_is_the_log:
  assumes "store_run cd cfg s"
  shows "fst (read_fold cd s) = fold_from_disk cd (lines_in (fs_rotated (as_files s))) (lines_in (fs_live (as_files s)))"
proof -
  from assms have "coherent cd s" by (rule store_run_coherent)
  then show ?thesis by (simp add: read_fold_def current_fold_disk disk_fold_def)
qed

section \<open>Rotation is atomic\<close>

lemma do_ops_simps [simp]: "do_ops [] f = f" "do_ops (op # ops) f = do_ops ops (do_op op f)"
  by (simp_all add: do_ops_def)

lemma rotate_files_eq:
  "rotate_files cd rows f =
     f\<lparr>fs_live := Some (map (\<lambda>a. cd_redact cd (cd_render cd a)) rows), fs_rotated := fs_live f, fs_staging := None\<rparr>"
  by (simp add: rotate_files_def rotate_ops_def write_carried_def rename_aside_def rename_in_def reopen_def lines_in_def)

text \<open>The files a crash leaves: the first calls were made, and when the next one is the write, any text may
  have reached the staging file.\<close>

definition crash_after :: "file_op list \<Rightarrow> nat \<Rightarrow> string list option \<Rightarrow> store_files \<Rightarrow> store_files" where
  "crash_after ops k torn f =
     (case (drop k ops, torn) of
        (Write_staging ls # _, Some partial) \<Rightarrow> (do_ops (take k ops) f)\<lparr>fs_staging := Some partial\<rparr>
      | _ \<Rightarrow> do_ops (take k ops) f)"

text \<open>C17: A rotation happens or it does not, and no crash loses a line of the log. Stop the sequence of
  file calls a rotation makes after any number of them, even with arbitrary text in the staging file
  because the write itself was cut: opening the store again gives the files as they were, when the live
  log had not been renamed yet, and the files of the finished rotation from then on. Either way there is
  no staging file left, even one from an earlier failure, and every line of the live log is in the live
  log or in the rotated one. (The generation before, which every rotation replaces, is not covered.)\<close>

theorem rotation_is_atomic:
  assumes "fs_live f = Some ls"
  shows "open_store (crash_after (rotate_ops cd rows) k torn f) =
      (if k < length (rotate_ops cd rows) - 2 then f\<lparr>fs_staging := None\<rparr> else rotate_files cd rows f)
    \<and> fs_staging (open_store (crash_after (rotate_ops cd rows) k torn f)) = None
    \<and> set ls \<subseteq> set (lines_in (fs_rotated (open_store (crash_after (rotate_ops cd rows) k torn f))))
        \<union> set (lines_in (fs_live (open_store (crash_after (rotate_ops cd rows) k torn f))))"
proof -
  have "open_store (crash_after (rotate_ops cd rows) k torn f) =
      (if k < length (rotate_ops cd rows) - 2 then f\<lparr>fs_staging := None\<rparr> else rotate_files cd rows f)"
  proof -
    note defs = crash_after_def rotate_ops_def write_carried_def rotate_files_eq open_store_def reconcile_staging_def
      rename_aside_def rename_in_def reopen_def lines_in_def
    consider "k = 0" | "k = 1" | "k = 2" | "k = 3" | "k = 4" | "5 \<le> k" by linarith
    then show ?thesis
    proof cases
      case 6
      then have "take k (rotate_ops cd rows) = rotate_ops cd rows" "drop k (rotate_ops cd rows) = []"
        by (simp_all add: rotate_ops_def write_carried_def)
      with 6 assms show ?thesis
        by (simp add: crash_after_def rotate_files_def [symmetric])
          (simp add: rotate_files_eq open_store_def reconcile_staging_def reopen_def lines_in_def rotate_ops_def write_carried_def)
    qed (use assms in \<open>cases torn; simp add: defs numeral_eq_Suc\<close>)+
  qed
  then show ?thesis using assms by (simp add: rotate_files_eq lines_in_def)
qed

section \<open>The caps\<close>

lemma evict_prefix: "fst (evict_loop cmax bmax sz wanted xs kc kb) = take (length (fst (evict_loop cmax bmax sz wanted xs kc kb))) xs"
  by (induction cmax bmax sz wanted xs kc kb rule: evict_loop.induct) (auto simp: Let_def split: prod.splits if_splits)

lemma evict_wanted:
  "snd (evict_loop cmax bmax sz wanted xs kc kb) = length (filter wanted (fst (evict_loop cmax bmax sz wanted xs kc kb)))"
  by (induction cmax bmax sz wanted xs kc kb rule: evict_loop.induct) (auto simp: Let_def split: prod.splits if_splits)

lemma evict_caps:
  assumes "kc = length xs" and "kb = sum_list (map sz xs)"
  shows "let rest = drop (length (fst (evict_loop cmax bmax sz wanted xs kc kb))) xs in
    length rest \<le> cmax \<and> sum_list (map sz rest) \<le> bmax"
  using assms
  by (induction cmax bmax sz wanted xs kc kb rule: evict_loop.induct) (auto simp: Let_def split: prod.splits if_splits)

lemma evict_fewest:
  assumes "kc = length xs" and "kb = sum_list (map sz xs)" and "k < length (fst (evict_loop cmax bmax sz wanted xs kc kb))"
  shows "cmax < length xs - k \<or> bmax < sum_list (map sz (drop k xs))"
  using assms
proof (induction cmax bmax sz wanted xs kc kb arbitrary: k rule: evict_loop.induct)
  case (2 cmax bmax sz wanted x xs kc kb)
  then show ?case by (cases k) (auto simp: Let_def split: prod.splits if_splits)
qed simp

text \<open>The indexes of the evicted rows.\<close>

definition carry_order :: "('i, 'c) alert list \<Rightarrow> nat list" where
  "carry_order rows0 =
     (let key = carry_keys (fst (strip_shared_chains rows0)) (snd (strip_shared_chains rows0)) in
      sort_key (\<lambda>x. key ! x) [0..<length rows0])"

definition carry_evicted :: "('i, 'c, 'r) codec \<Rightarrow> nat \<Rightarrow> nat \<Rightarrow> ('i, 'c) alert list \<Rightarrow> nat list" where
  "carry_evicted cd cmax bmax rows0 =
     (let rows = fst (strip_shared_chains rows0); sizes = map (line_len cd) rows in
      fst (evict_loop cmax bmax (\<lambda>x. sizes ! x) (\<lambda>x. still_wanted_a_human (rows ! x)) (carry_order rows0)
             (length rows) (sum_list sizes)))"

lemma length_strip [simp]: "length (fst (strip_shared_chains rows)) = length rows"
  by (simp add: strip_shared_chains_def Let_def)

lemma snd_strip [simp]: "snd (strip_shared_chains rows) = map (anchor_for rows) rows"
  by (simp add: strip_shared_chains_def Let_def)

lemma nth_strip [simp]:
  "i < length rows \<Longrightarrow> fst (strip_shared_chains rows) ! i =
     (if anchor_for rows (rows ! i) \<noteq> None then (rows ! i)\<lparr>al_chain := None\<rparr> else rows ! i)"
  by (simp add: strip_shared_chains_def Let_def)

lemma set_carry_order [simp]: "set (carry_order rows) = {..<length rows}"
  by (auto simp: carry_order_def)

lemma mset_carry_order: "mset (carry_order rows) = mset [0..<length rows]"
  by (simp add: carry_order_def)

lemma distinct_carry_order [simp]: "distinct (carry_order rows)"
  by (simp add: carry_order_def)

lemma carry_loop_stops:
  "kc \<le> cmax \<Longrightarrow> kb \<le> bmax \<Longrightarrow> evict_loop cmax bmax sz wanted xs kc kb = ([], 0)"
  by (cases xs) auto

lemma apply_carry_caps_alt:
  "apply_carry_caps cd cmax bmax rows0 =
     (let rows = fst (strip_shared_chains rows0); gone = carry_evicted cd cmax bmax rows0 in
      (map snd (filter (\<lambda>(i, a). i \<notin> set gone) (enumerate 0 rows)),
       length (filter (\<lambda>x. still_wanted_a_human (rows ! x)) gone)))"
proof -
  obtain rows anchor_of where st: "strip_shared_chains rows0 = (rows, anchor_of)" by fastforce
  have len: "length rows0 = length rows" using length_strip [of rows0] st by simp
  have all: "map snd (filter (\<lambda>(i, a). True) (enumerate 0 rows)) = rows" by simp
  show ?thesis
    using evict_wanted [of cmax bmax "\<lambda>x. map (line_len cd) rows ! x" "\<lambda>x. still_wanted_a_human (rows ! x)"
        "carry_order rows0" "length rows" "sum_list (map (line_len cd) rows)"] all
    by (auto simp: apply_carry_caps_def carry_evicted_def carry_order_def st len Let_def carry_loop_stops
        split: prod.splits)
qed

lemma kept_rows:
  "map snd (filter (\<lambda>(i, a). P i) (enumerate 0 rows)) = map (\<lambda>i. rows ! i) (filter P [0..<length rows])"
proof -
  have "enumerate 0 rows = map (\<lambda>i. (i, rows ! i)) [0..<length rows]"
    by (intro nth_equalityI) (auto simp: nth_enumerate_eq)
  then show ?thesis by (simp add: filter_map o_def)
qed

lemma rest_of_order:
  assumes "gone = take n (carry_order rows)"
  shows "mset (filter (\<lambda>i. i \<notin> set gone) [0..<length rows]) = mset (drop n (carry_order rows))"
proof -
  let ?o = "carry_order rows"
  have split: "?o = gone @ drop n ?o" using assms by simp
  then have "distinct (gone @ drop n ?o)" using distinct_carry_order [of rows] by simp
  then have "filter (\<lambda>i. i \<notin> set gone) ?o = drop n ?o"
    by (subst split) (auto simp: filter_id_conv filter_empty_conv)
  then show ?thesis using mset_carry_order [of rows] by (metis mset_filter)
qed

lemma evicted_fewest:
  assumes "k < length (carry_evicted cd cmax bmax rows)"
  shows "cmax < length rows - k
    \<or> bmax < sum_list (map (\<lambda>i. line_len cd (fst (strip_shared_chains rows) ! i)) (drop k (carry_order rows)))"
proof -
  let ?r = "fst (strip_shared_chains rows)" and ?o = "carry_order rows"
  let ?sz = "\<lambda>x. map (line_len cd) ?r ! x"
  have len: "length ?o = length rows" using mset_carry_order [of rows] by (metis length_upt minus_nat.diff_0 size_mset)
  have "sum_list (map ?sz ?o) = sum_list (map ?sz [0..<length rows])"
    by (metis mset_carry_order mset_map sum_mset_sum_list)
  also have "map ?sz [0..<length rows] = map (line_len cd) ?r" by (intro nth_equalityI) simp_all
  finally have sum: "sum_list (map (line_len cd) ?r) = sum_list (map ?sz ?o)" ..
  have "cmax < length ?o - k \<or> bmax < sum_list (map ?sz (drop k ?o))"
    using assms by (intro evict_fewest [OF _ sum, of "length rows"]) (simp_all add: len carry_evicted_def Let_def)
  moreover have "map ?sz (drop k ?o) = map (\<lambda>i. line_len cd (?r ! i)) (drop k ?o)"
    by (rule map_cong) (use set_carry_order [of rows] in_set_dropD in \<open>fastforce+\<close>)
  ultimately show ?thesis by (simp add: len)
qed

lemma evicted_prefix: "\<exists>n. carry_evicted cd cmax bmax rows = take n (carry_order rows)"
  unfolding carry_evicted_def Let_def by (metis evict_prefix)

lemma wanted_strip [simp]: "still_wanted_a_human (a\<lparr>al_chain := c\<rparr>) = still_wanted_a_human a"
  by (simp add: still_wanted_a_human_def is_suppressed_def)

lemma wanted_nth_strip:
  "i < length rows \<Longrightarrow> still_wanted_a_human (fst (strip_shared_chains rows) ! i) = still_wanted_a_human (rows ! i)"
  by simp

lemma sum_filter_mset: "mset xs = mset ys \<Longrightarrow> sum_list (map f xs) = (sum_list (map f ys) :: nat)"
  by (metis mset_map sum_mset_sum_list)

lemma length_filter_mset: "mset xs = mset ys \<Longrightarrow> length (filter P xs) = length (filter P ys)"
  by (metis mset_filter size_mset)

text \<open>The carried set is bounded and honest. Whatever the fold holds, what a rotation carries fits both
  caps, so a rotation cannot trip the next one; and the number that is logged as evicted while still
  waiting for a person is exactly how many such rows are missing.\<close>

theorem carry_caps_hold:
  "length (fst (apply_carry_caps cd cmax bmax rows)) \<le> cmax
   \<and> sum_list (map (line_len cd) (fst (apply_carry_caps cd cmax bmax rows))) \<le> bmax
   \<and> length (filter still_wanted_a_human rows) =
       length (filter still_wanted_a_human (fst (apply_carry_caps cd cmax bmax rows)))
       + snd (apply_carry_caps cd cmax bmax rows)"
proof -
  let ?rows = "fst (strip_shared_chains rows)" and ?gone = "carry_evicted cd cmax bmax rows"
  let ?sz = "\<lambda>x. map (line_len cd) ?rows ! x" and ?want = "\<lambda>x. still_wanted_a_human (?rows ! x)"
  let ?kept = "filter (\<lambda>i. i \<notin> set ?gone) [0..<length rows]"
  obtain n where n: "?gone = take n (carry_order rows)" using evicted_prefix by blast
  have rest: "mset ?kept = mset (drop (length ?gone) (carry_order rows))"
    using rest_of_order [OF n] n by (metis append_take_drop_id drop_all length_take linorder_linear min.absorb2 min_def)
  have kb: "sum_list (map (line_len cd) ?rows) = sum_list (map ?sz (carry_order rows))"
  proof -
    have "map (line_len cd) ?rows = map ?sz [0..<length rows]" by (intro nth_equalityI) auto
    then show ?thesis using sum_filter_mset [OF mset_carry_order [of rows], of ?sz] by simp
  qed
  have "length (carry_order rows) = length rows" using mset_carry_order [of rows] by (metis length_upt mset_eq_length minus_nat.diff_0)
  then have caps: "length (drop (length ?gone) (carry_order rows)) \<le> cmax
      \<and> sum_list (map ?sz (drop (length ?gone) (carry_order rows))) \<le> bmax"
    using evict_caps [of "length rows" "carry_order rows" "sum_list (map (line_len cd) ?rows)" ?sz cmax bmax ?want] kb
    by (simp add: carry_evicted_def Let_def)
  have fst: "fst (apply_carry_caps cd cmax bmax rows) = map (\<lambda>i. ?rows ! i) ?kept"
    by (simp add: apply_carry_caps_alt Let_def kept_rows)
  have snd: "snd (apply_carry_caps cd cmax bmax rows) = length (filter ?want ?gone)"
    by (simp add: apply_carry_caps_alt Let_def)
  have "length ?kept \<le> cmax" using caps rest by (metis mset_eq_length)
  moreover have "sum_list (map (line_len cd) (map (\<lambda>i. ?rows ! i) ?kept)) = sum_list (map ?sz ?kept)"
    by (intro arg_cong [where f = sum_list]) auto
  moreover have "sum_list (map ?sz ?kept) \<le> bmax" using caps sum_filter_mset [OF rest, of ?sz] by simp
  moreover have "length (filter still_wanted_a_human rows) = length (filter ?want ?kept) + length (filter ?want ?gone)"
  proof -
    have "mset (carry_order rows) = mset ?kept + mset ?gone"
      using rest n by (metis append_take_drop_id length_take min_def mset_append union_commute take_all linorder_linear)
    then have "mset [0..<length rows] = mset (?kept @ ?gone)" by (simp add: mset_carry_order)
    then have "length (filter ?want [0..<length rows]) = length (filter ?want ?kept) + length (filter ?want ?gone)"
      using length_filter_mset [of "[0..<length rows]" "?kept @ ?gone" ?want] by simp
    moreover have "filter still_wanted_a_human rows = map (\<lambda>i. rows ! i) (filter (\<lambda>i. still_wanted_a_human (rows ! i)) [0..<length rows])"
      by (subst map_nth [symmetric]) (simp only: filter_map o_def)
    moreover have "filter (\<lambda>i. still_wanted_a_human (rows ! i)) [0..<length rows] = filter ?want [0..<length rows]"
      by (intro filter_cong) auto
    ultimately show ?thesis by simp
  qed
  moreover have "length (filter still_wanted_a_human (map (\<lambda>i. ?rows ! i) ?kept)) = length (filter ?want ?kept)"
    by (simp add: filter_map o_def)
  ultimately show ?thesis unfolding fst snd by simp
qed

section \<open>An anchor outlives its members\<close>

definition lifted_over :: "nat \<times> nat \<times> nat \<Rightarrow> nat \<times> nat \<times> nat \<Rightarrow> bool" where
  "lifted_over kj ki \<longleftrightarrow> fst kj \<ge> fst ki \<and> fst (snd kj) \<ge> fst (snd ki) \<and> snd (snd kj) = 1"

definition lift_targets :: "(nat \<times> nat option) list \<Rightarrow> nat set" where
  "lift_targets es = {j. \<exists>i. (i, Some j) \<in> set es}"

lemma length_lift [simp]: "length (lift_anchor e key) = length key"
  by (simp add: lift_anchor_def split: prod.split option.split)

lemma length_lifts [simp]: "length (foldl (\<lambda>key e. lift_anchor e key) key es) = length key"
  by (induction es arbitrary: key) auto

lemma lift_other: "\<forall>i. e \<noteq> (i, Some k) \<Longrightarrow> lift_anchor e key ! k = key ! k"
  by (auto simp: lift_anchor_def split: prod.split option.split)

lemma lifts_frame: "k \<notin> lift_targets es \<Longrightarrow> foldl (\<lambda>key e. lift_anchor e key) key es ! k = key ! k"
proof (induction es arbitrary: key)
  case (Cons e es)
  then have "k \<notin> lift_targets es" "\<forall>i. e \<noteq> (i, Some k)" by (auto simp: lift_targets_def)
  then have "k \<notin> lift_targets es" "lift_anchor e key ! k = key ! k" by (simp_all add: lift_other)
  with Cons.IH [of "lift_anchor e key"] show ?case by simp
qed simp

lemma lifted_mono:
  assumes "lifted_over (key ! j) ki" and "j < length key"
  shows "lifted_over (lift_anchor e key ! j) ki"
proof (cases "\<exists>i. e = (i, Some j)")
  case True
  with assms show ?thesis by (auto simp: lift_anchor_def lifted_over_def)
next
  case False
  then have "lift_anchor e key ! j = key ! j" by (intro lift_other) simp
  with assms show ?thesis by simp
qed

lemma lifted_less: "lifted_over kj ki \<Longrightarrow> snd (snd ki) = 0 \<Longrightarrow> ki < kj"
  by (cases ki; cases kj) (auto simp: lifted_over_def le_less)

lemma lifts_mono:
  "lifted_over (key ! j) ki \<Longrightarrow> j < length key \<Longrightarrow> lifted_over (foldl (\<lambda>key e. lift_anchor e key) key es ! j) ki"
proof (induction es arbitrary: key)
  case (Cons e es)
  then show ?case using lifted_mono [of key j ki e] by simp
qed simp

lemma lifts_over:
  "(i, Some j) \<in> set es \<Longrightarrow> j < length key \<Longrightarrow> i \<notin> lift_targets es
    \<Longrightarrow> lifted_over (foldl (\<lambda>key e. lift_anchor e key) key es ! j) (key ! i)"
proof (induction es arbitrary: key)
  case (Cons e es)
  show ?case
  proof (cases "e = (i, Some j)")
    case True
    then have "lifted_over (lift_anchor e key ! j) (key ! i)" using Cons.prems(2) by (simp add: lift_anchor_def lifted_over_def)
    with lifts_mono [of "lift_anchor e key" j "key ! i" es] Cons.prems(2) show ?thesis by simp
  next
    case False
    with Cons.prems have e: "(i, Some j) \<in> set es" "i \<notin> lift_targets es" by (auto simp: lift_targets_def)
    have "lift_anchor e key ! i = key ! i"
      using Cons.prems(3) by (intro lift_other) (auto simp: lift_targets_def)
    with Cons.IH [OF e(1) _ e(2), of "lift_anchor e key"] Cons.prems(2) show ?thesis by simp
  qed
qed simp

lemma anchor_for_is_anchor:
  assumes "anchor_for rows a = Some j"
  shows "j < length rows" and "is_chain_anchor (rows ! j)" and "al_chain_id a = Some (al_id (rows ! j))"
    and "\<not> is_chain_anchor a"
proof -
  from assms obtain cid where cid: "al_chain_id a = Some cid" "cid \<noteq> al_id a"
    "\<exists>c. al_chain a = Some c \<and> ch_id c = cid" "index_of_anchor rows cid = Some j"
    by (auto simp: anchor_for_def split: option.splits if_splits)
  from cid(4) have "(cid, j) \<in> set (rev (map (\<lambda>(i, a). (al_id a, i)) (filter (\<lambda>(i, a). is_chain_anchor a) (enumerate 0 rows))))"
    unfolding index_of_anchor_def by (rule map_of_SomeD)
  then have "j < length rows \<and> is_chain_anchor (rows ! j) \<and> cid = al_id (rows ! j)"
    by (auto simp: in_set_enumerate_eq)
  with cid show "j < length rows" "is_chain_anchor (rows ! j)" "al_chain_id a = Some (al_id (rows ! j))" by simp_all
  from cid(2,3) show "\<not> is_chain_anchor a" by (auto simp: is_chain_anchor_def)
qed

lemma anchor_key_above:
  assumes i: "i < length rows" and a: "anchor_for rows (rows ! i) = Some j"
  shows "carry_keys (fst (strip_shared_chains rows)) (map (anchor_for rows) rows) ! i
       < carry_keys (fst (strip_shared_chains rows)) (map (anchor_for rows) rows) ! j"
proof -
  let ?init = "map (\<lambda>(i, a). (carry_priority a, i, 0::nat)) (enumerate 0 (fst (strip_shared_chains rows)))"
  let ?es = "enumerate 0 (map (anchor_for rows) rows)"
  let ?keys = "foldl (\<lambda>key e. lift_anchor e key) ?init ?es"
  have e: "(i, Some j) \<in> set ?es" using i a by (simp add: in_set_enumerate_eq)
  have nt: "i \<notin> lift_targets ?es"
  proof
    assume "i \<in> lift_targets ?es"
    then obtain k where "k < length rows" "anchor_for rows (rows ! k) = Some i"
      by (auto simp: lift_targets_def in_set_enumerate_eq)
    with anchor_for_is_anchor(2) anchor_for_is_anchor(4) [OF a] show False by blast
  qed
  have "snd (snd (?init ! i)) = 0" using i by (simp add: nth_enumerate_eq)
  moreover have "lifted_over (?keys ! j) (?init ! i)"
    using lifts_over [OF e _ nt, of ?init] anchor_for_is_anchor(1) [OF a] by simp
  moreover have "?keys ! i = ?init ! i" using lifts_frame [OF nt] .
  ultimately have "?keys ! i < ?keys ! j" using lifted_less by metis
  then show ?thesis by (simp add: carry_keys_def)
qed

lemma kept_anchor:
  assumes "i < length rows" and "anchor_for rows (rows ! i) = Some j" and "i \<notin> set (carry_evicted cd cmax bmax rows)"
  shows "j \<notin> set (carry_evicted cd cmax bmax rows)"
proof -
  let ?key = "\<lambda>x. carry_keys (fst (strip_shared_chains rows)) (map (anchor_for rows) rows) ! x"
  obtain n where n: "carry_evicted cd cmax bmax rows = take n (carry_order rows)" using evicted_prefix by blast
  have "sorted (map ?key (carry_order rows))" by (simp add: carry_order_def)
  then have ordered: "?key x \<le> ?key y" if "x \<in> set (take n (carry_order rows))" "y \<in> set (drop n (carry_order rows))" for x y
    using that by (metis (no_types, lifting) append_take_drop_id image_eqI list.set_map map_append sorted_append)
  have "i \<in> set (drop n (carry_order rows))"
    using assms(1,3) n by (metis UnE append_take_drop_id lessThan_iff set_append set_carry_order)
  with ordered anchor_key_above [OF assms(1,2)] have "j \<notin> set (take n (carry_order rows))" by fastforce
  with n show ?thesis by simp
qed

text \<open>C23: A chain's record outlives its last surviving member. A row that was written with only a reference to
  its chain is never kept when the row that holds the chain is evicted, whatever the caps are.\<close>

theorem anchor_outlives_members:
  assumes "i < length rows" and "anchor_for rows (rows ! i) = Some j" and "i \<notin> set (carry_evicted cd cmax bmax rows)"
  shows "j \<notin> set (carry_evicted cd cmax bmax rows) \<and> al_chain_id (rows ! i) = Some (al_id (rows ! j))
    \<and> is_chain_anchor (rows ! j)"
  using kept_anchor [OF assms] anchor_for_is_anchor [OF assms(2)] by simp

text \<open>Three rows: the anchor of a critical chain, a member of it, and a high alert that was answered.\<close>

definition story :: chain_rec where
  "story = \<lparr>ch_v = 1, ch_id = ''a'', ch_ancestor = \<lparr>an_pid = 1, an_exe = []\<rparr>, ch_families = [], ch_severity = ''critical'',
     ch_severity_base = ''high'', ch_severity_reason = [], ch_first_ts = [], ch_last_ts = [], ch_span_secs = 0,
     ch_steps = [], ch_steps_total = 2, ch_truncated = False, ch_members = [''a'', ''b''], ch_triggers_total = 2,
     ch_summary = []\<rparr>"

definition story_anchor :: "(unit, unit) alert" where
  "story_anchor = (plain_alert ''a'' ''low'')\<lparr>al_chain := Some story, al_chain_id := Some ''a''\<rparr>"

definition story_member :: "(unit, unit) alert" where
  "story_member = (plain_alert ''b'' ''low'')\<lparr>al_chain := Some story, al_chain_id := Some ''a''\<rparr>"

definition answered_high :: "(unit, unit) alert" where
  "answered_high = (plain_alert ''c'' ''high'')\<lparr>al_surface := ''alerts'', al_acked := True\<rparr>"

text \<open>A codec in which a line is the id of the alert it stands for, with a mark on a carried row.\<close>

definition row_name :: "('i, 'c) alert \<Rightarrow> string" where
  "row_name a = al_id a @ (if al_carried a = None then [] else ''+'')"

definition small_codec :: "(unit, unit) alert list \<Rightarrow> (unit, unit, unit) codec" where
  "small_codec rows = \<lparr>cd_json = (\<lambda>s. Some (JStr s)), cd_update = (\<lambda>_. None),
     cd_alert = (\<lambda>v. List.find (\<lambda>a. JStr (row_name a) = v) rows), cd_receipt = (\<lambda>_. None),
     cd_render = row_name, cd_redact = (\<lambda>s. s), cd_readers = plain_readers\<rparr>"

lemmas story_defs = story_def story_anchor_def story_member_def answered_high_def plain_alert_def

lemma story_facts:
  "anchor_for [story_anchor, story_member, answered_high] story_anchor = None"
  "anchor_for [story_anchor, story_member, answered_high] story_member = Some 0"
  "anchor_for [story_anchor, story_member, answered_high] answered_high = None"
  by (simp_all add: anchor_for_def index_of_anchor_def is_chain_anchor_def story_defs)

lemma story_strip:
  "strip_shared_chains [story_anchor, story_member, answered_high] =
     ([story_anchor, story_member\<lparr>al_chain := None\<rparr>, answered_high], [None, Some 0, None])"
  by (simp add: strip_shared_chains_def story_facts)

lemma story_priorities:
  "carry_priority story_anchor = 2" "carry_priority story_member = 2" "carry_priority answered_high = 0"
  "carry_priority (story_member\<lparr>al_chain := None\<rparr>) = 0"
  by (simp_all add: carry_priority_def in_high_chain_def PROTECTED_META_RULES_def story_defs)

lemma story_lengths:
  "line_len (small_codec r) story_anchor = 2" "line_len (small_codec r) answered_high = 2"
  "line_len (small_codec r) (story_member\<lparr>al_chain := None\<rparr>) = 2"
  by (simp_all add: line_len_def small_codec_def row_name_def story_defs)

theorem anchor_outlives_members_witness:
  "0 \<notin> set (carry_evicted (small_codec []) 3 100 [story_anchor, story_member, answered_high])"
proof -
  let ?rows = "[story_anchor, story_member, answered_high]"
  have "1 \<notin> set (carry_evicted (small_codec []) 3 100 ?rows)"
    by (simp add: carry_evicted_def Let_def story_strip carry_loop_stops story_lengths)
  then show ?thesis
    using anchor_outlives_members [of 1 ?rows 0 "small_codec []" 3 100] by (simp add: story_facts)
qed

text \<open>The strongest claim of a row is forgotten when it is stripped. The order of eviction puts a step of a
  high story (tier 2) above a high alert that was answered (tier 0). The tiers are computed after the
  shared chains were taken out, so a member of a critical chain counts as tier 0 and, being older, is
  evicted while the answered alert stays.\<close>

theorem stripping_forgets_the_story:
  "carry_priority story_member = 2 \<and> carry_priority answered_high = 0
   \<and> carry_evicted (small_codec []) 2 100 [story_anchor, story_member, answered_high] = [1]"
proof -
  have "carry_order [story_anchor, story_member, answered_high] = [1, 2, 0]"
    by (simp add: carry_order_def story_strip carry_keys_def story_priorities lift_anchor_def enumerate_eq_zip
        numeral_3_eq_3 upt_rec)
  then show ?thesis
    by (simp add: story_priorities story_lengths carry_evicted_def Let_def story_strip)
qed

section \<open>What a rotation keeps\<close>

lemma give_chain_twice [simp]: "give_chain i c (give_chain i c b) = give_chain i c b"
  by (simp add: give_chain_def)

lemma propagate_loop:
  "map_of (foldl (\<lambda>acc j. if j = i then acc else bt_adjust j (give_chain i c) acc) m js) k
   = (if k \<noteq> i \<and> k \<in> set js then map_option (give_chain i c) (map_of m k) else map_of m k)"
  by (induction js arbitrary: m) (auto simp: option.map_comp o_def)

lemma propagate_lookup:
  assumes "map_of m i = Some a" and "al_chain a = Some c" and "ch_id c = i"
  shows "map_of (propagate i m) k =
    (if k \<noteq> i \<and> k \<in> set (member_ids c) then map_option (give_chain i c) (map_of m k) else map_of m k)"
  using assms by (simp add: propagate_def propagate_loop)

lemma propagate_idle:
  "map_of m i = Some a \<Longrightarrow> (\<And>c. al_chain a = Some c \<Longrightarrow> ch_id c \<noteq> i) \<Longrightarrow> propagate i m = m"
  by (auto simp: propagate_def split: option.split)

lemma propagate_cases:
  "map_of (propagate i m) k = map_of m k \<or> (k \<noteq> i \<and> (\<exists>c. map_of (propagate i m) k = map_option (give_chain i c) (map_of m k)))"
proof (cases "Option.bind (map_of m i) al_chain")
  case None
  then show ?thesis by (simp add: propagate_def)
next
  case (Some c)
  then have "map_of (propagate i m) k = (if ch_id c = i \<and> k \<noteq> i \<and> k \<in> set (member_ids c)
      then map_option (give_chain i c) (map_of m k) else map_of m k)"
    by (simp add: propagate_def propagate_loop)
  then show ?thesis by (metis (no_types))
qed

lemma hydrate_other [simp]: "k \<noteq> i \<Longrightarrow> map_of (hydrate i m) k = map_of m k"
  by (simp add: hydrate_def split: option.split)

lemma hydrate_idle: "map_of m i = Some a \<Longrightarrow> al_chain_id a \<in> {None, Some i} \<Longrightarrow> hydrate i m = m"
  by (auto simp: hydrate_def)

lemma hydrate_self: "map_of m i = Some a \<Longrightarrow> \<exists>x. map_of (hydrate i m) i = Some (a\<lparr>al_chain := x\<rparr>)"
proof -
  assume a: "map_of m i = Some a"
  show ?thesis
  proof (cases "hydrate i m = m")
    case True
    with a show ?thesis by (intro exI [where x = "al_chain a"]) simp
  next
    case False
    then obtain c where "hydrate i m = bt_adjust i (\<lambda>b. b\<lparr>al_chain := Some c\<rparr>) m"
      by (auto simp: hydrate_def split: option.splits if_splits)
    with a show ?thesis by (intro exI [where x = "Some c"]) simp
  qed
qed

lemma hydrate_from:
  assumes "map_of m i = Some a" and "al_chain_id a = Some cid" and "cid \<noteq> i" and "al_chain a = None"
    and "map_of m cid = Some b" and "al_chain b = Some c" and "ch_id c = cid"
  shows "map_of (hydrate i m) i = Some (a\<lparr>al_chain := Some c\<rparr>)"
  using assms by (simp add: hydrate_def)

lemma sorted_hydrate [simp]: "bt_sorted (hydrate i m) = bt_sorted m"
  by (simp add: hydrate_def split: option.split)

lemma sorted_adjusts [simp]: "bt_sorted (foldl (\<lambda>acc j. if j = i then acc else bt_adjust j f acc) m js) = bt_sorted m"
  by (induction js arbitrary: m) auto

lemma sorted_propagate [simp]: "bt_sorted (propagate i m) = bt_sorted m"
  by (simp add: propagate_def split: option.split)

text \<open>One full line.\<close>

definition take_in :: "('i, 'c) alert \<Rightarrow> (string \<times> ('i, 'c) alert) list \<Rightarrow> (string \<times> ('i, 'c) alert) list" where
  "take_in a m = propagate (al_id a) (hydrate (al_id a) (bt_insert (al_id a) a m))"

lemma sorted_take_in [simp]: "bt_sorted m \<Longrightarrow> bt_sorted (take_in a m)"
  by (simp add: take_in_def)

lemma take_in_self:
  assumes "bt_sorted m"
  shows "\<exists>x. map_of (take_in a m) (al_id a) = Some (a\<lparr>al_chain := x\<rparr>)"
proof -
  let ?m = "hydrate (al_id a) (bt_insert (al_id a) a m)"
  obtain x where "map_of ?m (al_id a) = Some (a\<lparr>al_chain := x\<rparr>)"
    using assms hydrate_self [of "bt_insert (al_id a) a m" "al_id a" a] by auto
  then show ?thesis using propagate_cases [of "al_id a" ?m "al_id a"] by (auto simp: take_in_def)
qed

lemma take_in_self_idle:
  assumes "bt_sorted m" and "al_chain_id a \<in> {None, Some (al_id a)}"
  shows "map_of (take_in a m) (al_id a) = Some a"
proof -
  have "hydrate (al_id a) (bt_insert (al_id a) a m) = bt_insert (al_id a) a m"
    by (rule hydrate_idle) (use assms in auto)
  then show ?thesis
    using assms propagate_cases [of "al_id a" "bt_insert (al_id a) a m" "al_id a"] by (auto simp: take_in_def)
qed

lemma take_in_other:
  assumes "bt_sorted m" and "k \<noteq> al_id a" and "map_of m k = Some b"
  shows "\<exists>x. map_of (take_in a m) k = Some (b\<lparr>al_chain := x\<rparr>)"
    and "al_chain_id b \<noteq> Some (al_id a) \<Longrightarrow> map_of (take_in a m) k = Some b"
proof -
  have m: "map_of (hydrate (al_id a) (bt_insert (al_id a) a m)) k = Some b" using assms by simp
  have given: "\<exists>x. give_chain i c b = b\<lparr>al_chain := x\<rparr>" for i c
    by (cases "al_chain_id b = Some i") (auto simp: give_chain_def intro: exI [where x = "al_chain b"])
  have "map_of (take_in a m) k = Some (b\<lparr>al_chain := al_chain b\<rparr>) \<or> (\<exists>c. map_of (take_in a m) k = Some (give_chain (al_id a) c b))"
    using m propagate_cases [of "al_id a" "hydrate (al_id a) (bt_insert (al_id a) a m)" k] by (auto simp: take_in_def)
  then show "\<exists>x. map_of (take_in a m) k = Some (b\<lparr>al_chain := x\<rparr>)" using given by metis
  show "map_of (take_in a m) k = Some b" if "al_chain_id b \<noteq> Some (al_id a)"
    using m that propagate_cases [of "al_id a" "hydrate (al_id a) (bt_insert (al_id a) a m)" k]
    by (auto simp: take_in_def give_chain_def)
qed

text \<open>A member is given the chain by its anchor, whichever of the two is read first.\<close>

definition stands_for :: "('i, 'c) alert \<Rightarrow> chain_rec \<Rightarrow> ('i, 'c) alert \<Rightarrow> bool" where
  "stands_for b c a \<longleftrightarrow>
     al_chain b = Some c \<and> ch_id c = al_id b \<and> al_chain_id b \<in> {None, Some (al_id b)}
     \<and> al_chain_id a = Some (al_id b) \<and> al_id a \<noteq> al_id b \<and> al_id a \<in> set (member_ids c)"

lemma take_in_anchor:
  assumes "bt_sorted m" and "stands_for b c a" and "map_of m (al_id a) = Some (a\<lparr>al_chain := x\<rparr>)"
  shows "map_of (take_in b m) (al_id a) = Some (a\<lparr>al_chain := Some c\<rparr>)"
proof -
  have "hydrate (al_id b) (bt_insert (al_id b) b m) = bt_insert (al_id b) b m"
    by (rule hydrate_idle) (use assms in \<open>auto simp: stands_for_def\<close>)
  moreover have "map_of (propagate (al_id b) (bt_insert (al_id b) b m)) (al_id a) = Some (a\<lparr>al_chain := Some c\<rparr>)"
    using assms by (subst propagate_lookup [of _ _ b c]) (auto simp: stands_for_def give_chain_def)
  ultimately show ?thesis by (simp add: take_in_def)
qed

lemma take_in_member:
  assumes "bt_sorted m" and "stands_for b c a" and "al_chain a = None" and "map_of m (al_id b) = Some b"
  shows "map_of (take_in a m) (al_id a) = Some (a\<lparr>al_chain := Some c\<rparr>)"
proof -
  let ?m = "hydrate (al_id a) (bt_insert (al_id a) a m)"
  have h: "map_of ?m (al_id a) = Some (a\<lparr>al_chain := Some c\<rparr>)"
    using assms by (intro hydrate_from [of _ _ a "al_id b" b]) (auto simp: stands_for_def)
  moreover have "propagate (al_id a) ?m = ?m"
    using assms by (intro propagate_idle [OF h]) (auto simp: stands_for_def)
  ultimately show ?thesis by (simp add: take_in_def)
qed

abbreviation take_all :: "('i, 'c) alert list \<Rightarrow> (string \<times> ('i, 'c) alert) list \<Rightarrow> (string \<times> ('i, 'c) alert) list" where
  "take_all rows m \<equiv> foldl (\<lambda>m a. take_in a m) m rows"

lemma sorted_take_all [simp]: "bt_sorted m \<Longrightarrow> bt_sorted (take_all rows m)"
  by (induction rows arbitrary: m) auto

text \<open>After all full lines each row is there, but for its chain; and a row no chain can reach is exact.\<close>

lemma id_apart: "distinct (map al_id (rows @ [r])) \<Longrightarrow> a \<in> set rows \<Longrightarrow> al_id a \<noteq> al_id r"
  by auto (metis image_eqI)

lemma take_all_row:
  assumes "bt_sorted m" and "distinct (map al_id rows)" and "a \<in> set rows"
  shows "\<exists>x. map_of (take_all rows m) (al_id a) = Some (a\<lparr>al_chain := x\<rparr>)"
  using assms
proof (induction rows rule: rev_induct)
  case (snoc r rows)
  show ?case
  proof (cases "a = r")
    case True
    with snoc.prems take_in_self [of "take_all rows m" r] show ?thesis by simp
  next
    case False
    with snoc.prems have "a \<in> set rows" by simp
    with id_apart [OF snoc.prems(2)] have "a \<in> set rows" "al_id a \<noteq> al_id r" by auto
    with snoc.IH snoc.prems obtain x where x: "map_of (take_all rows m) (al_id a) = Some (a\<lparr>al_chain := x\<rparr>)" by auto
    from take_in_other(1) [OF sorted_take_all [OF snoc.prems(1)] \<open>al_id a \<noteq> al_id r\<close> x] show ?thesis by auto
  qed
qed simp

lemma take_all_exact:
  assumes "bt_sorted m" and "distinct (map al_id rows)" and "a \<in> set rows" and "al_chain_id a \<in> {None, Some (al_id a)}"
  shows "map_of (take_all rows m) (al_id a) = Some a"
  using assms
proof (induction rows rule: rev_induct)
  case (snoc r rows)
  show ?case
  proof (cases "a = r")
    case True
    with snoc.prems take_in_self_idle [of "take_all rows m" r] show ?thesis by simp
  next
    case False
    with snoc.prems have "a \<in> set rows" by simp
    with id_apart [OF snoc.prems(2)] have a: "a \<in> set rows" "al_id a \<noteq> al_id r" by auto
    with snoc.IH snoc.prems have "map_of (take_all rows m) (al_id a) = Some a" by auto
    moreover have "al_chain_id a \<noteq> Some (al_id r)" using a snoc.prems(4) by auto
    ultimately show ?thesis
      using take_in_other(2) [OF sorted_take_all [OF snoc.prems(1)] a(2), of rows a] by simp
  qed
qed simp

lemma take_all_member:
  assumes "bt_sorted m" and "distinct (map al_id rows)" and "a \<in> set rows" and "b \<in> set rows"
    and "stands_for b c a" and "al_chain a = None"
  shows "map_of (take_all rows m) (al_id a) = Some (a\<lparr>al_chain := Some c\<rparr>)"
  using assms
proof (induction rows rule: rev_induct)
  case (snoc r rows)
  have ab: "al_id a \<noteq> al_id b" "al_chain_id a = Some (al_id b)" "al_chain_id b \<in> {None, Some (al_id b)}"
    using snoc.prems(5) by (auto simp: stands_for_def)
  have s: "bt_sorted (take_all rows m)" using snoc.prems(1) by simp
  have d: "distinct (map al_id rows)" using snoc.prems(2) by simp
  consider "a = r" "b \<in> set rows" | "b = r" "a \<in> set rows" | "a \<in> set rows" "b \<in> set rows" "a \<noteq> r" "b \<noteq> r"
    using snoc.prems(3,4) ab(1) by auto
  then show ?case
  proof cases
    case 1
    have "map_of (take_all rows m) (al_id b) = Some b"
      using take_all_exact [OF snoc.prems(1) d 1(2) ab(3)] .
    with take_in_member [OF s snoc.prems(5,6)] 1(1) show ?thesis by simp
  next
    case 2
    obtain x where "map_of (take_all rows m) (al_id a) = Some (a\<lparr>al_chain := x\<rparr>)"
      using take_all_row [OF snoc.prems(1) d 2(2)] by blast
    from take_in_anchor [OF s snoc.prems(5) this] 2(1) show ?thesis by simp
  next
    case 3
    have ne: "al_id a \<noteq> al_id r" "al_id b \<noteq> al_id r" using id_apart [OF snoc.prems(2)] 3 by auto
    have "map_of (take_all rows m) (al_id a) = Some (a\<lparr>al_chain := Some c\<rparr>)"
      using snoc.IH [OF snoc.prems(1) d 3(1,2) snoc.prems(5,6)] .
    from take_in_other(2) [OF s ne(1) this] ab(2) ne(2) show ?thesis by simp
  qed
qed simp

text \<open>The map of a fold is sorted and every alert stands under its own id.\<close>

definition fold_ok :: "(string \<times> ('i, 'c) alert) list \<Rightarrow> bool" where
  "fold_ok m \<longleftrightarrow> bt_sorted m \<and> (\<forall>k a. map_of m k = Some a \<longrightarrow> al_id a = k)"

lemma al_id_update [simp]: "al_id (fold_update rd u a) = al_id a"
  using update_frame(1) [of rd u a] by (simp add: fixed_fields_def)

lemma fold_ok_hydrate: "fold_ok m \<Longrightarrow> fold_ok (hydrate i m)"
  by (auto simp: fold_ok_def hydrate_def split: option.split if_splits)

lemma al_id_give [simp]: "al_id (give_chain i c b) = al_id b"
  by (simp add: give_chain_def)

lemma fold_ok_propagate: "fold_ok m \<Longrightarrow> fold_ok (propagate i m)"
proof -
  assume ok: "fold_ok m"
  have "al_id a = k" if "map_of (propagate i m) k = Some a" for k a
    using propagate_cases [of i m k]
  proof
    assume "map_of (propagate i m) k = map_of m k"
    with that ok show ?thesis by (simp add: fold_ok_def)
  next
    assume "k \<noteq> i \<and> (\<exists>c. map_of (propagate i m) k = map_option (give_chain i c) (map_of m k))"
    with that obtain c where "map_option (give_chain i c) (map_of m k) = Some a" by metis
    then obtain b where "a = give_chain i c b" "map_of m k = Some b" by auto
    with ok show ?thesis by (simp add: fold_ok_def)
  qed
  with ok show ?thesis by (simp add: fold_ok_def)
qed

lemma fold_ok_adjust: "fold_ok m \<Longrightarrow> fold_ok (bt_adjust i (fold_update rd u) m)"
  by (auto simp: fold_ok_def)

lemma fold_ok_line: "fold_ok (ca_map c) \<Longrightarrow> fold_ok (ca_map (fold_line cd l c))"
proof (cases "parse_record cd l")
  case (Some r)
  assume ok: "fold_ok (ca_map c)"
  show ?thesis
  proof (cases r)
    case (Full a)
    have "fold_ok (bt_insert (al_id a) a (ca_map c))" using ok by (auto simp: fold_ok_def)
    with Some Full show ?thesis by (simp add: fold_line_def fold_ok_hydrate fold_ok_propagate)
  next
    case (Update u)
    with Some ok show ?thesis
      by (simp add: fold_line_def fold_update_line_def Let_def fold_ok_hydrate fold_ok_propagate fold_ok_adjust)
  qed
qed (simp add: fold_line_def split: option.split)

lemma fold_ok_lines: "fold_ok (ca_map c) \<Longrightarrow> fold_ok (ca_map (fold_lines cd ls c))"
  unfolding fold_lines_def by (induction ls arbitrary: c) (auto intro: fold_ok_line)

lemma fold_ok_disk: "fold_ok (ca_map (disk_fold cd f))"
  by (simp add: disk_fold_def fold_from_disk_def fold_ok_lines) (intro fold_ok_lines, simp add: fold_ok_def)

lemma distinct_ids: "fold_ok m \<Longrightarrow> distinct (map al_id (map snd m))"
proof -
  assume ok: "fold_ok m"
  then have "map al_id (map snd m) = map fst m"
    by (auto simp: fold_ok_def bt_sorted_entry [symmetric])
  moreover have "distinct (map fst m)" using ok by (simp add: fold_ok_def bt_sorted_distinct)
  ultimately show ?thesis by (simp del: map_map)
qed

definition reads_back :: "('i, 'c, 'r) codec \<Rightarrow> ('i, 'c) alert list \<Rightarrow> bool" where
  "reads_back cd rows \<longleftrightarrow> list_all (\<lambda>a. parse_record cd (cd_redact cd (cd_redact cd (cd_render cd a))) = Some (Full a)) rows"

lemma fold_carried:
  "reads_back cd rows \<Longrightarrow>
     ca_map (fold_lines cd (map (\<lambda>a. cd_redact cd (cd_render cd a)) rows) c) = take_all rows (ca_map c)"
  by (induction rows arbitrary: c) (auto simp: reads_back_def fold_lines_def fold_line_def take_in_def)

lemma apply_carry_caps_fits:
  assumes "length rows \<le> cmax" and "sum_list (map (line_len cd) (fst (strip_shared_chains rows))) \<le> bmax"
  shows "apply_carry_caps cd cmax bmax rows = (fst (strip_shared_chains rows), 0)"
proof -
  obtain r o' where "strip_shared_chains rows = (r, o')" by fastforce
  moreover from this have "length r = length rows" using length_strip [of rows] by simp
  ultimately show ?thesis using assms by (simp add: apply_carry_caps_def Let_def)
qed

text \<open>A row whose chain some other carried row holds in full, as the fold keeps it.\<close>

definition shares_chain :: "('i, 'c) alert list \<Rightarrow> ('i, 'c) alert \<Rightarrow> bool" where
  "shares_chain rows a \<longleftrightarrow> (\<exists>b \<in> set rows. \<exists>c. stands_for b c a \<and> al_chain a = Some c)"

definition protected_rows :: "('i, 'c, 'r) cache \<Rightarrow> ('i, 'c) alert list" where
  "protected_rows c = filter is_protected (map snd (ca_map c))"

lemma stamp_simps [simp]:
  "al_id (stamp_carried now a) = al_id a" "al_chain_id (stamp_carried now a) = al_chain_id a"
  "al_chain (stamp_carried now a) = al_chain a"
  by (simp_all add: stamp_carried_def)

lemma stands_stamp [simp]: "stands_for (stamp_carried now b) c (stamp_carried now a) = stands_for b c a"
  by (simp add: stands_for_def)

lemma stripped_member:
  assumes "b \<in> set rows" and "stands_for b c a" and "al_chain a = Some c"
  shows "anchor_for rows a \<noteq> None"
proof -
  obtain i where "i < length rows" "rows ! i = b" using assms(1) by (auto simp: in_set_conv_nth)
  moreover have "is_chain_anchor b" using assms(2) by (simp add: stands_for_def is_chain_anchor_def)
  ultimately have "(al_id b, i) \<in> set (rev (map (\<lambda>(i, a). (al_id a, i)) (filter (\<lambda>(i, a). is_chain_anchor a) (enumerate 0 rows))))"
    by (force simp: in_set_enumerate_eq)
  then have "index_of_anchor rows (al_id b) \<noteq> None" unfolding index_of_anchor_def map_of_eq_None_iff by force
  with assms(2,3) show ?thesis by (auto simp: anchor_for_def stands_for_def)
qed

lemma strip_map: "fst (strip_shared_chains rows) = map (\<lambda>a. if anchor_for rows a \<noteq> None then a\<lparr>al_chain := None\<rparr> else a) rows"
  by (intro nth_equalityI) auto

lemma ids_strip: "map al_id (fst (strip_shared_chains rows)) = map al_id rows"
  by (auto simp: strip_map)

text \<open>What is carried: the protected rows but the first ones of the order of eviction.\<close>

lemma carried_rows:
  "fst (protected_carry_set cd cmax bmax now c) =
     (let rows = map (stamp_carried now) (protected_rows c) in
      map (\<lambda>i. fst (strip_shared_chains rows) ! i)
        (filter (\<lambda>i. i \<notin> set (carry_evicted cd cmax bmax rows)) [0..<length rows]))"
  by (simp add: protected_carry_set_def protected_rows_def apply_carry_caps_alt kept_rows Let_def)

lemma evicted_in_order:
  assumes rows: "rows = map (stamp_carried now) (protected_rows c)"
    and written: "kept = fst (protected_carry_set cd cmax bmax now c)"
  shows "\<exists>n. map al_id kept = map (\<lambda>i. al_id (rows ! i)) (filter (\<lambda>i. i \<notin> set (take n (carry_order rows))) [0..<length rows])
    \<and> (\<forall>k<n. cmax < length rows - k
        \<or> bmax < sum_list (map (\<lambda>i. line_len cd (fst (strip_shared_chains rows) ! i)) (drop k (carry_order rows))))"
proof -
  let ?gone = "carry_evicted cd cmax bmax rows"
  obtain n where n: "?gone = take n (carry_order rows)" using evicted_prefix by blast
  then have g: "?gone = take (length ?gone) (carry_order rows)" by (simp add: min_def)
  have "map al_id kept = map (\<lambda>i. al_id (rows ! i)) (filter (\<lambda>i. i \<notin> set ?gone) [0..<length rows])"
    by (auto simp: written carried_rows Let_def rows [symmetric])
  with evicted_fewest [of _ cd cmax bmax rows] g show ?thesis by metis
qed

lemma nth_distinct_eq: "distinct (map f xs) \<Longrightarrow> i < length xs \<Longrightarrow> j < length xs \<Longrightarrow> f (xs ! i) = f (xs ! j) \<Longrightarrow> i = j"
  by (metis distinct_conv_nth length_map nth_map)

lemma carried_index:
  assumes d: "distinct (map al_id (protected_rows c))"
    and rows: "rows = map (stamp_carried now) (protected_rows c)"
    and written: "kept = fst (protected_carry_set cd cmax bmax now c)"
    and a: "a \<in> set (protected_rows c)" and k: "al_id a \<in> al_id ` set kept"
  shows "\<exists>i < length rows. rows ! i = stamp_carried now a \<and> i \<notin> set (carry_evicted cd cmax bmax rows)"
proof -
  obtain i where i: "i < length rows" "rows ! i = stamp_carried now a"
    using a by (auto simp: rows in_set_conv_nth)
  from k obtain j where j: "j < length rows" "j \<notin> set (carry_evicted cd cmax bmax rows)" "al_id (rows ! j) = al_id a"
    by (auto simp: written carried_rows Let_def rows [symmetric])
  have "distinct (map al_id rows)" using d by (simp add: rows o_def)
  with i j have "i = j" by (metis nth_distinct_eq stamp_simps(1))
  with i j show ?thesis by blast
qed

lemma carried_anchor:
  assumes d: "distinct (map al_id rows)" and i: "i < length rows" "i \<notin> set (carry_evicted cd cmax bmax rows)"
    and b: "b \<in> set rows" "stands_for b c (rows ! i)" "al_chain (rows ! i) = Some c"
  shows "\<exists>j < length rows. rows ! j = b \<and> j \<notin> set (carry_evicted cd cmax bmax rows)"
proof -
  obtain j where j: "anchor_for rows (rows ! i) = Some j" using stripped_member [OF b] by auto
  have "al_id (rows ! j) = al_id b" "j < length rows"
    using anchor_for_is_anchor [OF j] b(2) by (simp_all add: stands_for_def)
  moreover obtain k where "k < length rows" "rows ! k = b" using b(1) by (auto simp: in_set_conv_nth)
  ultimately have "rows ! j = b" using nth_distinct_eq [OF d] by metis
  with kept_anchor [OF i(1) j i(2)] \<open>j < length rows\<close> show ?thesis by blast
qed

lemma carried_read_back:
  assumes run: "store_run cd cfg s"
    and rows: "rows = map (stamp_carried now) (protected_rows (current_fold cd s))"
    and written: "kept = fst (protected_carry_set cd (sc_carry_max cfg) (sc_carry_max_bytes cfg) now (current_fold cd s))"
    and readable: "reads_back cd kept"
    and a: "a \<in> set (protected_rows (current_fold cd s))" "al_id a \<in> al_id ` set kept"
    and chain: "al_chain_id a \<in> {None, Some (al_id a)} \<or> shares_chain (protected_rows (current_fold cd s)) a"
  shows "find_alert (fst (read_fold cd (rotate_store cd cfg now s))) (al_id a) = Some (stamp_carried now a)"
proof -
  let ?prot = "protected_rows (current_fold cd s)"
  let ?gone = "carry_evicted cd (sc_carry_max cfg) (sc_carry_max_bytes cfg) rows"
  let ?c0 = "fold_lines cd (lines_in (fs_live (as_files s))) \<lparr>ca_map = [], ca_receipts = []\<rparr>"
  from run have "coherent cd s" by (rule store_run_coherent)
  then have ok: "fold_ok (ca_map (current_fold cd s))" by (simp add: current_fold_disk fold_ok_disk)
  have dp: "distinct (map al_id ?prot)"
    using distinct_ids [OF ok] by (simp add: protected_rows_def distinct_map_filter del: map_map)
  then have dr: "distinct (map al_id rows)" by (simp add: rows o_def)
  have kept: "kept = map (\<lambda>i. fst (strip_shared_chains rows) ! i) (filter (\<lambda>i. i \<notin> set ?gone) [0..<length rows])"
    by (simp add: written carried_rows Let_def rows)
  have "map al_id kept = map (\<lambda>i. al_id (rows ! i)) (filter (\<lambda>i. i \<notin> set ?gone) [0..<length rows])"
    by (auto simp: kept)
  moreover have "inj_on (\<lambda>i. al_id (rows ! i)) {..<length rows}"
    using nth_distinct_eq [OF dr] by (auto simp: inj_on_def)
  ultimately have dist: "distinct (map al_id kept)"
    by (auto simp: distinct_map elim!: inj_on_subset)
  have in_kept: "fst (strip_shared_chains rows) ! i \<in> set kept" if "i < length rows" "i \<notin> set ?gone" for i
    using that by (auto simp: kept)
  have sorted: "bt_sorted (ca_map ?c0)"
    using fold_ok_lines [of "\<lparr>ca_map = [], ca_receipts = []\<rparr>" cd "lines_in (fs_live (as_files s))"] by (simp add: fold_ok_def)
  obtain i where i: "i < length rows" "rows ! i = stamp_carried now a" "i \<notin> set ?gone"
    using carried_index [OF dp rows written a] by blast
  have "map_of (take_all kept (ca_map ?c0)) (al_id a) = Some (stamp_carried now a)"
    using chain
  proof
    assume c: "al_chain_id a \<in> {None, Some (al_id a)}"
    then have "anchor_for rows (rows ! i) = None" by (auto simp: i(2) anchor_for_def)
    then have "stamp_carried now a \<in> set kept" using in_kept [OF i(1,3)] i(1,2) by simp
    from take_all_exact [OF sorted dist this] c show ?thesis by simp
  next
    assume "shares_chain ?prot a"
    then obtain b c where b: "b \<in> set ?prot" "stands_for b c a" "al_chain a = Some c" by (auto simp: shares_chain_def)
    let ?b = "stamp_carried now b" and ?a = "(stamp_carried now a)\<lparr>al_chain := None\<rparr>"
    have sb: "?b \<in> set rows" "stands_for ?b c (rows ! i)" "al_chain (rows ! i) = Some c" using b i(2) by (simp_all add: rows)
    obtain j where j: "j < length rows" "rows ! j = ?b" "j \<notin> set ?gone" using carried_anchor [OF dr i(1,3) sb] by blast
    have "anchor_for rows (rows ! j) = None" using b(2) by (auto simp: j(2) anchor_for_def stands_for_def)
    then have "?b \<in> set kept" using in_kept [OF j(1,3)] j(1,2) by simp
    moreover have "?a \<in> set kept" using in_kept [OF i(1,3)] stripped_member [OF sb] i(1,2) by simp
    moreover have "stands_for ?b c ?a" using b(2) by (simp add: stands_for_def)
    ultimately have "map_of (take_all kept (ca_map ?c0)) (al_id a) = Some (?a\<lparr>al_chain := Some c\<rparr>)"
      using take_all_member [OF sorted dist, of ?a ?b c] by simp
    with b(3) show ?thesis by simp
  qed
  moreover have "ca_map (fst (read_fold cd (rotate_store cd cfg now s))) = take_all kept (ca_map ?c0)"
    using fold_carried [OF readable, of ?c0]
    by (auto simp: written read_fold_def current_fold_def rotate_store_def Let_def disk_fold_def fold_from_disk_def
        rotate_files_eq lines_in_def split: prod.split)
  ultimately show ?thesis by (simp add: find_alert_def)
qed


text \<open>A store with the two rows of the story, rotated.\<close>

definition story_rows :: "(unit, unit) alert list" where
  "story_rows = [story_anchor, story_member, stamp_carried ''t'' story_anchor,
     (stamp_carried ''t'' story_member)\<lparr>al_chain := None\<rparr>]"

definition story_store :: "(unit, unit, unit) alert_store" where
  "story_store = \<lparr>as_files = open_store \<lparr>fs_live = Some [''a'', ''b''], fs_rotated = None, fs_staging = None\<rparr>,
     as_size = 4, as_cache = None\<rparr>"

definition story_config :: store_config where
  "story_config = \<lparr>sc_max_bytes = 1000, sc_carry_max_bytes = 100, sc_carry_max = 10\<rparr>"

lemma story_fields:
  "al_id story_anchor = ''a''" "al_id story_member = ''b''" "al_chain story_anchor = Some story"
  "al_chain story_member = Some story" "al_chain_id story_anchor = Some ''a''" "al_chain_id story_member = Some ''a''"
  "al_carried story_anchor = None" "al_carried story_member = None" "ch_id story = ''a''"
  "ch_steps_total story = 2" "member_ids story = [''a'', ''b'']" "ch_severity story = ''critical''"
  by (simp_all add: story_defs member_ids_def)

lemma story_again:
  "give_chain ''a'' story story_member = story_member" "story_member\<lparr>al_chain := Some story\<rparr> = story_member"
  by (simp_all add: give_chain_def story_defs)

lemma story_parse:
  "parse_record (small_codec story_rows) ''a'' = Some (Full story_anchor)"
  "parse_record (small_codec story_rows) ''b'' = Some (Full story_member)"
  by (simp_all add: parse_record_def small_codec_def story_rows_def row_name_def story_fields)

lemma story_run: "store_run (small_codec story_rows) story_config story_store"
proof -
  let ?f = "\<lparr>fs_live = Some [''a'', ''b''], fs_rotated = None, fs_staging = None\<rparr>"
  have "story_store = \<lparr>as_files = open_store ?f, as_size = file_size (lines_in (fs_live (open_store ?f))), as_cache = None\<rparr>"
    by (simp add: story_store_def open_store_def reconcile_staging_def reopen_def lines_in_def file_size_def)
  then show ?thesis by (metis opened)
qed

lemma redact_small: "cd_redact (small_codec r) l = l"
  by (simp add: small_codec_def)

lemma story_fold: "ca_map (current_fold (small_codec story_rows) story_store) = [(''a'', story_anchor), (''b'', story_member)]"
  by (simp add: current_fold_def story_store_def disk_fold_def fold_from_disk_def fold_lines_def open_store_def
      reconcile_staging_def reopen_def lines_in_def fold_line_def redact_small story_parse story_fields hydrate_def propagate_def
      bt_adjust_def story_again)

theorem cache_is_the_log_witness:
  "ca_map (fst (read_fold (small_codec story_rows) story_store)) = [(''a'', story_anchor), (''b'', story_member)]"
  using cache_is_the_log [OF story_run] story_fold
  by (simp add: current_fold_def story_store_def disk_fold_def)

theorem rotation_is_atomic_witness:
  "let f = \<lparr>fs_live = Some [''a'', ''b''], fs_rotated = None, fs_staging = None\<rparr>; cd = small_codec story_rows;
       g = open_store (crash_after (rotate_ops cd [story_anchor]) 3 None f) in
   g = rotate_files cd [story_anchor] f \<and> fs_live g = Some [''a''] \<and> fs_rotated g = Some [''a'', ''b'']"
proof -
  let ?f = "\<lparr>fs_live = Some [''a'', ''b''], fs_rotated = None, fs_staging = None\<rparr>"
  have "fs_live ?f = Some [''a'', ''b'']" by simp
  from rotation_is_atomic [OF this, of "small_codec story_rows" "[story_anchor]" 3 None] show ?thesis
    by (simp add: Let_def rotate_ops_def write_carried_def)
      (simp add: rotate_files_eq small_codec_def row_name_def story_fields)
qed

text \<open>The same store under a cap of one row: the member is evicted, the anchor stays.\<close>

definition tight_config :: store_config where
  "tight_config = \<lparr>sc_max_bytes = 1000, sc_carry_max_bytes = 100, sc_carry_max = 1\<rparr>"

lemma story_run_tight: "store_run (small_codec story_rows) tight_config story_store"
proof -
  let ?f = "\<lparr>fs_live = Some [''a'', ''b''], fs_rotated = None, fs_staging = None\<rparr>"
  have "story_store = \<lparr>as_files = open_store ?f, as_size = file_size (lines_in (fs_live (open_store ?f))), as_cache = None\<rparr>"
    by (simp add: story_store_def open_store_def reconcile_staging_def reopen_def lines_in_def file_size_def)
  then show ?thesis by (metis opened)
qed

lemma story_protected: "protected_rows (current_fold (small_codec story_rows) story_store) = [story_anchor, story_member]"
  by (simp add: protected_rows_def story_fold is_protected_def in_high_chain_def story_fields Let_def)

lemma story_stamped:
  "strip_shared_chains [stamp_carried ''t'' story_anchor, stamp_carried ''t'' story_member] =
     ([stamp_carried ''t'' story_anchor, (stamp_carried ''t'' story_member)\<lparr>al_chain := None\<rparr>], [None, Some 0])"
  by (simp add: strip_shared_chains_def anchor_for_def index_of_anchor_def is_chain_anchor_def story_fields)

lemma story_stamps:
  "al_carried (stamp_carried ''t'' story_member) = Some \<lparr>ca_at = ''t'', ca_generation = 1\<rparr>"
  "al_carried (stamp_carried ''t'' story_anchor) = Some \<lparr>ca_at = ''t'', ca_generation = 1\<rparr>"
  "carry_priority (stamp_carried ''t'' story_anchor) = 2"
  "carry_priority ((stamp_carried ''t'' story_member)\<lparr>al_chain := None\<rparr>) = 0"
  by (simp_all add: stamp_carried_def story_fields carry_priority_def in_high_chain_def PROTECTED_META_RULES_def story_defs)

lemma story_carried:
  "fst (protected_carry_set (small_codec story_rows) 10 100 ''t'' (current_fold (small_codec story_rows) story_store)) =
     [stamp_carried ''t'' story_anchor, (stamp_carried ''t'' story_member)\<lparr>al_chain := None\<rparr>]"
  "fst (protected_carry_set (small_codec story_rows) 1 100 ''t'' (current_fold (small_codec story_rows) story_store)) =
     [stamp_carried ''t'' story_anchor]"
proof -
  let ?rows = "[stamp_carried ''t'' story_anchor, stamp_carried ''t'' story_member]"
  have len: "line_len (small_codec story_rows) (stamp_carried ''t'' story_anchor) = 3"
    "line_len (small_codec story_rows) ((stamp_carried ''t'' story_member)\<lparr>al_chain := None\<rparr>) = 3"
    by (simp_all add: line_len_def small_codec_def row_name_def story_fields story_stamps)
  have two: "[0..<Suc (Suc 0)] = [0, 1]" by (simp add: upt_rec)
  have "carry_order ?rows = [1, 0]"
    by (simp add: carry_order_def story_stamped carry_keys_def story_stamps lift_anchor_def enumerate_eq_zip numeral_2_eq_2 upt_rec)
  then show "fst (protected_carry_set (small_codec story_rows) 10 100 ''t'' (current_fold (small_codec story_rows) story_store)) =
     [stamp_carried ''t'' story_anchor, (stamp_carried ''t'' story_member)\<lparr>al_chain := None\<rparr>]"
    and "fst (protected_carry_set (small_codec story_rows) 1 100 ''t'' (current_fold (small_codec story_rows) story_store)) =
     [stamp_carried ''t'' story_anchor]"
    using two by (simp_all add: carried_rows story_protected carry_evicted_def Let_def story_stamped len)
qed


end
