(* ===== verification/Kill_Gate.thy ===== *)
theory Kill_Gate
  imports Alert_Record Contain Exec_Path Ordered_Map
begin

text \<open>
  Acting on a sequence: the gate shared by the kill and the quarantine, and the tree kill
  (\<open>moatd/src/contain.rs\<close> from line 500, \<open>verify_pid\<close> of \<open>control.rs\<close>, \<open>chain_gate\<close>, \<open>host_targets\<close>,
  \<open>maybe_kill_tree\<close>, \<open>quarantine_chain_artifacts\<close> and \<open>maybe_enforce\<close> of \<open>engine.rs\<close>). The machine is
  an environment that moves on between any two calls: \<open>ke_world\<close> gives, at each moment and for each
  pid, the process that wears it.
\<close>

section \<open>The gate\<close>

record step_fact =
  sf_family :: string
  sf_novel :: bool
  sf_pid :: nat

definition CONSEQUENCE :: "string list" where
  "CONSEQUENCE = [''net'', ''cred'', ''persist'', ''priv'', ''rootkit'', ''ransom'']"

definition worth_killing_for :: "string \<Rightarrow> step_fact list \<Rightarrow> string + unit" where
  "worth_killing_for severity triggers =
     (if severity_rank severity < severity_rank ''high'' then Inl (''chain is '' @ severity @ '', not high'')
      else if length triggers < 2 then
        Inl (show_nat (length triggers) @ '' trigger step(s); a kill wants corroboration'')
      else
        let families = btree_set (map sf_family triggers) in
        if length families < 2 then
          Inl (''one family ('' @ join_with '', '' families @ ''); two independent detections have to agree'')
        else if \<not> list_ex (\<lambda>f. f \<in> set CONSEQUENCE) families then
          Inl (''nothing consequential happened ('' @ join_with ''+'' families @ ''); a program running is what a build does'')
        else
          let novel = filter sf_novel triggers; novel_families = btree_set (map sf_family novel) in
          if length novel < 2 \<or> length novel_families < 2 then
            Inl (show_nat (length novel) @ '' novel step(s) in '' @ show_nat (length novel_families)
                 @ '' family/families; this machine has seen this shape before'')
          else Inr ())"

definition may_act_on :: "('i, 'c) alert \<Rightarrow> bool" where
  "may_act_on a \<longleftrightarrow> pr_in_container (al_process a) \<noteq> Some True"

definition CONTAINER_RUNTIMES :: "string list" where
  "CONTAINER_RUNTIMES = [''runc'', ''crun'', ''containerd-shim'', ''containerd-shim-runc-v1'', ''containerd-shim-runc-v2'',
     ''conmon'', ''dockerd'', ''containerd'', ''podman'']"

definition ancestry_looks_containerised :: "string list \<Rightarrow> bool" where
  "ancestry_looks_containerised ancestry = list_ex (\<lambda>exe. basename exe \<in> set CONTAINER_RUNTIMES) ancestry"

definition may_be_container_path :: "('i, 'c) alert \<Rightarrow> bool" where
  "may_be_container_path a =
     (case pr_in_container (al_process a) of
        Some b \<Rightarrow> b
      | None \<Rightarrow> ancestry_looks_containerised (map ar_exe (pr_ancestry (al_process a))))"

definition gate_facts :: "(string \<Rightarrow> ('i, 'c) alert option) \<Rightarrow> chain_rec \<Rightarrow> step_fact list" where
  "gate_facts lookup c =
     List.map_filter (\<lambda>st.
       case lookup (st_alert st) of
         None \<Rightarrow> None
       | Some a \<Rightarrow> if is_suppressed a then None
                  else Some \<lparr>sf_family = al_family a, sf_novel = \<not> is_common (al_rarity a), sf_pid = st_pid st\<rparr>)
       (filter is_trigger (ch_steps c))"

record chain_gate =
  cg_facts :: "step_fact list"
  cg_families :: "string list"
  cg_verdict :: "string + unit"

definition all_contained :: "(string \<Rightarrow> ('i, 'c) alert option) \<Rightarrow> chain_rec \<Rightarrow> bool" where
  "all_contained lookup c =
     (let trigs = filter is_trigger (ch_steps c); alerts = List.map_filter (\<lambda>st. lookup (st_alert st)) trigs in
      alerts \<noteq> [] \<and> \<not> ch_truncated c \<and> length alerts = length trigs \<and> list_all (\<lambda>a. \<not> may_act_on a) alerts)"

definition gate_of :: "(string \<Rightarrow> ('i, 'c) alert option) \<Rightarrow> chain_rec \<Rightarrow> chain_gate" where
  "gate_of lookup c =
     (let facts = gate_facts lookup c; verdict = worth_killing_for (ch_severity c) facts in
      \<lparr>cg_facts = facts, cg_families = btree_set (map sf_family facts),
       cg_verdict = (if verdict = Inr () \<and> all_contained lookup c
                     then Inl ''every step of this ran in a container, and moat does not enforce across a namespace boundary''
                     else verdict)\<rparr>)"

section \<open>Who is meant\<close>

record kill_target =
  kt_pid :: nat
  kt_exe :: string
  kt_alert :: string

fun tree_targets_from :: "nat \<Rightarrow> bool \<Rightarrow> chain_step list \<Rightarrow> kill_target list \<Rightarrow> kill_target list" where
  "tree_targets_from anc spare [] out = out"
| "tree_targets_from anc spare (s # ss) out =
     (if \<not> is_trigger s \<or> st_pid s = 0 \<or> st_pid s = 1 \<or> spare \<and> st_pid s = anc \<or> list_ex (\<lambda>t. kt_pid t = st_pid s) out
      then tree_targets_from anc spare ss out
      else tree_targets_from anc spare ss (out @ [\<lparr>kt_pid = st_pid s, kt_exe = st_exe s, kt_alert = st_alert s\<rparr>]))"

definition tree_targets :: "chain_step list \<Rightarrow> nat \<Rightarrow> bool \<Rightarrow> kill_target list" where
  "tree_targets steps ancestor_pid spare_ancestor = tree_targets_from ancestor_pid spare_ancestor steps []"

definition host_targets :: "(string \<Rightarrow> ('i, 'c) alert option) \<Rightarrow> kill_target list \<Rightarrow> kill_target list" where
  "host_targets lookup ts =
     filter (\<lambda>t. \<not> (case lookup (kt_alert t) of Some a \<Rightarrow> \<not> may_act_on a | None \<Rightarrow> False)) ts"

section \<open>The machine\<close>

record live_proc =
  lp_identity :: nat
  lp_start :: "int option"
  lp_exe :: "string option"
  lp_status :: "string option"
  lp_cgroup :: "string option"

datatype pin_failure = Gone | Unsupported | Exhausted | OtherFailure nat

record kill_env =
  ke_world :: "nat \<Rightarrow> nat \<Rightarrow> live_proc option"
  ke_pin :: "nat \<Rightarrow> pin_failure option"
  ke_self :: nat
  ke_nanos :: "string \<Rightarrow> int option"
  ke_canon :: "string \<Rightarrow> string option"

text \<open>What the files of \<open>/proc/<pid>\<close> say at a moment.\<close>

fun uid_line :: "string list \<Rightarrow> nat option" where
  "uid_line [] = None"
| "uid_line (l # ls) =
     (case strip_prefix l ''Uid:'' of
        Some rest \<Rightarrow> (case split_whitespace rest of w # _ \<Rightarrow> parse_u32 w | [] \<Rightarrow> None)
      | None \<Rightarrow> uid_line ls)"

definition proc_uid :: "kill_env \<Rightarrow> nat \<Rightarrow> nat \<Rightarrow> nat option" where
  "proc_uid env t pid = Option.bind (Option.bind (ke_world env t pid) lp_status) (\<lambda>s. uid_line (lines_of s))"

definition proc_cgroup :: "kill_env \<Rightarrow> nat \<Rightarrow> nat \<Rightarrow> string option" where
  "proc_cgroup env t pid =
     Option.bind (Option.bind (ke_world env t pid) lp_cgroup) (\<lambda>s. case lines_of s of l # _ \<Rightarrow> Some l | [] \<Rightarrow> None)"

datatype kill_refusal = PidOne | MoatdItself | NoSuchProcess | OtherUser nat nat | SystemService
  | StartUnreadable string | StartDiffers | ExeUnreadable | OtherBinary string string

definition refuse_to_kill :: "kill_env \<Rightarrow> nat \<Rightarrow> nat \<Rightarrow> nat \<Rightarrow> kill_refusal option" where
  "refuse_to_kill env t pid alert_uid =
     (if pid \<le> 1 then Some PidOne
      else if pid = ke_self env then Some MoatdItself
      else case proc_uid env t pid of
        None \<Rightarrow> Some NoSuchProcess
      | Some uid \<Rightarrow>
          if uid \<noteq> alert_uid then Some (OtherUser uid alert_uid)
          else case proc_cgroup env (t + 1) pid of
            Some cg \<Rightarrow> if contains_str cg ''system.slice'' then Some SystemService else None
          | None \<Rightarrow> None)"

text \<open>\<open>str::trim_end_matches\<close> with a string.\<close>

function trim_end_str :: "string \<Rightarrow> string \<Rightarrow> string" where
  "trim_end_str p s = (if p \<noteq> [] \<and> suffix p s then trim_end_str p (take (length s - length p) s) else s)"
  by auto
termination
  by (relation "measure (\<lambda>(p, s). length s)") (auto simp: suffix_def)

declare trim_end_str.simps [simp del]

definition verify_pid :: "kill_env \<Rightarrow> nat \<Rightarrow> nat \<Rightarrow> string \<Rightarrow> string \<Rightarrow> kill_refusal + unit" where
  "verify_pid env t pid start_ts exe =
     (case Option.bind (ke_world env t pid) lp_start of
        None \<Rightarrow> Inl NoSuchProcess
      | Some live \<Rightarrow>
          case ke_nanos env start_ts of
            None \<Rightarrow> Inl (StartUnreadable start_ts)
          | Some want \<Rightarrow>
              if \<bar>live - want\<bar> > 2000000000 then Inl StartDiffers
              else case Option.bind (ke_world env (t + 1) pid) lp_exe of
                None \<Rightarrow> Inl ExeUnreadable
              | Some raw \<Rightarrow>
                  let live_exe = trim_end_str '' (deleted)'' raw in
                  if exe \<noteq> [] \<and> live_exe \<noteq> exe \<and> live_exe \<notin> set (binary_aliases (ke_canon env) exe)
                  then Inl (OtherBinary live_exe exe) else Inr ())"

text \<open>A pidfd: the process it was opened on, for as long as that process lives.\<close>

record pid_handle =
  ph_pid :: nat
  ph_identity :: nat

definition try_open :: "kill_env \<Rightarrow> nat \<Rightarrow> nat \<Rightarrow> pin_failure + pid_handle" where
  "try_open env t pid =
     (case ke_pin env pid of
        Some e \<Rightarrow> Inl e
      | None \<Rightarrow> (case ke_world env t pid of
                   None \<Rightarrow> Inl Gone
                 | Some l \<Rightarrow> Inr \<lparr>ph_pid = pid, ph_identity = lp_identity l\<rparr>))"

definition signal_reaches :: "kill_env \<Rightarrow> nat \<Rightarrow> pid_handle \<Rightarrow> bool" where
  "signal_reaches env t h \<longleftrightarrow> (case ke_world env t (ph_pid h) of Some l \<Rightarrow> lp_identity l = ph_identity h | None \<Rightarrow> False)"

section \<open>The tree kill\<close>

definition MAX_TARGETS :: nat where "MAX_TARGETS = 8"

definition named_target :: "kill_target \<Rightarrow> string" where
  "named_target t = show_nat (kt_pid t) @ '' ('' @ kt_exe t @ '')''"

text \<open>
  The loop over the targets: the handles to signal with their names, the live processes that could
  not be pinned, and the moment after it. One target takes five calls: the handle, the start time,
  the executable, the user, the control group.
\<close>

fun pick_targets ::
    "kill_env \<Rightarrow> (string \<Rightarrow> ('i, 'c) alert option) \<Rightarrow> nat \<Rightarrow> kill_target list
     \<Rightarrow> (pid_handle \<times> string) list \<times> (string \<times> pin_failure) list \<times> nat" where
  "pick_targets env lookup now [] = ([], [], now)"
| "pick_targets env lookup now (t # ts) =
     (let (doomed, unpinned, later) = pick_targets env lookup (now + 5) ts in
      case lookup (kt_alert t) of
        None \<Rightarrow> (doomed, unpinned, later)
      | Some a \<Rightarrow>
          case try_open env now (kt_pid t) of
            Inl e \<Rightarrow> (doomed, (if e = Gone then unpinned else (named_target t, e) # unpinned), later)
          | Inr h \<Rightarrow>
              if verify_pid env (now + 1) (kt_pid t) (pr_start_ts (al_process a)) (kt_exe t) \<noteq> Inr ()
              then (doomed, unpinned, later)
              else if refuse_to_kill env (now + 3) (kt_pid t) (pr_uid (al_process a)) \<noteq> None
              then (doomed, unpinned, later)
              else ((h, named_target t) # doomed, unpinned, later))"

record kill_outcome =
  ko_decision :: "(string \<times> string \<times> string list) option"
  ko_sent :: "(nat \<times> pid_handle) list"
  ko_chains :: "string list"
  ko_protection :: "(nat \<times> string list) option"

text \<open>\<open>SIGKILL\<close> to each handle after \<open>SIGSTOP\<close> to all of them: one call each.\<close>

definition kill_pass :: "nat \<Rightarrow> pid_handle list \<Rightarrow> (nat \<times> pid_handle) list" where
  "kill_pass later hs = map (\<lambda>(i, h). (later + length hs + i, h)) (enumerate 0 hs)"

definition spare_ancestor :: "chain_rec \<Rightarrow> step_fact list \<Rightarrow> bool" where
  "spare_ancestor c facts \<longleftrightarrow>
     length (btree_set (map sf_family (filter (\<lambda>f. sf_pid f = an_pid (ch_ancestor c)) facts))) < 2"

definition kill_list :: "(string \<Rightarrow> ('i, 'c) alert option) \<Rightarrow> chain_rec \<Rightarrow> step_fact list \<Rightarrow> kill_target list" where
  "kill_list lookup c facts =
     take MAX_TARGETS (host_targets lookup (tree_targets (ch_steps c) (an_pid (ch_ancestor c)) (spare_ancestor c facts)))"

definition maybe_kill_tree ::
    "kill_env \<Rightarrow> (string \<Rightarrow> ('i, 'c) alert option) \<Rightarrow> string \<Rightarrow> string list \<Rightarrow> nat \<Rightarrow> chain_rec \<Rightarrow> kill_outcome" where
  "maybe_kill_tree env lookup mode killed_chains now c =
     (let quiet = \<lparr>ko_decision = None, ko_sent = [], ko_chains = killed_chains, ko_protection = None\<rparr> in
      if mode = ''off'' \<or> ch_id c \<in> set killed_chains then quiet
      else
        let gate = gate_of lookup c in
        case cg_verdict gate of
          Inl why \<Rightarrow> quiet\<lparr>ko_decision := Some (''spared'', why, [])\<rparr>
        | Inr _ \<Rightarrow>
            let (doomed, unpinned, later) = pick_targets env lookup now (kill_list lookup c (cg_facts gate));
                named = map snd doomed; chains = ch_id c # killed_chains in
            if doomed = [] then
              (if unpinned = [] then quiet
               else quiet\<lparr>ko_decision :=
                      Some (''kill_failed'', ''gate passed, but no implicated process could be pinned'', map fst unpinned)\<rparr>)
            else if mode \<noteq> ''kill'' then
              quiet\<lparr>ko_chains := chains, ko_decision := Some (''would_have_killed'', ''gate passed; kill mode is log'', named)\<rparr>
            else
              let sent = kill_pass later (map fst doomed) in
              \<lparr>ko_decision = Some (''killed'', ''gate passed'', named), ko_sent = sent, ko_chains = chains,
               ko_protection = Some (length (filter (\<lambda>(t, h). signal_reaches env t h) sent), named)\<rparr>)"

section \<open>The quarantine\<close>

definition SECRET_MARKERS :: "string list" where
  "SECRET_MARKERS = 
    [''/.ssh/'', ''/.gnupg/'', ''/.aws/credentials'', ''/.aws/config'', ''/.config/gcloud/'',
     ''/.azure/'', ''/.kube/config'', ''/.docker/config.json'', ''/.netrc'', ''/.npmrc'', ''/.pypirc'',
     ''/.git-credentials'', ''/.config/gh/hosts.yml'', ''/.claude/.credentials.json'',
     ''/.claude.json'', ''/.config/openai/auth.json'', ''/.gemini/oauth_creds.json'',
     ''/.config/opencode/auth.json'', ''/.local/share/amazon-q/credentials.json'', ''/.mcp.json'',
     ''/.codex/config.toml'', ''/.gemini/settings.json'', ''/opencode.json'',
     ''/.claude/settings.json'', ''/.claude/settings.local.json'', ''/.claude/hooks.json'',
     ''/.cursor/mcp.json'', ''/.vscode/tasks.json'', ''/.vscode/launch.json'', ''/.config/anthropic/'',
     ''/.codex/auth.json'', ''/etc/shadow'', ''/etc/gshadow'', ''/etc/ssl/private/'', ''/secrets/'',
     ''/.mozilla/firefox/'', ''/.config/rclone/'', ''/.pgpass'', ''/.my.cnf'']"

definition SECRET_BASENAMES :: "string list" where
  "SECRET_BASENAMES =
    [''login data'', ''login data for account'', ''cookies'', ''web data'', ''local state'',
     ''logins.json'', ''key3.db'', ''key4.db'', ''cert9.db'', ''cookies.sqlite'', ''signons.sqlite'',
     ''.env'', ''.envrc'']"

definition SECRET_SUFFIXES :: "string list" where
  "SECRET_SUFFIXES =
    [''.pem'', ''.key'', ''.p12'', ''.pfx'', ''.jks'', ''.keystore'', ''.kdbx'', ''.gpg'', ''.asc'']"

definition is_secret_path :: "string \<Rightarrow> bool" where
  "is_secret_path path =
     (let p = to_lower path; base = basename p in
      if list_ex (\<lambda>m. contains_str p m) SECRET_MARKERS then True
      else if list_ex (\<lambda>s. ends_with p s) SECRET_SUFFIXES then True
      else if base \<in> set SECRET_BASENAMES then True
      else if starts_with base ''.env.'' then True
      else starts_with base ''id_'' \<and> \<not> ends_with p ''.pub'' \<and> contains_str p ''/.ssh'')"

text \<open>What one step asks to have moved: the alert and the path.\<close>

definition quarantine_step :: "(string \<Rightarrow> ('i, 'c) alert option) \<Rightarrow> bool \<Rightarrow> string list \<Rightarrow> chain_step \<Rightarrow> (string \<times> string) option" where
  "quarantine_step lookup critical roots st =
     (if st_family st \<noteq> ''exec'' \<and> st_family st \<noteq> ''persist'' then None
      else case lookup (st_alert st) of
        None \<Rightarrow> None
      | Some a \<Rightarrow>
          if is_suppressed a \<or> al_action_taken a \<noteq> ''none'' then None
          else if \<not> may_act_on a then None
          else if is_building_block a \<and> \<not> critical then None
          else case al_file a of
            None \<Rightarrow> None
          | Some f \<Rightarrow>
              if fr_path f = [] \<or> \<not> under_any (fr_path f) roots then None
              else if is_secret_path (fr_path f) then None
              else Some (al_id a, fr_path f))"

text \<open>
  The whole pass. Moving a file sets \<open>action_taken\<close> of its alert, so a later step of the same alert
  finds it taken: \<open>taken\<close> are the alerts whose file was moved, \<open>moves\<close> says which moves succeed.
\<close>

fun quarantine_loop ::
    "(string \<Rightarrow> ('i, 'c) alert option) \<Rightarrow> bool \<Rightarrow> string list \<Rightarrow> (string \<Rightarrow> string \<Rightarrow> bool) \<Rightarrow> chain_step list
     \<Rightarrow> string list \<Rightarrow> (string \<times> string) list" where
  "quarantine_loop lookup critical roots moves [] taken = []"
| "quarantine_loop lookup critical roots moves (st # sts) taken =
     (case (if st_alert st \<in> set taken then None else quarantine_step lookup critical roots st) of
        None \<Rightarrow> quarantine_loop lookup critical roots moves sts taken
      | Some (i, path) \<Rightarrow>
          (i, path) # quarantine_loop lookup critical roots moves sts (if moves i path then st_alert st # taken else taken))"

definition quarantine_chain_artifacts ::
    "(string \<Rightarrow> ('i, 'c) alert option) \<Rightarrow> bool \<Rightarrow> string list \<Rightarrow> (string \<Rightarrow> string \<Rightarrow> bool) \<Rightarrow> chain_rec
     \<Rightarrow> (string \<times> string) option \<times> (string \<times> string) list" where
  "quarantine_chain_artifacts lookup enabled homes moves c =
     (if \<not> enabled then (None, [])
      else case cg_verdict (gate_of lookup c) of
        Inl why \<Rightarrow> (Some (''quarantine_spared'', why), [])
      | Inr _ \<Rightarrow>
          (None, quarantine_loop lookup (severity_rank (ch_severity c) \<ge> severity_rank ''critical'')
                   (homes @ [''/tmp'', ''/var/tmp'', ''/dev/shm'']) moves (filter is_trigger (ch_steps c)) []))"

section \<open>What the gate asks for\<close>

lemma gate_facts_in:
  "f \<in> set (gate_facts lookup c) \<Longrightarrow>
     \<exists>st \<in> set (ch_steps c). \<exists>a. is_trigger st \<and> lookup (st_alert st) = Some a \<and> \<not> is_suppressed a
       \<and> f = \<lparr>sf_family = al_family a, sf_novel = \<not> is_common (al_rarity a), sf_pid = st_pid st\<rparr>"
  by (fastforce simp: gate_facts_def in_map_filter split: option.splits if_splits)

lemma gate_passes:
  assumes "cg_verdict (gate_of lookup c) = Inr ()"
  shows "2 \<le> severity_rank (ch_severity c)"
    and "\<exists>f \<in> set (gate_facts lookup c). \<exists>g \<in> set (gate_facts lookup c).
      sf_novel f \<and> sf_novel g \<and> sf_family f \<noteq> sf_family g"
    and "\<exists>f \<in> set (gate_facts lookup c). sf_family f \<in> set CONSEQUENCE"
    and "\<not> all_contained lookup c"
proof -
  let ?facts = "gate_facts lookup c"
  from assms have w: "worth_killing_for (ch_severity c) ?facts = Inr ()" and n: "\<not> all_contained lookup c"
    by (auto simp: gate_of_def Let_def split: if_splits)
  show "\<not> all_contained lookup c" by (rule n)
  from w show "2 \<le> severity_rank (ch_severity c)" by (auto simp: worth_killing_for_def Let_def split: if_splits)
  from w have "list_ex (\<lambda>f. f \<in> set CONSEQUENCE) (btree_set (map sf_family ?facts))"
    by (auto simp: worth_killing_for_def Let_def split: if_splits)
  then show "\<exists>f \<in> set ?facts. sf_family f \<in> set CONSEQUENCE" by (auto simp: list_ex_iff)
  from w have "2 \<le> length (btree_set (map sf_family (filter sf_novel ?facts)))"
    by (auto simp: worth_killing_for_def Let_def not_less split: if_splits)
  then show "\<exists>f \<in> set ?facts. \<exists>g \<in> set ?facts. sf_novel f \<and> sf_novel g \<and> sf_family f \<noteq> sf_family g"
    unfolding btree_two by auto
qed

section \<open>Who is killed\<close>

text \<open>A pid is not an identity, but it carries one process without a gap: what has the same identity at two
  moments had it in between.\<close>

definition pids_carry_processes :: "kill_env \<Rightarrow> bool" where
  "pids_carry_processes env \<longleftrightarrow>
     (\<forall>p t1 t2 t3 a b. t1 \<le> t2 \<and> t2 \<le> t3 \<and> ke_world env t1 p = Some a \<and> ke_world env t3 p = Some b
        \<and> lp_identity a = lp_identity b
        \<longrightarrow> (\<exists>m. ke_world env t2 p = Some m \<and> lp_identity m = lp_identity a))"

lemma tree_targets_from_in:
  "t \<in> set (tree_targets_from anc spare ss out) \<Longrightarrow> t \<in> set out
     \<or> (\<exists>s \<in> set ss. is_trigger s \<and> st_pid s > 1 \<and> \<not> (spare \<and> st_pid s = anc)
          \<and> t = \<lparr>kt_pid = st_pid s, kt_exe = st_exe s, kt_alert = st_alert s\<rparr>)"
  by (induction anc spare ss out rule: tree_targets_from.induct) (auto split: if_splits)

lemma tree_targets_from_distinct:
  "distinct (map kt_pid out) \<Longrightarrow> distinct (map kt_pid (tree_targets_from anc spare ss out))"
proof (induction anc spare ss out rule: tree_targets_from.induct)
  case (2 anc spare s ss out)
  show ?case
  proof (cases "\<not> is_trigger s \<or> st_pid s = 0 \<or> st_pid s = 1 \<or> spare \<and> st_pid s = anc \<or> list_ex (\<lambda>t. kt_pid t = st_pid s) out")
    case True
    show ?thesis unfolding tree_targets_from.simps if_P [OF True] by (rule 2(1) [OF True 2(3)])
  next
    case False
    then have "st_pid s \<notin> kt_pid ` set out" by (auto simp: list_ex_iff)
    with 2(3) have "distinct (map kt_pid (out @ [\<lparr>kt_pid = st_pid s, kt_exe = st_exe s, kt_alert = st_alert s\<rparr>]))" by simp
    from 2(2) [OF False this] show ?thesis unfolding tree_targets_from.simps if_not_P [OF False] .
  qed
qed simp

lemma kill_list_in:
  assumes "t \<in> set (kill_list lookup c facts)"
  shows "\<exists>s \<in> set (ch_steps c). is_trigger s \<and> st_pid s > 1
      \<and> \<not> (spare_ancestor c facts \<and> st_pid s = an_pid (ch_ancestor c))
      \<and> t = \<lparr>kt_pid = st_pid s, kt_exe = st_exe s, kt_alert = st_alert s\<rparr>"
    and "lookup (kt_alert t) = Some a \<Longrightarrow> may_act_on a"
proof -
  from assms have h: "t \<in> set (host_targets lookup (tree_targets (ch_steps c) (an_pid (ch_ancestor c)) (spare_ancestor c facts)))"
    unfolding kill_list_def by (rule in_set_takeD)
  then show "lookup (kt_alert t) = Some a \<Longrightarrow> may_act_on a" by (simp add: host_targets_def)
  from h have "t \<in> set (tree_targets (ch_steps c) (an_pid (ch_ancestor c)) (spare_ancestor c facts))"
    by (simp add: host_targets_def)
  from tree_targets_from_in [OF this [unfolded tree_targets_def]]
  show "\<exists>s \<in> set (ch_steps c). is_trigger s \<and> st_pid s > 1
      \<and> \<not> (spare_ancestor c facts \<and> st_pid s = an_pid (ch_ancestor c))
      \<and> t = \<lparr>kt_pid = st_pid s, kt_exe = st_exe s, kt_alert = st_alert s\<rparr>" by simp
qed

lemma kill_list_bounds: "length (kill_list lookup c facts) \<le> 8" "distinct (map kt_pid (kill_list lookup c facts))"
  using tree_targets_from_distinct [of "[]"]
  by (simp_all add: kill_list_def MAX_TARGETS_def host_targets_def tree_targets_def take_map [symmetric] distinct_map_filter)

lemma pick_time: "pick_targets env lookup now ts = (doomed, unpinned, later) \<Longrightarrow> now \<le> later"
  by (induction env lookup now ts arbitrary: doomed unpinned later rule: pick_targets.induct)
     (force simp: Let_def split: prod.splits option.splits sum.splits if_splits)+

lemma pick_one:
  "pick_targets env lookup now ts = (doomed, unpinned, later) \<Longrightarrow> (h, n) \<in> set doomed \<Longrightarrow>
     \<exists>t \<in> set ts. \<exists>a k. lookup (kt_alert t) = Some a \<and> try_open env k (kt_pid t) = Inr h
       \<and> verify_pid env (k + 1) (kt_pid t) (pr_start_ts (al_process a)) (kt_exe t) = Inr ()
       \<and> refuse_to_kill env (k + 3) (kt_pid t) (pr_uid (al_process a)) = None \<and> k + 5 \<le> later"
proof (induction env lookup now ts arbitrary: doomed unpinned later rule: pick_targets.induct)
  case (2 env lookup now t ts)
  obtain d u l where rest: "pick_targets env lookup (now + 5) ts = (d, u, l)" using prod_cases3 by blast
  have l: "now + 5 \<le> l" using pick_time [OF rest] .
  from 2(2) rest have "l = later" by (auto simp: Let_def split: option.splits sum.splits if_splits)
  show ?case
  proof (cases "(h, n) \<in> set d")
    case True
    with 2(1) [OF rest this] \<open>l = later\<close> show ?thesis by fastforce
  next
    case False
    with 2(2,3) rest obtain a where "lookup (kt_alert t) = Some a" "try_open env now (kt_pid t) = Inr h"
      "verify_pid env (now + 1) (kt_pid t) (pr_start_ts (al_process a)) (kt_exe t) = Inr ()"
      "refuse_to_kill env (now + 3) (kt_pid t) (pr_uid (al_process a)) = None"
      by (auto simp: Let_def split: option.splits sum.splits if_splits)
    with l \<open>l = later\<close> show ?thesis by (intro bexI [of _ t] exI [of _ a] exI [of _ now]) auto
  qed
qed simp

lemma pick_pids:
  "pick_targets env lookup now ts = (doomed, unpinned, later) \<Longrightarrow> subseq (map (ph_pid \<circ> fst) doomed) (map kt_pid ts)"
proof (induction env lookup now ts arbitrary: doomed unpinned later rule: pick_targets.induct)
  case (2 env lookup now t ts)
  obtain d u l where rest: "pick_targets env lookup (now + 5) ts = (d, u, l)" using prod_cases3 by blast
  have "subseq (map (ph_pid \<circ> fst) d) (map kt_pid ts)" using 2(1) [OF rest] .
  with 2(2) rest show ?case
    by (auto simp: Let_def try_open_def comp_def intro: list_emb_Cons split: option.splits sum.splits if_splits)
qed simp

lemma same_process:
  assumes "pids_carry_processes env" and "try_open env k p = Inr h" and "k \<le> m" and "m \<le> t" and "signal_reaches env t h"
  shows "\<exists>l. ke_world env m p = Some l \<and> lp_identity l = ph_identity h" and "ph_pid h = p"
proof -
  from assms(2) obtain a where a: "ke_world env k p = Some a" "h = \<lparr>ph_pid = p, ph_identity = lp_identity a\<rparr>"
    by (auto simp: try_open_def split: option.splits)
  then show "ph_pid h = p" by simp
  from assms(5) a obtain b where b: "ke_world env t p = Some b" "lp_identity b = lp_identity a"
    by (auto simp: signal_reaches_def split: option.splits)
  from assms(1) [unfolded pids_carry_processes_def, rule_format, of k m t p a b] a b assms(3,4)
  show "\<exists>l. ke_world env m p = Some l \<and> lp_identity l = ph_identity h" by auto
qed

lemma kill_pass_handles: "map snd (kill_pass later hs) = hs"
  by (simp add: kill_pass_def comp_def case_prod_beta)

lemma kill_pass_late: "(t, h) \<in> set (kill_pass later hs) \<Longrightarrow> later \<le> t"
  by (auto simp: kill_pass_def)

text \<open>What a check saw of the process a handle names, at some moment before \<open>t\<close>.\<close>

definition was_seen :: "kill_env \<Rightarrow> nat \<Rightarrow> pid_handle \<Rightarrow> (live_proc \<Rightarrow> bool) \<Rightarrow> bool" where
  "was_seen env t h P \<longleftrightarrow>
     (\<exists>m < t. \<exists>l. ke_world env m (ph_pid h) = Some l \<and> lp_identity l = ph_identity h \<and> P l)"

definition started_at :: "kill_env \<Rightarrow> string \<Rightarrow> live_proc \<Rightarrow> bool" where
  "started_at env start_ts l \<longleftrightarrow>
     (\<exists>live want. lp_start l = Some live \<and> ke_nanos env start_ts = Some want \<and> \<bar>live - want\<bar> \<le> 2000000000)"

definition runs :: "kill_env \<Rightarrow> string \<Rightarrow> live_proc \<Rightarrow> bool" where
  "runs env exe l \<longleftrightarrow>
     (\<exists>raw. lp_exe l = Some raw
        \<and> (exe = [] \<or> trim_end_str '' (deleted)'' raw \<in> set (exe # binary_aliases (ke_canon env) exe)))"

definition owned_by :: "nat \<Rightarrow> live_proc \<Rightarrow> bool" where
  "owned_by uid l \<longleftrightarrow> Option.bind (lp_status l) (\<lambda>s. uid_line (lines_of s)) = Some uid"

definition outside_system_slice :: "live_proc \<Rightarrow> bool" where
  "outside_system_slice l \<longleftrightarrow>
     (case lp_cgroup l of None \<Rightarrow> True
      | Some s \<Rightarrow> (case lines_of s of [] \<Rightarrow> True | g # _ \<Rightarrow> \<not> contains_str g ''system.slice''))"

lemma checks_saw_it:
  assumes world: "pids_carry_processes env" and o': "try_open env k p = Inr h"
    and v: "verify_pid env (k + 1) p start_ts exe = Inr ()"
    and r: "refuse_to_kill env (k + 3) p uid = None"
    and late: "k + 5 \<le> t" and hit: "signal_reaches env t h"
  shows "was_seen env t h (started_at env start_ts)" "was_seen env t h (runs env exe)"
    "was_seen env t h (owned_by uid)" "was_seen env t h outside_system_slice"
    "ph_pid h = p" "p > 1" "p \<noteq> ke_self env"
proof -
  show p: "ph_pid h = p" using same_process(2) [OF world o' _ _ hit, of t] late by simp
  have at: "\<exists>l. ke_world env (k + d) p = Some l \<and> lp_identity l = ph_identity h" if "d < 5" for d
    using same_process(1) [OF world o' _ _ hit, of "k + d"] that late by simp
  from at [of 1] at [of 2] at [of 3] at [of 4] obtain l1 l2 l3 l4 where
    w: "ke_world env (k + 1) p = Some l1" "lp_identity l1 = ph_identity h"
      "ke_world env (k + 2) p = Some l2" "lp_identity l2 = ph_identity h"
      "ke_world env (k + 3) p = Some l3" "lp_identity l3 = ph_identity h"
      "ke_world env (k + 4) p = Some l4" "lp_identity l4 = ph_identity h" by fastforce
  have seen: "was_seen env t h P" if "ke_world env (k + d) p = Some l" "lp_identity l = ph_identity h" "P l" "d < 5" for d l P
    unfolding was_seen_def p using that late by (intro exI [of _ "k + d"]) auto
  have s2: "k + 1 + 1 = k + 2" and s4: "k + 3 + 1 = k + 4" by simp_all
  from v w(1,3) have "started_at env start_ts l1" "runs env exe l2"
    unfolding verify_pid_def s2 by (auto simp: started_at_def runs_def Let_def split: option.splits if_splits)
  then show "was_seen env t h (started_at env start_ts)" "was_seen env t h (runs env exe)"
    using seen [OF w(1,2)] seen [OF w(3,4)] by simp_all
  from r w(5,7) have "owned_by uid l3" "outside_system_slice l4" "p > 1" "p \<noteq> ke_self env"
    unfolding refuse_to_kill_def s4
    by (auto simp: owned_by_def outside_system_slice_def proc_uid_def proc_cgroup_def split: option.splits if_splits list.splits)
  then show "was_seen env t h (owned_by uid)" "was_seen env t h outside_system_slice" "p > 1" "p \<noteq> ke_self env"
    using seen [OF w(5,6)] seen [OF w(7,8)] by simp_all
qed

text \<open>C14: A kill is earned, and reaches the process it was decided on. Whatever the machine does between the calls,
  a process that a tree kill actually ends was itself the subject of every check: it was named by a
  trigger step of a chain that passed the gate and was not acted on before, its step's alert could be
  read and is not known to come from a container, it is neither pid 1 nor moatd, its own start time
  is within two seconds of the alert's, its user is the alert's, it runs the executable of the step or
  what that resolves to, and it is outside \<open>system.slice\<close>. It happens in \<open>kill\<close> mode only, to eight
  processes at most, to each pid once, and to the chain's ancestor only when that acted in two families.\<close>

theorem kill_is_earned:
  assumes world: "pids_carry_processes env"
    and out: "maybe_kill_tree env lookup mode killed now c = ko" and sent: "(t, h) \<in> set (ko_sent ko)"
    and hit: "signal_reaches env t h"
  shows "mode = ''kill'' \<and> ch_id c \<notin> set killed \<and> cg_verdict (gate_of lookup c) = Inr ()
    \<and> length (ko_sent ko) \<le> 8 \<and> distinct (map (ph_pid \<circ> snd) (ko_sent ko))
    \<and> (\<exists>st \<in> set (ch_steps c). \<exists>a. is_trigger st \<and> ph_pid h = st_pid st \<and> ph_pid h > 1 \<and> ph_pid h \<noteq> ke_self env
         \<and> \<not> (spare_ancestor c (gate_facts lookup c) \<and> ph_pid h = an_pid (ch_ancestor c))
         \<and> lookup (st_alert st) = Some a \<and> may_act_on a
         \<and> was_seen env t h (started_at env (pr_start_ts (al_process a)))
         \<and> was_seen env t h (runs env (st_exe st))
         \<and> was_seen env t h (owned_by (pr_uid (al_process a)))
         \<and> was_seen env t h outside_system_slice)"
proof -
  let ?ts = "kill_list lookup c (gate_facts lookup c)"
  obtain doomed unpinned later where pick: "pick_targets env lookup now ?ts = (doomed, unpinned, later)"
    using prod_cases3 by blast
  have facts: "cg_facts (gate_of lookup c) = gate_facts lookup c" by (simp add: gate_of_def Let_def)
  from out sent have gate: "mode = ''kill''" "ch_id c \<notin> set killed" "cg_verdict (gate_of lookup c) = Inr ()"
    and k: "ko_sent ko = kill_pass later (map fst doomed)"
    using pick by (auto simp: maybe_kill_tree_def Let_def facts split: sum.splits if_splits)
  have pids: "map (ph_pid \<circ> snd) (ko_sent ko) = map (ph_pid \<circ> fst) doomed"
    unfolding k map_map [symmetric] kill_pass_handles ..
  have sub: "subseq (map (ph_pid \<circ> fst) doomed) (map kt_pid ?ts)" using pick_pids [OF pick] .
  have bounds: "length (ko_sent ko) \<le> 8" "distinct (map (ph_pid \<circ> snd) (ko_sent ko))"
    using list_emb_length [OF sub] kill_list_bounds [of lookup c "gate_facts lookup c"] pids
      subseq_distinct sub by (auto dest: arg_cong [of _ _ length])
  have late: "later \<le> t" and "h \<in> set (map fst doomed)"
    using sent kill_pass_late [of t h later "map fst doomed"] kill_pass_handles [of later "map fst doomed"]
    unfolding k by (auto simp del: list.set_map) (metis image_eqI list.set_map snd_conv)
  then obtain n where "(h, n) \<in> set doomed" by auto
  from pick_one [OF pick this] obtain tg a j where tg: "tg \<in> set ?ts" "lookup (kt_alert tg) = Some a"
    and o': "try_open env j (kt_pid tg) = Inr h"
    and v: "verify_pid env (j + 1) (kt_pid tg) (pr_start_ts (al_process a)) (kt_exe tg) = Inr ()"
    and r: "refuse_to_kill env (j + 3) (kt_pid tg) (pr_uid (al_process a)) = None" and "j + 5 \<le> later"
    by blast
  with late have "j + 5 \<le> t" by simp
  note checks = checks_saw_it [OF world o' v r this hit]
  from kill_list_in(1) [OF tg(1)] obtain st where st: "st \<in> set (ch_steps c)" "is_trigger st"
    "\<not> (spare_ancestor c (gate_facts lookup c) \<and> st_pid st = an_pid (ch_ancestor c))"
    "tg = \<lparr>kt_pid = st_pid st, kt_exe = st_exe st, kt_alert = st_alert st\<rparr>" by blast
  have "may_act_on a" by (rule kill_list_in(2) [OF tg])
  with gate bounds st tg(2) checks show ?thesis by auto
qed

text \<open>Two processes that live for good, and a chain of two novel steps of them.\<close>

definition still_world :: kill_env where
  "still_world = \<lparr>ke_world = (\<lambda>_ p. if p = 7 \<or> p = 9 then Some \<lparr>lp_identity = p, lp_start = Some 5, lp_exe = Some ''/tmp/x'',
       lp_status = Some ''Uid: 1000'', lp_cgroup = None\<rparr> else None),
     ke_pin = (\<lambda>_. None), ke_self = 3, ke_nanos = (\<lambda>_. Some 4), ke_canon = (\<lambda>_. None)\<rparr>"

definition novel_alert :: "string \<Rightarrow> (unit, unit) alert option" where
  "novel_alert i =
     Some ((plain_alert i ''high'')\<lparr>al_family := (if i = ''a'' then ''net'' else ''exec''), al_rarity := FirstSeen\<rparr>)"

definition kill_step :: "string \<Rightarrow> nat \<Rightarrow> chain_step" where
  "kill_step i p = \<lparr>st_summary = [], st_alert = i, st_ts = [], st_family = [], st_rule = [], st_severity = [], st_title = [],
     st_pid = p, st_exe = ''/tmp/x'', st_role = ''trigger''\<rparr>"

definition kill_story :: chain_rec where
  "kill_story = \<lparr>ch_v = 1, ch_id = ''a'', ch_ancestor = \<lparr>an_pid = 1, an_exe = []\<rparr>, ch_families = [], ch_severity = ''critical'',
     ch_severity_base = ''high'', ch_severity_reason = [], ch_first_ts = [], ch_last_ts = [], ch_span_secs = 0,
     ch_steps = [kill_step ''a'' 7, kill_step ''b'' 9], ch_steps_total = 2, ch_truncated = False, ch_members = [''a'', ''b''],
     ch_triggers_total = 2, ch_summary = []\<rparr>"

lemma still_world_keeps: "pids_carry_processes still_world"
  by (auto simp: pids_carry_processes_def still_world_def)

lemma kill_story_facts:
  "gate_facts novel_alert kill_story =
     [\<lparr>sf_family = ''net'', sf_novel = True, sf_pid = 7\<rparr>, \<lparr>sf_family = ''exec'', sf_novel = True, sf_pid = 9\<rparr>]"
  by (simp add: gate_facts_def kill_story_def kill_step_def novel_alert_def map_filter_simps is_trigger_def
    is_suppressed_def plain_alert_def is_common_def)

lemma kill_story_gate: "cg_verdict (gate_of novel_alert kill_story) = Inr ()"
proof -
  have two: "length (btree_set [''net'', ''exec'']) = 2" by (simp add: length_btree)
  have "worth_killing_for (ch_severity kill_story) (gate_facts novel_alert kill_story) = Inr ()"
    unfolding kill_story_facts worth_killing_for_def
    by (simp add: two kill_story_def severity_rank_def CONSEQUENCE_def Let_def list_ex_iff)
  moreover have "\<not> all_contained novel_alert kill_story"
    by (simp add: all_contained_def Let_def kill_story_def kill_step_def novel_alert_def map_filter_simps is_trigger_def
      may_act_on_def plain_alert_def)
  ultimately show ?thesis by (simp add: gate_of_def Let_def)
qed

lemma kill_story_list:
  "kill_list novel_alert kill_story (gate_facts novel_alert kill_story)
     = [\<lparr>kt_pid = 7, kt_exe = ''/tmp/x'', kt_alert = ''a''\<rparr>, \<lparr>kt_pid = 9, kt_exe = ''/tmp/x'', kt_alert = ''b''\<rparr>]"
  by (simp add: kill_list_def tree_targets_def kill_story_def kill_step_def is_trigger_def host_targets_def novel_alert_def
    may_act_on_def plain_alert_def MAX_TARGETS_def)

lemma kill_story_checks:
  "p = 7 \<or> p = 9 \<Longrightarrow> try_open still_world k p = Inr \<lparr>ph_pid = p, ph_identity = p\<rparr>"
  "p = 7 \<or> p = 9 \<Longrightarrow> verify_pid still_world k p s ''/tmp/x'' = Inr ()"
  "p = 7 \<or> p = 9 \<Longrightarrow> refuse_to_kill still_world k p 1000 = None"
proof -
  have "trim_end_str '' (deleted)'' ''/tmp/x'' = ''/tmp/x''" by (subst trim_end_str.simps) (simp add: suffix_def)
  then show "p = 7 \<or> p = 9 \<Longrightarrow> verify_pid still_world k p s ''/tmp/x'' = Inr ()"
    by (auto simp: verify_pid_def still_world_def)
  have "lines_of ''Uid: 1000'' = [''Uid: 1000'']" "strip_prefix ''Uid: 1000'' ''Uid:'' = Some '' 1000''"
    "split_whitespace '' 1000'' = [''1000'']" by code_simp+
  moreover have "parse_u32 ''1000'' = Some 1000"
    by (simp add: parse_unsigned_def parse_radix_def digit_val_def is_digit_def)
  ultimately have "uid_line (lines_of ''Uid: 1000'') = Some 1000" by simp
  then show "p = 7 \<or> p = 9 \<Longrightarrow> refuse_to_kill still_world k p 1000 = None"
    by (auto simp: refuse_to_kill_def proc_uid_def proc_cgroup_def still_world_def)
qed (auto simp: try_open_def still_world_def)

lemma kill_story_dies:
  "ko_sent (maybe_kill_tree still_world novel_alert ''kill'' [] 0 kill_story)
     = [(12, \<lparr>ph_pid = 7, ph_identity = 7\<rparr>), (13, \<lparr>ph_pid = 9, ph_identity = 9\<rparr>)]"
proof -
  have facts: "cg_facts (gate_of novel_alert kill_story) = gate_facts novel_alert kill_story" by (simp add: gate_of_def Let_def)
  have uid: "\<exists>a. novel_alert i = Some a \<and> pr_uid (al_process a) = 1000" for i by (simp add: novel_alert_def plain_alert_def)
  then obtain a b where ab: "novel_alert ''a'' = Some a" "pr_uid (al_process a) = 1000"
    "novel_alert ''b'' = Some b" "pr_uid (al_process b) = 1000" by blast
  show ?thesis
    by (simp add: maybe_kill_tree_def Let_def facts kill_story_list kill_story_gate ab kill_story_checks kill_pass_def)
qed

theorem kill_is_earned_witness:
  "let ko = maybe_kill_tree still_world novel_alert ''kill'' [] 0 kill_story; h = \<lparr>ph_pid = 7, ph_identity = 7\<rparr> in
   (12, h) \<in> set (ko_sent ko) \<and> signal_reaches still_world 12 h \<and> cg_verdict (gate_of novel_alert kill_story) = Inr ()
   \<and> length (ko_sent ko) \<le> 8"
proof -
  have hit: "signal_reaches still_world 12 \<lparr>ph_pid = 7, ph_identity = 7\<rparr>" by (simp add: signal_reaches_def still_world_def)
  from kill_is_earned [OF still_world_keeps refl _ hit, of novel_alert "''kill''" "[]" 0 kill_story] hit
  show ?thesis by (simp add: kill_story_dies)
qed

end
