(* ===== verification/Contain_Engine.thy ===== *)
theory Contain_Engine
  imports Contain Kill_Gate Netmatch
begin

text \<open>
  Containment as the engine drives it (\<open>moatd/src/engine.rs\<close>): which connections of a chain it may
  refuse, the slot whose name the policy takes, loading, releasing, and the four events that change
  the live containments. Tetragon is the parameter \<open>tetra\<close>: loading or deleting a policy says whether it
  succeeded, and \<open>te_loaded\<close> tells what is loaded. \<open>tetra_sound\<close> is its documented behaviour: a name is
  loaded at most once, only the policy named changes, and a call that fails changes nothing; \<open>tetra_ok\<close> says
  on top that deletions succeed, which the engine never checks.
\<close>

section \<open>What may be refused\<close>

definition add_member ::
    "(string \<Rightarrow> ('i, 'c) alert option) \<Rightarrow> (string \<times> string \<times> string) list \<Rightarrow> chain_step \<Rightarrow> (string \<times> string \<times> string) list" where
  "add_member lookup members st =
     (case lookup (st_alert st) of
        None \<Rightarrow> members
      | Some a \<Rightarrow>
          if al_suppressed_by a \<noteq> None then members
          else case al_net a of
            None \<Rightarrow> members
          | Some net \<Rightarrow>
              if nr_dst_ip net = [] then members
              else if \<not> may_act_on a then members
              else bt_insert (al_id a) (pr_exe (al_process a), nr_dst_ip net) members)"

definition host_net_members :: "(string \<Rightarrow> ('i, 'c) alert option) \<Rightarrow> chain_rec \<Rightarrow> (string \<times> string \<times> string) list" where
  "host_net_members lookup c = foldl (add_member lookup) [] (filter is_trigger (ch_steps c))"

definition ip_unspecified :: "ip_addr \<Rightarrow> bool" where
  "ip_unspecified ip = (case ip of V4 a \<Rightarrow> v4_unspecified a | V6 a \<Rightarrow> v6_unspecified a)"

definition is_unspecified_dest :: "string \<Rightarrow> bool" where
  "is_unspecified_dest d0 =
     (let d = trim d0 in
      if d = [] then True
      else case parse_ip (hd (split_on CHR ''/'' d)) of Some ip \<Rightarrow> ip_unspecified ip | None \<Rightarrow> True)"

record contain_config =
  cc_enabled :: bool
  cc_ttl_secs :: nat
  cc_max :: nat
  cc_private :: string

definition push_new :: "'a list \<Rightarrow> 'a \<Rightarrow> 'a list" where
  "push_new xs x = (if x \<in> set xs then xs else xs @ [x])"

definition may_refuse :: "contain_config \<Rightarrow> string \<Rightarrow> bool" where
  "may_refuse cfg d =
     (if is_unspecified_dest d then False
      else if cc_private cfg \<noteq> ''block'' then (case parse_ip d of Some ip \<Rightarrow> \<not> is_private ip | None \<Rightarrow> True)
      else True)"

text \<open>Every executable with what it resolves to, and every destination that may be refused, each once.\<close>

definition contain_names ::
    "contain_config \<Rightarrow> (string \<Rightarrow> string option) \<Rightarrow> (string \<times> string list) list \<Rightarrow> string list \<times> string list" where
  "contain_names cfg canonicalize ts =
     (foldl push_new [] (concat (map (\<lambda>(exe, ds). binary_aliases canonicalize exe) ts)),
      foldl push_new [] (filter (may_refuse cfg) (concat (map snd ts))))"

section \<open>The kernel and the record\<close>

record 'k tetra =
  te_add :: "'k \<Rightarrow> string \<Rightarrow> string \<Rightarrow> bool \<times> 'k"
  te_delete :: "'k \<Rightarrow> string \<Rightarrow> bool \<times> 'k"
  te_loaded :: "'k \<Rightarrow> string set"
  te_write :: "string \<Rightarrow> bool"

definition tetra_sound :: "'k tetra \<Rightarrow> bool" where
  "tetra_sound te \<longleftrightarrow>
     (\<forall>k n y. (fst (te_add te k n y) \<longrightarrow> n \<notin> te_loaded te k \<and> te_loaded te (snd (te_add te k n y)) = insert n (te_loaded te k))
        \<and> (\<not> fst (te_add te k n y) \<longrightarrow> te_loaded te (snd (te_add te k n y)) = te_loaded te k))
     \<and> (\<forall>k n. te_loaded te (snd (te_delete te k n))
          = (if fst (te_delete te k n) then te_loaded te k - {n} else te_loaded te k))"

definition tetra_ok :: "'k tetra \<Rightarrow> bool" where
  "tetra_ok te \<longleftrightarrow> tetra_sound te \<and> (\<forall>k n. fst (te_delete te k n))"

record 'k contain_engine =
  ck_store :: contain_store
  ck_kernel :: 'k
  ck_files :: "string \<Rightarrow> string option"
  ck_marked :: "string list"
  ck_saved :: json

definition release_contain :: "'k tetra \<Rightarrow> containment \<Rightarrow> 'k contain_engine \<Rightarrow> 'k contain_engine" where
  "release_contain te c s =
     s\<lparr>ck_kernel := snd (te_delete te (ck_kernel s) (cn_policy c)), ck_files := (ck_files s)(cn_policy c := None)\<rparr>"

definition save :: "'k contain_engine \<Rightarrow> 'k contain_engine" where
  "save s = s\<lparr>ck_saved := to_state (ck_store s)\<rparr>"

definition slot_of :: "containment \<Rightarrow> nat option" where
  "slot_of c = parse_u64 (last (split_on CHR ''-'' (cn_policy c)))"

definition contain_slot_for :: "'k tetra \<Rightarrow> nat \<Rightarrow> string \<Rightarrow> 'k contain_engine \<Rightarrow> nat \<times> 'k contain_engine" where
  "contain_slot_for te cfg_max chain s =
     (let mx = max cfg_max 1; live = kn_live (ck_store s) in
      case Option.bind (List.find (\<lambda>c. cn_chain c = chain) live) slot_of of
        Some i \<Rightarrow> (i, s)
      | None \<Rightarrow>
          let taken = List.map_filter slot_of live in
          case List.find (\<lambda>i. i \<notin> set taken) [0..<mx] of
            Some free \<Rightarrow> (free, s)
          | None \<Rightarrow>
              (if live = [] then (0, s)
               else let c = arg_min_list cn_since live in
                    (case slot_of c of Some i \<Rightarrow> i | None \<Rightarrow> 0, release_contain te c s)))"

text \<open>From the slot on: write the policy, load it, put it on record, stamp the members.\<close>

definition load_containment ::
    "'k tetra \<Rightarrow> contain_config \<Rightarrow> nat \<Rightarrow> chain_rec \<Rightarrow> string list \<Rightarrow> string list \<Rightarrow> 'k contain_engine \<Rightarrow> 'k contain_engine" where
  "load_containment te cfg now c exes dests s =
     (let (slot, s1) = contain_slot_for te (cc_max cfg) (ch_id c) s;
          policy = contain_policy_name slot;
          yaml = policy_yaml policy exes dests (ch_id c) (cc_ttl_secs cfg) in
      if \<not> te_write te policy then s1
      else
        let (ok, k) = te_add te (ck_kernel s1) policy yaml;
            s2 = s1\<lparr>ck_kernel := k, ck_files := (ck_files s1)(policy := (if ok then Some yaml else None))\<rparr> in
        if \<not> ok then s2
        else
          let rec = \<lparr>cn_chain = ch_id c, cn_policy = policy, cn_exes = exes, cn_dests = dests, cn_since = now,
                     cn_expires = now + cc_ttl_secs cfg\<rparr>;
              (dropped, st) = insert_containment rec (cc_max cfg) (ck_store s2);
              s3 = foldl (\<lambda>s d. release_contain te d s) (s2\<lparr>ck_store := st\<rparr>) dropped in
          save (s3\<lparr>ck_marked := ck_marked s3 @ map st_alert (filter is_trigger (ch_steps c))\<rparr>))"

definition maybe_contain ::
    "'k tetra \<Rightarrow> contain_config \<Rightarrow> (string \<Rightarrow> string option) \<Rightarrow> (string \<Rightarrow> ('i, 'c) alert option) \<Rightarrow> nat \<Rightarrow> chain_rec
     \<Rightarrow> 'k contain_engine \<Rightarrow> 'k contain_engine" where
  "maybe_contain te cfg canonicalize lookup now c s =
     (if \<not> cc_enabled cfg then s
      else if severity_rank (ch_severity c) < severity_rank ''high'' then
        (case release (ch_id c) (ck_store s) of
           (Some rec, st) \<Rightarrow> release_contain te rec (s\<lparr>ck_store := st\<rparr>)
         | (None, st) \<Rightarrow> s)
      else if is_contained (ck_store s) (ch_id c) then s
      else
        let ts = targets (map snd (host_net_members lookup c)); (exes, dests) = contain_names cfg canonicalize ts in
        if ts = [] \<or> dests = [] then s else load_containment te cfg now c exes dests s)"

definition contain_tick :: "'k tetra \<Rightarrow> nat \<Rightarrow> 'k contain_engine \<Rightarrow> 'k contain_engine" where
  "contain_tick te now s =
     (let (gone, st) = expired now (ck_store s) in
      if gone = [] then s\<lparr>ck_store := st\<rparr>
      else save (foldl (\<lambda>s d. release_contain te d s) (s\<lparr>ck_store := st\<rparr>) gone))"

definition release_one :: "'k tetra \<Rightarrow> 'k contain_engine \<Rightarrow> containment \<Rightarrow> 'k contain_engine" where
  "release_one te s c =
     (let s' = release_contain te c s in s'\<lparr>ck_store := snd (release (cn_chain c) (ck_store s'))\<rparr>)"

definition release_all_contained :: "'k tetra \<Rightarrow> 'k contain_engine \<Rightarrow> nat \<times> 'k contain_engine" where
  "release_all_contained te s =
     (let all = kn_live (ck_store s) in (length all, save (foldl (release_one te) s all)))"

definition release_chain :: "'k tetra \<Rightarrow> string \<Rightarrow> 'k contain_engine \<Rightarrow> bool \<times> 'k contain_engine" where
  "release_chain te chain s =
     (case release chain (ck_store s) of
        (None, st) \<Rightarrow> (False, s)
      | (Some c, st) \<Rightarrow> (True, save (release_contain te c (s\<lparr>ck_store := st\<rparr>))))"

section \<open>Loading and releasing\<close>

lemma release_contain_simps [simp]:
  "ck_store (release_contain te c s) = ck_store s" "ck_marked (release_contain te c s) = ck_marked s"
  by (simp_all add: release_contain_def)

lemma loaded_release [simp]:
  "tetra_ok te \<Longrightarrow> te_loaded te (ck_kernel (release_contain te c s)) = te_loaded te (ck_kernel s) - {cn_policy c}"
  by (simp add: release_contain_def tetra_ok_def tetra_sound_def)

lemma release_many_store [simp]: "ck_store (foldl (\<lambda>s d. release_contain te d s) s ds) = ck_store s"
  by (induction ds arbitrary: s) simp_all

lemma save_simps [simp]: "ck_store (save s) = ck_store s" "ck_kernel (save s) = ck_kernel s" "ck_saved (save s) = to_state (ck_store s)"
  by (simp_all add: save_def)

lemma is_contain_policy_name [simp]: "is_contain_policy (contain_policy_name n)"
  by (simp add: is_contain_policy_def contain_policy_name_def)

lemma contain_policy_name_inj [simp]: "contain_policy_name m = contain_policy_name n \<longleftrightarrow> m = n"
proof
  assume "contain_policy_name m = contain_policy_name n"
  then have "parse_unsigned (Suc (max m n)) (show_nat m) = parse_unsigned (Suc (max m n)) (show_nat n)"
    by (simp add: contain_policy_name_def)
  then show "m = n" unfolding parse_show_nat by (simp split: if_splits)
qed simp

lemma split_on_last:
  assumes "c \<notin> set t"
  shows "last (split_on c (s @ c # t)) = t"
proof -
  have "split_on c t = [t]" using assms by (induction t) auto
  then have "\<exists>x xs. split_on c (s @ c # t) = x # xs @ [t]" by (induction s) auto
  then show ?thesis by fastforce
qed

lemma slot_of_name:
  assumes "cn_policy c = contain_policy_name n" and "n < 2 ^ 64"
  shows "slot_of c = Some n"
proof -
  have "CHR ''-'' \<notin> set (show_nat n)" using digits_show_nat [of "CHR ''-''" n] by (auto simp: is_digit_def)
  from split_on_last [OF this, of "''moat-contain''"] have "last (split_on CHR ''-'' (cn_policy c)) = show_nat n"
    by (simp add: assms(1) contain_policy_name_def del: split_on.simps)
  then show ?thesis using assms(2) unfolding slot_of_def by (simp add: parse_show_nat)
qed

text \<open>Every live containment is on its own slot and its policy is loaded. A stray is a policy of moat's own
  that is loaded and that no record names; the record is what the kernel has when there is none.\<close>

definition covered :: "'k tetra \<Rightarrow> nat \<Rightarrow> 'k contain_engine \<Rightarrow> bool" where
  "covered te mx s \<longleftrightarrow>
     cn_policy ` set (kn_live (ck_store s)) \<subseteq> te_loaded te (ck_kernel s)
     \<and> distinct (map cn_policy (kn_live (ck_store s))) \<and> distinct (map cn_chain (kn_live (ck_store s)))
     \<and> (\<forall>c \<in> set (kn_live (ck_store s)). \<exists>n < max mx 1. cn_policy c = contain_policy_name n)"

definition strays :: "'k tetra \<Rightarrow> 'k contain_engine \<Rightarrow> string set" where
  "strays te s = te_loaded te (ck_kernel s) \<inter> Collect is_contain_policy - cn_policy ` set (kn_live (ck_store s))"

definition agrees :: "'k tetra \<Rightarrow> nat \<Rightarrow> 'k contain_engine \<Rightarrow> bool" where
  "agrees te mx s \<longleftrightarrow>
     te_loaded te (ck_kernel s) \<inter> Collect is_contain_policy = cn_policy ` set (kn_live (ck_store s))
     \<and> distinct (map cn_policy (kn_live (ck_store s))) \<and> distinct (map cn_chain (kn_live (ck_store s)))
     \<and> (\<forall>c \<in> set (kn_live (ck_store s)). \<exists>n < max mx 1. cn_policy c = contain_policy_name n)"

lemma agrees_iff: "agrees te mx s \<longleftrightarrow> covered te mx s \<and> strays te s = {}"
  unfolding agrees_def covered_def strays_def by (auto simp: set_eq_iff)

text \<open>The names whose deletion Tetragon can refuse while they are loaded.\<close>

definition stuck :: "'k tetra \<Rightarrow> string \<Rightarrow> bool" where
  "stuck te p \<longleftrightarrow> (\<exists>k. p \<in> te_loaded te k \<and> \<not> fst (te_delete te k p))"

text \<open>Of the names \<open>R\<close> and of no others some were unloaded, and what is left of them is stuck.\<close>

definition unloads :: "'k tetra \<Rightarrow> string set \<Rightarrow> 'k contain_engine \<Rightarrow> 'k contain_engine \<Rightarrow> bool" where
  "unloads te R s s' \<longleftrightarrow>
     te_loaded te (ck_kernel s') \<subseteq> te_loaded te (ck_kernel s)
     \<and> te_loaded te (ck_kernel s) - R \<subseteq> te_loaded te (ck_kernel s')
     \<and> (\<forall>p \<in> R \<inter> te_loaded te (ck_kernel s'). stuck te p)"

lemma unloads_refl: "ck_kernel s' = ck_kernel s \<Longrightarrow> unloads te {} s s'"
  by (simp add: unloads_def)

lemma unloads_release: "tetra_sound te \<Longrightarrow> unloads te {cn_policy c} s (release_contain te c s)"
  by (auto simp: unloads_def release_contain_def tetra_sound_def stuck_def)

lemma unloads_trans: "unloads te R s s' \<Longrightarrow> unloads te Q s' s'' \<Longrightarrow> unloads te (R \<union> Q) s s''"
  unfolding unloads_def by blast

lemma unloads_cong: "unloads te R s s' \<Longrightarrow> ck_kernel t = ck_kernel s \<Longrightarrow> ck_kernel t' = ck_kernel s' \<Longrightarrow> unloads te R t t'"
  by (simp add: unloads_def)

lemma unloads_many:
  "tetra_sound te \<Longrightarrow> unloads te (cn_policy ` set ds) s (foldl (\<lambda>s d. release_contain te d s) s ds)"
proof (induction ds arbitrary: s)
  case (Cons d ds)
  from unloads_trans [OF unloads_release [OF Cons.prems] Cons.IH [OF Cons.prems], of d s] show ?case by simp
qed (simp add: unloads_refl)

text \<open>What a step does to the two.\<close>

definition accounted :: "'k tetra \<Rightarrow> nat \<Rightarrow> 'k contain_engine \<Rightarrow> 'k contain_engine \<Rightarrow> bool" where
  "accounted te mx s s' \<longleftrightarrow>
     covered te mx s'
     \<and> strays te s' \<subseteq> strays te s
         \<union> {p \<in> cn_policy ` (set (kn_live (ck_store s)) - set (kn_live (ck_store s'))). stuck te p}"

lemma accounted_shrink:
  assumes c: "covered te mx s" and live: "kn_live (ck_store s') = filter P (kn_live (ck_store s))"
    and u: "unloads te (cn_policy ` {c \<in> set (kn_live (ck_store s)). \<not> P c}) s s'"
  shows "accounted te mx s s'"
proof -
  let ?L = "set (kn_live (ck_store s))"
  have inj: "inj_on cn_policy ?L" using c by (simp add: covered_def distinct_map)
  have "cn_policy ` set (kn_live (ck_store s')) \<subseteq> te_loaded te (ck_kernel s')"
  proof
    fix p assume "p \<in> cn_policy ` set (kn_live (ck_store s'))"
    then obtain r where r: "r \<in> ?L" "P r" "p = cn_policy r" by (auto simp: live)
    then have "p \<notin> cn_policy ` {c \<in> ?L. \<not> P c}" using inj by (auto dest: inj_onD)
    moreover have "p \<in> te_loaded te (ck_kernel s)" using c r by (auto simp: covered_def)
    ultimately show "p \<in> te_loaded te (ck_kernel s')" using u by (auto simp: unloads_def)
  qed
  then have "covered te mx s'" using c by (auto simp: covered_def live distinct_map_filter)
  moreover have "p \<in> strays te s \<or> p \<in> cn_policy ` (?L - set (kn_live (ck_store s'))) \<and> stuck te p"
    if p: "p \<in> strays te s'" for p
  proof (cases "p \<in> cn_policy ` ?L")
    case False
    with p u show ?thesis by (auto simp: strays_def unloads_def)
  next
    case True
    then obtain r where r: "r \<in> ?L" "p = cn_policy r" by blast
    with p have "\<not> P r" by (auto simp: strays_def live)
    with r p u show ?thesis by (auto simp: strays_def unloads_def live)
  qed
  ultimately show ?thesis by (auto simp: accounted_def)
qed

lemma accounted_frame:
  "covered te mx s \<Longrightarrow> ck_store s' = ck_store s \<Longrightarrow> te_loaded te (ck_kernel s') = te_loaded te (ck_kernel s) \<Longrightarrow> accounted te mx s s'"
  by (simp add: accounted_def covered_def strays_def)

lemma release_filter:
  assumes "release chain st = (Some c, st')" and "distinct (map cn_chain (kn_live st))"
  shows "kn_live st' = filter (\<lambda>x. x \<noteq> c) (kn_live st)" and "c \<in> set (kn_live st)" and "cn_chain c = chain"
proof -
  from assms(1) obtain i where i: "position (\<lambda>c. cn_chain c = chain) (kn_live st) = Some i" "c = kn_live st ! i"
    "st' = st\<lparr>kn_live := remove_nth i (kn_live st)\<rparr>"
    by (auto simp: release_def split: option.splits)
  from position_Some [OF i(1)] have b: "i < length (kn_live st)" "cn_chain c = chain" using i(2) by auto
  then show "c \<in> set (kn_live st)" "cn_chain c = chain" using i(2) by auto
  show "kn_live st' = filter (\<lambda>x. x \<noteq> c) (kn_live st)"
    using remove_nth_filter [OF conjunct1 [OF iffD1 [OF distinct_map assms(2)]] b(1)] i(2,3) by simp
qed

section \<open>Every step of the engine\<close>

lemma accounted_drop:
  "tetra_sound te \<Longrightarrow> covered te mx s \<Longrightarrow> c \<in> set (kn_live (ck_store s))
     \<Longrightarrow> kn_live st = filter (\<lambda>x. x \<noteq> c) (kn_live (ck_store s)) \<Longrightarrow> ck_store s' = st
     \<Longrightarrow> ck_kernel s' = ck_kernel (release_contain te c (s\<lparr>ck_store := st\<rparr>)) \<Longrightarrow> accounted te mx s s'"
proof (rule accounted_shrink [of te mx s _ "\<lambda>x. x \<noteq> c"])
  assume te: "tetra_sound te" and c: "c \<in> set (kn_live (ck_store s))"
    and k: "ck_kernel s' = ck_kernel (release_contain te c (s\<lparr>ck_store := st\<rparr>))"
  have "unloads te {cn_policy c} s s'"
    by (rule unloads_cong [OF unloads_release [OF te, of c "s\<lparr>ck_store := st\<rparr>"]]) (simp_all add: k)
  moreover have "cn_policy ` {x \<in> set (kn_live (ck_store s)). \<not> x \<noteq> c} = {cn_policy c}" using c by auto
  ultimately show "unloads te (cn_policy ` {x \<in> set (kn_live (ck_store s)). \<not> x \<noteq> c}) s s'" by simp
qed simp_all

lemma covered_distinct: "covered te mx s \<Longrightarrow> distinct (map cn_chain (kn_live (ck_store s)))"
  by (simp add: covered_def)

lemma accounted_tick:
  assumes "tetra_sound te" and "covered te mx s"
  shows "accounted te mx s (contain_tick te now s)"
proof (rule accounted_shrink [OF assms(2), of _ "\<lambda>c. \<not> cn_expires c \<le> now"])
  let ?gone = "filter (\<lambda>c. cn_expires c \<le> now) (kn_live (ck_store s))"
  show "kn_live (ck_store (contain_tick te now s)) = filter (\<lambda>c. \<not> cn_expires c \<le> now) (kn_live (ck_store s))"
    by (auto simp: contain_tick_def expired_def Let_def)
  have "ck_kernel (contain_tick te now s)
      = ck_kernel (foldl (\<lambda>s d. release_contain te d s)
          (s\<lparr>ck_store := (ck_store s)\<lparr>kn_live := filter (\<lambda>c. \<not> cn_expires c \<le> now) (kn_live (ck_store s))\<rparr>\<rparr>) ?gone)"
    by (auto simp: contain_tick_def expired_def Let_def)
  from unloads_cong [OF unloads_many [OF assms(1)] _ this, of s]
  show "unloads te (cn_policy ` {c \<in> set (kn_live (ck_store s)). \<not> \<not> cn_expires c \<le> now}) s (contain_tick te now s)" by simp
qed

lemma accounted_release_chain:
  assumes "tetra_sound te" and "covered te mx s"
  shows "accounted te mx s (snd (release_chain te chain s))"
proof (cases "release chain (ck_store s)")
  case (Pair found st)
  show ?thesis
  proof (cases found)
    case (Some c)
    with Pair have r: "release chain (ck_store s) = (Some c, st)" by simp
    show ?thesis
      by (rule accounted_drop [OF assms release_filter(2,1) [OF r covered_distinct [OF assms(2)]]])
        (simp_all add: release_chain_def r)
  qed (use assms(2) in \<open>auto simp: release_chain_def Pair intro: accounted_frame\<close>)
qed

lemma release_one_live:
  "kn_live (ck_store s) = c # all \<Longrightarrow> kn_live (ck_store (release_one te s c)) = all"
  by (simp add: release_one_def Let_def release_def remove_nth_def)

lemma unloads_each:
  assumes "tetra_sound te"
  shows "kn_live (ck_store s) = all \<Longrightarrow> kn_live (ck_store (foldl (release_one te) s all)) = []
    \<and> unloads te (cn_policy ` set all) s (foldl (release_one te) s all)"
proof (induction all arbitrary: s)
  case (Cons c all)
  have "unloads te {cn_policy c} s (release_one te s c)"
    by (rule unloads_cong [OF unloads_release [OF assms, of c s]]) (simp_all add: release_one_def Let_def)
  from unloads_trans [OF this conjunct2 [OF Cons.IH [OF release_one_live [OF Cons.prems]]]]
    conjunct1 [OF Cons.IH [OF release_one_live [OF Cons.prems]]]
  show ?case by simp
qed (simp add: unloads_refl)

lemma accounted_release_all:
  assumes "tetra_sound te" and "covered te mx s"
  shows "accounted te mx s (snd (release_all_contained te s))"
proof (rule accounted_shrink [OF assms(2), of _ "\<lambda>_. False"])
  note each = unloads_each [OF assms(1), of s, OF refl]
  show "kn_live (ck_store (snd (release_all_contained te s))) = filter (\<lambda>_. False) (kn_live (ck_store s))"
    using each by (simp add: release_all_contained_def Let_def)
  show "unloads te (cn_policy ` {c \<in> set (kn_live (ck_store s)). \<not> False}) s (snd (release_all_contained te s))"
    using unloads_cong [OF conjunct2 [OF each], of s] by (simp add: release_all_contained_def Let_def)
qed

text \<open>With room left, a free slot is found, nothing is released, and only its name is loaded.\<close>

lemma free_slot:
  assumes "covered te mx s" and "mx < 2 ^ 64" and "length (kn_live (ck_store s)) < max mx 1"
    and "\<not> is_contained (ck_store s) chain"
  shows "\<exists>i < max mx 1. contain_slot_for te mx chain s = (i, s) \<and> contain_policy_name i \<notin> cn_policy ` set (kn_live (ck_store s))"
proof -
  let ?L = "kn_live (ck_store s)" and ?taken = "set (List.map_filter slot_of (kn_live (ck_store s)))"
  have slots: "slot_of c = Some n" if "c \<in> set ?L" "cn_policy c = contain_policy_name n" for c n
  proof -
    from that(1) assms(1) obtain m where "m < max mx 1" "cn_policy c = contain_policy_name m" by (auto simp: covered_def)
    with that(2) assms(2) show ?thesis using slot_of_name [of c n] by (auto simp: max_def split: if_splits)
  qed
  have "card ?taken \<le> length ?L"
    using card_length [of "List.map_filter slot_of ?L"] le_trans by (fastforce simp: List.map_filter_def)
  then have "card ?taken < card {0..<max mx 1}" using assms(3) by simp
  then have "\<not> {0..<max mx 1} \<subseteq> ?taken" using card_mono [of ?taken] by (metis List.finite_set leD)
  then have "\<exists>i \<in> set [0..<max mx 1]. i \<notin> ?taken" by auto
  then obtain i where i: "List.find (\<lambda>i. i \<notin> ?taken) [0..<max mx 1] = Some i"
    by (cases "List.find (\<lambda>i. i \<notin> ?taken) [0..<max mx 1]") (auto simp: find_None_iff)
  then have "i < max mx 1" "i \<notin> ?taken" by (auto simp: find_Some_iff)
  moreover have "List.find (\<lambda>c. cn_chain c = chain) ?L = None"
    using assms(4) by (auto simp: find_None_iff is_contained_def list_ex_iff)
  ultimately show ?thesis using i slots
    by (auto simp: contain_slot_for_def Let_def in_map_filter image_iff)
qed

lemma maybe_contain_cases:
  obtains (quiet) "maybe_contain te cfg canonicalize lookup now c s = s"
  | (dropped) rec st where "release (ch_id c) (ck_store s) = (Some rec, st)"
      "maybe_contain te cfg canonicalize lookup now c s = release_contain te rec (s\<lparr>ck_store := st\<rparr>)"
      "severity_rank (ch_severity c) < severity_rank ''high''"
  | (loads) exes dests where "cc_enabled cfg" "\<not> severity_rank (ch_severity c) < severity_rank ''high''"
      "\<not> is_contained (ck_store s) (ch_id c)" "dests \<noteq> []"
      "contain_names cfg canonicalize (targets (map snd (host_net_members lookup c))) = (exes, dests)"
      "maybe_contain te cfg canonicalize lookup now c s = load_containment te cfg now c exes dests s"
proof -
  obtain exes dests where names: "contain_names cfg canonicalize (targets (map snd (host_net_members lookup c))) = (exes, dests)"
    by fastforce
  obtain found st where rel: "release (ch_id c) (ck_store s) = (found, st)" by fastforce
  consider "\<not> cc_enabled cfg" | "cc_enabled cfg" "severity_rank (ch_severity c) < severity_rank ''high''"
    | "cc_enabled cfg" "\<not> severity_rank (ch_severity c) < severity_rank ''high''" by blast
  then show thesis
  proof cases
    case 1
    then show thesis by (intro quiet) (simp add: maybe_contain_def)
  next
    case 2
    then have "maybe_contain te cfg canonicalize lookup now c s
        = (case found of Some rec \<Rightarrow> release_contain te rec (s\<lparr>ck_store := st\<rparr>) | None \<Rightarrow> s)"
      unfolding maybe_contain_def rel by simp
    with rel 2(2) quiet dropped show thesis by (cases found) auto
  next
    case 3
    then have eq: "maybe_contain te cfg canonicalize lookup now c s
        = (if is_contained (ck_store s) (ch_id c) \<or> targets (map snd (host_net_members lookup c)) = [] \<or> dests = [] then s
           else load_containment te cfg now c exes dests s)"
      unfolding maybe_contain_def by (simp add: names)
    show thesis
    proof (cases "is_contained (ck_store s) (ch_id c) \<or> targets (map snd (host_net_members lookup c)) = [] \<or> dests = []")
      case True
      with eq quiet show thesis by simp
    next
      case False
      with eq 3 names show thesis by (intro loads [of dests exes]) simp_all
    qed
  qed
qed

lemma accounted_grow:
  assumes c: "covered te mx s" and live: "kn_live (ck_store s') = kn_live (ck_store s) @ [rec]"
    and loaded: "te_loaded te (ck_kernel s') = insert (cn_policy rec) (te_loaded te (ck_kernel s))"
    and "cn_policy rec = contain_policy_name i" and "i < max mx 1"
    and new: "cn_policy rec \<notin> te_loaded te (ck_kernel s)" and "cn_chain rec \<notin> cn_chain ` set (kn_live (ck_store s))"
  shows "accounted te mx s s'"
proof -
  have "cn_policy rec \<notin> cn_policy ` set (kn_live (ck_store s))" using c new by (auto simp: covered_def)
  then have "covered te mx s'"
    using assms unfolding covered_def live by (simp only: map_append set_append distinct_append) auto
  moreover have "strays te s' \<subseteq> strays te s" unfolding strays_def live loaded by auto
  ultimately show ?thesis by (auto simp: accounted_def)
qed

lemma accounted_load:
  assumes ok: "tetra_sound te" and a: "covered te (cc_max cfg) s" and "cc_max cfg < 2 ^ 64"
    and room: "length (kn_live (ck_store s)) < max (cc_max cfg) 1" and new: "\<not> is_contained (ck_store s) (ch_id c)"
  shows "accounted te (cc_max cfg) s (load_containment te cfg now c exes dests s)"
proof -
  let ?L = "kn_live (ck_store s)"
  from free_slot [OF a assms(3) room new] obtain i where i: "i < max (cc_max cfg) 1"
    "contain_slot_for te (cc_max cfg) (ch_id c) s = (i, s)" "contain_policy_name i \<notin> cn_policy ` set ?L" by blast
  define yaml where "yaml = policy_yaml (contain_policy_name i) exes dests (ch_id c) (cc_ttl_secs cfg)"
  obtain added k where add: "te_add te (ck_kernel s) (contain_policy_name i) yaml = (added, k)" by fastforce
  define rec where "rec = \<lparr>cn_chain = ch_id c, cn_policy = contain_policy_name i, cn_exes = exes, cn_dests = dests,
    cn_since = now, cn_expires = now + cc_ttl_secs cfg\<rparr>"
  obtain dropped st where ins: "insert_containment rec (cc_max cfg) (ck_store s) = (dropped, st)" by fastforce
  have others: "filter (\<lambda>x. cn_chain x \<noteq> ch_id c) ?L = ?L" "filter (\<lambda>x. cn_chain x = ch_id c) ?L = []"
    using new by (auto simp: is_contained_def list_ex_iff filter_empty_conv)
  from insert_live [OF ins] others room have st: "dropped = []" "kn_live st = ?L @ [rec]" by (auto simp: rec_def)
  have chain: "ch_id c \<notin> cn_chain ` set ?L" using new by (auto simp: is_contained_def list_ex_iff)
  have loaded: "te_loaded te k = (if added then insert (contain_policy_name i) (te_loaded te (ck_kernel s)) else te_loaded te (ck_kernel s))"
    using ok add unfolding tetra_sound_def by (metis fst_conv snd_conv)
  have absent: "contain_policy_name i \<notin> te_loaded te (ck_kernel s)" if added
    using ok add that unfolding tetra_sound_def by (metis fst_conv)
  show ?thesis
  proof (cases "te_write te (contain_policy_name i) \<and> added")
    case True
    then have "load_containment te cfg now c exes dests s = save (s\<lparr>ck_kernel := k,
        ck_files := (ck_files s)(contain_policy_name i := Some yaml), ck_store := st,
        ck_marked := ck_marked s @ map st_alert (filter is_trigger (ch_steps c))\<rparr>)"
      using i(2) add ins st(1) by (simp add: load_containment_def Let_def yaml_def [symmetric] rec_def [symmetric])
    then have s': "ck_store (load_containment te cfg now c exes dests s) = st"
      "ck_kernel (load_containment te cfg now c exes dests s) = k" by simp_all
    show ?thesis
      by (rule accounted_grow [OF a, of _ rec i]) (use i(1) chain loaded absent True st(2) in \<open>simp_all add: s' rec_def\<close>)
  next
    case False
    then consider "\<not> te_write te (contain_policy_name i)" | "te_write te (contain_policy_name i)" "\<not> added" by blast
    then show ?thesis
    proof cases
      case 1
      then have "load_containment te cfg now c exes dests s = s" using i(2) by (simp add: load_containment_def)
      then show ?thesis using a by (auto intro: accounted_frame)
    next
      case 2
      then have "load_containment te cfg now c exes dests s
          = s\<lparr>ck_kernel := k, ck_files := (ck_files s)(contain_policy_name i := None)\<rparr>"
        using i(2) add by (simp add: load_containment_def Let_def yaml_def [symmetric])
      with loaded 2(2) show ?thesis by (intro accounted_frame [OF a]) simp_all
    qed
  qed
qed

datatype ('i, 'c) contain_event = Noted "string \<Rightarrow> ('i, 'c) alert option" nat chain_rec | Ticked nat | Dropped string | SwitchedOff

fun contain_step :: "'k tetra \<Rightarrow> contain_config \<Rightarrow> (string \<Rightarrow> string option) \<Rightarrow> 'k contain_engine
    \<Rightarrow> ('i, 'c) contain_event \<Rightarrow> 'k contain_engine" where
  "contain_step te cfg canonicalize s (Noted lookup now c) = maybe_contain te cfg canonicalize lookup now c s"
| "contain_step te cfg canonicalize s (Ticked now) = contain_tick te now s"
| "contain_step te cfg canonicalize s (Dropped chain) = snd (release_chain te chain s)"
| "contain_step te cfg canonicalize s SwitchedOff = snd (release_all_contained te s)"

text \<open>C19: The kernel refuses what the record says, and what else it refuses is accounted for. Whatever comes
  next while a slot is free (a sequence that is contained or sinks below high, the clock, a release, the
  switch), with writing, loading and deleting a policy each failing or not: every live containment has its
  own slot and its policy is loaded; and a policy of moat's own that is loaded without a record was one
  before, or is that of a containment released in this step whose deletion Tetragon refuses, since the
  engine drops the record first and ignores the refusal. So when deletions succeed, the loaded policies
  stay exactly those of the live containments.\<close>

theorem record_and_kernel_agree:
  assumes "tetra_sound te" and "covered te (cc_max cfg) s" and "cc_max cfg < 2 ^ 64"
    and "length (kn_live (ck_store s)) < max (cc_max cfg) 1"
  shows "covered te (cc_max cfg) (contain_step te cfg canonicalize s e)
    \<and> strays te (contain_step te cfg canonicalize s e)
        \<subseteq> strays te s \<union> {p \<in> cn_policy ` (set (kn_live (ck_store s))
              - set (kn_live (ck_store (contain_step te cfg canonicalize s e)))). stuck te p}
    \<and> (tetra_ok te \<and> agrees te (cc_max cfg) s \<longrightarrow> agrees te (cc_max cfg) (contain_step te cfg canonicalize s e))"
proof -
  have "accounted te (cc_max cfg) s (contain_step te cfg canonicalize s e)"
  proof (cases e)
    case (Noted lookup now c)
    show ?thesis
    proof (cases rule: maybe_contain_cases [of te cfg canonicalize lookup now c s])
      case quiet
      show ?thesis unfolding Noted contain_step.simps quiet by (rule accounted_frame [OF assms(2)]) simp_all
    next
      case (dropped rec st)
      show ?thesis unfolding Noted contain_step.simps dropped(2)
        by (rule accounted_drop [OF assms(1,2) release_filter(2,1) [OF dropped(1) covered_distinct [OF assms(2)]]]) simp_all
    next
      case (loads exes dests)
      show ?thesis unfolding Noted contain_step.simps loads(6) by (rule accounted_load [OF assms loads(3)])
    qed
  qed (use assms accounted_tick accounted_release_chain accounted_release_all in simp_all)
  then have acc: "covered te (cc_max cfg) (contain_step te cfg canonicalize s e)"
    "strays te (contain_step te cfg canonicalize s e)
      \<subseteq> strays te s \<union> {p \<in> cn_policy ` (set (kn_live (ck_store s))
            - set (kn_live (ck_store (contain_step te cfg canonicalize s e)))). stuck te p}"
    unfolding accounted_def by (rule conjunct1, rule conjunct2)
  moreover have "agrees te (cc_max cfg) (contain_step te cfg canonicalize s e)" if "tetra_ok te" "agrees te (cc_max cfg) s"
  proof -
    have "\<not> stuck te p" for p using that(1) by (simp add: stuck_def tetra_ok_def)
    with acc that(2) show ?thesis unfolding agrees_iff by blast
  qed
  ultimately show ?thesis by blast
qed

text \<open>A stray is never looked for. If the slot the engine picks carries one, loading fails, and nothing is
  put on record: with the same records the next attempt picks the same slot.\<close>

theorem stray_policy_blocks_its_slot:
  assumes "tetra_sound te" and "contain_slot_for te (cc_max cfg) (ch_id c) s = (i, s)"
    and "contain_policy_name i \<in> te_loaded te (ck_kernel s)"
  shows "ck_store (load_containment te cfg now c exes dests s) = ck_store s
    \<and> te_loaded te (ck_kernel (load_containment te cfg now c exes dests s)) = te_loaded te (ck_kernel s)
    \<and> ck_marked (load_containment te cfg now c exes dests s) = ck_marked s"
proof -
  let ?yaml = "policy_yaml (contain_policy_name i) exes dests (ch_id c) (cc_ttl_secs cfg)"
  obtain added k where add: "te_add te (ck_kernel s) (contain_policy_name i) ?yaml = (added, k)" by fastforce
  have te: "(fst (te_add te (ck_kernel s) (contain_policy_name i) ?yaml) \<longrightarrow>
        contain_policy_name i \<notin> te_loaded te (ck_kernel s))
      \<and> (\<not> fst (te_add te (ck_kernel s) (contain_policy_name i) ?yaml) \<longrightarrow>
        te_loaded te (snd (te_add te (ck_kernel s) (contain_policy_name i) ?yaml)) = te_loaded te (ck_kernel s))"
    using assms(1) unfolding tetra_sound_def by blast
  then have no: "\<not> added" and k: "te_loaded te k = te_loaded te (ck_kernel s)" using assms(3) by (auto simp: add)
  show ?thesis
  proof (cases "te_write te (contain_policy_name i)")
    case True
    then have "load_containment te cfg now c exes dests s
        = s\<lparr>ck_kernel := k, ck_files := (ck_files s)(contain_policy_name i := None)\<rparr>"
      using add no by (simp add: load_containment_def assms(2))
    then show ?thesis using k by simp
  qed (simp add: load_containment_def assms(2))
qed

definition list_tetra :: "string list tetra" where
  "list_tetra = \<lparr>te_add = (\<lambda>k n y. if n \<in> set k then (False, k) else (True, n # k)),
     te_delete = (\<lambda>k n. (True, filter (\<lambda>m. m \<noteq> n) k)), te_loaded = set, te_write = (\<lambda>_. True)\<rparr>"

lemma list_tetra_ok: "tetra_ok list_tetra"
  by (auto simp: tetra_ok_def tetra_sound_def list_tetra_def)

text \<open>One that refuses every deletion.\<close>

definition stuck_tetra :: "string list tetra" where
  "stuck_tetra = list_tetra\<lparr>te_delete := \<lambda>k n. (False, k)\<rparr>"

lemma stuck_tetra_sound: "tetra_sound stuck_tetra"
  by (auto simp: tetra_sound_def stuck_tetra_def list_tetra_def)

definition one_contained :: "string list contain_engine" where
  "one_contained = \<lparr>ck_store = \<lparr>kn_live = [example_containment]\<rparr>, ck_kernel = [''moat-contain-0'', ''moat-exec''],
     ck_files = (\<lambda>_. None), ck_marked = [], ck_saved = JNull\<rparr>"

definition one_slot :: "nat \<Rightarrow> contain_config" where
  "one_slot n = \<lparr>cc_enabled = True, cc_ttl_secs = 600, cc_max = n, cc_private = ''block''\<rparr>"

lemma one_contained_agrees:
  assumes "0 < n"
  shows "agrees list_tetra n one_contained"
proof -
  have "cn_policy example_containment = contain_policy_name 0" unfolding example_containment_def by code_simp
  moreover have "set [''moat-contain-0'', ''moat-exec''] \<inter> Collect is_contain_policy = {cn_policy example_containment}"
    by (auto simp: is_contain_policy_def example_containment_def)
  ultimately show ?thesis using assms by (auto simp add: agrees_def one_contained_def list_tetra_def)
qed

lemma tick_example:
  "ck_kernel (contain_tick list_tetra 99 one_contained) = [''moat-exec'']"
  "ck_kernel (contain_tick stuck_tetra 99 one_contained) = [''moat-contain-0'', ''moat-exec'']"
  by (simp_all add: one_contained_def example_containment_def contain_tick_def expired_def list_tetra_def stuck_tetra_def
      release_contain_def)

theorem record_and_kernel_agree_witness:
  "let s = contain_step list_tetra (one_slot 2) (\<lambda>_. None) one_contained (Ticked 99 :: (unit, unit) contain_event);
       t = contain_step stuck_tetra (one_slot 2) (\<lambda>_. None) one_contained (Ticked 99 :: (unit, unit) contain_event) in
   ck_kernel s = [''moat-exec''] \<and> agrees list_tetra 2 s
   \<and> ck_kernel t = [''moat-contain-0'', ''moat-exec''] \<and> covered stuck_tetra 2 t"
proof -
  have a: "agrees list_tetra (cc_max (one_slot 2)) one_contained" and m: "cc_max (one_slot 2) < 2 ^ 64"
    "length (kn_live (ck_store one_contained)) < max (cc_max (one_slot 2)) 1"
    using one_contained_agrees [of 2] by (simp_all add: one_slot_def one_contained_def)
  then have c: "covered list_tetra (cc_max (one_slot 2)) one_contained" by (simp add: agrees_iff)
  then have c': "covered stuck_tetra (cc_max (one_slot 2)) one_contained" by (simp add: covered_def stuck_tetra_def)
  have "tetra_sound list_tetra" using list_tetra_ok by (simp add: tetra_ok_def)
  from record_and_kernel_agree [OF this c m, of "\<lambda>_. None" "Ticked 99 :: (unit, unit) contain_event"]
    record_and_kernel_agree [OF stuck_tetra_sound c' m, of "\<lambda>_. None" "Ticked 99 :: (unit, unit) contain_event"] a
  show ?thesis by (simp add: tick_example list_tetra_ok) (simp add: one_slot_def)
qed

section \<open>At the cap\<close>

lemma no_free_slot:
  assumes "agrees te mx s" and "mx < 2 ^ 64" and "length (kn_live (ck_store s)) = max mx 1"
    and "sorted (map cn_since (kn_live (ck_store s)))" and "\<not> is_contained (ck_store s) chain"
  shows "\<exists>old rest i. kn_live (ck_store s) = old # rest \<and> cn_policy old = contain_policy_name i
    \<and> contain_slot_for te mx chain s = (i, release_contain te old s)"
proof -
  let ?L = "kn_live (ck_store s)"
  have slots: "\<exists>n < max mx 1. cn_policy c = contain_policy_name n \<and> slot_of c = Some n" if "c \<in> set ?L" for c
  proof -
    from that assms(1) obtain n where "n < max mx 1" "cn_policy c = contain_policy_name n" by (auto simp: agrees_def)
    with assms(2) slot_of_name [of c n] show ?thesis by (auto simp: max_def split: if_splits)
  qed
  obtain old rest where L: "?L = old # rest" using assms(3) by (cases ?L) auto
  have first: "arg_min_list cn_since (old # xs) = old" if "\<forall>x \<in> set xs. cn_since old \<le> cn_since x" for xs
    using that
  proof (cases xs)
    case (Cons y ys)
    then have "arg_min_list cn_since xs \<in> set xs" by (intro arg_min_list_in) simp
    with that have "cn_since old \<le> cn_since (arg_min_list cn_since xs)" by blast
    with Cons show ?thesis by (simp add: Let_def)
  qed simp
  let ?taken = "set (List.map_filter slot_of ?L)"
  have "inj_on (the \<circ> slot_of) (set ?L)"
  proof (rule inj_onI)
    fix x y assume xy: "x \<in> set ?L" "y \<in> set ?L" "(the \<circ> slot_of) x = (the \<circ> slot_of) y"
    with slots [of x] slots [of y] have "cn_policy x = cn_policy y" by auto
    with xy(1,2) assms(1) show "x = y" by (auto simp: agrees_def distinct_map dest: inj_onD)
  qed
  moreover have taken: "?taken = (the \<circ> slot_of) ` set ?L" using slots by (force simp: in_map_filter image_iff)
  moreover have "distinct ?L" using assms(1) by (auto simp: agrees_def distinct_map)
  ultimately have "card ?taken = length ?L" unfolding taken by (simp only: card_image distinct_card)
  then have "card ?taken = max mx 1" using assms(3) by simp
  moreover have "?taken \<subseteq> {0..<max mx 1}" using slots unfolding taken by force
  ultimately have "?taken = {0..<max mx 1}" by (metis card_atLeastLessThan card_subset_eq diff_zero finite_atLeastLessThan)
  then have "List.find (\<lambda>i. i \<notin> ?taken) [0..<max mx 1] = None" by (simp add: find_None_iff)
  moreover have "List.find (\<lambda>c. cn_chain c = chain) ?L = None"
    using assms(5) by (auto simp: find_None_iff is_contained_def list_ex_iff)
  moreover have "arg_min_list cn_since ?L = old" unfolding L by (rule first) (use assms(4) L in simp)
  ultimately have "contain_slot_for te mx chain s = (case slot_of old of Some i \<Rightarrow> i | None \<Rightarrow> 0, release_contain te old s)"
    using L by (simp add: contain_slot_for_def Let_def)
  with slots [of old] L show ?thesis by auto
qed

lemma maybe_contain_loads:
  assumes "cc_enabled cfg" and "severity_rank ''high'' \<le> severity_rank (ch_severity c)"
    and "\<not> is_contained (ck_store s) (ch_id c)" and "dests \<noteq> []"
    and "contain_names cfg canonicalize (targets (map snd (host_net_members lookup c))) = (exes, dests)"
  shows "maybe_contain te cfg canonicalize lookup now c s = load_containment te cfg now c exes dests s"
proof -
  have "targets (map snd (host_net_members lookup c)) \<noteq> []"
    using assms(4,5) by (auto simp: contain_names_def)
  with assms show ?thesis by (simp add: maybe_contain_def not_less)
qed

lemma load_at_the_cap:
  assumes te: "tetra_ok te" "\<forall>n. te_write te n" "\<forall>k n y. n \<notin> te_loaded te k \<longrightarrow> fst (te_add te k n y)"
    and a: "agrees te (cc_max cfg) s" "cc_max cfg < 2 ^ 64" "length (kn_live (ck_store s)) = max (cc_max cfg) 1"
      "sorted (map cn_since (kn_live (ck_store s)))"
    and c: "cc_enabled cfg" "severity_rank ''high'' \<le> severity_rank (ch_severity c)"
      "\<not> is_contained (ck_store s) (ch_id c)" "dests \<noteq> []"
      "contain_names cfg canonicalize (targets (map snd (host_net_members lookup c))) = (exes, dests)"
    and s': "s' = maybe_contain te cfg canonicalize lookup now c s"
  shows "\<exists>rec. kn_live (ck_store s') = tl (kn_live (ck_store s)) @ [rec] \<and> cn_chain rec = ch_id c
    \<and> cn_policy rec \<notin> te_loaded te (ck_kernel s')
    \<and> ck_marked s' = ck_marked s @ map st_alert (filter is_trigger (ch_steps c))"
proof -
  from no_free_slot [OF a c(3)] obtain old rest i where o': "kn_live (ck_store s) = old # rest"
    "cn_policy old = contain_policy_name i" "contain_slot_for te (cc_max cfg) (ch_id c) s = (i, release_contain te old s)" by blast
  let ?s1 = "release_contain te old s"
  define yaml where "yaml = policy_yaml (contain_policy_name i) exes dests (ch_id c) (cc_ttl_secs cfg)"
  have "contain_policy_name i \<notin> te_loaded te (ck_kernel ?s1)" using te(1) o'(2) by simp
  with te(3) obtain k where k: "te_add te (ck_kernel ?s1) (contain_policy_name i) yaml = (True, k)" by (metis prod.collapse)
  define rec where "rec = \<lparr>cn_chain = ch_id c, cn_policy = contain_policy_name i, cn_exes = exes, cn_dests = dests,
    cn_since = now, cn_expires = now + cc_ttl_secs cfg\<rparr>"
  have others: "filter (\<lambda>x. cn_chain x \<noteq> ch_id c) (old # rest) = old # rest" "filter (\<lambda>x. cn_chain x = ch_id c) (old # rest) = []"
    using c(3) o'(1) by (auto simp: is_contained_def list_ex_iff filter_empty_conv)
  have "make_space (cc_max cfg) (old # rest) = ([old], rest)"
    using a(3) o'(1) by (cases rest) auto
  with others o'(1) have ins: "insert_containment rec (cc_max cfg) (ck_store s) = ([old], (ck_store s)\<lparr>kn_live := rest @ [rec]\<rparr>)"
    by (simp add: insert_containment_def rec_def)
  have "s' = save ((release_contain te old (?s1\<lparr>ck_kernel := k, ck_files := (ck_files ?s1)(contain_policy_name i := Some yaml),
      ck_store := (ck_store s)\<lparr>kn_live := rest @ [rec]\<rparr>\<rparr>))\<lparr>ck_marked := ck_marked s @ map st_alert (filter is_trigger (ch_steps c))\<rparr>)"
    unfolding s' maybe_contain_loads [OF c] load_containment_def o'(3)
    by (simp add: te(2) k ins Let_def yaml_def [symmetric] rec_def [symmetric])
  then have f: "kn_live (ck_store s') = rest @ [rec]" "te_loaded te (ck_kernel s') = te_loaded te k - {contain_policy_name i}"
    "ck_marked s' = ck_marked s @ map st_alert (filter is_trigger (ch_steps c))"
    using te(1) o'(2) by (simp_all add: save_def)
  show ?thesis by (rule exI [of _ rec]) (simp add: f o'(1), simp add: rec_def)
qed

text \<open>C20: At the cap a new containment is undone as it is made. With every slot in use, the sequence is put on record
  and its members are stamped as contained, but the policy that was just loaded is deleted again: the slot's
  name is that of the containment evicted, which the store hands back to be unloaded a second time.\<close>

theorem eviction_unloads_the_new_containment:
  assumes te: "tetra_ok te" "\<forall>n. te_write te n" "\<forall>k n y. n \<notin> te_loaded te k \<longrightarrow> fst (te_add te k n y)"
    and a: "agrees te (cc_max cfg) s" "cc_max cfg < 2 ^ 64" "length (kn_live (ck_store s)) = max (cc_max cfg) 1"
      "sorted (map cn_since (kn_live (ck_store s)))"
    and c: "cc_enabled cfg" "severity_rank ''high'' \<le> severity_rank (ch_severity c)"
      "\<not> is_contained (ck_store s) (ch_id c)" "dests \<noteq> []"
      "contain_names cfg canonicalize (targets (map snd (host_net_members lookup c))) = (exes, dests)"
    and s': "s' = maybe_contain te cfg canonicalize lookup now c s"
  shows "\<exists>rec. kn_live (ck_store s') = tl (kn_live (ck_store s)) @ [rec] \<and> cn_chain rec = ch_id c
    \<and> cn_policy rec \<notin> te_loaded te (ck_kernel s')
    \<and> ck_marked s' = ck_marked s @ map st_alert (filter is_trigger (ch_steps c))"
  by (rule load_at_the_cap [OF assms])

section \<open>What a containment rests on\<close>

lemma set_push_all [simp]: "set (foldl push_new ys xs) = set ys \<union> set xs"
  by (induction xs arbitrary: ys) (auto simp: push_new_def)

lemma set_update_subset: "set (AList.update k v xs) \<subseteq> insert (k, v) (set xs)"
  by (induction xs) auto

definition targets_of :: "(string \<times> string) list \<Rightarrow> (string \<times> string list) list \<Rightarrow> bool" where
  "targets_of ms ts \<longleftrightarrow>
     (\<forall>exe ds. (exe, ds) \<in> set ts \<longrightarrow> exe \<noteq> [] \<and> ds \<noteq> [] \<and> (\<forall>d \<in> set ds. (exe, d) \<in> set ms \<and> d \<noteq> []))"

lemma targets_of_add:
  assumes "targets_of ms ts" and "(e, d) \<in> set ms"
  shows "targets_of ms (add_target ts (e, d))"
proof (cases "e = [] \<or> d = []")
  case True
  with assms(1) show ?thesis by (simp add: add_target_def)
next
  case False
  define old where "old = (case map_of ts e of Some ds \<Rightarrow> ds | None \<Rightarrow> [])"
  have "\<forall>x \<in> set old. (e, x) \<in> set ms \<and> x \<noteq> []"
  proof (cases "map_of ts e")
    case (Some ds)
    from map_of_SomeD [OF this] assms(1) Some show ?thesis by (simp add: old_def targets_of_def)
  qed (simp add: old_def)
  moreover have new: "add_target ts (e, d) = AList.update e (if d \<in> set old then old else old @ [d]) ts"
    using False by (cases "map_of ts e") (simp_all add: add_target_def old_def Let_def)
  ultimately have ok: "e \<noteq> [] \<and> v \<noteq> [] \<and> (\<forall>x \<in> set v. (e, x) \<in> set ms \<and> x \<noteq> [])"
    if "v = (if d \<in> set old then old else old @ [d])" for v
    using that assms(2) False by (cases "d \<in> set old") auto
  show ?thesis unfolding targets_of_def new
  proof (intro allI impI)
    fix exe ds
    assume "(exe, ds) \<in> set (AList.update e (if d \<in> set old then old else old @ [d]) ts)"
    then consider "exe = e" "ds = (if d \<in> set old then old else old @ [d])" | "(exe, ds) \<in> set ts"
      using set_update_subset by fastforce
    then show "exe \<noteq> [] \<and> ds \<noteq> [] \<and> (\<forall>x \<in> set ds. (exe, x) \<in> set ms \<and> x \<noteq> [])"
    proof cases
      case 1
      from ok [OF 1(2)] 1(1) show ?thesis by simp
    next
      case 2
      with assms(1) show ?thesis unfolding targets_of_def by blast
    qed
  qed
qed

lemma targets_from:
  assumes "(exe, ds) \<in> set (targets ms)"
  shows "exe \<noteq> [] \<and> ds \<noteq> [] \<and> (\<forall>d \<in> set ds. (exe, d) \<in> set ms \<and> d \<noteq> [])"
proof -
  have "targets_of ms (foldl add_target [] ms)"
    by (rule foldl_keeps) (auto simp: targets_of_def [of ms "[]"] intro: targets_of_add)
  moreover have "(exe, ds) \<in> set (foldl add_target [] ms)" using assms by (simp add: targets_def)
  ultimately show ?thesis by (simp add: targets_of_def)
qed

text \<open>What the members of a chain are: connections of its trigger steps whose alerts can be read, were not
  silenced, and are not known to come from a container.\<close>

definition host_connection :: "(string \<Rightarrow> ('i, 'c) alert option) \<Rightarrow> chain_rec \<Rightarrow> string \<Rightarrow> string \<Rightarrow> bool" where
  "host_connection lookup c exe d \<longleftrightarrow>
     (\<exists>st \<in> set (ch_steps c). \<exists>a net. is_trigger st \<and> lookup (st_alert st) = Some a \<and> al_suppressed_by a = None
        \<and> may_act_on a \<and> al_net a = Some net \<and> pr_exe (al_process a) = exe \<and> nr_dst_ip net = d)"

lemma member_added:
  assumes "(i, exe, d) \<in> set (add_member lookup ms st)"
  shows "(i, exe, d) \<in> set ms \<or> (\<exists>a net. lookup (st_alert st) = Some a \<and> al_suppressed_by a = None \<and> may_act_on a
    \<and> al_net a = Some net \<and> pr_exe (al_process a) = exe \<and> nr_dst_ip net = d)"
  using assms set_bt_insert by (fastforce simp: add_member_def split: option.splits if_splits)

lemma members_are_host_connections:
  assumes "(i, exe, d) \<in> set (host_net_members lookup c)"
  shows "host_connection lookup c exe d"
proof -
  have "\<forall>i exe d. (i, exe, d) \<in> set (host_net_members lookup c) \<longrightarrow> host_connection lookup c exe d"
    unfolding host_net_members_def
  proof (rule foldl_keeps)
    fix ms :: "(string \<times> string \<times> string) list" and st
    assume "st \<in> set (filter is_trigger (ch_steps c))" "\<forall>i exe d. (i, exe, d) \<in> set ms \<longrightarrow> host_connection lookup c exe d"
    then show "\<forall>i exe d. (i, exe, d) \<in> set (add_member lookup ms st) \<longrightarrow> host_connection lookup c exe d"
      using member_added unfolding host_connection_def by fastforce
  qed simp
  with assms show ?thesis by blast
qed

lemma load_live:
  "rec \<in> set (kn_live (ck_store (load_containment te cfg now c exes dests s))) \<Longrightarrow> rec \<in> set (kn_live (ck_store s))
     \<or> (cn_chain rec = ch_id c \<and> cn_exes rec = exes \<and> cn_dests rec = dests \<and> cn_expires rec = now + cc_ttl_secs cfg)"
proof -
  assume r: "rec \<in> set (kn_live (ck_store (load_containment te cfg now c exes dests s)))"
  obtain slot s1 where s1: "contain_slot_for te (cc_max cfg) (ch_id c) s = (slot, s1)" by fastforce
  have same: "ck_store s1 = ck_store s"
    using s1 by (auto simp: contain_slot_for_def Let_def split: option.splits if_splits)
  define yaml where "yaml = policy_yaml (contain_policy_name slot) exes dests (ch_id c) (cc_ttl_secs cfg)"
  obtain added k where k: "te_add te (ck_kernel s1) (contain_policy_name slot) yaml = (added, k)" by fastforce
  define new where "new = \<lparr>cn_chain = ch_id c, cn_policy = contain_policy_name slot, cn_exes = exes, cn_dests = dests,
    cn_since = now, cn_expires = now + cc_ttl_secs cfg\<rparr>"
  obtain dropped st where ins: "insert_containment new (cc_max cfg) (ck_store s) = (dropped, st)" by fastforce
  have "ck_store (load_containment te cfg now c exes dests s) \<in> {ck_store s, st}"
    unfolding load_containment_def s1
    by (simp add: yaml_def [symmetric] k same Let_def new_def [symmetric] ins)
  moreover have "set (kn_live st) \<subseteq> insert new (set (kn_live (ck_store s)))"
    using live.put_sub [where e = new and s = "ck_store s" and mx = "cc_max cfg"] ins by simp
  ultimately show ?thesis using r by (auto simp: new_def)
qed

text \<open>C18: A containment names only what this machine did. Every containment the engine adds is for a chain that is high
  or above; each destination it refuses was reached by a trigger step whose alert could be read, was not
  silenced and does not come from a container, is a real address, and is not private unless the user
  asked for that; each executable it names made such a connection, or is what one that did resolves to;
  and it names at least one of each.\<close>

theorem containment_is_earned:
  assumes new: "rec \<in> set (kn_live (ck_store (maybe_contain te cfg canonicalize lookup now c s)))"
    and old: "rec \<notin> set (kn_live (ck_store s))"
  shows "cc_enabled cfg \<and> severity_rank ''high'' \<le> severity_rank (ch_severity c) \<and> cn_chain rec = ch_id c
    \<and> cn_expires rec = now + cc_ttl_secs cfg \<and> cn_exes rec \<noteq> [] \<and> cn_dests rec \<noteq> []
    \<and> (\<forall>d \<in> set (cn_dests rec). \<not> is_unspecified_dest d
         \<and> (\<forall>ip. cc_private cfg \<noteq> ''block'' \<and> parse_ip d = Some ip \<longrightarrow> \<not> is_private ip)
         \<and> (\<exists>exe. host_connection lookup c exe d))
    \<and> (\<forall>e \<in> set (cn_exes rec). \<exists>exe d. e \<in> set (binary_aliases canonicalize exe) \<and> host_connection lookup c exe d)"
proof (cases rule: maybe_contain_cases [of te cfg canonicalize lookup now c s])
  case quiet
  with new old show ?thesis by simp
next
  case (dropped r st)
  from dropped(1) have "set (kn_live st) \<subseteq> set (kn_live (ck_store s))"
    by (auto simp: release_def remove_nth_def dest: in_set_takeD in_set_dropD split: option.splits)
  with new old dropped(2) show ?thesis by auto
next
  case (loads exes dests)
  let ?ts = "targets (map snd (host_net_members lookup c))"
  from load_live [of rec te cfg now c exes dests s] new old loads(6)
  have r: "cn_chain rec = ch_id c" "cn_exes rec = exes" "cn_dests rec = dests" "cn_expires rec = now + cc_ttl_secs cfg" by auto
  have from_member: "exe \<noteq> [] \<and> ds \<noteq> [] \<and> (\<forall>d \<in> set ds. host_connection lookup c exe d)" if "(exe, ds) \<in> set ?ts" for exe ds
    using targets_from [OF that] members_are_host_connections by fastforce
  have dests: "set dests = {d. may_refuse cfg d \<and> (\<exists>exe ds. (exe, ds) \<in> set ?ts \<and> d \<in> set ds)}"
    and exes: "set exes = {e. \<exists>exe ds. (exe, ds) \<in> set ?ts \<and> e \<in> set (binary_aliases canonicalize exe)}"
    using loads(5) by (auto simp: contain_names_def split: prod.splits) force+
  obtain d where "d \<in> set dests" using loads(4) by (cases dests) auto
  then obtain exe ds where "(exe, ds) \<in> set ?ts" unfolding dests by blast
  then have "exe \<in> set exes" unfolding exes by (auto simp: binary_aliases_def)
  then have "exes \<noteq> []" by auto
  moreover have "\<exists>exe d. e \<in> set (binary_aliases canonicalize exe) \<and> host_connection lookup c exe d" if "e \<in> set exes" for e
  proof -
    from that obtain exe ds where x: "(exe, ds) \<in> set ?ts" "e \<in> set (binary_aliases canonicalize exe)" unfolding exes by blast
    from from_member [OF x(1)] obtain d where "host_connection lookup c exe d" by (cases ds) auto
    with x(2) show ?thesis by blast
  qed
  moreover have "\<not> is_unspecified_dest d \<and> (\<forall>ip. cc_private cfg \<noteq> ''block'' \<and> parse_ip d = Some ip \<longrightarrow> \<not> is_private ip)
      \<and> (\<exists>exe. host_connection lookup c exe d)" if "d \<in> set dests" for d
  proof -
    from that obtain exe ds where x: "(exe, ds) \<in> set ?ts" "d \<in> set ds" "may_refuse cfg d" unfolding dests by blast
    with from_member [OF x(1)] show ?thesis by (auto simp: may_refuse_def split: if_splits)
  qed
  ultimately show ?thesis using loads(1,2,4) r by simp
qed

text \<open>A chain of one connection by \<open>/tmp/x\<close> to a public address.\<close>

definition beacon :: "string \<Rightarrow> (unit, unit) alert option" where
  "beacon i = Some ((plain_alert i ''high'')\<lparr>al_net := Some (net_ref_new ''9.9.9.9'' 443)\<rparr>)"

definition beacon_chain :: chain_rec where
  "beacon_chain = kill_story\<lparr>ch_steps := [kill_step ''a'' 7]\<rparr>"

lemma beacon_names:
  "contain_names (one_slot n) (\<lambda>_. None) (targets (map snd (host_net_members beacon beacon_chain))) = ([''/tmp/x''], [''9.9.9.9''])"
proof -
  have "host_net_members beacon beacon_chain = [(''a'', ''/tmp/x'', ''9.9.9.9'')]"
    by (simp add: host_net_members_def add_member_def beacon_chain_def kill_story_def kill_step_def beacon_def is_trigger_def
      may_act_on_def plain_alert_def net_ref_new_def)
  moreover have "split_on CHR ''.'' ''9.9.9.9'' = [''9'', ''9'', ''9'', ''9'']" "split_on CHR ''/'' ''9.9.9.9'' = [''9.9.9.9'']"
    "trim ''9.9.9.9'' = ''9.9.9.9''" by code_simp+
  moreover from this have "parse_ip ''9.9.9.9'' = Some (V4 [9, 9, 9, 9])"
    by (simp add: parse_ip_def parse_v4_def parse_octet_def digit_val_def is_digit_def)
  ultimately show ?thesis
    by (simp add: contain_names_def targets_def add_target_def binary_aliases_def push_new_def may_refuse_def one_slot_def
      is_unspecified_dest_def ip_unspecified_def v4_unspecified_def)
qed

lemma beacon_facts: "severity_rank ''high'' \<le> severity_rank (ch_severity beacon_chain)" "ch_id beacon_chain = ''a''"
  "\<not> is_contained (ck_store one_contained) (ch_id beacon_chain)"
  by (simp_all add: beacon_chain_def kill_story_def severity_rank_def is_contained_def one_contained_def example_containment_def)

lemma one_slot_full:
  "agrees list_tetra (cc_max (one_slot 1)) one_contained" "cc_max (one_slot 1) < 2 ^ 64"
  "length (kn_live (ck_store one_contained)) = max (cc_max (one_slot 1)) 1" "sorted (map cn_since (kn_live (ck_store one_contained)))"
  "cc_enabled (one_slot 1)"
  using one_contained_agrees [of 1] by (simp_all add: one_slot_def one_contained_def)

lemma list_tetra_accepts:
  "\<forall>n. te_write list_tetra n" "\<forall>k n y. n \<notin> te_loaded list_tetra k \<longrightarrow> fst (te_add list_tetra k n y)"
  by (simp_all add: list_tetra_def)

lemma one_contained_live: "kn_live (ck_store one_contained) = [example_containment]"
  by (simp add: one_contained_def)

lemma list_tetra_loaded: "te_loaded list_tetra = set"
  by (simp add: list_tetra_def)

theorem eviction_unloads_the_new_containment_witness:
  "\<exists>rec. kn_live (ck_store (maybe_contain list_tetra (one_slot 1) (\<lambda>_. None) beacon 70 beacon_chain one_contained)) = [rec]
     \<and> cn_chain rec = ''a''
     \<and> cn_policy rec \<notin> set (ck_kernel (maybe_contain list_tetra (one_slot 1) (\<lambda>_. None) beacon 70 beacon_chain one_contained))"
  using eviction_unloads_the_new_containment
    [OF list_tetra_ok list_tetra_accepts one_slot_full beacon_facts(1,3) list.distinct(2) beacon_names
      refl [of "maybe_contain list_tetra (one_slot 1) (\<lambda>_. None) beacon 70 beacon_chain one_contained"]]
  by (auto simp: beacon_facts(2) one_contained_live list_tetra_loaded)

theorem containment_is_earned_witness:
  "\<exists>rec \<in> set (kn_live (ck_store (maybe_contain list_tetra (one_slot 1) (\<lambda>_. None) beacon 70 beacon_chain one_contained))).
     cn_expires rec = 670 \<and> (\<forall>d \<in> set (cn_dests rec). \<exists>exe. host_connection beacon beacon_chain exe d)"
proof -
  from load_at_the_cap
    [OF list_tetra_ok list_tetra_accepts one_slot_full beacon_facts(1,3) list.distinct(2) beacon_names
      refl [of "maybe_contain list_tetra (one_slot 1) (\<lambda>_. None) beacon 70 beacon_chain one_contained"]]
  obtain rec where new: "rec \<in> set (kn_live (ck_store (maybe_contain list_tetra (one_slot 1) (\<lambda>_. None) beacon 70 beacon_chain one_contained)))"
    and c: "cn_chain rec = ''a''" by (force simp: beacon_facts(2))
  from c have "rec \<notin> set (kn_live (ck_store one_contained))" by (auto simp: one_contained_live example_containment_def)
  from containment_is_earned [OF new this] new show ?thesis by (intro bexI [of _ rec]) (simp_all add: one_slot_def)
qed

end
