(* ===== verification/Baseline.thy ===== *)
theory Baseline
  imports Allowlist Severity Exec_Path Ordered_Map "HOL-Library.AList" "HOL-Library.Product_Lexorder"
begin

text \<open>
  \<open>moatd/src/baseline.rs\<close>: what the daemon learns by watching. The counters of a pattern (rule,
  executable, parent, directory), the window in which an ordinary pattern earns an allowlist entry,
  the proposals after it, the noise guard that moves a flooding pattern to the timeline, and the
  revocation of what was learned. A hash map is the list of its entries in some order. The parts the
  code takes from outside are arguments: the fresh id of a proposal, today's date, the stamp of the
  moment, and whether a write succeeds. Log lines are not modelled.
\<close>

section \<open>Patterns\<close>

definition DAY :: nat where "DAY = 86400"
definition MAX_TUPLES :: nat where "MAX_TUPLES = 10000"

definition NEVER_LEARN :: "string list" where
  "NEVER_LEARN = [''moat-x-noisy-rule'', ''moat-x-baseline-revoked'', ''moat-x-sensor-mismatch'', ''moat-x-new-exec-ioc'']"

record tuple_stat =
  ts_rule :: string
  ts_exe :: string
  ts_parent :: string
  ts_dir :: string
  ts_count :: nat
  ts_days :: "string list"
  ts_first_seen :: string
  ts_last_seen :: string
  ts_severity :: string
  ts_max_rank :: nat
  ts_max_base_rank :: nat
  ts_provenance :: string
  ts_context :: string
  ts_package :: "string option"
  ts_rarity :: string
  ts_suppressed :: bool
  ts_demoted :: bool
  ts_learned :: bool
  ts_proposed :: bool
  ts_dismissed :: bool

definition baseline_key :: "string \<Rightarrow> string \<Rightarrow> string \<Rightarrow> string \<Rightarrow> string" where
  "baseline_key rule exe parent dir = rule @ ''|'' @ exe @ ''|'' @ parent @ ''|'' @ dir"

definition stat_key :: "tuple_stat \<Rightarrow> string" where
  "stat_key t = baseline_key (ts_rule t) (ts_exe t) (ts_parent t) (ts_dir t)"

definition not_empty :: "string \<Rightarrow> string option" where
  "not_empty s = (if s = [] then None else Some s)"

definition learned_spec :: "string \<Rightarrow> string \<Rightarrow> string \<Rightarrow> string \<Rightarrow> rule_spec" where
  "learned_spec rule exe parent dir =
     \<lparr>rs_name = rule, rs_exe = not_empty exe,
      rs_file = (if dir = [] then None else Some (trim_end_matches CHR ''/'' dir @ ''/*'')),
      rs_parent = not_empty parent, rs_script = None, rs_domain = None\<rparr>"

definition stat_spec :: "tuple_stat \<Rightarrow> rule_spec" where
  "stat_spec t = learned_spec (ts_rule t) (ts_exe t) (ts_parent t) (ts_dir t)"

definition stat_toml :: "tuple_stat \<Rightarrow> string" where
  "stat_toml t = render_block (stat_spec t)"

definition date_part :: "string \<Rightarrow> string" where
  "date_part ts = hd (split_on CHR ''T'' ts)"

definition plural_s :: "nat \<Rightarrow> string" where
  "plural_s n = (if n = 1 then [] else ''s'')"

definition stat_comment :: "string \<Rightarrow> string \<Rightarrow> tuple_stat \<Rightarrow> string" where
  "stat_comment today how t =
     how @ '' '' @ today @ '': seen '' @ show_nat (ts_count t) @ '' time'' @ plural_s (ts_count t) @ '' on ''
     @ show_nat (length (ts_days t)) @ '' distinct day'' @ plural_s (length (ts_days t)) @ '' ('' @ date_part (ts_first_seen t)
     @ '' .. '' @ date_part (ts_last_seen t) @ ''), actor '' @ ts_provenance t
     @ (case ts_package t of Some p \<Rightarrow> '' ('' @ p @ '')'' | None \<Rightarrow> []) @ '', context '' @ ts_context t
     @ '', rarity '' @ ts_rarity t"

section \<open>The state\<close>

record proposal =
  pp_id :: string
  pp_rule :: string
  pp_exe :: string
  pp_parent :: string
  pp_dir :: string
  pp_count :: nat
  pp_days :: nat
  pp_first_seen :: string
  pp_last_seen :: string
  pp_toml :: string
  pp_key :: string
  pp_reason :: string

definition REDEMOTE_PROPOSE_AT :: nat where "REDEMOTE_PROPOSE_AT = 3"

definition REDEMOTED_REASON :: string where
  "REDEMOTED_REASON = ''the noise guard has had to quieten this pattern repeatedly; Moat is not vouching for it, only noting that you keep being asked about it''"

record demotion =
  de_rule :: string
  de_tuple :: string
  de_since :: nat
  de_count :: nat
  de_last_seen :: nat
  de_patterns_quiet :: nat

record learned_entry =
  le_key :: string
  le_rule :: string
  le_exe :: string
  le_written :: string
  le_revoked :: "string option"
  le_accepted_by :: "string option"

record baseline_state =
  bs_installed_at :: nat
  bs_learning_until :: nat
  bs_tuples :: "(string \<times> tuple_stat) list"
  bs_proposals :: "proposal list"
  bs_demoted :: "(string \<times> demotion) list"
  bs_redemotions :: "(string \<times> nat) list"
  bs_windows :: "(string \<times> (nat \<times> nat) list) list"
  bs_learned :: "(string \<times> learned_entry) list"

record baseline =
  bl_state :: baseline_state
  bl_learning_days :: nat
  bl_min_days :: nat
  bl_noisy :: nat
  bl_dirty :: bool
  bl_last_save :: nat
  bl_save_every :: nat

datatype learned = NothingLearned | Entry string string string | Proposed string

record sighting =
  so_rule :: string
  so_exe :: string
  so_parent :: string
  so_dir :: string
  so_severity :: string
  so_severity_base :: string
  so_provenance :: string
  so_package :: "string option"
  so_context :: string
  so_rarity :: string
  so_suppressed :: bool
  so_demoted :: bool
  so_ts :: string
  so_now :: nat

abbreviation bl_update :: "(baseline_state \<Rightarrow> baseline_state) \<Rightarrow> baseline \<Rightarrow> baseline" where
  "bl_update f b \<equiv> b\<lparr>bl_state := f (bl_state b), bl_dirty := True\<rparr>"

abbreviation bl_tuples :: "baseline \<Rightarrow> (string \<times> tuple_stat) list" where
  "bl_tuples b \<equiv> bs_tuples (bl_state b)"

section \<open>The window\<close>

definition recent_hours :: "nat \<Rightarrow> (nat \<times> nat) list \<Rightarrow> (nat \<times> nat) list" where
  "recent_hours now w = filter (\<lambda>(h, n). now div 3600 - 23 \<le> h) w"

definition trim_windows :: "nat \<Rightarrow> (string \<times> (nat \<times> nat) list) list \<Rightarrow> (string \<times> (nat \<times> nat) list) list" where
  "trim_windows now ws = filter (\<lambda>(k, w). w \<noteq> []) (map (\<lambda>(k, w). (k, recent_hours now w)) ws)"

definition learning :: "baseline \<Rightarrow> nat \<Rightarrow> bool" where
  "learning b now \<longleftrightarrow> now < bs_learning_until (bl_state b)"

definition relearn :: "nat option \<Rightarrow> nat \<Rightarrow> baseline \<Rightarrow> baseline" where
  "relearn days now b =
     (let d = (case days of Some d \<Rightarrow> d | None \<Rightarrow> bl_learning_days b) in
      bl_update (\<lambda>s. s\<lparr>bs_learning_until := now + d * DAY,
        bs_tuples := map (\<lambda>(k, t). (k, t\<lparr>ts_proposed := False, ts_dismissed := False, ts_days := [], ts_max_rank := 0,
          ts_max_base_rank := 0\<rparr>)) (bs_tuples s),
        bs_proposals := []\<rparr>) b)"

datatype learn_block = AlreadyLearned | AlreadyProposed | DismissedByUser | NeverLearned | ScoredHigh nat
  | ReachedCritical | NotOfficial string | NoIdentity string | TooFewDays nat | NotCommon string

definition blocked_by :: "baseline \<Rightarrow> tuple_stat \<Rightarrow> learn_block option" where
  "blocked_by b t =
     (if ts_learned t then Some AlreadyLearned
      else if ts_proposed t then Some AlreadyProposed
      else if ts_dismissed t then Some DismissedByUser
      else if ts_rule t \<in> set NEVER_LEARN then Some NeverLearned
      else if ts_max_base_rank t > severity_rank ''medium'' then Some (ScoredHigh (ts_max_base_rank t))
      else if ts_max_rank t \<ge> severity_rank ''critical'' then Some ReachedCritical
      else if ts_provenance t \<noteq> ''official'' then Some (NotOfficial (ts_provenance t))
      else if path_is_not_identity (basename (ts_exe t)) then Some (NoIdentity (basename (ts_exe t)))
      else if length (ts_days t) < bl_min_days b then Some (TooFewDays (length (ts_days t)))
      else if ts_rarity t \<noteq> ''common'' then Some (NotCommon (ts_rarity t))
      else None)"

definition eligible :: "baseline \<Rightarrow> tuple_stat \<Rightarrow> bool" where
  "eligible b t \<longleftrightarrow> blocked_by b t = None"

definition new_stat :: "sighting \<Rightarrow> tuple_stat" where
  "new_stat o1 =
     \<lparr>ts_rule = so_rule o1, ts_exe = so_exe o1, ts_parent = so_parent o1, ts_dir = so_dir o1, ts_count = 0, ts_days = [],
      ts_first_seen = so_ts o1, ts_last_seen = [], ts_severity = [], ts_max_rank = 0, ts_max_base_rank = 0,
      ts_provenance = [], ts_context = [], ts_package = None, ts_rarity = [], ts_suppressed = False, ts_demoted = False,
      ts_learned = False, ts_proposed = False, ts_dismissed = False\<rparr>"

definition note_day :: "string \<Rightarrow> string list \<Rightarrow> string list" where
  "note_day day ds =
     (if day \<in> set ds then ds
      else if length (ds @ [day]) > 64 then tl (ds @ [day]) else ds @ [day])"

definition touch_stat :: "sighting \<Rightarrow> tuple_stat \<Rightarrow> tuple_stat" where
  "touch_stat o1 e =
     e\<lparr>ts_count := ts_count e + 1, ts_last_seen := so_ts o1, ts_severity := so_severity o1,
       ts_max_rank := max (ts_max_rank e) (severity_rank (so_severity o1)),
       ts_max_base_rank := max (ts_max_base_rank e) (severity_rank (so_severity_base o1)),
       ts_provenance := so_provenance o1, ts_package := so_package o1, ts_context := so_context o1,
       ts_rarity := so_rarity o1, ts_suppressed := ts_suppressed e \<or> so_suppressed o1,
       ts_demoted := ts_demoted e \<or> so_demoted o1, ts_days := note_day (date_part (so_ts o1)) (ts_days e)\<rparr>"

definition so_key :: "sighting \<Rightarrow> string" where
  "so_key o1 = baseline_key (so_rule o1) (so_exe o1) (so_parent o1) (so_dir o1)"

text \<open>The cap: what is never dropped, and the order in which the rest goes.\<close>

definition keepsake :: "baseline_state \<Rightarrow> string option \<Rightarrow> string \<times> tuple_stat \<Rightarrow> bool" where
  "keepsake s protect_key kt =
     (let (k, t) = kt in
      Some k = protect_key \<or> ts_learned t \<or> ts_proposed t \<or> ts_dismissed t \<or> map_of (bs_learned s) k \<noteq> None
      \<or> map_of (bs_demoted s) k \<noteq> None \<or> k \<in> pp_key ` set (bs_proposals s))"

definition can_ever_learn :: "tuple_stat \<Rightarrow> bool" where
  "can_ever_learn t \<longleftrightarrow>
     ts_rule t \<notin> set NEVER_LEARN \<and> ts_provenance t = ''official'' \<and> ts_max_base_rank t \<le> severity_rank ''medium''
     \<and> ts_max_rank t < severity_rank ''critical''"

definition coldness :: "string \<times> tuple_stat \<Rightarrow> bool \<times> nat \<times> nat \<times> string" where
  "coldness kt = (can_ever_learn (snd kt), length (ts_days (snd kt)), ts_count (snd kt), ts_last_seen (snd kt))"

definition prune_tuples :: "string option \<Rightarrow> baseline \<Rightarrow> baseline" where
  "prune_tuples protect_key b =
     (let s = bl_state b; n = length (bs_tuples s) in
      if n \<le> MAX_TUPLES then b
      else
        let target = MAX_TUPLES - MAX_TUPLES div 10;
            gone = map fst (take (n - target)
              (sort_key coldness (filter (\<lambda>kt. \<not> keepsake s protect_key kt) (bs_tuples s))));
            left = filter (\<lambda>kt. fst kt \<notin> set gone) (bs_tuples s) in
        b\<lparr>bl_state := s\<lparr>bs_tuples := left\<rparr>, bl_dirty := bl_dirty b \<or> length left \<noteq> n\<rparr>)"

definition observe_sighting :: "string \<Rightarrow> string \<Rightarrow> sighting \<Rightarrow> baseline \<Rightarrow> learned \<times> baseline" where
  "observe_sighting fresh_id today o1 b =
     (let key = so_key o1;
          e = touch_stat o1 (case map_of (bl_tuples b) key of Some e \<Rightarrow> e | None \<Rightarrow> new_stat o1);
          b1 = bl_update (\<lambda>s. s\<lparr>bs_tuples := AList.update key e (bs_tuples s)\<rparr>) b in
      if \<not> eligible b1 e then (NothingLearned, prune_tuples (Some key) b1)
      else if learning b1 (so_now o1) then
        (Entry key (stat_toml e) (stat_comment today ''learned'' e),
         prune_tuples (Some key) (bl_update (\<lambda>s. s\<lparr>
           bs_tuples := AList.update key (e\<lparr>ts_learned := True\<rparr>) (bs_tuples s),
           bs_learned := bt_insert key \<lparr>le_key = key, le_rule = ts_rule e, le_exe = ts_exe e, le_written = so_ts o1,
             le_revoked = None, le_accepted_by = None\<rparr> (bs_learned s)\<rparr>) b1))
      else
        (Proposed fresh_id,
         prune_tuples (Some key) (bl_update (\<lambda>s. s\<lparr>
           bs_tuples := AList.update key (e\<lparr>ts_proposed := True\<rparr>) (bs_tuples s),
           bs_proposals := bs_proposals s @ [\<lparr>pp_id = fresh_id, pp_rule = ts_rule e, pp_exe = ts_exe e,
             pp_parent = ts_parent e, pp_dir = ts_dir e, pp_count = ts_count e, pp_days = length (ts_days e),
             pp_first_seen = ts_first_seen e, pp_last_seen = ts_last_seen e, pp_toml = stat_toml e, pp_key = key,
             pp_reason = []\<rparr>]\<rparr>) b1)))"

section \<open>Proposals\<close>

definition propose_redemoted ::
    "string \<Rightarrow> (nat \<Rightarrow> string) \<Rightarrow> string \<Rightarrow> string \<Rightarrow> nat \<Rightarrow> nat \<Rightarrow> nat \<Rightarrow> baseline \<Rightarrow> baseline" where
  "propose_redemoted fresh_id stamp rule tuple count often now b =
     (if tuple \<in> pp_key ` set (bs_proposals (bl_state b)) then b
      else case splitn 4 CHR ''|'' tuple of
        [_, exe, parent, dir] \<Rightarrow>
          bl_update (\<lambda>s. s\<lparr>bs_proposals := bs_proposals s @ [\<lparr>pp_id = fresh_id, pp_rule = rule, pp_exe = exe,
            pp_parent = parent, pp_dir = dir, pp_count = count, pp_days = often, pp_first_seen = stamp now,
            pp_last_seen = stamp now, pp_toml = render_block (learned_spec rule exe parent dir), pp_key = tuple,
            pp_reason = REDEMOTED_REASON\<rparr>]\<rparr>) b
      | _ \<Rightarrow> b)"

definition take_proposal :: "string \<Rightarrow> baseline_state \<Rightarrow> (proposal \<times> baseline_state) option" where
  "take_proposal i s =
     (case position (\<lambda>p. pp_id p = i) (bs_proposals s) of
        None \<Rightarrow> None
      | Some n \<Rightarrow> Some (bs_proposals s ! n, s\<lparr>bs_proposals := remove_nth n (bs_proposals s)\<rparr>))"

definition no_proposal :: "string \<Rightarrow> string" where
  "no_proposal i = ''no proposal '' @ i"

definition map_stat :: "string \<Rightarrow> (tuple_stat \<Rightarrow> tuple_stat) \<Rightarrow> baseline_state \<Rightarrow> baseline_state" where
  "map_stat key f s = s\<lparr>bs_tuples := map (\<lambda>(k, t). if k = key then (k, f t) else (k, t)) (bs_tuples s)\<rparr>"

definition accept_proposal ::
    "string \<Rightarrow> string \<Rightarrow> string \<Rightarrow> string \<Rightarrow> baseline \<Rightarrow> string + (proposal \<times> string) \<times> baseline" where
  "accept_proposal today rfc_now i who b =
     (case take_proposal i (bl_state b) of
        None \<Rightarrow> Inl (no_proposal i)
      | Some (p, s) \<Rightarrow>
          Inr ((p, case map_of (bs_tuples s) (pp_key p) of
                Some t \<Rightarrow> stat_comment today ''learned'' t @ '' '' @ em_dash @ '' accepted by '' @ who
              | None \<Rightarrow> ''accepted by '' @ who @ '' on '' @ today @ '': '' @ pp_rule p @ '' from '' @ pp_exe p),
            b\<lparr>bl_dirty := True, bl_state :=
              (map_stat (pp_key p) (\<lambda>t. t\<lparr>ts_learned := True, ts_proposed := False\<rparr>) s)\<lparr>bs_learned :=
                 bt_insert (pp_key p) \<lparr>le_key = pp_key p, le_rule = pp_rule p, le_exe = pp_exe p, le_written = rfc_now,
                   le_revoked = None, le_accepted_by = Some who\<rparr> (bs_learned s)\<rparr>\<rparr>))"

definition dismiss_proposal :: "string \<Rightarrow> baseline \<Rightarrow> string + proposal \<times> baseline" where
  "dismiss_proposal i b =
     (case take_proposal i (bl_state b) of
        None \<Rightarrow> Inl (no_proposal i)
      | Some (p, s) \<Rightarrow>
          Inr (p, b\<lparr>bl_dirty := True,
            bl_state := map_stat (pp_key p) (\<lambda>t. t\<lparr>ts_proposed := False, ts_dismissed := True\<rparr>) s\<rparr>))"

text \<open>The option of a noisy-rule alert: an entry for each of the named patterns. \<open>ids\<close> are the fresh ids.\<close>

fun propose_keys :: "(string \<Rightarrow> string) \<Rightarrow> string list \<Rightarrow> baseline_state \<Rightarrow> proposal list \<times> baseline_state" where
  "propose_keys ids [] s = ([], s)"
| "propose_keys ids (key # keys) s =
     (case map_of (bs_tuples s) key of
        None \<Rightarrow> propose_keys ids keys s
      | Some t \<Rightarrow>
          if ts_learned t \<or> ts_proposed t then propose_keys ids keys s
          else
            let p = \<lparr>pp_id = ids key, pp_rule = ts_rule t, pp_exe = ts_exe t, pp_parent = ts_parent t, pp_dir = ts_dir t,
                     pp_count = ts_count t, pp_days = length (ts_days t), pp_first_seen = ts_first_seen t,
                     pp_last_seen = ts_last_seen t, pp_toml = stat_toml t, pp_key = key, pp_reason = []\<rparr>;
                (ps, s') = propose_keys ids keys
                  ((map_stat key (\<lambda>t. t\<lparr>ts_proposed := True, ts_dismissed := False\<rparr>) s)\<lparr>bs_proposals := bs_proposals s @ [p]\<rparr>)
            in (p # ps, s'))"

section \<open>The noise guard\<close>

definition count_in :: "(nat \<times> nat) list \<Rightarrow> nat" where
  "count_in w = sum_list (map snd w)"

text \<open>\<open>*w.entry(hour).or_insert(0) += 1\<close>.\<close>

definition bump_hour :: "nat \<Rightarrow> (nat \<times> nat) list \<Rightarrow> (nat \<times> nat) list" where
  "bump_hour hour w = bt_insert hour ((case map_of w hour of Some n \<Rightarrow> n | None \<Rightarrow> 0) + 1) w"

definition window_of :: "baseline_state \<Rightarrow> string \<Rightarrow> (nat \<times> nat) list" where
  "window_of s tuple = (case map_of (bs_windows s) tuple of Some w \<Rightarrow> w | None \<Rightarrow> [])"

definition note_alert ::
    "string \<Rightarrow> (nat \<Rightarrow> string) \<Rightarrow> string \<Rightarrow> string \<Rightarrow> nat \<Rightarrow> baseline \<Rightarrow> demotion option \<times> baseline" where
  "note_alert fresh_id stamp rule tuple now b =
     (let w = recent_hours now (bump_hour (now div 3600) (window_of (bl_state b) tuple));
          count = count_in w;
          b1 = bl_update (\<lambda>s. s\<lparr>bs_windows := AList.update tuple w (bs_windows s)\<rparr>) b in
      case map_of (bs_demoted (bl_state b1)) tuple of
        Some d \<Rightarrow>
          (None, bl_update (\<lambda>s. s\<lparr>bs_demoted := bt_insert tuple (d\<lparr>de_last_seen := now, de_count := count\<rparr>) (bs_demoted s)\<rparr>) b1)
      | None \<Rightarrow>
          if count \<le> bl_noisy b then (None, b1)
          else
            let d = \<lparr>de_rule = rule, de_tuple = tuple, de_since = now, de_count = count, de_last_seen = now,
                     de_patterns_quiet = 0\<rparr>;
                b2 = bl_update (\<lambda>s. s\<lparr>bs_demoted := bt_insert tuple d (bs_demoted s)\<rparr>) b1;
                quiet = length (filter (\<lambda>(k, x). de_rule x = rule) (bs_demoted (bl_state b2)));
                often = (case map_of (bs_redemotions (bl_state b2)) tuple of Some n \<Rightarrow> n | None \<Rightarrow> 0) + 1;
                b3 = bl_update (\<lambda>s. s\<lparr>bs_redemotions := bt_insert tuple often (bs_redemotions s)\<rparr>) b2 in
            (Some (d\<lparr>de_patterns_quiet := quiet\<rparr>),
             if often \<ge> REDEMOTE_PROPOSE_AT then propose_redemoted fresh_id stamp rule tuple count often now b3 else b3))"

definition is_demoted_tuple :: "baseline \<Rightarrow> string \<Rightarrow> bool" where
  "is_demoted_tuple b tuple \<longleftrightarrow> map_of (bs_demoted (bl_state b)) tuple \<noteq> None"

definition demoted_rules :: "baseline \<Rightarrow> string list" where
  "demoted_rules b = btree_set (map (\<lambda>(k, d). de_rule d) (bs_demoted (bl_state b)))"

definition undemote :: "string \<Rightarrow> baseline \<Rightarrow> bool \<times> baseline" where
  "undemote rule b =
     (let s = bl_state b; tuples = map fst (filter (\<lambda>(k, d). de_rule d = rule) (bs_demoted s)) in
      if tuples = [] then (False, b)
      else (True, bl_update (\<lambda>s. s\<lparr>bs_demoted := filter (\<lambda>(k, d). k \<notin> set tuples) (bs_demoted s),
        bs_windows := filter (\<lambda>(k, w). k \<notin> set tuples \<and> k \<noteq> rule) (bs_windows s)\<rparr>) b))"

definition over_yet :: "baseline \<Rightarrow> baseline_state \<Rightarrow> nat \<Rightarrow> string \<times> demotion \<Rightarrow> bool" where
  "over_yet b s now kd \<longleftrightarrow>
     count_in (recent_hours now (window_of s (fst kd))) \<le> bl_noisy b \<and> now - de_since (snd kd) \<ge> DAY"

definition clear_stale_demotions :: "nat \<Rightarrow> baseline \<Rightarrow> string list \<times> baseline" where
  "clear_stale_demotions now b =
     (let s = bl_state b; ws = trim_windows now (bs_windows s); s1 = s\<lparr>bs_windows := ws\<rparr>;
          over = filter (over_yet b s1 now) (bs_demoted s1) in
      (remdups (map (\<lambda>(k, d). de_rule d) over),
       b\<lparr>bl_state := s1\<lparr>bs_demoted := filter (\<lambda>kd. \<not> over_yet b s1 now kd) (bs_demoted s1)\<rparr>,
         bl_dirty := bl_dirty b \<or> length ws \<noteq> length (bs_windows s) \<or> over \<noteq> []\<rparr>))"

definition top_tuples :: "string \<Rightarrow> nat \<Rightarrow> baseline \<Rightarrow> tuple_stat list" where
  "top_tuples rule n b =
     take n (sort_key (\<lambda>t. (- int (ts_count t), ts_exe t)) (filter (\<lambda>t. ts_rule t = rule) (map snd (bl_tuples b))))"

section \<open>Revocation and persistence\<close>

definition learned_entries :: "baseline \<Rightarrow> learned_entry list" where
  "learned_entries b = filter (\<lambda>e. le_revoked e = None) (map snd (bs_learned (bl_state b)))"

definition mark_accepted_by :: "string \<Rightarrow> string \<Rightarrow> baseline \<Rightarrow> baseline" where
  "mark_accepted_by key who b =
     (case map_of (bs_learned (bl_state b)) key of
        None \<Rightarrow> b
      | Some e \<Rightarrow> bl_update (\<lambda>s. s\<lparr>bs_learned := bt_insert key (e\<lparr>le_accepted_by := Some who\<rparr>) (bs_learned s)\<rparr>) b)"

definition mark_revoked :: "string \<Rightarrow> string \<Rightarrow> baseline \<Rightarrow> baseline" where
  "mark_revoked key reason b =
     bl_update (\<lambda>s. map_stat key (\<lambda>t. t\<lparr>ts_learned := False\<rparr>)
       (case map_of (bs_learned s) key of
          None \<Rightarrow> s
        | Some e \<Rightarrow> s\<lparr>bs_learned := bt_insert key (e\<lparr>le_revoked := Some reason\<rparr>) (bs_learned s)\<rparr>)) b"

text \<open>\<open>read\<close> is what the state file parses to, when there is one.\<close>

definition load_baseline :: "baseline_state option \<Rightarrow> nat \<Rightarrow> nat \<Rightarrow> nat \<Rightarrow> nat option \<Rightarrow> nat \<Rightarrow> baseline" where
  "load_baseline read days min_days noisy hint now =
     (let s0 = (case read of Some s \<Rightarrow> s | None \<Rightarrow>
            \<lparr>bs_installed_at = 0, bs_learning_until = 0, bs_tuples = [], bs_proposals = [], bs_demoted = [],
             bs_redemotions = [], bs_windows = [], bs_learned = []\<rparr>);
          installed = (case hint of Some h \<Rightarrow> h | None \<Rightarrow> now);
          (s1, d1) = (if bs_installed_at s0 = 0
            then (s0\<lparr>bs_installed_at := installed, bs_learning_until := installed + days * DAY\<rparr>, True) else (s0, False));
          (s2, d2) = (if bs_learning_until s1 = 0
            then (s1\<lparr>bs_learning_until := bs_installed_at s1 + days * DAY\<rparr>, True) else (s1, d1));
          ws = trim_windows now (bs_windows s2) in
      prune_tuples None
        \<lparr>bl_state = s2\<lparr>bs_windows := ws\<rparr>, bl_learning_days = days, bl_min_days = min_days, bl_noisy = noisy,
         bl_dirty = d2 \<or> length ws \<noteq> length (bs_windows s2), bl_last_save = 0, bl_save_every = 60\<rparr>)"

definition save_if_due :: "(baseline_state \<Rightarrow> bool) \<Rightarrow> nat \<Rightarrow> bool \<Rightarrow> baseline \<Rightarrow> baseline_state option \<times> baseline" where
  "save_if_due writes now force b =
     (if \<not> bl_dirty b then (None, b)
      else if \<not> force \<and> now - bl_last_save b < bl_save_every b then (None, b)
      else if writes (bl_state b) then (Some (bl_state b), b\<lparr>bl_dirty := False, bl_last_save := now\<rparr>)
      else (None, b))"

section \<open>What the cap spares\<close>

lemma prune_subset: "set (bl_tuples (prune_tuples pk b)) \<subseteq> set (bl_tuples b)"
  by (auto simp: prune_tuples_def Let_def)

lemma prune_keys_distinct: "distinct (map fst (bl_tuples b)) \<Longrightarrow> distinct (map fst (bl_tuples (prune_tuples pk b)))"
  by (simp add: prune_tuples_def Let_def distinct_map_filter)

lemma prune_other [simp]:
  "bs_proposals (bl_state (prune_tuples pk b)) = bs_proposals (bl_state b)"
  "bs_demoted (bl_state (prune_tuples pk b)) = bs_demoted (bl_state b)"
  "bs_windows (bl_state (prune_tuples pk b)) = bs_windows (bl_state b)"
  "bs_learned (bl_state (prune_tuples pk b)) = bs_learned (bl_state b)"
  "bs_learning_until (bl_state (prune_tuples pk b)) = bs_learning_until (bl_state b)"
  "bl_min_days (prune_tuples pk b) = bl_min_days b"
  by (simp_all add: prune_tuples_def Let_def)

lemma map_of_prune:
  "distinct (map fst (bl_tuples b)) \<Longrightarrow> map_of (bl_tuples (prune_tuples pk b)) k = Some t \<Longrightarrow> map_of (bl_tuples b) k = Some t"
  by (rule map_of_is_SomeI [OF _ subsetD [OF prune_subset map_of_SomeD]])

text \<open>The cap of the pattern store never costs a decision. Pruning drops no pattern that was learned, is proposed or
  was dismissed, none that is quiet, none with a learned entry or an open proposal, and not the one just
  observed; and when those leave room the store is back at nine tenths of its cap.\<close>

theorem cap_spares_decisions:
  assumes "distinct (map fst (bl_tuples b))"
  shows "(\<forall>kt \<in> set (bl_tuples b). keepsake (bl_state b) pk kt \<longrightarrow> kt \<in> set (bl_tuples (prune_tuples pk b)))
    \<and> (MAX_TUPLES < length (bl_tuples b) \<and> length (filter (keepsake (bl_state b) pk) (bl_tuples b)) \<le> 9000
         \<longrightarrow> length (bl_tuples (prune_tuples pk b)) = 9000)"
proof -
  let ?xs = "bl_tuples b" and ?keep = "keepsake (bl_state b) pk"
  define cold where "cold = sort_key coldness (filter (\<lambda>kt. \<not> ?keep kt) ?xs)"
  define gone where "gone = take (length ?xs - 9000) cold"
  have set_cold: "set cold = {kt \<in> set ?xs. \<not> ?keep kt}" by (auto simp: cold_def)
  have dist: "distinct (map fst cold)"
    using distinct_map_filter [OF assms] unfolding cold_def by (simp add: distinct_map)
  have gone_set: "set gone \<subseteq> set cold" unfolding gone_def by (rule set_take_subset)
  have left: "bl_tuples (prune_tuples pk b) = (if length ?xs \<le> MAX_TUPLES then ?xs else filter (\<lambda>kt. fst kt \<notin> fst ` set gone) ?xs)"
    by (simp add: prune_tuples_def Let_def gone_def cold_def MAX_TUPLES_def)
  have by_key: "fst kt \<in> fst ` set gone \<longleftrightarrow> kt \<in> set gone" if "kt \<in> set ?xs" for kt
    using that assms gone_set set_cold by (auto simp: distinct_map inj_on_def)
  show ?thesis
  proof (intro conjI ballI impI)
    fix kt assume "kt \<in> set ?xs" "?keep kt"
    then show "kt \<in> set (bl_tuples (prune_tuples pk b))"
      using by_key gone_set set_cold by (auto simp: left)
  next
    assume big: "MAX_TUPLES < length ?xs \<and> length (filter ?keep ?xs) \<le> 9000"
    have "length cold = length ?xs - length (filter ?keep ?xs)"
      unfolding cold_def using sum_length_filter_compl [of ?keep ?xs] by simp
    with big have "length ?xs - 9000 \<le> length cold" by linarith
    then have "length gone = length ?xs - 9000" by (simp add: gone_def)
    moreover have "distinct gone" using dist by (auto simp: gone_def distinct_map dest: distinct_take)
    ultimately have card: "card (set gone) = length ?xs - 9000" by (simp add: distinct_card)
    have "filter (\<lambda>kt. fst kt \<notin> fst ` set gone) ?xs = filter (\<lambda>kt. kt \<notin> set gone) ?xs"
      by (rule filter_cong) (auto simp: by_key)
    moreover have "length (filter (\<lambda>kt. kt \<notin> set gone) ?xs) = card (set ?xs - set gone)"
      using assms by (simp add: distinct_length_filter distinct_map) (rule arg_cong [of _ _ card], blast)
    moreover have "card (set ?xs - set gone) = length ?xs - (length ?xs - 9000)"
      using card gone_set set_cold assms by (simp add: card_Diff_subset distinct_card distinct_map subset_iff)
    ultimately show "length (bl_tuples (prune_tuples pk b)) = 9000"
      using big by (simp add: left MAX_TUPLES_def)
  qed
qed

section \<open>The noise guard counts a day\<close>

definition since_hour :: "nat \<Rightarrow> (nat \<times> nat) list \<Rightarrow> nat" where
  "since_hour c w = count_in (filter (\<lambda>(h, n). c \<le> h) w)"

lemma since_hour_simps [simp]:
  "since_hour c [] = 0" "since_hour c ((h, n) # w) = (if c \<le> h then n else 0) + since_hour c w"
  by (simp_all add: since_hour_def count_in_def)

lemma since_hour_put:
  "bt_sorted w \<Longrightarrow> since_hour c (bt_insert h n w) + (if c \<le> h then (case map_of w h of Some m \<Rightarrow> m | None \<Rightarrow> 0) else 0)
     = since_hour c w + (if c \<le> h then n else 0)"
proof (induction w)
  case (Cons x w)
  obtain a m where x: "x = (a, m)" by fastforce
  from Cons.prems have "bt_sorted w" and below: "\<forall>k \<in> fst ` set w. a < k" by (auto simp: bt_sorted_def x)
  have "map_of w h = None" if "h \<le> a" using that below by (force simp: map_of_eq_None_iff)
  with Cons.IH [OF \<open>bt_sorted w\<close>] show ?case by (auto simp: x)
qed simp

lemma since_hour_bump:
  "bt_sorted w \<Longrightarrow> since_hour c (bump_hour h w) = since_hour c w + (if c \<le> h then 1 else 0)"
  using since_hour_put [of w c h "(case map_of w h of Some m \<Rightarrow> m | None \<Rightarrow> 0) + 1"]
  by (auto simp: bump_hour_def split: if_splits)

lemma since_hour_recent: "now div 3600 - 23 \<le> c \<Longrightarrow> since_hour c (recent_hours now w) = since_hour c w"
  by (induction w) (auto simp: recent_hours_def)

lemma count_recent: "count_in (recent_hours now w) = since_hour (now div 3600 - 23) w"
  by (simp add: since_hour_def recent_hours_def)

lemma bt_sorted_recent [simp]: "bt_sorted w \<Longrightarrow> bt_sorted (recent_hours now w)"
  by (simp add: bt_sorted_def recent_hours_def sorted_wrt_filter sorted_wrt_map)

lemma window_of_update: "window_of (s\<lparr>bs_windows := AList.update t w (bs_windows s)\<rparr>) k = (if k = t then w else window_of s k)"
  by (simp add: window_of_def update_conv')

lemma window_of_trim:
  "distinct (map fst (bs_windows s)) \<Longrightarrow> window_of (s\<lparr>bs_windows := trim_windows now (bs_windows s)\<rparr>) k = recent_hours now (window_of s k)"
proof -
  have "(case map_of (trim_windows now ws) k of Some w \<Rightarrow> w | None \<Rightarrow> [])
      = recent_hours now (case map_of ws k of Some w \<Rightarrow> w | None \<Rightarrow> [])" if "distinct (map fst ws)" for ws
    using that
  proof (induction ws)
    case (Cons x ws)
    obtain t w where x: "x = (t, w)" by fastforce
    from Cons.prems have "map_of ws t = None" by (simp add: x map_of_eq_None_iff)
    with Cons show ?case by (auto simp: x trim_windows_def recent_hours_def split: option.splits)
  qed (simp add: trim_windows_def recent_hours_def)
  then show "distinct (map fst (bs_windows s)) \<Longrightarrow> ?thesis" by (simp add: window_of_def)
qed

text \<open>The events of the guard: an alert of a pattern, and the daily review. Times do not go backwards.\<close>

datatype guard_event = Alerted string string nat | Reviewed nat

fun guard_time :: "guard_event \<Rightarrow> nat" where
  "guard_time (Alerted rule tuple now) = now"
| "guard_time (Reviewed now) = now"

fun guard_step :: "string \<Rightarrow> (nat \<Rightarrow> string) \<Rightarrow> guard_event \<Rightarrow> baseline \<Rightarrow> baseline" where
  "guard_step fresh_id stamp (Alerted rule tuple now) b = snd (note_alert fresh_id stamp rule tuple now b)"
| "guard_step fresh_id stamp (Reviewed now) b = snd (clear_stale_demotions now b)"

inductive guard_run :: "nat \<Rightarrow> guard_event list \<Rightarrow> baseline \<Rightarrow> bool" for noisy where
  start: "bs_windows (bl_state b) = [] \<Longrightarrow> bs_demoted (bl_state b) = [] \<Longrightarrow> bl_noisy b = noisy \<Longrightarrow> guard_run noisy [] b"
| step: "guard_run noisy es b \<Longrightarrow> (\<forall>e' \<in> set es. guard_time e' \<le> guard_time e)
    \<Longrightarrow> guard_run noisy (es @ [e]) (guard_step fresh_id stamp e b)"

definition alerts_since :: "nat \<Rightarrow> string \<Rightarrow> guard_event list \<Rightarrow> nat" where
  "alerts_since c tuple es =
     length (filter (\<lambda>e. case e of Alerted _ t now \<Rightarrow> t = tuple \<and> c \<le> now div 3600 | Reviewed _ \<Rightarrow> False) es)"

lemma alerts_since_snoc:
  "alerts_since c tuple (es @ [Alerted r t now]) = alerts_since c tuple es + (if t = tuple \<and> c \<le> now div 3600 then 1 else 0)"
  "alerts_since c tuple (es @ [Reviewed now]) = alerts_since c tuple es"
  by (simp_all add: alerts_since_def)

definition counts_right :: "guard_event list \<Rightarrow> baseline \<Rightarrow> bool" where
  "counts_right es b \<longleftrightarrow>
     distinct (map fst (bs_windows (bl_state b))) \<and> (\<forall>t. bt_sorted (window_of (bl_state b) t))
     \<and> (\<forall>t c. (\<forall>e \<in> set es. guard_time e div 3600 - 23 \<le> c) \<longrightarrow> since_hour c (window_of (bl_state b) t) = alerts_since c t es)
     \<and> (\<forall>k d. (k, d) \<in> set (bs_demoted (bl_state b)) \<longrightarrow> de_since d \<in> guard_time ` set es)"

lemma counts_rightD:
  assumes "counts_right es b"
  shows "distinct (map fst (bs_windows (bl_state b)))" and "bt_sorted (window_of (bl_state b) t)"
    and "\<forall>e \<in> set es. guard_time e div 3600 - 23 \<le> c \<Longrightarrow> since_hour c (window_of (bl_state b) t) = alerts_since c t es"
    and "(k, d) \<in> set (bs_demoted (bl_state b)) \<Longrightarrow> de_since d \<in> guard_time ` set es"
  using assms by (simp_all add: counts_right_def)

lemma counts_rightI:
  assumes "distinct (map fst (bs_windows (bl_state b)))" and "\<And>t. bt_sorted (window_of (bl_state b) t)"
    and "\<And>t c. \<forall>e \<in> set es. guard_time e div 3600 - 23 \<le> c \<Longrightarrow> since_hour c (window_of (bl_state b) t) = alerts_since c t es"
    and "\<And>k d. (k, d) \<in> set (bs_demoted (bl_state b)) \<Longrightarrow> de_since d \<in> guard_time ` set es"
  shows "counts_right es b"
  unfolding counts_right_def using assms by blast

lemma note_alert_windows:
  "bs_windows (bl_state (snd (note_alert i st rule tuple now b)))
     = AList.update tuple (recent_hours now (bump_hour (now div 3600) (window_of (bl_state b) tuple))) (bs_windows (bl_state b))"
  by (auto simp: note_alert_def propose_redemoted_def Let_def split: option.splits list.splits)

lemma note_alert_window:
  "window_of (bl_state (snd (note_alert i st rule tuple now b))) t
     = (if t = tuple then recent_hours now (bump_hour (now div 3600) (window_of (bl_state b) tuple)) else window_of (bl_state b) t)"
  by (simp add: window_of_def [of "bl_state (snd (note_alert i st rule tuple now b))"] note_alert_windows update_conv')
     (simp add: window_of_def)

lemma note_alert_demoted:
  "(k, d) \<in> set (bs_demoted (bl_state (snd (note_alert i st rule tuple now b)))) \<Longrightarrow>
     (\<exists>d'. (k, d') \<in> set (bs_demoted (bl_state b)) \<and> de_since d' = de_since d) \<or> de_since d = now"
proof -
  let ?count = "count_in (recent_hours now (bump_hour (now div 3600) (window_of (bl_state b) tuple)))"
  assume kd: "(k, d) \<in> set (bs_demoted (bl_state (snd (note_alert i st rule tuple now b))))"
  have "bs_demoted (bl_state (snd (note_alert i st rule tuple now b))) =
     (case map_of (bs_demoted (bl_state b)) tuple of
        Some d \<Rightarrow> bt_insert tuple (d\<lparr>de_last_seen := now, de_count := ?count\<rparr>) (bs_demoted (bl_state b))
      | None \<Rightarrow> if ?count \<le> bl_noisy b then bs_demoted (bl_state b)
          else bt_insert tuple \<lparr>de_rule = rule, de_tuple = tuple, de_since = now, de_count = ?count, de_last_seen = now,
            de_patterns_quiet = 0\<rparr> (bs_demoted (bl_state b)))"
    by (auto simp: note_alert_def propose_redemoted_def Let_def split: option.splits list.splits)
  with kd show ?thesis
    by (auto split: option.splits if_splits dest!: subsetD [OF set_bt_insert] dest: map_of_SomeD)
qed

lemma note_alert_noisy [simp]: "bl_noisy (snd (note_alert i st rule tuple now b)) = bl_noisy b"
  by (simp add: note_alert_def propose_redemoted_def Let_def split: option.splits list.splits)

lemma review_facts:
  "bs_windows (bl_state (snd (clear_stale_demotions now b))) = trim_windows now (bs_windows (bl_state b))"
  "bs_demoted (bl_state (snd (clear_stale_demotions now b)))
     = filter (\<lambda>kd. \<not> over_yet b ((bl_state b)\<lparr>bs_windows := trim_windows now (bs_windows (bl_state b))\<rparr>) now kd) (bs_demoted (bl_state b))"
  "bl_noisy (snd (clear_stale_demotions now b)) = bl_noisy b"
  by (simp_all add: clear_stale_demotions_def Let_def)

lemma window_of_cong: "bs_windows s = bs_windows s' \<Longrightarrow> window_of s k = window_of s' k"
  by (simp add: window_of_def)

lemma guard_step_counts:
  assumes inv: "counts_right es b" and late: "\<forall>e' \<in> set es. guard_time e' \<le> guard_time e"
  shows "counts_right (es @ [e]) (guard_step i st e b)"
proof (cases e)
  case (Alerted rule tuple now)
  let ?s' = "bl_state (snd (note_alert i st rule tuple now b))"
  note w = note_alert_window [of i st rule tuple now b]
  have "since_hour c (window_of ?s' t) = alerts_since c t (es @ [e])"
    if c: "\<forall>e' \<in> set (es @ [e]). guard_time e' div 3600 - 23 \<le> c" for t c
  proof -
    have "since_hour c (window_of (bl_state b) t) = alerts_since c t es" using c by (intro counts_rightD(3) [OF inv]) simp
    moreover have "now div 3600 - 23 \<le> c" using c Alerted by simp
    ultimately show ?thesis
      using counts_rightD(2) [OF inv] unfolding w Alerted alerts_since_snoc
      by (cases "t = tuple") (simp_all add: since_hour_recent since_hour_bump)
  qed
  moreover have "bt_sorted (window_of ?s' t)" for t
    using counts_rightD(2) [OF inv] by (simp add: w bump_hour_def)
  moreover have "de_since d \<in> guard_time ` set (es @ [e])" if "(k, d) \<in> set (bs_demoted ?s')" for k d
    using note_alert_demoted [OF that] counts_rightD(4) [OF inv] Alerted by (auto simp del: set_append) (force, force)
  moreover have "distinct (map fst (bs_windows ?s'))"
    unfolding note_alert_windows by (rule distinct_update [OF counts_rightD(1) [OF inv]])
  ultimately have "counts_right (es @ [e]) (snd (note_alert i st rule tuple now b))" by (intro counts_rightI)
  then show ?thesis by (simp add: Alerted)
next
  case (Reviewed now)
  let ?s' = "bl_state (snd (clear_stale_demotions now b))"
  note d = counts_rightD(1) [OF inv]
  have w: "window_of ?s' t = recent_hours now (window_of (bl_state b) t)" for t
    using window_of_cong [of ?s' "(bl_state b)\<lparr>bs_windows := trim_windows now (bs_windows (bl_state b))\<rparr>"] window_of_trim [OF d]
    by (simp add: review_facts)
  have "distinct (map fst (bs_windows ?s'))"
    using d by (simp add: review_facts trim_windows_def distinct_map_filter comp_def case_prod_beta)
  moreover have "since_hour c (window_of ?s' t) = alerts_since c t (es @ [e])"
    if c: "\<forall>e' \<in> set (es @ [e]). guard_time e' div 3600 - 23 \<le> c" for t c
  proof -
    have "since_hour c (window_of (bl_state b) t) = alerts_since c t es" using c by (intro counts_rightD(3) [OF inv]) simp
    then show ?thesis using c unfolding w Reviewed alerts_since_snoc by (simp add: since_hour_recent)
  qed
  moreover have "bt_sorted (window_of ?s' t)" for t using counts_rightD(2) [OF inv] by (simp add: w)
  moreover have "de_since d \<in> guard_time ` set (es @ [e])" if "(k, d) \<in> set (bs_demoted ?s')" for k d
    using that counts_rightD(4) [OF inv, of k d] by (simp add: review_facts)
  ultimately have "counts_right (es @ [e]) (snd (clear_stale_demotions now b))" by (intro counts_rightI)
  then show ?thesis by (simp add: Reviewed)
qed

lemma guard_run_counts: "guard_run noisy es b \<Longrightarrow> counts_right es b \<and> bl_noisy b = noisy"
proof (induction rule: guard_run.induct)
  case (start b)
  then show ?case by (simp add: counts_right_def window_of_def alerts_since_def)
next
  case (step es b e fresh_id stamp)
  moreover from this have "bl_noisy (guard_step fresh_id stamp e b) = noisy" by (cases e) (simp_all add: review_facts)
  ultimately show ?case using guard_step_counts [of es b e] by simp
qed

lemma note_alert_result:
  assumes "note_alert fresh_id stamp rule tuple now b = (res, b')"
  defines "count \<equiv> count_in (recent_hours now (bump_hour (now div 3600) (window_of (bl_state b) tuple)))"
  shows "res \<noteq> None \<longleftrightarrow> \<not> is_demoted_tuple b tuple \<and> bl_noisy b < count"
    and "res = Some d \<Longrightarrow> de_tuple d = tuple \<and> de_count d = count"
    and "t \<noteq> tuple \<Longrightarrow> is_demoted_tuple b' t = is_demoted_tuple b t"
  using assms(1) unfolding note_alert_def Let_def count_def [symmetric] is_demoted_tuple_def
  by (auto simp: propose_redemoted_def map_of_bt_insert split: option.splits if_splits list.splits)

text \<open>The noise guard counts the alerts of one pattern over the last day, and quietens nothing else. In every run, an
  alert moves its own pattern to the timeline exactly when more than the configured number of alerts of
  that very pattern fell into the last twenty-four clock hours, the report says that number, and no
  other pattern becomes quiet or loud by it.\<close>

theorem guard_quietens_the_flooding_pattern:
  assumes "guard_run noisy es b" and "\<forall>e \<in> set es. guard_time e \<le> now"
    and "note_alert fresh_id stamp rule tuple now b = (res, b')"
  defines "n \<equiv> alerts_since (now div 3600 - 23) tuple (es @ [Alerted rule tuple now])"
  shows "(res \<noteq> None \<longleftrightarrow> \<not> is_demoted_tuple b tuple \<and> noisy < n) \<and> (\<forall>d. res = Some d \<longrightarrow> de_tuple d = tuple \<and> de_count d = n)
    \<and> (\<forall>t. t \<noteq> tuple \<longrightarrow> is_demoted_tuple b' t = is_demoted_tuple b t)"
proof -
  from guard_run_counts [OF assms(1)] have inv: "counts_right es b" and noisy: "bl_noisy b = noisy" by auto
  have "since_hour (now div 3600 - 23) (window_of (bl_state b) tuple) = alerts_since (now div 3600 - 23) tuple es"
    by (rule counts_rightD(3) [OF inv]) (use assms(2) diff_le_mono div_le_mono in blast)
  then have "count_in (recent_hours now (bump_hour (now div 3600) (window_of (bl_state b) tuple))) = n"
    using counts_rightD(2) [OF inv] by (simp add: n_def count_recent since_hour_bump alerts_since_snoc)
  with note_alert_result [OF assms(3)] noisy show ?thesis by auto
qed

text \<open>Nothing stays quiet for good. In every run, the review that comes a day after the last alert brings every
  quiet pattern back.\<close>

theorem quiet_ends_after_a_day:
  assumes "guard_run noisy es b" and "\<forall>e \<in> set es. guard_time e + DAY \<le> now"
  shows "bs_demoted (bl_state (snd (clear_stale_demotions now b))) = []"
proof -
  from guard_run_counts [OF assms(1)] have inv: "counts_right es b" and noisy: "bl_noisy b = noisy" by auto
  let ?s = "(bl_state b)\<lparr>bs_windows := trim_windows now (bs_windows (bl_state b))\<rparr>"
  have d: "distinct (map fst (bs_windows (bl_state b)))" using inv by (simp add: counts_right_def)
  have "over_yet b ?s now (k, x)" if "(k, x) \<in> set (bs_demoted (bl_state b))" for k x
  proof -
    have old: "guard_time e div 3600 < now div 3600 - 23" if "e \<in> set es" for e
      using assms(2) that by (fastforce simp: DAY_def)
    have "alerts_since (now div 3600 - 23) k es = 0"
      using old by (fastforce simp: alerts_since_def filter_empty_conv split: guard_event.splits)
    moreover have "since_hour (now div 3600 - 23) (window_of (bl_state b) k) = alerts_since (now div 3600 - 23) k es"
      by (rule counts_rightD(3) [OF inv]) (use old in fastforce)
    ultimately have "count_in (recent_hours now (window_of ?s k)) = 0"
      using window_of_trim [OF d, of now k] by (simp add: count_recent since_hour_recent)
    moreover have "de_since x \<in> guard_time ` set es" using counts_rightD(4) [OF inv that] .
    then have "DAY \<le> now - de_since x" using assms(2) by force
    ultimately show ?thesis by (simp add: over_yet_def)
  qed
  then show ?thesis by (auto simp: review_facts filter_empty_conv)
qed

section \<open>What learning rests on\<close>

datatype baseline_event =
    Sighted string string sighting
  | Relearned "nat option" nat
  | Guarded string "nat \<Rightarrow> string" guard_event
  | Accepted string string string string
  | Dismissed string
  | Asked "string \<Rightarrow> string" "string list"
  | Undemoted string
  | Revoked string string

fun baseline_step :: "baseline_event \<Rightarrow> baseline \<Rightarrow> baseline" where
  "baseline_step (Sighted i today o1) b = snd (observe_sighting i today o1 b)"
| "baseline_step (Relearned days now) b = relearn days now b"
| "baseline_step (Guarded i stamp e) b = guard_step i stamp e b"
| "baseline_step (Accepted today now i who) b = (case accept_proposal today now i who b of Inr (_, b') \<Rightarrow> b' | Inl _ \<Rightarrow> b)"
| "baseline_step (Dismissed i) b = (case dismiss_proposal i b of Inr (_, b') \<Rightarrow> b' | Inl _ \<Rightarrow> b)"
| "baseline_step (Asked ids keys) b = bl_update (\<lambda>s. snd (propose_keys ids keys s)) b"
| "baseline_step (Undemoted rule) b = snd (undemote rule b)"
| "baseline_step (Revoked key reason) b = mark_revoked key reason b"

text \<open>What was seen of each pattern since its counters began: since it was last created or the window restarted.\<close>

definition seen_next :: "baseline_event \<Rightarrow> baseline \<Rightarrow> (string \<Rightarrow> sighting list) \<Rightarrow> string \<Rightarrow> sighting list" where
  "seen_next e b' seen k =
     (if map_of (bl_tuples b') k = None then []
      else case e of
        Sighted _ _ o1 \<Rightarrow> if so_key o1 = k then seen k @ [o1] else seen k
      | Relearned _ _ \<Rightarrow> []
      | _ \<Rightarrow> seen k)"

inductive learning_run :: "(string \<Rightarrow> sighting list) \<Rightarrow> baseline \<Rightarrow> bool" where
  begin_run: "bl_tuples b = [] \<Longrightarrow> learning_run (\<lambda>_. []) b"
| next_event: "learning_run seen b \<Longrightarrow> learning_run (seen_next e (baseline_step e b) seen) (baseline_step e b)"

definition stat_right :: "string \<Rightarrow> sighting list \<Rightarrow> tuple_stat \<Rightarrow> bool" where
  "stat_right k os t \<longleftrightarrow>
     stat_key t = k \<and> distinct (ts_days t) \<and> set (ts_days t) \<subseteq> (date_part \<circ> so_ts) ` set os
     \<and> (\<forall>o1 \<in> set os. so_key o1 = k \<and> severity_rank (so_severity_base o1) \<le> ts_max_base_rank t
          \<and> severity_rank (so_severity o1) \<le> ts_max_rank t)"

definition stats_right :: "(string \<Rightarrow> sighting list) \<Rightarrow> baseline \<Rightarrow> bool" where
  "stats_right seen b \<longleftrightarrow>
     distinct (map fst (bl_tuples b)) \<and> (\<forall>k. map_of (bl_tuples b) k = None \<longrightarrow> seen k = [])
     \<and> (\<forall>k t. map_of (bl_tuples b) k = Some t \<longrightarrow> stat_right k (seen k) t)"

lemma note_day_facts: "distinct ds \<Longrightarrow> distinct (note_day d ds)" "set (note_day d ds) \<subseteq> insert d (set ds)"
proof -
  have "set (tl (ds @ [d])) \<subseteq> set (ds @ [d])" by (cases ds) auto
  then show "set (note_day d ds) \<subseteq> insert d (set ds)" by (auto simp: note_day_def)
qed (simp add: note_day_def distinct_tl)

lemma touch_fields [simp]:
  "stat_key (touch_stat o1 t) = stat_key t" "ts_days (touch_stat o1 t) = note_day (date_part (so_ts o1)) (ts_days t)"
  "ts_max_rank (touch_stat o1 t) = max (ts_max_rank t) (severity_rank (so_severity o1))"
  "ts_max_base_rank (touch_stat o1 t) = max (ts_max_base_rank t) (severity_rank (so_severity_base o1))"
  "ts_provenance (touch_stat o1 t) = so_provenance o1" "ts_rarity (touch_stat o1 t) = so_rarity o1"
  "ts_rule (touch_stat o1 t) = ts_rule t"
  by (simp_all add: touch_stat_def stat_key_def)

lemma touch_right:
  assumes "stat_right (so_key o1) os t"
  shows "stat_right (so_key o1) (os @ [o1]) (touch_stat o1 t)"
proof -
  have "set (ts_days (touch_stat o1 t)) \<subseteq> (date_part \<circ> so_ts) ` set (os @ [o1])"
    using note_day_facts(2) [of "date_part (so_ts o1)" "ts_days t"] assms by (auto simp: stat_right_def)
  with assms note_day_facts(1) show ?thesis by (simp add: stat_right_def le_max_iff_disj)
qed

lemma new_right: "stat_right (so_key o1) [] (new_stat o1)"
  by (simp add: stat_right_def new_stat_def stat_key_def so_key_def)

lemma flags_right:
  "stat_right k os (t\<lparr>ts_learned := l\<rparr>) = stat_right k os t" "stat_right k os (t\<lparr>ts_proposed := p\<rparr>) = stat_right k os t"
  "stat_right k os (t\<lparr>ts_dismissed := d\<rparr>) = stat_right k os t"
  by (simp_all add: stat_right_def stat_key_def)

lemma stat_right_relearn:
  "stat_right k os t \<Longrightarrow> stat_right k [] (t\<lparr>ts_proposed := False, ts_dismissed := False, ts_days := [], ts_max_rank := 0, ts_max_base_rank := 0\<rparr>)"
  by (simp add: stat_right_def stat_key_def)

lemma map_of_map_stat: "map_of (bs_tuples (map_stat key f s)) k = map_option (if k = key then f else id) (map_of (bs_tuples s) k)"
proof -
  have "map_of (map (\<lambda>(k, t). if k = key then (k, f t) else (k, t)) xs) k = map_option (if k = key then f else id) (map_of xs k)" for xs
    by (induction xs) auto
  then show ?thesis by (simp add: map_stat_def)
qed

lemma keys_map_stat: "map fst (bs_tuples (map_stat key f s)) = map fst (bs_tuples s)"
  by (simp add: map_stat_def comp_def case_prod_beta if_distrib)

text \<open>The steps that only set the flags of a pattern.\<close>

definition same_counters :: "baseline_state \<Rightarrow> baseline_state \<Rightarrow> bool" where
  "same_counters s s' \<longleftrightarrow>
     map fst (bs_tuples s') = map fst (bs_tuples s)
     \<and> (\<forall>k os. (\<forall>t. map_of (bs_tuples s) k = Some t \<longrightarrow> stat_right k os t) \<longrightarrow> (\<forall>t. map_of (bs_tuples s') k = Some t \<longrightarrow> stat_right k os t))"

lemma same_counters_refl: "bs_tuples s' = bs_tuples s \<Longrightarrow> same_counters s s'"
  by (simp add: same_counters_def)

lemma same_counters_trans: "same_counters s s' \<Longrightarrow> same_counters s' s'' \<Longrightarrow> same_counters s s''"
  unfolding same_counters_def by metis

lemma same_counters_map:
  assumes "\<And>k os t. stat_right k os (f t) = stat_right k os t" and "bs_tuples s' = bs_tuples (map_stat key f s)"
  shows "same_counters s s'"
proof -
  have "stat_right k os t'"
    if "\<forall>t. map_of (bs_tuples s) k = Some t \<longrightarrow> stat_right k os t" "map_of (bs_tuples s') k = Some t'" for k os t'
  proof -
    from that(2) obtain t where "map_of (bs_tuples s) k = Some t" "t' = (if k = key then f else id) t"
      by (auto simp: assms(2) map_of_map_stat)
    with that(1) assms(1) show ?thesis by (cases "k = key") auto
  qed
  then show ?thesis unfolding same_counters_def by (simp only: assms(2) keys_map_stat) blast
qed

lemma take_proposal_tuples: "take_proposal i s = Some (p, s') \<Longrightarrow> bs_tuples s' = bs_tuples s"
  by (auto simp: take_proposal_def split: option.splits)

lemma map_stat_cong: "bs_tuples s = bs_tuples s' \<Longrightarrow> bs_tuples (map_stat k f s) = bs_tuples (map_stat k f s')"
  by (simp add: map_stat_def)

lemma same_counters_propose: "same_counters s (snd (propose_keys ids keys s))"
proof (induction ids keys s rule: propose_keys.induct)
  case (2 ids key keys s)
  show ?case
  proof (cases "map_of (bs_tuples s) key")
    case (Some t)
    show ?thesis
    proof (cases "ts_learned t \<or> ts_proposed t")
      case False
      let ?p = "\<lparr>pp_id = ids key, pp_rule = ts_rule t, pp_exe = ts_exe t, pp_parent = ts_parent t, pp_dir = ts_dir t,
        pp_count = ts_count t, pp_days = length (ts_days t), pp_first_seen = ts_first_seen t,
        pp_last_seen = ts_last_seen t, pp_toml = stat_toml t, pp_key = key, pp_reason = []\<rparr>"
      let ?s = "(map_stat key (\<lambda>t. t\<lparr>ts_proposed := True, ts_dismissed := False\<rparr>) s)\<lparr>bs_proposals := bs_proposals s @ [?p]\<rparr>"
      have "same_counters s ?s" by (rule same_counters_map [where f = "\<lambda>t. t\<lparr>ts_proposed := True, ts_dismissed := False\<rparr>" and key = key]) (simp_all add: flags_right)
      moreover have "same_counters ?s (snd (propose_keys ids keys ?s))" using 2(3) [OF Some False refl] .
      ultimately show ?thesis using Some False same_counters_trans by (auto simp: Let_def split: prod.splits)
    qed (use 2(2) [OF Some] Some in simp)
  qed (use 2(1) in simp)
qed (simp add: same_counters_refl)

lemma guard_tuples: "bs_tuples (bl_state (guard_step i st e b)) = bs_tuples (bl_state b)"
  by (cases e) (auto simp: note_alert_def propose_redemoted_def clear_stale_demotions_def Let_def split: option.splits list.splits)

lemma flag_steps:
  assumes "\<And>i today o1. e \<noteq> Sighted i today o1" and "\<And>days now. e \<noteq> Relearned days now"
  shows "same_counters (bl_state b) (bl_state (baseline_step e b))"
proof (cases e)
  case (Guarded i st g)
  then show ?thesis by (simp add: same_counters_refl guard_tuples)
next
  case (Accepted today now i who)
  show ?thesis
  proof (cases "take_proposal i (bl_state b)")
    case (Some ps)
    then obtain p s where ps: "take_proposal i (bl_state b) = Some (p, s)" by (cases ps) simp
    have "same_counters (bl_state b) (bl_state (baseline_step e b))"
      by (rule same_counters_map [where f = "\<lambda>t. t\<lparr>ts_learned := True, ts_proposed := False\<rparr>" and key = "pp_key p"])
         (simp_all add: flags_right Accepted accept_proposal_def ps map_stat_cong [OF take_proposal_tuples [OF ps]])
    then show ?thesis .
  qed (simp add: Accepted accept_proposal_def same_counters_refl)
next
  case (Dismissed i)
  show ?thesis
  proof (cases "take_proposal i (bl_state b)")
    case (Some ps)
    then obtain p s where ps: "take_proposal i (bl_state b) = Some (p, s)" by (cases ps) simp
    show ?thesis
      by (rule same_counters_map [where f = "\<lambda>t. t\<lparr>ts_proposed := False, ts_dismissed := True\<rparr>" and key = "pp_key p"])
         (simp_all add: flags_right Dismissed dismiss_proposal_def ps map_stat_cong [OF take_proposal_tuples [OF ps]])
  qed (simp add: Dismissed dismiss_proposal_def same_counters_refl)
next
  case (Asked ids keys)
  then show ?thesis using same_counters_propose by simp
next
  case (Undemoted rule)
  then show ?thesis by (simp add: same_counters_refl undemote_def Let_def)
next
  case (Revoked key reason)
  show ?thesis
    by (rule same_counters_map [where f = "\<lambda>t. t\<lparr>ts_learned := False\<rparr>" and key = key])
       (auto simp: flags_right Revoked mark_revoked_def intro!: map_stat_cong split: option.splits)
qed (use assms in auto)

lemma observe_tuples:
  fixes o1 b
  defines "e \<equiv> touch_stat o1 (case map_of (bl_tuples b) (so_key o1) of Some e \<Rightarrow> e | None \<Rightarrow> new_stat o1)"
  obtains l p b2 where "snd (observe_sighting i today o1 b) = prune_tuples (Some (so_key o1)) b2"
    and "bl_tuples b2 = AList.update (so_key o1) (e\<lparr>ts_learned := l, ts_proposed := p\<rparr>) (bl_tuples b)"
proof -
  have u: "AList.update k v (AList.update k w xs) = AList.update k v xs" for k :: string and v w :: tuple_stat and xs
    by (induction xs) auto
  let ?b1 = "bl_update (\<lambda>s. s\<lparr>bs_tuples := AList.update (so_key o1) e (bs_tuples s)\<rparr>) b"
  have same: "e\<lparr>ts_learned := ts_learned e, ts_proposed := ts_proposed e\<rparr> = e"
    "e\<lparr>ts_learned := True, ts_proposed := ts_proposed e\<rparr> = e\<lparr>ts_learned := True\<rparr>"
    "e\<lparr>ts_learned := ts_learned e, ts_proposed := True\<rparr> = e\<lparr>ts_proposed := True\<rparr>" by simp_all
  consider "\<not> eligible ?b1 e" | "eligible ?b1 e" "learning ?b1 (so_now o1)" | "eligible ?b1 e" "\<not> learning ?b1 (so_now o1)" by blast
  then show thesis
  proof cases
    case 1
    then have "snd (observe_sighting i today o1 b) = prune_tuples (Some (so_key o1)) ?b1"
      by (simp add: observe_sighting_def Let_def e_def [symmetric])
    then show thesis by (rule that [where l = "ts_learned e" and p = "ts_proposed e"]) (simp only: same(1), simp)
  next
    case 2
    show thesis
      by (rule that [where l = True and p = "ts_proposed e"], simp only: observe_sighting_def Let_def e_def [symmetric] 2 if_True not_True_eq_False if_False snd_conv)
        (simp add: same(2) u)
  next
    case 3
    show thesis
      by (rule that [where l = "ts_learned e" and p = True], simp only: observe_sighting_def Let_def e_def [symmetric] 3 if_True not_True_eq_False if_False snd_conv)
        (simp add: same(3) u)
  qed
qed

lemma stats_right_observe:
  assumes "stats_right seen b"
  shows "stats_right (seen_next (Sighted i today o1) (snd (observe_sighting i today o1 b)) seen) (snd (observe_sighting i today o1 b))"
proof -
  let ?b' = "snd (observe_sighting i today o1 b)"
  let ?e = "touch_stat o1 (case map_of (bl_tuples b) (so_key o1) of Some e \<Rightarrow> e | None \<Rightarrow> new_stat o1)"
  obtain l p b2 where b2: "?b' = prune_tuples (Some (so_key o1)) b2"
    "bl_tuples b2 = AList.update (so_key o1) (?e\<lparr>ts_learned := l, ts_proposed := p\<rparr>) (bl_tuples b)" by (rule observe_tuples)
  have d: "distinct (map fst (bl_tuples b2))" unfolding b2(2) using assms by (simp add: stats_right_def distinct_update)
  have fresh: "stat_right (so_key o1) (seen (so_key o1) @ [o1]) (?e\<lparr>ts_learned := l, ts_proposed := p\<rparr>)"
  proof (cases "map_of (bl_tuples b) (so_key o1)")
    case None
    then have "seen (so_key o1) = []" using assms by (simp add: stats_right_def)
    with touch_right [OF new_right, of o1] None show ?thesis by (simp add: flags_right)
  next
    case (Some t)
    then have "stat_right (so_key o1) (seen (so_key o1)) t" using assms by (simp add: stats_right_def)
    from touch_right [OF this] Some show ?thesis by (simp add: flags_right)
  qed
  have "stat_right k (seen_next (Sighted i today o1) ?b' seen k) t" if "map_of (bl_tuples ?b') k = Some t" for k t
  proof -
    from that have t: "map_of (bl_tuples b2) k = Some t" using map_of_prune [OF d] by (simp add: b2(1))
    show ?thesis
    proof (cases "k = so_key o1")
      case True
      with t have "t = ?e\<lparr>ts_learned := l, ts_proposed := p\<rparr>" by (simp add: b2(2) update_conv')
      with fresh that True show ?thesis by (simp add: seen_next_def)
    next
      case False
      with t have "map_of (bl_tuples b) k = Some t" by (simp add: b2(2) update_conv')
      with assms that False show ?thesis by (simp add: seen_next_def stats_right_def)
    qed
  qed
  moreover have "distinct (map fst (bl_tuples ?b'))" unfolding b2(1) by (rule prune_keys_distinct [OF d])
  ultimately show ?thesis by (simp add: stats_right_def seen_next_def)
qed

lemma stats_right_relearn:
  assumes "stats_right seen b"
  shows "stats_right (seen_next (Relearned days now) (relearn days now b) seen) (relearn days now b)"
proof -
  let ?f = "\<lambda>t. t\<lparr>ts_proposed := False, ts_dismissed := False, ts_days := [], ts_max_rank := 0, ts_max_base_rank := 0\<rparr>"
  have tuples: "bl_tuples (relearn days now b) = map (\<lambda>(k, t). (k, ?f t)) (bl_tuples b)" by (simp add: relearn_def Let_def)
  have "map_of (bl_tuples (relearn days now b)) k = map_option ?f (map_of (bl_tuples b) k)" for k
    unfolding tuples by (simp add: map_of_map)
  moreover have "stat_right k [] (?f t)" if "map_of (bl_tuples b) k = Some t" for k t
    using that assms by (intro stat_right_relearn [of k "seen k"]) (simp add: stats_right_def)
  moreover have "distinct (map fst (bl_tuples (relearn days now b)))"
    using assms unfolding tuples by (simp add: stats_right_def comp_def case_prod_beta)
  ultimately show ?thesis by (auto simp: stats_right_def seen_next_def)
qed

lemma stats_right_flags:
  assumes "stats_right seen b" and "same_counters (bl_state b) (bl_state b')"
    and "\<And>i today o1. e \<noteq> Sighted i today o1" and "\<And>days now. e \<noteq> Relearned days now"
  shows "stats_right (seen_next e b' seen) b'"
proof -
  have "seen_next e b' seen k = (if map_of (bl_tuples b') k = None then [] else seen k)" for k
    using assms(3,4) by (simp add: seen_next_def split: baseline_event.splits)
  moreover have "stat_right k (seen k) t" if "map_of (bl_tuples b') k = Some t" for k t
    using assms(1,2) that unfolding stats_right_def same_counters_def by blast
  moreover have "distinct (map fst (bl_tuples b'))" using assms(1,2) by (simp add: stats_right_def same_counters_def)
  ultimately show ?thesis by (simp add: stats_right_def)
qed

lemma learning_run_right: "learning_run seen b \<Longrightarrow> stats_right seen b"
proof (induction rule: learning_run.induct)
  case (begin_run b)
  then show ?case by (simp add: stats_right_def)
next
  case (next_event seen b e)
  note ih = next_event.IH
  consider i today o1 where "e = Sighted i today o1" | days now where "e = Relearned days now"
    | "\<And>i today o1. e \<noteq> Sighted i today o1" "\<And>days now. e \<noteq> Relearned days now" by blast
  then show ?case
  proof cases
    case 1
    with stats_right_observe [OF ih] show ?thesis by simp
  next
    case 2
    with stats_right_relearn [OF ih] show ?thesis by simp
  next
    case 3
    show ?thesis by (rule stats_right_flags [OF ih flag_steps [OF 3] 3])
  qed
qed

text \<open>C24: What the machine learns by itself it has earned. When a sighting makes the baseline write an allowlist entry,
  then, after any history, the window is open, the entry is exactly the pattern's, and of all the
  sightings of that pattern since its counters began not one was scored above medium by its rule or
  reached critical, the last was by an official actor and common here, they fell on enough distinct days,
  the rule is not one that reports on moat itself, and the executable is not an interpreter.\<close>

theorem learning_is_earned:
  assumes "learning_run seen b" and "observe_sighting i today o1 b = (Entry key toml comment, b')"
  shows "key = so_key o1 \<and> so_now o1 < bs_learning_until (bl_state b)
    \<and> (\<exists>rule exe parent dir. key = baseline_key rule exe parent dir \<and> toml = render_block (learned_spec rule exe parent dir)
         \<and> rule \<notin> set NEVER_LEARN \<and> \<not> path_is_not_identity (basename exe))
    \<and> (\<forall>o2 \<in> set (seen key @ [o1]). severity_rank (so_severity_base o2) \<le> 1 \<and> severity_rank (so_severity o2) < 3)
    \<and> so_provenance o1 = ''official'' \<and> so_rarity o1 = ''common''
    \<and> bl_min_days b \<le> card ((date_part \<circ> so_ts) ` set (seen key @ [o1]))"
proof -
  let ?e = "touch_stat o1 (case map_of (bl_tuples b) (so_key o1) of Some e \<Rightarrow> e | None \<Rightarrow> new_stat o1)"
  let ?b1 = "bl_update (\<lambda>s. s\<lparr>bs_tuples := AList.update (so_key o1) ?e (bs_tuples s)\<rparr>) b"
  from learning_run_right [OF assms(1)] have inv: "stats_right seen b" .
  have right: "stat_right (so_key o1) (seen (so_key o1) @ [o1]) ?e"
  proof (cases "map_of (bl_tuples b) (so_key o1)")
    case None
    then have "seen (so_key o1) = []" using inv by (simp add: stats_right_def)
    with touch_right [OF new_right, of o1] None show ?thesis by simp
  next
    case (Some t)
    then have "stat_right (so_key o1) (seen (so_key o1)) t" using inv by (simp add: stats_right_def)
    from touch_right [OF this] Some show ?thesis by simp
  qed
  from assms(2) have key: "key = so_key o1" "toml = stat_toml ?e" and e: "eligible ?b1 ?e" and opened: "learning ?b1 (so_now o1)"
    by (auto simp: observe_sighting_def Let_def split: if_splits)
  from e have gates: "ts_rule ?e \<notin> set NEVER_LEARN" "ts_max_base_rank ?e \<le> 1" "ts_max_rank ?e < 3" "ts_provenance ?e = ''official''"
    "\<not> path_is_not_identity (basename (ts_exe ?e))" "bl_min_days b \<le> length (ts_days ?e)" "ts_rarity ?e = ''common''"
    unfolding eligible_def blocked_by_def by (simp_all add: not_less not_le split: if_splits del: touch_fields)
  have "length (ts_days ?e) = card (set (ts_days ?e))" using right by (simp add: stat_right_def distinct_card)
  also have "\<dots> \<le> card ((date_part \<circ> so_ts) ` set (seen (so_key o1) @ [o1]))"
    using right unfolding stat_right_def by (intro card_mono) auto
  finally have days: "bl_min_days b \<le> card ((date_part \<circ> so_ts) ` set (seen key @ [o1]))" using gates(6) key(1) by simp
  have "\<exists>rule exe parent dir. key = baseline_key rule exe parent dir \<and> toml = render_block (learned_spec rule exe parent dir)
         \<and> rule \<notin> set NEVER_LEARN \<and> \<not> path_is_not_identity (basename exe)"
    by (rule exI [of _ "ts_rule ?e"], rule exI [of _ "ts_exe ?e"], rule exI [of _ "ts_parent ?e"], rule exI [of _ "ts_dir ?e"])
      (use gates(1,5) key right in \<open>simp add: stat_right_def stat_toml_def stat_spec_def stat_key_def del: touch_fields\<close>)
  moreover have "\<forall>o2 \<in> set (seen key @ [o1]). severity_rank (so_severity_base o2) \<le> 1 \<and> severity_rank (so_severity o2) < 3"
    using right gates(2,3) unfolding stat_right_def key(1) by (meson le_less_trans le_trans)
  ultimately show ?thesis using days key(1) opened gates(4,7) by (simp add: learning_def)
qed

section \<open>A dismissal is forgotten\<close>

lemma dismiss_marks:
  assumes "dismiss_proposal i b = Inr (p, b')"
  shows "map_of (bl_tuples b') (pp_key p) = Some t \<Longrightarrow> ts_dismissed t"
proof -
  from assms obtain s where s: "b' = b\<lparr>bl_dirty := True, bl_state := map_stat (pp_key p) (\<lambda>t. t\<lparr>ts_proposed := False, ts_dismissed := True\<rparr>) s\<rparr>"
    by (auto simp: dismiss_proposal_def split: option.splits)
  show "map_of (bl_tuples b') (pp_key p) = Some t \<Longrightarrow> ts_dismissed t"
    by (auto simp: s map_of_map_stat)
qed

text \<open>A dismissed question comes back. After the user dismisses the proposal of a pattern, the next time the noise
  guard has to quieten that pattern, for the third time or more, it is proposed again, although the
  pattern is marked as dismissed.\<close>

theorem dismissed_pattern_is_asked_again:
  assumes "dismiss_proposal i b = Inr (p, b')" and "splitn 4 CHR ''|'' (pp_key p) = [r, exe, parent, dir]"
    and "\<not> is_demoted_tuple b' (pp_key p)"
    and "map_of (bs_redemotions (bl_state b')) (pp_key p) = Some n" and "2 \<le> n"
    and "bl_noisy b' < count_in (recent_hours now (bump_hour (now div 3600) (window_of (bl_state b') (pp_key p))))"
  shows "pp_key p \<in> pp_key ` set (bs_proposals (bl_state (snd (note_alert fresh_id stamp rule (pp_key p) now b'))))
    \<and> (\<forall>t. map_of (bl_tuples b') (pp_key p) = Some t \<longrightarrow> ts_dismissed t)"
proof
  show "pp_key p \<in> pp_key ` set (bs_proposals (bl_state (snd (note_alert fresh_id stamp rule (pp_key p) now b'))))"
    using assms(2-6)
    by (auto simp: note_alert_def propose_redemoted_def is_demoted_tuple_def REDEMOTE_PROPOSE_AT_def Let_def not_le)
  show "\<forall>t. map_of (bl_tuples b') (pp_key p) = Some t \<longrightarrow> ts_dismissed t" using dismiss_marks [OF assms(1)] by blast
qed

section \<open>Instances\<close>

definition empty_baseline :: baseline where
  "empty_baseline = \<lparr>bl_state = \<lparr>bs_installed_at = 1, bs_learning_until = 100, bs_tuples = [], bs_proposals = [],
     bs_demoted = [], bs_redemotions = [], bs_windows = [], bs_learned = []\<rparr>,
     bl_learning_days = 7, bl_min_days = 1, bl_noisy = 1, bl_dirty = False, bl_last_save = 0, bl_save_every = 60\<rparr>"

definition a_sighting :: "nat \<Rightarrow> sighting" where
  "a_sighting now = \<lparr>so_rule = ''r'', so_exe = ''/usr/bin/make'', so_parent = ''/usr/bin/zsh'', so_dir = ''/tmp'', so_severity = ''low'',
     so_severity_base = ''medium'', so_provenance = ''official'', so_package = Some ''make'', so_context = ''interactive'',
     so_rarity = ''common'', so_suppressed = False, so_demoted = False, so_ts = ''2026-01-01T10:00:00Z'', so_now = now\<rparr>"

lemma make_is_a_name: "\<not> path_is_not_identity (basename ''/usr/bin/make'')"
  by code_simp

lemma one_day: "date_part ''2026-01-01T10:00:00Z'' = ''2026-01-01''"
  by code_simp

lemma a_sighting_learned:
  "\<exists>toml comment b'. observe_sighting ''id'' ''day'' (a_sighting 5) empty_baseline = (Entry (so_key (a_sighting 5)) toml comment, b')"
proof -
  have "eligible b (touch_stat (a_sighting 5) (new_stat (a_sighting 5)))" if "bl_min_days b = 1" for b
    using make_is_a_name one_day that
    by (simp add: eligible_def blocked_by_def a_sighting_def new_stat_def touch_stat_def note_day_def NEVER_LEARN_def)
  then show ?thesis
    by (simp add: observe_sighting_def Let_def empty_baseline_def learning_def, simp add: a_sighting_def)
qed

theorem learning_is_earned_witness:
  "\<exists>toml comment b'. observe_sighting ''id'' ''day'' (a_sighting 5) empty_baseline = (Entry (so_key (a_sighting 5)) toml comment, b')
     \<and> 1 \<le> card ((date_part \<circ> so_ts) ` {a_sighting 5})"
proof -
  have run: "learning_run (\<lambda>_. []) empty_baseline" by (rule begin_run) (simp add: empty_baseline_def)
  from a_sighting_learned obtain toml comment b' where
    e: "observe_sighting ''id'' ''day'' (a_sighting 5) empty_baseline = (Entry (so_key (a_sighting 5)) toml comment, b')" by blast
  from learning_is_earned [OF run e] e show ?thesis by (simp add: empty_baseline_def)
qed

definition flooding :: baseline where
  "flooding = guard_step [] (\<lambda>_. []) (Alerted ''r'' ''r|e|p|d'' 0) empty_baseline"

lemma flooding_run: "guard_run 1 ([] @ [Alerted ''r'' ''r|e|p|d'' 0]) flooding"
  unfolding flooding_def by (rule guard_run.step [OF guard_run.start]) (simp_all add: empty_baseline_def)

theorem guard_quietens_the_flooding_pattern_witness:
  "fst (note_alert [] (\<lambda>_. []) ''r'' ''r|e|p|d'' 10 flooding) \<noteq> None"
proof -
  have quiet: "\<not> is_demoted_tuple flooding ''r|e|p|d''"
    by (simp add: flooding_def note_alert_def is_demoted_tuple_def empty_baseline_def Let_def window_of_def bump_hour_def
      recent_hours_def count_in_def)
  have "\<forall>e \<in> set ([] @ [Alerted ''r'' ''r|e|p|d'' 0]). guard_time e \<le> 10" by simp
  from guard_quietens_the_flooding_pattern [OF flooding_run this prod.collapse [symmetric], of "[]" "\<lambda>_. []" "''r''" "''r|e|p|d''"] quiet
  show ?thesis by (simp add: alerts_since_def)
qed

theorem quiet_ends_after_a_day_witness:
  "bs_demoted (bl_state (snd (clear_stale_demotions 90000 (guard_step [] (\<lambda>_. []) (Alerted ''r'' ''r|e|p|d'' 10) flooding)))) = []"
proof -
  have "guard_run 1 (([] @ [Alerted ''r'' ''r|e|p|d'' 0]) @ [Alerted ''r'' ''r|e|p|d'' 10])
      (guard_step [] (\<lambda>_. []) (Alerted ''r'' ''r|e|p|d'' 10) flooding)"
    by (rule guard_run.step [OF flooding_run]) simp
  from quiet_ends_after_a_day [OF this, of 90000] show ?thesis by (simp add: DAY_def)
qed

definition asked :: baseline where
  "asked = empty_baseline\<lparr>bl_state := (bl_state empty_baseline)\<lparr>
     bs_proposals := [\<lparr>pp_id = ''i'', pp_rule = ''r'', pp_exe = ''e'', pp_parent = ''p'', pp_dir = ''d'', pp_count = 2, pp_days = 3,
       pp_first_seen = [], pp_last_seen = [], pp_toml = [], pp_key = ''r|e|p|d'', pp_reason = REDEMOTED_REASON\<rparr>],
     bs_redemotions := [(''r|e|p|d'', 3)], bs_windows := [(''r|e|p|d'', [(0, 1)])]\<rparr>\<rparr>"

theorem dismissed_pattern_is_asked_again_witness:
  "\<exists>p b'. dismiss_proposal ''i'' asked = Inr (p, b') \<and> bs_proposals (bl_state b') = []
     \<and> pp_key p \<in> pp_key ` set (bs_proposals (bl_state (snd (note_alert ''j'' (\<lambda>_. []) ''r'' (pp_key p) 5 b'))))"
proof -
  define p where "p = hd (bs_proposals (bl_state asked))"
  define b' where "b' = asked\<lparr>bl_dirty := True, bl_state := (bl_state asked)\<lparr>bs_proposals := []\<rparr>\<rparr>"
  have d: "dismiss_proposal ''i'' asked = Inr (p, b')"
    by (simp add: dismiss_proposal_def take_proposal_def asked_def p_def b'_def map_stat_def empty_baseline_def remove_nth_def)
  have k: "pp_key p = ''r|e|p|d''" by (simp add: p_def asked_def)
  have "splitn 4 CHR ''|'' ''r|e|p|d'' = [''r'', ''e'', ''p'', ''d'']" by code_simp
  moreover have "\<not> is_demoted_tuple b' ''r|e|p|d''" "map_of (bs_redemotions (bl_state b')) ''r|e|p|d'' = Some 3"
    "bl_noisy b' < count_in (recent_hours 5 (bump_hour (5 div 3600) (window_of (bl_state b') ''r|e|p|d'')))"
    "bs_proposals (bl_state b') = []"
    by (simp_all add: b'_def asked_def is_demoted_tuple_def empty_baseline_def window_of_def bump_hour_def recent_hours_def count_in_def)
  ultimately show ?thesis using dismissed_pattern_is_asked_again [OF d, unfolded k, of _ _ _ _ 3 5 "''j''" "\<lambda>_. []" "''r''"] d k
    by (intro exI [of _ p] exI [of _ b']) simp
qed

definition many_patterns :: baseline where
  "many_patterns = empty_baseline\<lparr>bl_state := (bl_state empty_baseline)\<lparr>
     bs_tuples := map (\<lambda>n. (show_nat n, new_stat (a_sighting n))) [0..<10001]\<rparr>\<rparr>"

theorem cap_spares_decisions_witness:
  "length (bl_tuples (prune_tuples None many_patterns)) = 9000"
proof -
  have tuples: "bl_tuples many_patterns = map (\<lambda>n. (show_nat n, new_stat (a_sighting n))) [0..<10001]" by (simp add: many_patterns_def)
  have "inj_on show_nat A" for A
    by (rule inj_onI) (metis read_show_nat_number option.inject)
  then have d: "distinct (map fst (bl_tuples many_patterns))" by (simp add: tuples comp_def distinct_map)
  have "filter (keepsake (bl_state many_patterns) None) (bl_tuples many_patterns) = []"
    unfolding tuples filter_empty_conv by (auto simp: keepsake_def many_patterns_def empty_baseline_def new_stat_def)
  moreover have "MAX_TUPLES < length (bl_tuples many_patterns)" by (simp add: tuples MAX_TUPLES_def)
  ultimately show ?thesis using cap_spares_decisions [OF d, of None] by simp
qed

end
