(* ===== verification/Text_Replace.thy ===== *)
theory Text_Replace
  imports Text_Lines
begin

text \<open>
  \<open>str::replace\<close>: the leftmost matches that do not overlap, each replaced. The patterns of the program
  are never empty. Its result is the text cut at those matches and put together again with the
  replacement, and no piece has the pattern in it: from this follows what a replacement removes for
  good and what it cannot bring in.
\<close>

function replace_all :: "string \<Rightarrow> string \<Rightarrow> string \<Rightarrow> string" where
  "replace_all pat to [] = []"
| "replace_all pat to (x # xs) =
     (if pat \<noteq> [] \<and> prefix pat (x # xs) then to @ replace_all pat to (drop (length pat) (x # xs))
      else x # replace_all pat to xs)"
  by pat_completeness auto
termination
  by (relation "measure (\<lambda>(pat, to, s). length s)") (auto simp: Suc_le_eq)

section \<open>Pieces\<close>

lemma sublist_split:
  assumes "sublist q (a @ c # b)" and "c \<notin> set q"
  shows "sublist q a \<or> sublist q b"
proof -
  from assms(1) obtain u v where "a @ c # b = u @ q @ v" by (auto simp: sublist_def)
  then obtain w where "a = u @ w \<and> w @ c # b = q @ v \<or> a @ w = u \<and> c # b = w @ q @ v"
    by (auto simp: append_eq_append_conv2)
  then consider "a = u @ w" "w @ c # b = q @ v" | "a @ w = u" "c # b = w @ q @ v" by blast
  then show ?thesis
  proof cases
    case 1
    from 1(2) obtain z where "w = q @ z \<or> q = w @ z \<and> c # b = z @ v"
      by (auto simp: append_eq_append_conv2)
    with 1(1) assms(2) show ?thesis by (cases z) (auto simp: sublist_append_leftI)
  next
    case 2
    with assms(2) show ?thesis
      by (cases w; cases q) (auto simp: sublist_def)
  qed
qed

lemma replace_pieces:
  assumes "pat \<noteq> []"
  shows "\<exists>ss. ss \<noteq> [] \<and> s = join_with pat ss \<and> replace_all pat to s = join_with to ss \<and> (\<forall>p \<in> set ss. \<not> sublist pat p)"
  using assms
proof (induction pat to s rule: replace_all.induct)
  case (1 pat to)
  then show ?case by (intro exI [of _ "[[]]"]) auto
next
  case (2 pat to x xs)
  show ?case
  proof (cases "pat \<noteq> [] \<and> prefix pat (x # xs)")
    case True
    from "2.IH"(1) [OF True "2.prems"] obtain ss where "ss \<noteq> []" "drop (length pat) (x # xs) = join_with pat ss"
      "replace_all pat to (drop (length pat) (x # xs)) = join_with to ss" "\<forall>p \<in> set ss. \<not> sublist pat p" by blast
    moreover have "x # xs = pat @ drop (length pat) (x # xs)" using True by (auto simp: prefix_def)
    moreover have "replace_all pat to (x # xs) = to @ replace_all pat to (drop (length pat) (x # xs))"
      using True by simp
    ultimately show ?thesis using "2.prems"
      by (intro exI [of _ "[] # ss"]) (simp add: join_with_Cons del: replace_all.simps)
  next
    case False
    from "2.IH"(2) [OF False "2.prems"] obtain p ps where ps: "xs = join_with pat (p # ps)"
      "replace_all pat to xs = join_with to (p # ps)" "\<forall>p \<in> set (p # ps). \<not> sublist pat p"
      by (metis neq_Nil_conv)
    have front: "\<exists>r. join_with sep ((x # p) # ps) = (x # p) @ r \<and> join_with sep (p # ps) = p @ r" for sep
      by (cases ps) auto
    have "\<not> sublist pat (x # p)"
    proof
      assume "sublist pat (x # p)"
      with ps(3) have "prefix pat (x # p)" by (simp add: sublist_Cons_right)
      then have "prefix pat (x # xs)" using front [of pat] ps(1) by (metis append_Cons prefix_prefix prefixI)
      with False "2.prems" show False by blast
    qed
    with ps False front [of pat] front [of to] show ?thesis
      by (intro exI [of _ "(x # p) # ps"]) auto
  qed
qed

section \<open>What a replacement leaves\<close>

lemma sublist_join:
  assumes "sublist q (join_with (c # m @ [d]) ss)" and "c \<notin> set q" "d \<notin> set q"
  shows "(\<exists>p \<in> set ss. sublist q p) \<or> sublist q m \<or> q = []"
  using assms(1)
proof (induction ss)
  case (Cons p ps)
  show ?case
  proof (cases ps)
    case (Cons p2 ps2)
    with Cons.prems have "sublist q (p @ c # m @ d # join_with (c # m @ [d]) ps)" by simp
    from sublist_split [OF this assms(2)] sublist_split [OF _ assms(3)]
    have "sublist q p \<or> sublist q m \<or> sublist q (join_with (c # m @ [d]) ps)" by blast
    with Cons.IH show ?thesis by auto
  qed (use Cons.prems in auto)
qed simp

lemma sublist_join_char:
  assumes "sublist q (join_with [c] ss)" and "c \<notin> set q"
  shows "(\<exists>p \<in> set ss. sublist q p) \<or> q = []"
  using assms(1)
proof (induction ss)
  case (Cons p ps)
  show ?case
  proof (cases ps)
    case (Cons p2 ps2)
    with Cons.prems have "sublist q (p @ c # join_with [c] ps)" by simp
    from sublist_split [OF this assms(2)] Cons.IH show ?thesis by auto
  qed (use Cons.prems in auto)
qed simp

lemma piece_sublist: "p \<in> set ss \<Longrightarrow> sublist p (join_with sep ss)"
proof (induction ss)
  case (Cons q qs)
  then show ?case
    by (cases qs) (auto simp: sublist_append)
qed simp

text \<open>
  A bracketed replacement takes its pattern out and brings nothing in but what is inside the brackets.
\<close>

lemma replace_removes:
  assumes "pat \<noteq> []" and "c \<notin> set pat" "d \<notin> set pat" and "\<not> sublist pat m"
  shows "\<not> sublist pat (replace_all pat (c # m @ [d]) s)"
  using replace_pieces [OF assms(1), of s "c # m @ [d]"] sublist_join [of pat c m d] assms by fastforce

lemma replace_adds_nothing:
  assumes "q \<noteq> []" and "c \<notin> set q" "d \<notin> set q" and "\<not> sublist q m" and "\<not> sublist q s" and "pat \<noteq> []"
  shows "\<not> sublist q (replace_all pat (c # m @ [d]) s)"
proof
  assume q: "sublist q (replace_all pat (c # m @ [d]) s)"
  from replace_pieces [OF assms(6), of s "c # m @ [d]"] obtain ss where "s = join_with pat ss"
    "replace_all pat (c # m @ [d]) s = join_with (c # m @ [d]) ss" by blast
  with q sublist_join [OF _ assms(2,3), of m ss] assms(1,4,5) piece_sublist [of _ ss pat]
  show False by (metis sublist_order.dual_order.trans)
qed

lemma replace_char_removes:
  assumes "pat \<noteq> []" and "c \<notin> set pat"
  shows "\<not> sublist pat (replace_all pat [c] s)"
  using replace_pieces [OF assms(1), of s "[c]"] sublist_join_char [of pat c] assms by fastforce

lemma replace_char_adds_nothing:
  assumes "q \<noteq> []" and "c \<notin> set q" and "\<not> sublist q s" and "pat \<noteq> []"
  shows "\<not> sublist q (replace_all pat [c] s)"
proof
  assume q: "sublist q (replace_all pat [c] s)"
  from replace_pieces [OF assms(4), of s "[c]"] obtain ss where "s = join_with pat ss"
    "replace_all pat [c] s = join_with [c] ss" by blast
  with q sublist_join_char [OF _ assms(2), of ss] assms(1,3) piece_sublist [of _ ss pat]
  show False by (metis sublist_order.dual_order.trans)
qed

section \<open>The ends of a replaced text\<close>

text \<open>
  A pass that puts a mark into the text keeps, before the first mark and behind the last one, what was
  there.
\<close>

definition keeps_front :: "char \<Rightarrow> (string \<Rightarrow> string) \<Rightarrow> bool" where
  "keeps_front c f \<longleftrightarrow> (\<forall>s d. c \<notin> set d \<longrightarrow> prefix d (f s) \<longrightarrow> prefix d s)"

definition keeps_back :: "char \<Rightarrow> (string \<Rightarrow> string) \<Rightarrow> bool" where
  "keeps_back c f \<longleftrightarrow> (\<forall>s d. c \<notin> set d \<longrightarrow> suffix d (f s) \<longrightarrow> suffix d s)"

lemma keeps_frontD: "keeps_front c f \<Longrightarrow> c \<notin> set d \<Longrightarrow> prefix d (f s) \<Longrightarrow> prefix d s"
  by (auto simp: keeps_front_def)

lemma keeps_backD: "keeps_back c f \<Longrightarrow> c \<notin> set d \<Longrightarrow> suffix d (f s) \<Longrightarrow> suffix d s"
  by (auto simp: keeps_back_def)

lemma prefix_join:
  assumes "prefix d (join_with (c # t) ss)" and "c \<notin> set d" and "ss \<noteq> []"
  shows "prefix d (hd ss)"
proof (cases ss)
  case (Cons p ps)
  then obtain r where "join_with (c # t) ss = p @ r" "r = [] \<or> (\<exists>z. r = c # z)" by (cases ps) auto
  with assms Cons show ?thesis by (auto simp: prefix_append prefix_Cons)
qed (use assms in simp)

lemma suffix_join:
  assumes "suffix d (join_with (t @ [c]) ss)" and "c \<notin> set d" and "ss \<noteq> []"
  shows "suffix d (last ss)"
  using assms(1,3)
proof (induction ss)
  case (Cons p ps)
  show ?case
  proof (cases "ps = []")
    case False
    with Cons.prems have "suffix d ((p @ t) @ c # join_with (t @ [c]) ps)" by (simp add: join_with_Cons)
    with assms(2) have "suffix d (join_with (t @ [c]) ps)" by (auto simp: suffix_append suffix_Cons)
    with Cons.IH False show ?thesis by simp
  qed (use Cons.prems in auto)
qed simp

lemma join_ends: "ss \<noteq> [] \<Longrightarrow> prefix (hd ss) (join_with sep ss) \<and> suffix (last ss) (join_with sep ss)"
proof (induction ss)
  case (Cons p ps)
  then show ?case by (cases ps) (auto simp: suffix_append)
qed simp

lemma replace_keeps_front:
  assumes "pat \<noteq> []"
  shows "keeps_front c (replace_all pat (c # t))"
  unfolding keeps_front_def
proof (intro allI impI)
  fix s d assume d: "c \<notin> set d" "prefix d (replace_all pat (c # t) s)"
  from replace_pieces [OF assms, of s "c # t"] obtain ss where "ss \<noteq> []" "s = join_with pat ss"
    "replace_all pat (c # t) s = join_with (c # t) ss" by blast
  with d prefix_join [of d c t ss] join_ends [of ss pat] show "prefix d s" by auto
qed

lemma replace_keeps_back:
  assumes "pat \<noteq> []"
  shows "keeps_back c (replace_all pat (t @ [c]))"
  unfolding keeps_back_def
proof (intro allI impI)
  fix s d assume d: "c \<notin> set d" "suffix d (replace_all pat (t @ [c]) s)"
  from replace_pieces [OF assms, of s "t @ [c]"] obtain ss where "ss \<noteq> []" "s = join_with pat ss"
    "replace_all pat (t @ [c]) s = join_with (t @ [c]) ss" by blast
  with d suffix_join [of d t c ss] join_ends [of ss pat] show "suffix d s" by (auto intro: suffix_order.trans)
qed

lemma foldl_keeps_ends:
  assumes "\<forall>q \<in> set qs. keeps_front c (\<lambda>s. f s q) \<and> keeps_back d (\<lambda>s. f s q)"
  shows "keeps_front c (\<lambda>s. foldl f s qs) \<and> keeps_back d (\<lambda>s. foldl f s qs)"
  using assms
proof (induction qs)
  case (Cons q qs)
  then show ?case unfolding keeps_front_def keeps_back_def foldl_Cons by (metis list.set_intros)
qed (simp add: keeps_front_def keeps_back_def)

end
