(* ===== verification/Ship_Record.thy ===== *)
theory Ship_Record
  imports Kill_Gate Proc_Text Netmatch Codec Selectors Text_Replace
begin

text \<open>
  What leaves the machine (\<open>ship.rs\<close>): which collector may be talked to, the scrubbing of what is
  logged, the redaction and the evidence guard that a record passes on its way out, the envelope it is
  wrapped in, and the one-line summary of it that syslog gets. Parameters: the JSON reader and writer
  of \<open>serde_json\<close>, SHA-256, and the clock's time stamps.
\<close>

section \<open>Where to\<close>

definition is_loopback :: "ip_addr \<Rightarrow> bool" where
  "is_loopback ip = (case ip of V4 a \<Rightarrow> v4_loopback a | V6 a \<Rightarrow> v6_loopback a)"

datatype url_refusal = NoHost | BadScheme | UserInfo | PlainHttp string

text \<open>\<open>str::rsplit_once\<close> on one character.\<close>

definition rsplit_once :: "char \<Rightarrow> string \<Rightarrow> (string \<times> string) option" where
  "rsplit_once c s = map_option (\<lambda>i. (take i s, drop (Suc i) s)) (rfind_char c s)"

definition url_host :: "string \<Rightarrow> string" where
  "url_host authority =
     (let host = (case rsplit_once CHR '':'' authority of Some (h, _) \<Rightarrow> h | None \<Rightarrow> authority)
      in trim_end_matches CHR '']'' (trim_start_matches CHR ''['' host))"

definition check_url :: "string \<Rightarrow> url_refusal + unit" where
  "check_url url =
     (case strip_prefix url ''https://'' of
        Some r \<Rightarrow> if r = [] then Inl NoHost else Inr ()
      | None \<Rightarrow>
          case strip_prefix url ''http://'' of
            None \<Rightarrow> Inl BadScheme
          | Some rest \<Rightarrow>
              let authority = hd (split_on CHR ''/'' rest); host = url_host authority in
              if CHR ''@'' \<in> set authority then Inl UserInfo
              else if host = ''localhost'' \<or> (case parse_ip host of Some ip \<Rightarrow> is_loopback ip | None \<Rightarrow> False)
              then Inr () else Inl (PlainHttp host))"

section \<open>Scrubbing\<close>

definition REDACTED :: string where "REDACTED = CHR ''<'' # ''redacted'' @ [CHR ''>'']"

definition new_scrubber :: "string list \<Rightarrow> string list" where
  "new_scrubber secrets = filter (\<lambda>s. length s \<ge> 6) secrets"

definition replace_if :: "string \<Rightarrow> string \<Rightarrow> string \<Rightarrow> string" where
  "replace_if to out pat = (if contains_str out pat then replace_all pat to out else out)"

definition scrub :: "string list \<Rightarrow> string \<Rightarrow> string" where
  "scrub secrets s = foldl (replace_if REDACTED) s secrets"

text \<open>\<open>String::truncate\<close> panics inside a character: \<open>None\<close>.\<close>

definition is_char_boundary :: "string \<Rightarrow> nat \<Rightarrow> bool" where
  "is_char_boundary s i \<longleftrightarrow> i = 0 \<or> i = length s \<or> i < length s \<and> \<not> is_continuation (s ! i)"

definition truncate_str :: "string \<Rightarrow> nat \<Rightarrow> string option" where
  "truncate_str s n = (if n \<ge> length s then Some s else if is_char_boundary s n then Some (take n s) else None)"

definition one_line :: "string \<Rightarrow> string" where
  "one_line s = map (\<lambda>c. if c \<in> {CHR 0x0A, CHR 0x0D} then CHR 0x20 else c) s"

definition scrub_short :: "string list \<Rightarrow> string \<Rightarrow> nat \<Rightarrow> string option" where
  "scrub_short secrets s mx =
     (let t = scrub secrets s in
      if length t > mx then map_option (\<lambda>t. one_line (t @ ellipsis)) (truncate_str t mx) else Some (one_line t))"

section \<open>Redaction\<close>

record redact_config =
  rc_home :: bool
  rc_secret_paths :: bool
  rc_extra :: "string list"

record redactor =
  rd_homes :: "string list"
  rd_home :: bool
  rd_secret_paths :: bool
  rd_extra :: "string list"

definition new_redactor :: "redact_config \<Rightarrow> string list \<Rightarrow> redactor" where
  "new_redactor cfg homes =
     \<lparr>rd_homes = rev (sort_key length (rev (filter (\<lambda>h. length h > 1) (map (trim_end_matches CHR ''/'') homes)))),
      rd_home = rc_home cfg, rd_secret_paths = rc_secret_paths cfg, rd_extra = filter (\<lambda>s. s \<noteq> []) (rc_extra cfg)\<rparr>"

definition redact_leaf :: "string \<Rightarrow> string" where
  "redact_leaf path =
     (case rsplit_once CHR ''/'' path of
        Some (dir, _) \<Rightarrow> if dir \<noteq> [] then dir @ ''/'' @ REDACTED else REDACTED
      | None \<Rightarrow> REDACTED)"

definition TRAILING :: "char list" where
  "TRAILING = ''.,;:)]}>'' @ [CHR 0x22, CHR 0x27, CHR ''!'', CHR ''?'']"

definition redact_word :: "string \<Rightarrow> string" where
  "redact_word w =
     (if \<not> starts_with w ''/'' then w
      else let core = rev (dropWhile (\<lambda>c. c \<in> set TRAILING) (rev w)); tail = drop (length core) w in
        if length core > 1 \<and> is_secret_path core then redact_leaf core @ tail else w)"

text \<open>What ends a word: white space, an opening quote or bracket, an equals sign, a comma.\<close>

definition is_break :: "char \<Rightarrow> bool" where
  "is_break c \<longleftrightarrow> is_white c \<or> c \<in> set ([CHR 0x22, CHR 0x27] @ ''([{<=,'')"

fun redact_loop :: "string \<Rightarrow> string \<Rightarrow> string" where
  "redact_loop word [] = (if word \<noteq> [] then redact_word word else [])"
| "redact_loop word (c # cs) =
     (if is_break c then (if word \<noteq> [] then redact_word word else []) @ c # redact_loop [] cs
      else redact_loop (word @ [c]) cs)"

definition redact_paths_in :: "string \<Rightarrow> string" where
  "redact_paths_in s = (if CHR ''/'' \<notin> set s then s else redact_loop [] s)"

definition redact_string :: "redactor \<Rightarrow> string \<Rightarrow> string" where
  "redact_string r s =
     (let out = (if rd_secret_paths r then redact_paths_in s else s);
          out = (if rd_home r then foldl (replace_if ''~'') out (rd_homes r) else out)
      in foldl (replace_if REDACTED) out (rd_extra r))"

text \<open>Every string of a document, the keys of its objects left alone.\<close>

fun map_strings :: "(string \<Rightarrow> string) \<Rightarrow> json \<Rightarrow> json" where
  "map_strings f (JStr s) = JStr (f s)"
| "map_strings f (JArr xs) = JArr (map (map_strings f) xs)"
| "map_strings f (JObj kvs) = JObj (map (\<lambda>(k, v). (k, map_strings f v)) kvs)"
| "map_strings f v = v"

fun strings_of :: "json \<Rightarrow> string list" where
  "strings_of (JStr s) = [s]"
| "strings_of (JArr xs) = concat (map strings_of xs)"
| "strings_of (JObj kvs) = concat (map (\<lambda>(k, v). strings_of v) kvs)"
| "strings_of _ = []"

definition redact_value :: "redactor \<Rightarrow> json \<Rightarrow> json" where
  "redact_value r v = map_strings (redact_string r) v"

section \<open>The guard\<close>

record ship_guard =
  gd_bundle_dir :: string
  gd_quarantine_dir :: string

definition WITHHELD :: string where
  "WITHHELD = CHR ''<'' # ''withheld: staged evidence'' @ [CHR ''>'']"

definition new_guard :: "string \<Rightarrow> string \<Rightarrow> ship_guard" where
  "new_guard bundle quarantine =
     \<lparr>gd_bundle_dir = trim_end_matches CHR ''/'' bundle, gd_quarantine_dir = trim_end_matches CHR ''/'' quarantine\<rparr>"

definition is_forbidden :: "ship_guard \<Rightarrow> string \<Rightarrow> bool" where
  "is_forbidden g s \<longleftrightarrow>
     ends_with s ''.suspect''
     \<or> gd_bundle_dir g \<noteq> [] \<and> starts_with s (gd_bundle_dir g)
     \<or> gd_quarantine_dir g \<noteq> [] \<and> starts_with s (gd_quarantine_dir g)"

definition sweep :: "ship_guard \<Rightarrow> json \<Rightarrow> nat \<times> json" where
  "sweep g v =
     (length (filter (is_forbidden g) (strings_of v)), map_strings (\<lambda>s. if is_forbidden g s then WITHHELD else s) v)"

section \<open>The envelope\<close>

record ship_codec =
  sh_parse :: "string \<Rightarrow> json option"
  sh_render :: "json \<Rightarrow> string"
  sh_sha :: "string \<Rightarrow> octets"
  sh_stamp :: "nat \<Rightarrow> string"
  sh_pid :: nat

definition SHIP_V :: int where "SHIP_V = 1"

record envelope =
  ev_event_id :: string
  ev_class :: string
  ev_source :: string
  ev_kind :: string
  ev_severity :: string
  ev_value :: json

definition to_line :: "ship_codec \<Rightarrow> envelope \<Rightarrow> string" where
  "to_line sc e = sh_render sc (ev_value e)"

definition short_hash :: "ship_codec \<Rightarrow> string \<Rightarrow> string" where
  "short_hash sc s = take 12 (to_hex (sh_sha sc s))"

definition str_at :: "string \<Rightarrow> json \<Rightarrow> string option" where
  "str_at k v = Option.bind (jget k v) as_str"

definition str_or :: "string \<Rightarrow> string \<Rightarrow> json \<Rightarrow> string" where
  "str_or d k v = (case str_at k v of Some s \<Rightarrow> s | None \<Rightarrow> d)"

fun jget_path :: "string list \<Rightarrow> json \<Rightarrow> json option" where
  "jget_path [] v = Some v"
| "jget_path (k # ks) v = Option.bind (jget k v) (jget_path ks)"

definition moat_tier :: "json \<Rightarrow> string \<Rightarrow> string \<Rightarrow> string" where
  "moat_tier body class kind =
     (if class \<noteq> ''alerts'' then ''current''
      else if kind \<noteq> ''alert'' then ''silt''
      else if str_or [] ''action_taken'' body \<noteq> [] \<and> str_or [] ''action_taken'' body \<noteq> ''none'' then ''gator''
      else if (case jget ''suppressed_by'' body of Some v \<Rightarrow> v \<noteq> JNull | None \<Rightarrow> False) then ''duck''
      else if str_or [] ''surface'' body = ''alerts'' then ''alert''
      else if str_or [] ''tier'' body = ''signal'' then ''ripple''
      else ''silt'')"

definition stamp_at :: "json option \<Rightarrow> string option" where
  "stamp_at v = (case Option.bind v as_str of Some t \<Rightarrow> if t \<noteq> [] then Some t else None | None \<Rightarrow> None)"

definition record_time :: "string \<Rightarrow> json \<Rightarrow> string" where
  "record_time now_ts body =
     (case stamp_at (jget ''ts'' body) of
        Some t \<Rightarrow> t
      | None \<Rightarrow> case stamp_at (jget_path [''update'', ''ts''] body) of
          Some t \<Rightarrow> t
        | None \<Rightarrow> case stamp_at (jget_path [''receipt'', ''started''] body) of Some t \<Rightarrow> t | None \<Rightarrow> now_ts)"

definition classify_record :: "json \<Rightarrow> string \<Rightarrow> string \<times> string option \<times> string" where
  "classify_record body class =
     (if class = ''alerts'' then
        if jget ''update'' body \<noteq> None then (''update'', str_at ''id'' body, ''info'')
        else if jget ''receipt'' body \<noteq> None then (''receipt'', None, ''info'')
        else if jget ''id'' body \<noteq> None \<and> jget ''rule'' body \<noteq> None
        then (''alert'', str_at ''id'' body, str_or ''low'' ''severity'' body)
        else (''unknown'', None, ''info'')
      else (str_or ''telemetry'' ''kind'' body, str_at ''exec_id'' body, ''info''))"

fun is_object :: "json \<Rightarrow> bool" where
  "is_object (JObj _) = True"
| "is_object _ = False"

text \<open>The class of a record: the alert log is one class, a telemetry record names its own.\<close>

definition class_of_record :: "string \<Rightarrow> json \<Rightarrow> string" where
  "class_of_record source body = (if source = ''alerts'' then ''alerts'' else str_or source ''class'' body)"

definition event_id_of :: "ship_codec \<Rightarrow> string \<Rightarrow> string \<Rightarrow> string option \<Rightarrow> string" where
  "event_id_of sc line kind i =
     (case i of
        Some i \<Rightarrow> if kind = ''alert'' then i else i @ ''.'' @ short_hash sc line
      | None \<Rightarrow> short_hash sc line)"

definition envelope_of ::
    "ship_codec \<Rightarrow> string \<Rightarrow> string \<Rightarrow> string \<Rightarrow> string \<Rightarrow> redactor \<Rightarrow> ship_guard \<Rightarrow> nat \<Rightarrow> envelope option \<times> nat" where
  "envelope_of sc now_ts line source host red guard withheld =
     (case sh_parse sc line of
        None \<Rightarrow> (None, withheld)
      | Some raw \<Rightarrow>
          if \<not> is_object raw then (None, withheld)
          else
            let class = class_of_record source raw;
                (kind, i, severity) = classify_record raw class;
                event_id = event_id_of sc line kind i;
                (n, swept) = sweep guard raw;
                body = redact_value red swept;
                v = JObj [(''v'', JInt SHIP_V), (''event_id'', JStr event_id), (''host'', JStr host), (''class'', JStr class),
                          (''kind'', JStr kind), (''moat_tier'', JStr (moat_tier body class kind)),
                          (''severity'', JStr severity), (''@timestamp'', JStr (record_time now_ts body)), (''moat'', body)]
            in (Some \<lparr>ev_event_id = event_id, ev_class = class, ev_source = source, ev_kind = kind,
                      ev_severity = severity, ev_value = v\<rparr>, withheld + n))"

section \<open>The syslog summary\<close>

record syslog_config =
  sy_facility :: nat
  sy_app_name :: string
  sy_max_len :: nat

definition syslog_severity :: "string \<Rightarrow> nat" where
  "syslog_severity sev =
     (if sev = ''critical'' then 2 else if sev = ''high'' then 3 else if sev = ''medium'' then 4
      else if sev = ''low'' then 5 else 6)"

fun floor_from :: "string \<Rightarrow> nat \<Rightarrow> nat" where
  "floor_from s 0 = 0"
| "floor_from s (Suc i) = (if is_char_boundary s (Suc i) then Suc i else floor_from s i)"

definition floor_char :: "string \<Rightarrow> nat \<Rightarrow> nat" where
  "floor_char s i = (if i > length s then length s else floor_from s i)"

definition is_ascii_graphic :: "char \<Rightarrow> bool" where
  "is_ascii_graphic c \<longleftrightarrow> 33 \<le> (of_char c :: nat) \<and> (of_char c :: nat) \<le> 126"

definition nilify :: "string \<Rightarrow> string" where
  "nilify s = (let t = take 48 (filter is_ascii_graphic s) in if t = [] then ''-'' else t)"

text \<open>
  The format \<open>{:?}\<close> of a string: quotes, backslashes and control characters escaped. What is not
  ASCII is taken to be printable.
\<close>

definition debug_char :: "char \<Rightarrow> string" where
  "debug_char c =
     (if c = CHR 0x09 then [CHR 0x5C, CHR ''t''] else if c = CHR 0x0A then [CHR 0x5C, CHR ''n'']
      else if c = CHR 0x0D then [CHR 0x5C, CHR ''r''] else if c = CHR 0x00 then [CHR 0x5C, CHR ''0'']
      else if c = CHR 0x22 \<or> c = CHR 0x5C then [CHR 0x5C, c]
      else if (of_char c :: nat) < 32 \<or> c = CHR 0x7F
      then CHR 0x5C # ''u{'' @ dropWhile (\<lambda>d. d = CHR ''0'') (to_hex [of_char c]) @ ''}''
      else [c])"

definition debug_str :: "string \<Rightarrow> string" where
  "debug_str s = CHR 0x22 # concat (map debug_char s) @ [CHR 0x22]"

definition push_str_field :: "string list \<Rightarrow> string \<Rightarrow> json option \<Rightarrow> string list" where
  "push_str_field out k v =
     (case Option.bind v as_str of Some s \<Rightarrow> if s \<noteq> [] then out @ [k @ ''='' @ debug_str s] else out | None \<Rightarrow> out)"

definition push_kv :: "string list \<Rightarrow> string \<Rightarrow> json option \<Rightarrow> string list" where
  "push_kv out k v = (case Option.bind v as_i64 of Some n \<Rightarrow> out @ [k @ ''='' @ show_int n] | None \<Rightarrow> out)"

definition int_or_zero :: "json option \<Rightarrow> int" where
  "int_or_zero v = (case Option.bind v as_i64 of Some n \<Rightarrow> n | None \<Rightarrow> 0)"

definition compact :: "ship_codec \<Rightarrow> json option \<Rightarrow> string" where
  "compact sc v = (case v of Some x \<Rightarrow> sh_render sc x | None \<Rightarrow> ''null'')"

definition syslog_fields :: "ship_codec \<Rightarrow> envelope \<Rightarrow> string list" where
  "syslog_fields sc env =
     (let m = (case jget ''moat'' (ev_value env) of Some m \<Rightarrow> m | None \<Rightarrow> JNull);
          field = (\<lambda>k s. k @ ''='' @ s)
      in if ev_kind env = ''alert'' then
           let fs = [field ''id'' (ev_event_id env), field ''severity'' (ev_severity env),
                     field ''rule'' (str_or [] ''rule'' m), field ''family'' (str_or [] ''family'' m)];
               fs = push_kv fs ''pid'' (jget_path [''process'', ''pid''] m);
               fs = push_str_field fs ''exe'' (jget_path [''process'', ''exe''] m);
               fs = push_str_field fs ''file'' (jget_path [''file'', ''path''] m);
               fs = push_str_field fs ''dst'' (jget_path [''net'', ''dst_ip''] m);
               fs = push_kv fs ''dport'' (jget_path [''net'', ''dst_port''] m)
           in fs @ [field ''action'' (str_or [] ''action_taken'' m), field ''title'' (debug_str (str_or [] ''title'' m))]
         else if ev_kind env = ''update'' then
           [field ''id'' (str_or [] ''id'' m), field ''update'' (compact sc (jget ''update'' m))]
         else if ev_kind env = ''heartbeat'' then
           [field ''shipped'' (show_int (int_or_zero (jget ''shipped'' m))),
            field ''dropped'' (show_int (int_or_zero (jget ''dropped'' m))),
            field ''backlog'' (show_int (int_or_zero (jget ''backlog'' m))),
            field ''classes'' (compact sc (jget ''classes'' m))]
         else
           let fs = [field ''class'' (ev_class env), field ''kind'' (ev_kind env)];
               fs = push_str_field fs ''exe'' (jget ''exe'' m);
               fs = push_str_field fs ''path'' (jget ''path'' m);
               fs = push_str_field fs ''verdict'' (jget ''verdict'' m);
               fs = push_str_field fs ''dst_ip'' (jget ''dst_ip'' m);
               fs = push_kv fs ''dst_port'' (jget ''dst_port'' m)
           in push_kv fs ''pid'' (jget ''pid'' m))"

definition syslog_head :: "ship_codec \<Rightarrow> syslog_config \<Rightarrow> envelope \<Rightarrow> string \<Rightarrow> string \<Rightarrow> string" where
  "syslog_head sc cfg env host ts =
     ''<'' @ show_nat (sy_facility cfg * 8 + syslog_severity (ev_severity env)) @ ''>1 '' @ ts @ '' '' @ nilify host
     @ '' '' @ nilify (sy_app_name cfg) @ '' '' @ show_nat (sh_pid sc) @ '' '' @ nilify (ev_kind env) @ '' - ''"

definition TRUNCATED :: string where "TRUNCATED = ellipsis @ ''[truncated]''"

definition syslog_full :: "ship_codec \<Rightarrow> syslog_config \<Rightarrow> envelope \<Rightarrow> string \<Rightarrow> string \<Rightarrow> string" where
  "syslog_full sc cfg env host ts =
     syslog_head sc cfg env host ts
     @ join_with '' '' (filter (\<lambda>f. \<not> ends_with f ''='' \<and> \<not> ends_with f (''='' @ [CHR 0x22, CHR 0x22])) (syslog_fields sc env))"

definition syslog_line :: "ship_codec \<Rightarrow> syslog_config \<Rightarrow> envelope \<Rightarrow> string \<Rightarrow> string \<Rightarrow> string" where
  "syslog_line sc cfg env host ts =
     (let head = syslog_head sc cfg env host ts; line = syslog_full sc cfg env host ts
      in if length line > sy_max_len cfg
         then take (floor_char line (max (sy_max_len cfg - 12) (length head))) line @ TRUNCATED
         else line)"

section \<open>The answer of a collector\<close>

record send_error =
  se_message :: string
  se_retryable :: bool

text \<open>
  What the HTTP transport makes of a response, a status and its text, or of a request that failed.
  Scrubbing the text can panic: \<open>None\<close>.
\<close>

definition https_answer :: "string list \<Rightarrow> string + nat \<times> string \<Rightarrow> (send_error + unit) option" where
  "https_answer secrets r =
     (case r of
        Inl failure \<Rightarrow> Some (Inl \<lparr>se_message = scrub secrets failure, se_retryable = True\<rparr>)
      | Inr (status, body) \<Rightarrow>
          if 200 \<le> status \<and> status < 300 then Some (Inr ())
          else map_option (\<lambda>short.
             Inl \<lparr>se_message = ''HTTP '' @ show_nat status @ '' from collector: '' @ short,
                  se_retryable = (status = 408 \<or> status = 429 \<or> status \<ge> 500)\<rparr>) (scrub_short secrets body 200))"

section \<open>Redaction and guard together\<close>

lemma strings_of_map [simp]: "strings_of (map_strings f v) = map f (strings_of v)"
proof (induction v)
  case (JArr xs)
  then show ?case by (auto simp: map_concat intro!: arg_cong [where f = concat] map_cong)
next
  case (JObj kvs)
  then show ?case by (auto simp: map_concat intro!: arg_cong [where f = concat] map_cong)
qed auto

text \<open>
  A list of patterns replaced one after the other: what one replacement took out, no later one brings
  back.
\<close>

locale remover =
  fixes to :: string and ok :: "string \<Rightarrow> bool"
  assumes ok_nonempty: "ok q \<Longrightarrow> q \<noteq> []"
    and removes: "ok q \<Longrightarrow> \<not> sublist q (replace_all q to s)"
    and adds_nothing: "ok q \<Longrightarrow> pat \<noteq> [] \<Longrightarrow> \<not> sublist q s \<Longrightarrow> \<not> sublist q (replace_all pat to s)"
begin

lemma replace_if_removes: "ok q \<Longrightarrow> \<not> sublist q (replace_if to s q)"
  by (simp add: replace_if_def removes)

lemma replace_if_adds_nothing: "ok q \<Longrightarrow> pat \<noteq> [] \<Longrightarrow> \<not> sublist q s \<Longrightarrow> \<not> sublist q (replace_if to s pat)"
  by (simp add: replace_if_def adds_nothing)

lemma fold_adds_nothing:
  "ok q \<Longrightarrow> [] \<notin> set pats \<Longrightarrow> \<not> sublist q s \<Longrightarrow> \<not> sublist q (foldl (replace_if to) s pats)"
  by (induction pats arbitrary: s) (simp_all add: replace_if_adds_nothing eq_commute [of "[]"])

lemma fold_removes:
  "q \<in> set pats \<Longrightarrow> ok q \<Longrightarrow> [] \<notin> set pats \<Longrightarrow> \<not> sublist q (foldl (replace_if to) s pats)"
proof (induction pats arbitrary: s)
  case (Cons p ps)
  show ?case
  proof (cases "q = p")
    case True
    with Cons.prems show ?thesis by (simp add: fold_adds_nothing replace_if_removes)
  qed (use Cons in auto)
qed simp

end

text \<open>A string that a mark cannot spell: no angle brackets, and no part of what is between them.\<close>

definition plain :: "string \<Rightarrow> bool" where
  "plain q \<longleftrightarrow> q \<noteq> [] \<and> CHR ''<'' \<notin> set q \<and> CHR ''>'' \<notin> set q \<and> \<not> sublist q ''redacted''"

interpretation marks: remover REDACTED plain
  by unfold_locales
     (auto simp: plain_def REDACTED_def simp del: append.simps intro: replace_removes [THEN notE] replace_adds_nothing [THEN notE])

definition no_tilde :: "string \<Rightarrow> bool" where
  "no_tilde q \<longleftrightarrow> q \<noteq> [] \<and> CHR ''~'' \<notin> set q"

interpretation tildes: remover "''~''" no_tilde
  by unfold_locales
     (auto simp: no_tilde_def intro: replace_char_removes [THEN notE] replace_char_adds_nothing [THEN notE])

lemma replace_if_ends:
  assumes "pat \<noteq> []"
  shows "keeps_front c (\<lambda>s. replace_if (c # t) s pat)" "keeps_back c (\<lambda>s. replace_if (t @ [c]) s pat)"
  using replace_keeps_front [OF assms, of c t] replace_keeps_back [OF assms, of c t]
  by (auto simp: keeps_front_def keeps_back_def replace_if_def)

lemma redact_leaf_shape: "\<exists>x. redact_leaf p = x @ REDACTED \<and> prefix x p"
proof (cases "CHR ''/'' \<in> set p")
  case True
  then obtain a b where "p = a @ CHR ''/'' # b" "CHR ''/'' \<notin> set b" using split_list_last by fast
  then show ?thesis
    by (intro exI [of _ "if a = [] then [] else a @ ''/''"])
       (simp add: redact_leaf_def rsplit_once_def rfind_char_last)
next
  case False
  then have "find_char CHR ''/'' (rev p) = None" by (simp add: find_char_None)
  then show ?thesis by (simp add: redact_leaf_def rsplit_once_def rfind_char_def)
qed

lemma redact_word_shape:
  "redact_word w = w \<or> (\<exists>x y. redact_word w = x @ REDACTED @ y \<and> prefix x w \<and> suffix y w)"
proof -
  let ?core = "rev (dropWhile (\<lambda>c. c \<in> set TRAILING) (rev w))"
  have pre: "prefix ?core w"
    by (metis rev_rev_ident suffix_dropWhile suffix_to_prefix)
  have leaf: "\<exists>x. redact_leaf ?core = x @ REDACTED \<and> prefix x ?core"
    by (rule redact_leaf_shape)
  from leaf obtain x where "redact_leaf ?core = x @ REDACTED" "prefix x ?core" by blast
  with pre have "redact_leaf ?core @ drop (length ?core) w = x @ REDACTED @ drop (length ?core) w \<and> prefix x w
      \<and> suffix (drop (length ?core) w) w" by (auto intro: prefix_order.trans suffix_drop)
  then show ?thesis unfolding redact_word_def Let_def by auto
qed

lemma redact_word_front:
  assumes "CHR ''<'' \<notin> set d" and "prefix d (redact_word w @ r)"
  shows "prefix d w \<or> (\<exists>d'. d = w @ d' \<and> prefix d' r)"
  using redact_word_shape [of w]
proof (elim disjE exE conjE)
  fix x y assume "redact_word w = x @ REDACTED @ y" "prefix x w"
  with assms have "prefix d x" by (auto simp: REDACTED_def prefix_append prefix_Cons)
  with \<open>prefix x w\<close> show ?thesis by (blast intro: prefix_order.trans)
qed (use assms in \<open>auto simp: prefix_append\<close>)

lemma redact_word_back:
  assumes "CHR ''>'' \<notin> set d" and "suffix d (redact_word w)"
  shows "suffix d w"
  using redact_word_shape [of w]
proof (elim disjE exE conjE)
  fix x y assume "redact_word w = x @ REDACTED @ y" "suffix y w"
  moreover from this assms(2) have "suffix d ((x @ CHR ''<'' # ''redacted'') @ CHR ''>'' # y)" by (simp add: REDACTED_def)
  ultimately show ?thesis using assms(1) by (auto simp: suffix_append suffix_Cons simp del: append_assoc)
qed (use assms in auto)

lemma redact_word_same: "CHR ''>'' \<notin> set (redact_word w) \<Longrightarrow> redact_word w = w"
  using redact_word_shape [of w] by (auto simp: REDACTED_def)

lemma redact_word_Nil [simp]: "redact_word [] = []"
  by (simp add: redact_word_def)

lemma redact_loop_simps [simp]:
  "redact_loop w [] = redact_word w"
  "redact_loop w (c # cs) = (if is_break c then redact_word w @ c # redact_loop [] cs else redact_loop (w @ [c]) cs)"
  by auto

declare redact_loop.simps [simp del]

lemma redact_loop_front:
  "CHR ''<'' \<notin> set d \<Longrightarrow> prefix d (redact_loop w cs) \<Longrightarrow> prefix d (w @ cs)"
proof (induction cs arbitrary: w d)
  case Nil
  then show ?case using redact_word_front [of d w "[]"] by auto
next
  case (Cons c cs)
  show ?case
  proof (cases "is_break c")
    case True
    with Cons.prems redact_word_front [of d w "c # redact_loop [] cs"] consider "prefix d w"
      | d' where "d = w @ d'" "prefix d' (c # redact_loop [] cs)" by auto
    then show ?thesis
    proof cases
      case (2 d')
      with Cons.prems(1) Cons.IH [of _ "[]"] show ?thesis by (auto simp: prefix_Cons)
    qed auto
  qed (use Cons.IH [of d "w @ [c]"] Cons.prems in simp)
qed

lemma redact_loop_same: "CHR ''>'' \<notin> set (redact_loop w cs) \<Longrightarrow> redact_loop w cs = w @ cs"
proof (induction cs arbitrary: w)
  case (Cons c cs)
  then show ?case using Cons.IH [of "[]"] Cons.IH [of "w @ [c]"] redact_word_same [of w]
    by (cases "is_break c") auto
qed (use redact_word_same in auto)

lemma redact_loop_back:
  "CHR ''>'' \<notin> set d \<Longrightarrow> suffix d (redact_loop w cs) \<Longrightarrow> suffix d (w @ cs)"
proof (induction cs arbitrary: w d)
  case Nil
  then show ?case using redact_word_back by simp
next
  case (Cons c cs)
  show ?case
  proof (cases "is_break c")
    case True
    with Cons.prems consider "suffix d (redact_loop [] cs)" | "d = c # redact_loop [] cs"
      | d' where "d = d' @ c # redact_loop [] cs" "suffix d' (redact_word w)"
      by (auto simp: suffix_append suffix_Cons)
    then show ?thesis
    proof cases
      case 1
      from Cons.IH [OF Cons.prems(1) 1] show ?thesis by (auto simp: suffix_append suffix_Cons)
    next
      case 2
      with Cons.prems(1) redact_loop_same [of "[]" cs] show ?thesis by (auto simp: suffix_append)
    next
      case (3 d')
      with Cons.prems(1) redact_loop_same [of "[]" cs] redact_word_back [of d' w] show ?thesis
        by (auto simp: suffix_append)
    qed
  qed (use Cons.IH [of d "w @ [c]"] Cons.prems in simp)
qed

lemma redact_paths_ends: "keeps_front CHR ''<'' redact_paths_in \<and> keeps_back CHR ''>'' redact_paths_in"
  using redact_loop_front [of _ "[]"] redact_loop_back [of _ "[]"]
  by (auto simp: redact_paths_in_def keeps_front_def keeps_back_def)

text \<open>What a redaction passes was there before: a text without the marks, at either end.\<close>

lemma redact_string_ends:
  assumes "[] \<notin> set (rd_homes r)" and "[] \<notin> set (rd_extra r)"
    and d: "CHR ''<'' \<notin> set d" "CHR ''>'' \<notin> set d" "CHR ''~'' \<notin> set d"
  shows "prefix d (redact_string r s) \<Longrightarrow> prefix d s" and "suffix d (redact_string r s) \<Longrightarrow> suffix d s"
proof -
  let ?p = "if rd_secret_paths r then redact_paths_in s else s"
  let ?h = "if rd_home r then foldl (replace_if ''~'') ?p (rd_homes r) else ?p"
  have out: "redact_string r s = foldl (replace_if REDACTED) ?h (rd_extra r)"
    by (simp add: redact_string_def Let_def)
  have "\<forall>q \<in> set (rd_extra r). keeps_front CHR ''<'' (\<lambda>s. replace_if REDACTED s q) \<and> keeps_back CHR ''>'' (\<lambda>s. replace_if REDACTED s q)"
    using assms(2) replace_if_ends(1) [of _ "CHR ''<''" "''redacted'' @ [CHR ''>'']"]
      replace_if_ends(2) [of _ "CHR ''>''" "CHR ''<'' # ''redacted''"]
    unfolding REDACTED_def append_Cons by (metis (no_types, lifting))
  note e = foldl_keeps_ends [OF this]
  have "\<forall>q \<in> set (rd_homes r). keeps_front CHR ''~'' (\<lambda>s. replace_if ''~'' s q) \<and> keeps_back CHR ''~'' (\<lambda>s. replace_if ''~'' s q)"
    using assms(1) replace_if_ends(1) [of _ "CHR ''~''" "[]"] replace_if_ends(2) [of _ "CHR ''~''" "[]"]
    unfolding append_Nil by (metis (no_types, lifting))
  note h = foldl_keeps_ends [OF this]
  show "prefix d s" if "prefix d (redact_string r s)"
  proof -
    from that have "prefix d ?h" unfolding out by (rule keeps_frontD [OF conjunct1 [OF e] d(1)])
    then have "prefix d ?p" by (cases "rd_home r") (auto intro: keeps_frontD [OF conjunct1 [OF h] d(3)])
    then show ?thesis by (cases "rd_secret_paths r") (auto intro: keeps_frontD [OF conjunct1 [OF redact_paths_ends] d(1)])
  qed
  show "suffix d s" if "suffix d (redact_string r s)"
  proof -
    from that have "suffix d ?h" unfolding out by (rule keeps_backD [OF conjunct2 [OF e] d(2)])
    then have "suffix d ?p" by (cases "rd_home r") (auto intro: keeps_backD [OF conjunct2 [OF h] d(3)])
    then show ?thesis by (cases "rd_secret_paths r") (auto intro: keeps_backD [OF conjunct2 [OF redact_paths_ends] d(2)])
  qed
qed

text \<open>A redaction that takes out what it was told to.\<close>

lemma redact_string_removes:
  assumes "[] \<notin> set (rd_homes r)" and "[] \<notin> set (rd_extra r)"
  shows "x \<in> set (rd_extra r) \<Longrightarrow> plain x \<Longrightarrow> \<not> sublist x (redact_string r s)"
    and "h \<in> set (rd_homes r) \<Longrightarrow> rd_home r \<Longrightarrow> plain h \<Longrightarrow> no_tilde h \<Longrightarrow> \<not> sublist h (redact_string r s)"
  using assms
  by (simp_all add: redact_string_def Let_def marks.fold_removes marks.fold_adds_nothing tildes.fold_removes)

lemma new_redactor_nonempty: "[] \<notin> set (rd_homes (new_redactor cfg homes))" "[] \<notin> set (rd_extra (new_redactor cfg homes))"
  by (auto simp: new_redactor_def)

text \<open>The directories the guard watches are spelled without a mark.\<close>

definition plain_guard :: "ship_guard \<Rightarrow> bool" where
  "plain_guard g \<longleftrightarrow> (\<forall>c \<in> {CHR ''<'', CHR ''>'', CHR ''~''}. c \<notin> set (gd_bundle_dir g) \<and> c \<notin> set (gd_quarantine_dir g))"

lemma WITHHELD_allowed: "plain_guard g \<Longrightarrow> \<not> is_forbidden g WITHHELD"
  by (cases "gd_bundle_dir g"; cases "gd_quarantine_dir g")
     (auto simp: plain_guard_def is_forbidden_def WITHHELD_def suffix_Cons)

lemma redacted_is_allowed:
  assumes "plain_guard g" and "[] \<notin> set (rd_homes r)" "[] \<notin> set (rd_extra r)" and "\<not> is_forbidden g s"
  shows "\<not> is_forbidden g (redact_string r s)"
proof -
  note ends = redact_string_ends [OF assms(2,3)]
  from ends(2) [of "''.suspect''" s] ends(1) [of "gd_bundle_dir g" s] ends(1) [of "gd_quarantine_dir g" s]
  show ?thesis using assms(1,4) by (auto simp: is_forbidden_def plain_guard_def)
qed

text \<open>C29: No record takes staged evidence, a home directory or a configured secret off the machine. In
  the body of every envelope no string has the shape of a path of the evidence store or the quarantine,
  none contains a home directory when homes are redacted, and none contains an extra string of the
  configuration, as long as these are not spelled with the marks of the redaction itself: the passes
  that come later never bring back what an earlier one took out.\<close>

theorem nothing_withheld_leaves:
  assumes env: "envelope_of sc now_ts line source host (new_redactor cfg homes) guard w = (Some e, w')"
    and body: "jget ''moat'' (ev_value e) = Some body" and s: "s \<in> set (strings_of body)"
    and guard: "plain_guard guard"
  shows "\<not> is_forbidden guard s
    \<and> (rc_home cfg \<longrightarrow> (\<forall>h \<in> set homes. let h = trim_end_matches CHR ''/'' h in
          length h > 1 \<and> plain h \<and> CHR ''~'' \<notin> set h \<longrightarrow> \<not> contains_str s h))
    \<and> (\<forall>x \<in> set (rc_extra cfg). plain x \<longrightarrow> \<not> contains_str s x)"
proof -
  let ?r = "new_redactor cfg homes"
  note ne = new_redactor_nonempty [of cfg homes]
  from env body s obtain raw t where "s = redact_string ?r (if is_forbidden guard t then WITHHELD else t)"
    by (auto simp: envelope_of_def Let_def sweep_def redact_value_def split: option.splits if_splits prod.splits)
  then obtain u where u: "s = redact_string ?r u" "\<not> is_forbidden guard u"
    using WITHHELD_allowed [OF guard] by metis
  from redacted_is_allowed [OF guard ne u(2)] have "\<not> is_forbidden guard s" by (simp add: u(1))
  moreover have "\<not> contains_str s x" if "x \<in> set (rc_extra cfg)" "plain x" for x
    using redact_string_removes(1) [OF ne, of x u] that by (simp add: u(1) new_redactor_def plain_def)
  moreover have "\<not> contains_str s h" if "rc_home cfg" "h \<in> trim_end_matches CHR ''/'' ` set homes" "length h > 1" "plain h" "CHR ''~'' \<notin> set h" for h
    using redact_string_removes(2) [OF ne, of h u] that by (auto simp: u(1) new_redactor_def no_tilde_def plain_def)
  ultimately show ?thesis by (simp add: Let_def)
qed

definition a_codec :: "(string \<Rightarrow> json option) \<Rightarrow> ship_codec" where
  "a_codec p = \<lparr>sh_parse = p, sh_render = (\<lambda>v. concat (strings_of v)), sh_sha = (\<lambda>s. replicate 32 (of_nat (length s))),
     sh_stamp = show_nat, sh_pid = 7\<rparr>"

definition staged_alert :: json where
  "staged_alert = JObj [(''id'', JStr ''A1''), (''rule'', JStr ''r''), (''severity'', JStr ''high''),
     (''exe'', JStr ''/e/A1/x''), (''cwd'', JStr ''/home/dan/src''), (''note'', JStr ''from 10.0.0.9'')]"

theorem nothing_withheld_leaves_witness:
  "\<exists>e body. envelope_of (a_codec (\<lambda>_. Some staged_alert)) [] ''line'' ''alerts'' ''box''
       (new_redactor \<lparr>rc_home = True, rc_secret_paths = True, rc_extra = [''10.0.0.9'']\<rparr> [''/home/dan'']) (new_guard ''/e/'' ''/q'') 0 = (Some e, 1)
     \<and> jget ''moat'' (ev_value e) = Some body
     \<and> strings_of body = [''A1'', ''r'', ''high'', WITHHELD, ''~/src'', ''from <redacted>'']
     \<and> \<not> is_forbidden (new_guard ''/e/'' ''/q'') ''from <redacted>''"
proof -
  let ?r = "new_redactor \<lparr>rc_home = True, rc_secret_paths = True, rc_extra = [''10.0.0.9'']\<rparr> [''/home/dan'']"
  let ?g = "new_guard ''/e/'' ''/q''"
  have n: "fst (sweep ?g staged_alert) = 1" by code_simp
  have obj: "is_object staged_alert" by (simp add: staged_alert_def)
  obtain e where e: "envelope_of (a_codec (\<lambda>_. Some staged_alert)) [] ''line'' ''alerts'' ''box'' ?r ?g 0 = (Some e, 1)"
    "jget ''moat'' (ev_value e) = Some (redact_value ?r (snd (sweep ?g staged_alert)))"
    using that n obj by (simp add: envelope_of_def a_codec_def Let_def case_prod_beta)
  have b: "strings_of (redact_value ?r (snd (sweep ?g staged_alert))) = [''A1'', ''r'', ''high'', WITHHELD, ''~/src'', ''from <redacted>'']"
    by code_simp
  have g: "plain_guard ?g" by code_simp
  have "\<not> is_forbidden ?g ''from <redacted>''"
    using nothing_withheld_leaves [OF e(1,2) _ g, of "''from <redacted>''"] unfolding b by simp
  with e b show ?thesis by blast
qed

section \<open>What is logged\<close>

lemma one_line_sublist:
  assumes "sublist q (one_line s)" and "CHR 0x20 \<notin> set q"
  shows "sublist q s"
proof -
  from assms(1) obtain a b where "one_line s = a @ q @ b" by (auto simp: sublist_def)
  then obtain s1 q1 s2 where s: "s = s1 @ q1 @ s2" "one_line q1 = q"
    by (auto simp: one_line_def map_eq_append_conv append_eq_map_conv)
  have "map (\<lambda>c. if c \<in> {CHR 0x0A, CHR 0x0D} then CHR 0x20 else c) q1 = q1"
    by (rule map_idI) (use s(2) assms(2) in \<open>auto simp: one_line_def\<close>)
  with s(2) have "q1 = q" by (simp add: one_line_def)
  with s(1) show ?thesis by (auto simp: sublist_def)
qed

lemma scrub_removes:
  assumes "x \<in> set secrets" and "6 \<le> length x" and "plain x"
  shows "\<not> sublist x (scrub (new_scrubber secrets) s)"
  unfolding scrub_def by (rule marks.fold_removes) (use assms in \<open>auto simp: new_scrubber_def\<close>)

text \<open>C30: The token is not logged. Of an error or a response that went through the scrubber, in full or cut
  short on one line, no part is a secret of six characters or more, as long as the secret is not
  spelled with what the scrubber itself writes (an angle bracket, a space, an ellipsis, a piece of the
  word it puts in).\<close>

theorem token_is_never_logged:
  assumes "x \<in> set secrets" and "6 \<le> length x" and "plain x" and "CHR 0x20 \<notin> set x" "CHR 0xE2 \<notin> set x"
  shows "\<not> contains_str (scrub (new_scrubber secrets) s) x
    \<and> (\<forall>t. scrub_short (new_scrubber secrets) s mx = Some t \<longrightarrow> \<not> contains_str t x)"
proof (intro conjI allI impI)
  let ?u = "scrub (new_scrubber secrets) s"
  show clean: "\<not> contains_str ?u x" by (rule scrub_removes [OF assms(1-3)])
  fix t assume t: "scrub_short (new_scrubber secrets) s mx = Some t"
  show "\<not> contains_str t x"
  proof (cases "length ?u > mx")
    case False
    with t clean one_line_sublist [OF _ assms(4)] show ?thesis by (auto simp: scrub_short_def Let_def)
  next
    case True
    with t have "t = one_line (take mx ?u @ ellipsis)"
      by (auto simp: scrub_short_def Let_def truncate_str_def split: if_splits)
    moreover have "\<not> sublist x (take mx ?u @ CHR 0xE2 # tl ellipsis)"
    proof
      assume "sublist x (take mx ?u @ CHR 0xE2 # tl ellipsis)"
      from sublist_split [OF this assms(5)] have "sublist x (take mx ?u) \<or> length x \<le> 2"
        by (auto simp: ellipsis_def dest: sublist_length_le)
      with assms(2) have "sublist x (take mx ?u)" by simp
      then have "sublist x ?u" by (rule sublist_order.order_trans) (rule sublist_take)
      with clean show False by simp
    qed
    ultimately show ?thesis using one_line_sublist [OF _ assms(4)] by (auto simp: ellipsis_def)
  qed
qed

theorem token_is_never_logged_witness:
  "\<not> contains_str (scrub (new_scrubber [''s3cr3t-token'']) ''denied: Bearer s3cr3t-token'') ''s3cr3t-token''
   \<and> scrub_short (new_scrubber [''s3cr3t-token'']) ''denied: Bearer s3cr3t-token'' 20 = Some (''denied: Bearer <reda'' @ ellipsis)"
proof -
  have "plain ''s3cr3t-token''" by code_simp
  with token_is_never_logged [of "''s3cr3t-token''" "[''s3cr3t-token'']" "''denied: Bearer s3cr3t-token''" 20]
  have "\<not> contains_str (scrub (new_scrubber [''s3cr3t-token'']) ''denied: Bearer s3cr3t-token'') ''s3cr3t-token''" by simp
  moreover have "scrub_short (new_scrubber [''s3cr3t-token'']) ''denied: Bearer s3cr3t-token'' 20 = Some (''denied: Bearer <reda'' @ ellipsis)"
    by code_simp
  ultimately show ?thesis by blast
qed

text \<open>An error body can stop the shipper. A collector that refuses a batch with a text whose 200th byte lies
  inside a character makes the shortening of that text panic: there is no answer, and the process ends.\<close>

theorem cut_character_stops_the_shipper:
  assumes "status < 200 \<or> 300 \<le> status" and "200 < length (scrub secrets body)"
    and "is_continuation (scrub secrets body ! 200)"
  shows "https_answer secrets (Inr (status, body)) = None"
  using assms by (auto simp: https_answer_def scrub_short_def Let_def truncate_str_def is_char_boundary_def)

theorem cut_character_stops_the_shipper_witness:
  "https_answer [] (Inr (401, replicate 199 CHR ''a'' @ [CHR 0xC3, CHR 0xA9])) = None"
  by (rule cut_character_stops_the_shipper) (simp_all add: scrub_def is_continuation_def nth_append)

section \<open>The length of a syslog line\<close>

lemma floor_char_le: "floor_char s i \<le> i"
proof -
  have "floor_from s i \<le> i" by (induction i) auto
  then show ?thesis by (auto simp: floor_char_def)
qed

lemma floor_char_boundary: "is_char_boundary s i \<Longrightarrow> floor_char s i = i"
  by (cases i) (auto simp: floor_char_def is_char_boundary_def)

lemma length_TRUNCATED: "length TRUNCATED = 14"
  by (simp add: TRUNCATED_def ellipsis_def)

text \<open>A line of syslog is cut where it says it is, and two bytes late. A summary within the cap is sent
  whole; a longer one is sent as its beginning and the word \<open>[truncated]\<close>. The mark takes fourteen
  bytes and the code makes room for twelve: every line that is cut at ASCII is two bytes longer than the
  cap, and none is longer than that.\<close>

theorem syslog_line_is_cut_visibly:
  assumes "480 \<le> sy_max_len cfg" and "length (syslog_head sc cfg env host ts) \<le> sy_max_len cfg - 12"
  shows "if length (syslog_full sc cfg env host ts) \<le> sy_max_len cfg
    then syslog_line sc cfg env host ts = syslog_full sc cfg env host ts
    else (\<exists>p. syslog_line sc cfg env host ts = p @ TRUNCATED \<and> prefix p (syslog_full sc cfg env host ts))
      \<and> length (syslog_line sc cfg env host ts) \<le> sy_max_len cfg + 2
      \<and> (is_char_boundary (syslog_full sc cfg env host ts) (sy_max_len cfg - 12)
           \<longrightarrow> length (syslog_line sc cfg env host ts) = sy_max_len cfg + 2)"
proof -
  let ?f = "syslog_full sc cfg env host ts"
  have m: "max (sy_max_len cfg - 12) (length (syslog_head sc cfg env host ts)) = sy_max_len cfg - 12"
    using assms by simp
  then have l: "syslog_line sc cfg env host ts = (if length ?f > sy_max_len cfg
      then take (floor_char ?f (sy_max_len cfg - 12)) ?f @ TRUNCATED else ?f)"
    by (simp add: syslog_line_def Let_def)
  have "length (take (floor_char ?f (sy_max_len cfg - 12)) ?f) \<le> sy_max_len cfg - 12"
    using floor_char_le [of ?f "sy_max_len cfg - 12"] by simp
  then show ?thesis using assms(1) by (auto simp: l length_TRUNCATED floor_char_boundary take_is_prefix)
qed

definition long_class :: envelope where
  "long_class = \<lparr>ev_event_id = ''E'', ev_class = replicate 500 CHR ''a'', ev_source = ''process'', ev_kind = ''k'',
     ev_severity = ''info'', ev_value = JNull\<rparr>"

theorem syslog_line_is_cut_visibly_witness:
  "length (syslog_line (a_codec (\<lambda>_. None)) \<lparr>sy_facility = 13, sy_app_name = ''moat'', sy_max_len = 480\<rparr> long_class ''box'' ''T'') = 482"
proof -
  let ?c = "\<lparr>sy_facility = 13, sy_app_name = ''moat'', sy_max_len = 480\<rparr>"
  have "length (syslog_head (a_codec (\<lambda>_. None)) ?c long_class ''box'' ''T'') \<le> 468"
    "480 < length (syslog_full (a_codec (\<lambda>_. None)) ?c long_class ''box'' ''T'')"
    "is_char_boundary (syslog_full (a_codec (\<lambda>_. None)) ?c long_class ''box'' ''T'') 468"
    by code_simp+
  with syslog_line_is_cut_visibly [of ?c "a_codec (\<lambda>_. None)" long_class "''box''" "''T''"] show ?thesis by simp
qed

end
