(* ===== verification/Ship.thy ===== *)
theory Ship
  imports Ship_Record Ordered_Map
begin

text \<open>
  The shipper (\<open>ship.rs\<close>): the bounded buffer, the cursor of each source, the reading of a log that
  grows and rotates, and the pass that reads, sends and moves the durable cursor. A file is its inode
  and its bytes; the files are asked for at successive moments, as the calls of \<open>read_new\<close> are made. The
  transport is a parameter with a state of its own. A pass that panics has no result.
\<close>

section \<open>The buffer\<close>

record buffer_config =
  bc_max_records :: nat
  bc_max_bytes :: nat
  bc_retry_min_secs :: nat
  bc_retry_max_secs :: nat
  bc_read_max_records :: nat

record ship_buffer =
  bf_q :: "envelope list"
  bf_bytes :: nat
  bf_max_records :: nat
  bf_max_bytes :: nat
  bf_dropped :: nat
  bf_dropped_bytes :: nat

definition new_buffer :: "buffer_config \<Rightarrow> ship_buffer" where
  "new_buffer cfg = \<lparr>bf_q = [], bf_bytes = 0, bf_max_records = max (bc_max_records cfg) 1,
     bf_max_bytes = max (bc_max_bytes cfg) 4096, bf_dropped = 0, bf_dropped_bytes = 0\<rparr>"

definition line_size :: "ship_codec \<Rightarrow> envelope \<Rightarrow> nat" where
  "line_size sc e = length (to_line sc e)"

fun evict_front :: "ship_codec \<Rightarrow> nat \<Rightarrow> nat \<Rightarrow> envelope list \<Rightarrow> nat \<Rightarrow> envelope list \<times> envelope list \<times> nat" where
  "evict_front sc mr mb [] bytes = ([], [], bytes)"
| "evict_front sc mr mb (e # q) bytes =
     (if length (e # q) > mr \<or> bytes > mb
      then let (evicted, kept, left) = evict_front sc mr mb q (bytes - line_size sc e) in (e # evicted, kept, left)
      else ([], e # q, bytes))"

definition push :: "ship_codec \<Rightarrow> envelope \<Rightarrow> ship_buffer \<Rightarrow> envelope list \<times> ship_buffer" where
  "push sc e b =
     (let (evicted, kept, left) = evict_front sc (bf_max_records b) (bf_max_bytes b) (bf_q b @ [e]) (bf_bytes b + line_size sc e)
      in (evicted, b\<lparr>bf_q := kept, bf_bytes := left, bf_dropped := bf_dropped b + length evicted,
                     bf_dropped_bytes := bf_dropped_bytes b + sum_list (map (line_size sc) evicted)\<rparr>))"

fun peek_loop :: "ship_codec \<Rightarrow> nat \<Rightarrow> nat \<Rightarrow> envelope list \<Rightarrow> nat \<Rightarrow> envelope list \<Rightarrow> envelope list" where
  "peek_loop sc mr mb out n [] = out"
| "peek_loop sc mr mb out n (e # q) =
     (if out \<noteq> [] \<and> (length out \<ge> max mr 1 \<or> n + line_size sc e > max mb 1) then out
      else peek_loop sc mr mb (out @ [e]) (n + line_size sc e) q)"

definition buffer_peek :: "ship_codec \<Rightarrow> nat \<Rightarrow> nat \<Rightarrow> ship_buffer \<Rightarrow> envelope list" where
  "buffer_peek sc mr mb b = peek_loop sc mr mb [] 0 (bf_q b)"

fun commit_loop :: "ship_codec \<Rightarrow> nat \<Rightarrow> envelope list \<Rightarrow> nat \<Rightarrow> envelope list \<times> nat" where
  "commit_loop sc (Suc n) (e # q) bytes = commit_loop sc n q (bytes - line_size sc e)"
| "commit_loop sc _ q bytes = (q, bytes)"

definition commit :: "ship_codec \<Rightarrow> nat \<Rightarrow> ship_buffer \<Rightarrow> ship_buffer" where
  "commit sc n b = (let (q, left) = commit_loop sc n (bf_q b) (bf_bytes b) in b\<lparr>bf_q := q, bf_bytes := left\<rparr>)"

section \<open>The cursor\<close>

record source_cursor =
  cu_inode :: nat
  cu_offset :: nat
  cu_recent :: "string list"

definition new_source_cursor :: source_cursor where
  "new_source_cursor = \<lparr>cu_inode = 0, cu_offset = 0, cu_recent = []\<rparr>"

definition RECENT_MAX :: nat where "RECENT_MAX = 512"

definition seen :: "string \<Rightarrow> source_cursor \<Rightarrow> bool" where
  "seen i c \<longleftrightarrow> i \<in> set (cu_recent c)"

definition note_sent :: "string \<Rightarrow> source_cursor \<Rightarrow> source_cursor" where
  "note_sent i c = (let r = cu_recent c @ [i] in c\<lparr>cu_recent := drop (length r - RECENT_MAX) r\<rparr>)"

record ship_cursor =
  cr_sources :: "(string \<times> source_cursor) list"
  cr_shipped :: nat
  cr_dropped :: nat
  cr_withheld :: nat
  cr_last_ok :: string
  cr_last_error :: string

text \<open>What is on disk, or nothing that can be read.\<close>

definition load_cursor :: "ship_cursor option \<Rightarrow> ship_cursor" where
  "load_cursor disk =
     (case disk of
        Some c \<Rightarrow> c
      | None \<Rightarrow> \<lparr>cr_sources = [], cr_shipped = 0, cr_dropped = 0, cr_withheld = 0, cr_last_ok = [], cr_last_error = []\<rparr>)"

text \<open>\<open>entry(k).or_default()\<close>, changed in place.\<close>

definition source_at :: "string \<Rightarrow> ship_cursor \<Rightarrow> source_cursor" where
  "source_at k c = (case map_of (cr_sources c) k of Some s \<Rightarrow> s | None \<Rightarrow> new_source_cursor)"

definition change_source :: "string \<Rightarrow> (source_cursor \<Rightarrow> source_cursor) \<Rightarrow> ship_cursor \<Rightarrow> ship_cursor" where
  "change_source k f c = c\<lparr>cr_sources := bt_insert k (f (source_at k c)) (cr_sources c)\<rparr>"

section \<open>Reading a log\<close>

record log_source =
  ls_class :: string
  ls_path :: string
  ls_rotated :: string

type_synonym log_file = "nat \<times> string"
type_synonym files = "nat \<Rightarrow> string \<Rightarrow> log_file option"

text \<open>The bytes as lines with their terminators, the last one as far as it was written.\<close>

fun chunks :: "string \<Rightarrow> string list" where
  "chunks [] = []"
| "chunks (c # cs) =
     (if c = newline then [c] # chunks cs
      else (case chunks cs of [] \<Rightarrow> [[c]] | l # ls \<Rightarrow> (c # l) # ls))"

text \<open>Valid UTF-8: what \<open>read_line\<close> and \<open>lines\<close> insist on.\<close>

fun utf8_bytes :: "nat list \<Rightarrow> bool" where
  "utf8_bytes [] = True"
| "utf8_bytes (a # bs) =
     (let cont = (\<lambda>b. 128 \<le> b \<and> b < 192) in
      if a < 128 then utf8_bytes bs
      else if 194 \<le> a \<and> a < 224 then (case bs of b # r \<Rightarrow> cont b \<and> utf8_bytes r | _ \<Rightarrow> False)
      else if 224 \<le> a \<and> a < 240 then
        (case bs of
           b # c # r \<Rightarrow> cont b \<and> cont c \<and> (a = 224 \<longrightarrow> 160 \<le> b) \<and> (a = 237 \<longrightarrow> b < 160) \<and> utf8_bytes r
         | _ \<Rightarrow> False)
      else if 240 \<le> a \<and> a < 245 then
        (case bs of
           b # c # d # r \<Rightarrow> cont b \<and> cont c \<and> cont d \<and> (a = 240 \<longrightarrow> 144 \<le> b) \<and> (a = 244 \<longrightarrow> b < 144) \<and> utf8_bytes r
         | _ \<Rightarrow> False)
      else False)"

definition valid_utf8 :: "string \<Rightarrow> bool" where
  "valid_utf8 s \<longleftrightarrow> utf8_bytes (map of_char s)"

text \<open>The loop of \<open>read_from\<close>: stops before a line that is still being written.\<close>

definition trim_newlines :: "string \<Rightarrow> string" where
  "trim_newlines s = rev (dropWhile (\<lambda>c. c = newline \<or> c = cr) (rev s))"

fun read_loop :: "nat \<Rightarrow> nat \<Rightarrow> string list \<Rightarrow> string list \<Rightarrow> (string list \<times> nat) option" where
  "read_loop mx pos [] out = Some (out, pos)"
| "read_loop mx pos (l # ls) out =
     (if length out \<ge> mx then Some (out, pos)
      else if \<not> valid_utf8 l then None
      else if last l \<noteq> newline then Some (out, pos)
      else let t = trim_newlines l in read_loop mx (pos + length l) ls (if t \<noteq> [] then out @ [t] else out))"

definition read_from :: "log_file option \<Rightarrow> nat \<Rightarrow> nat \<Rightarrow> string list \<Rightarrow> (string list \<times> nat) option" where
  "read_from f start mx out = Option.bind f (\<lambda>(_, content). read_loop mx start (chunks (drop start content)) out)"

text \<open>The rest of a file that was renamed away: \<open>lines()\<close>, the last one as it is.\<close>

definition line_text :: "string \<Rightarrow> string" where
  "line_text l = (if l \<noteq> [] \<and> last l = newline then strip_cr (butlast l) else l)"

fun rotated_lines :: "nat \<Rightarrow> string list \<Rightarrow> string list \<Rightarrow> string list" where
  "rotated_lines mx [] out = out"
| "rotated_lines mx (l # ls) out =
     (if \<not> valid_utf8 l then out
      else if length out \<ge> mx then out
      else rotated_lines mx ls (if trim (line_text l) \<noteq> [] then out @ [line_text l] else out))"

definition read_new :: "files \<Rightarrow> nat \<Rightarrow> log_source \<Rightarrow> source_cursor \<Rightarrow> nat \<Rightarrow> string list \<times> nat \<times> nat" where
  "read_new fs t src cur mx =
     (case fs t (ls_path src) of
        None \<Rightarrow> ([], cu_inode cur, cu_offset cur)
      | Some (inode, content) \<Rightarrow>
          if cu_inode cur \<noteq> 0 \<and> cu_inode cur \<noteq> inode then
            let out = (case fs (t + 1) (ls_rotated src) of
                         Some (ino, _) \<Rightarrow>
                           if ino = cu_inode cur then
                             (case fs (t + 2) (ls_rotated src) of
                                Some (_, old) \<Rightarrow> rotated_lines mx (chunks (drop (cu_offset cur) old)) []
                              | None \<Rightarrow> [])
                           else []
                       | None \<Rightarrow> [])
            in (case read_from (fs (t + 3) (ls_path src)) 0 mx out of
                  Some (ls, off) \<Rightarrow> (ls, inode, off)
                | None \<Rightarrow> ([], inode, 0))
          else
            let start = (if length content < cu_offset cur then 0 else cu_offset cur) in
            (case read_from (fs (t + 1) (ls_path src)) start mx [] of
               Some (ls, off) \<Rightarrow> (ls, inode, off)
             | None \<Rightarrow> ([], inode, start)))"

section \<open>The shipper\<close>

record ship_config =
  sf_classes :: "string list"
  sf_transport :: string
  sf_heartbeat_secs :: nat
  sf_batch_max_records :: nat
  sf_batch_max_bytes :: nat
  sf_buffer :: buffer_config

record shipper =
  sp_cfg :: ship_config
  sp_host :: string
  sp_cursor :: ship_cursor
  sp_sources :: "log_source list"
  sp_buffer :: ship_buffer
  sp_redact :: redactor
  sp_guard :: ship_guard
  sp_scrub :: "string list"
  sp_backoff :: nat
  sp_next_attempt :: nat
  sp_last_heartbeat :: nat
  sp_withheld :: nat
  sp_frontier :: "(string \<times> nat \<times> nat) list"
  sp_dropped_seen :: nat
  sp_pending :: "(string \<times> nat) list"
  sp_class_filter :: "string list"
  sp_persist :: bool

definition new_shipper ::
    "ship_config \<Rightarrow> string \<Rightarrow> ship_cursor option \<Rightarrow> log_source list \<Rightarrow> redactor \<Rightarrow> ship_guard \<Rightarrow> string list \<Rightarrow> shipper" where
  "new_shipper cfg host disk sources red guard secrets =
     \<lparr>sp_cfg = cfg, sp_host = host, sp_cursor = load_cursor disk, sp_sources = sources, sp_buffer = new_buffer (sf_buffer cfg),
      sp_redact = red, sp_guard = guard, sp_scrub = secrets, sp_backoff = 0, sp_next_attempt = 0, sp_last_heartbeat = 0,
      sp_withheld = 0, sp_frontier = [], sp_dropped_seen = 0, sp_pending = [], sp_class_filter = [], sp_persist = True\<rparr>"

definition HEARTBEAT_SOURCE :: string where "HEARTBEAT_SOURCE = ''@heartbeat''"

definition wants :: "shipper \<Rightarrow> string \<Rightarrow> bool" where
  "wants s class \<longleftrightarrow>
     class = ''moat'' \<or> class \<in> set (if sp_class_filter s = [] then sf_classes (sp_cfg s) else sp_class_filter s)"

definition forget_one :: "string \<Rightarrow> shipper \<Rightarrow> shipper" where
  "forget_one class s = s\<lparr>sp_pending := bt_adjust class (\<lambda>n. n - 1) (sp_pending s)\<rparr>"

definition forget_all :: "envelope list \<Rightarrow> shipper \<Rightarrow> shipper" where
  "forget_all es s = foldl (\<lambda>s e. forget_one (ev_source e) s) s es"

definition push_record :: "ship_codec \<Rightarrow> envelope \<Rightarrow> shipper \<Rightarrow> shipper" where
  "push_record sc e s = (let (evicted, b) = push sc e (sp_buffer s) in forget_all evicted (s\<lparr>sp_buffer := b\<rparr>))"

text \<open>One line of a source: into the buffer unless it is none, was sent before or is not wanted.\<close>

definition pending_of :: "string \<Rightarrow> shipper \<Rightarrow> nat" where
  "pending_of class s = (case map_of (sp_pending s) class of Some n \<Rightarrow> n | None \<Rightarrow> 0)"

definition collect_line ::
    "ship_codec \<Rightarrow> string \<Rightarrow> string \<Rightarrow> source_cursor \<Rightarrow> nat \<times> shipper \<Rightarrow> string \<Rightarrow> nat \<times> shipper" where
  "collect_line sc now_ts class saved acc l =
     (let (withheld, s) = acc in
      case envelope_of sc now_ts l class (sp_host s) (sp_redact s) (sp_guard s) withheld of
        (None, w) \<Rightarrow> (w, s)
      | (Some env, w) \<Rightarrow>
          if seen (ev_event_id env) saved then (w, s)
          else if \<not> wants s (ev_class env) then (w, s)
          else (w, push_record sc env (s\<lparr>sp_pending := bt_insert class (pending_of class s + 1) (sp_pending s)\<rparr>)))"

text \<open>One source. It takes up to four looks at the files.\<close>

definition collect_source :: "ship_codec \<Rightarrow> string \<Rightarrow> files \<Rightarrow> nat \<times> shipper \<Rightarrow> log_source \<Rightarrow> nat \<times> shipper" where
  "collect_source sc now_ts fs ts src =
     (let (t, s0) = ts; class = ls_class src;
          s1 = s0\<lparr>sp_cursor := change_source class (\<lambda>c. c) (sp_cursor s0)\<rparr>;
          saved = source_at class (sp_cursor s1);
          cur = (case map_of (sp_frontier s1) class of Some (ino, off) \<Rightarrow> saved\<lparr>cu_inode := ino, cu_offset := off\<rparr> | None \<Rightarrow> saved);
          (ls, ino, off) = read_new fs t src cur (bc_read_max_records (sf_buffer (sp_cfg s1)));
          (withheld, s2) = foldl (collect_line sc now_ts class saved) (0, s1) ls
      in (t + 4, s2\<lparr>sp_frontier := bt_insert class (ino, off) (sp_frontier s2), sp_withheld := sp_withheld s2 + withheld,
                   sp_cursor := (sp_cursor s2)\<lparr>cr_withheld := cr_withheld (sp_cursor s2) + withheld\<rparr>\<rparr>))"

definition collect :: "ship_codec \<Rightarrow> string \<Rightarrow> files \<Rightarrow> nat \<Rightarrow> shipper \<Rightarrow> shipper" where
  "collect sc now_ts fs t s =
     snd (foldl (collect_source sc now_ts fs) (t, s) (filter (\<lambda>src. ls_class src \<in> set (sf_classes (sp_cfg s))) (sp_sources s)))"

text \<open>The durable cursor of every source that has nothing outstanding is moved to where it was read.\<close>

definition settle_one :: "shipper \<Rightarrow> string \<times> nat \<times> nat \<Rightarrow> shipper" where
  "settle_one s f =
     (let (class, ino, off) = f in
      if pending_of class s \<noteq> 0 then s
      else s\<lparr>sp_cursor := change_source class (\<lambda>c. c\<lparr>cu_inode := ino, cu_offset := off\<rparr>) (sp_cursor s)\<rparr>)"

definition settle :: "shipper \<Rightarrow> shipper" where
  "settle s = foldl settle_one s (sp_frontier s)"

definition save_cursor :: "bool \<Rightarrow> shipper \<Rightarrow> ship_cursor option \<Rightarrow> ship_cursor option" where
  "save_cursor writable s disk = (if \<not> sp_persist s then disk else if writable then Some (sp_cursor s) else disk)"

text \<open>What both ends of a pass do: settle, fold the evictions into the count of losses, save.\<close>

definition finish_pass :: "shipper \<Rightarrow> shipper" where
  "finish_pass s0 =
     (let s = settle s0 in
      s\<lparr>sp_cursor := (sp_cursor s)\<lparr>cr_dropped := cr_dropped (sp_cursor s) + (bf_dropped (sp_buffer s) - sp_dropped_seen s)\<rparr>,
        sp_dropped_seen := bf_dropped (sp_buffer s)\<rparr>)"

record ship_stats =
  st_shipped :: nat
  st_dropped :: nat
  st_withheld :: nat
  st_backlog :: nat
  st_backlog_bytes :: nat
  st_last_ok :: string
  st_last_error :: string

definition stats :: "shipper \<Rightarrow> ship_stats" where
  "stats s = \<lparr>st_shipped = cr_shipped (sp_cursor s),
     st_dropped = cr_dropped (sp_cursor s) + (bf_dropped (sp_buffer s) - sp_dropped_seen s),
     st_withheld = cr_withheld (sp_cursor s), st_backlog = length (bf_q (sp_buffer s)),
     st_backlog_bytes = bf_bytes (sp_buffer s), st_last_ok = cr_last_ok (sp_cursor s), st_last_error = cr_last_error (sp_cursor s)\<rparr>"

definition heartbeat_due :: "nat \<Rightarrow> shipper \<Rightarrow> bool" where
  "heartbeat_due now s \<longleftrightarrow>
     sf_heartbeat_secs (sp_cfg s) > 0
     \<and> (sp_last_heartbeat s = 0 \<or> now - sp_last_heartbeat s \<ge> sf_heartbeat_secs (sp_cfg s))"

definition heartbeat :: "ship_codec \<Rightarrow> string \<Rightarrow> nat \<Rightarrow> shipper \<Rightarrow> envelope" where
  "heartbeat sc version now s =
     (let st = stats s; i = ''hb.'' @ sp_host s @ ''.'' @ show_nat now;
          body = JObj [(''kind'', JStr ''heartbeat''), (''ts'', JStr (sh_stamp sc now)), (''version'', JStr version),
                       (''classes'', JArr (map JStr (sf_classes (sp_cfg s)))), (''transport'', JStr (sf_transport (sp_cfg s))),
                       (''shipped'', JInt (int (st_shipped st))), (''dropped'', JInt (int (st_dropped st))),
                       (''withheld'', JInt (int (st_withheld st))), (''backlog'', JInt (int (st_backlog st))),
                       (''backlog_bytes'', JInt (int (st_backlog_bytes st))), (''last_ok'', JStr (st_last_ok st)),
                       (''last_error'', JStr (st_last_error st))]
      in \<lparr>ev_event_id = i, ev_class = ''moat'', ev_source = HEARTBEAT_SOURCE, ev_kind = ''heartbeat'', ev_severity = ''info'',
          ev_value = JObj [(''v'', JInt SHIP_V), (''event_id'', JStr i), (''host'', JStr (sp_host s)), (''class'', JStr ''moat''),
                           (''kind'', JStr ''heartbeat''), (''severity'', JStr ''info''), (''@timestamp'', JStr (sh_stamp sc now)),
                           (''moat'', body)]\<rparr>)"

text \<open>\<open>u64\<close>: doubling wraps.\<close>

definition next_backoff :: "nat \<Rightarrow> nat \<Rightarrow> nat \<Rightarrow> nat \<Rightarrow> nat" where
  "next_backoff prev mn mx seed =
     (let mn = max mn 1; mx = max mx mn;
          base = (if prev = 0 then mn else min ((prev * 2) mod 2 ^ 64) mx);
          jitter = seed mod (base div 4 + 1)
      in min ((base + jitter) mod 2 ^ 64) mx)"

section \<open>A pass\<close>

text \<open>The batch has arrived: its records are remembered as sent and leave the buffer.\<close>

definition delivered :: "ship_codec \<Rightarrow> nat \<Rightarrow> envelope list \<Rightarrow> shipper \<Rightarrow> shipper" where
  "delivered sc now batch s0 =
     (let s1 = foldl (\<lambda>s e. forget_one (ev_source e) (s\<lparr>sp_cursor := change_source (ev_source e) (note_sent (ev_event_id e)) (sp_cursor s)\<rparr>)) s0 batch
      in s1\<lparr>sp_buffer := commit sc (length batch) (sp_buffer s1),
           sp_cursor := (sp_cursor s1)\<lparr>cr_shipped := cr_shipped (sp_cursor s1) + length batch, cr_last_ok := sh_stamp sc now, cr_last_error := []\<rparr>,
           sp_backoff := 0, sp_next_attempt := 0\<rparr>)"

text \<open>The batch was refused: later, or never, and then it is dropped and counted. Shortening the message can panic.\<close>

definition refused :: "ship_codec \<Rightarrow> nat \<Rightarrow> envelope list \<Rightarrow> send_error \<Rightarrow> shipper \<Rightarrow> shipper option" where
  "refused sc now batch e s0 =
     (case scrub_short (sp_scrub s0) (se_message e) 300 of
        None \<Rightarrow> None
      | Some msg \<Rightarrow>
          let s = s0\<lparr>sp_cursor := (sp_cursor s0)\<lparr>cr_last_error := msg\<rparr>\<rparr> in
          if se_retryable e then
            let b = next_backoff (sp_backoff s) (bc_retry_min_secs (sf_buffer (sp_cfg s))) (bc_retry_max_secs (sf_buffer (sp_cfg s))) now
            in Some (s\<lparr>sp_backoff := b, sp_next_attempt := now + b\<rparr>)
          else
            let s1 = forget_all batch s in
            Some (s1\<lparr>sp_buffer := commit sc (length batch) (sp_buffer s1),
                     sp_cursor := (sp_cursor s1)\<lparr>cr_dropped := cr_dropped (sp_cursor s1) + length batch\<rparr>\<rparr>))"

type_synonym 'x transport = "envelope list \<Rightarrow> 'x \<Rightarrow> (send_error + unit) \<times> 'x"

lemma peek_loop_prefix: "\<exists>r. peek_loop sc mr mb out n q = out @ r \<and> prefix r q \<and> (out = [] \<longrightarrow> q \<noteq> [] \<longrightarrow> r \<noteq> [])"
proof (induction q arbitrary: out n)
  case (Cons e q)
  show ?case
  proof (cases "out \<noteq> [] \<and> (length out \<ge> max mr 1 \<or> n + line_size sc e > max mb 1)")
    case False
    with Cons.IH [of "out @ [e]" "n + line_size sc e"] show ?thesis by auto
  qed auto
qed simp

lemma peek_prefix: "prefix (buffer_peek sc mr mb b) (bf_q b)" and peek_nonempty: "buffer_peek sc mr mb b = [] \<longleftrightarrow> bf_q b = []"
  using peek_loop_prefix [of sc mr mb "[]" 0 "bf_q b"] by (auto simp: buffer_peek_def)

lemma commit_q [simp]: "bf_q (commit sc n b) = drop n (bf_q b)"
proof -
  have "fst (commit_loop sc n q m) = drop n q" for q m
    by (induction sc n q m rule: commit_loop.induct) auto
  then show ?thesis by (simp add: commit_def case_prod_beta)
qed

text \<open>What changes nothing but one field.\<close>

lemma forget_one_fields [simp]:
  "sp_buffer (forget_one c s) = sp_buffer s" "sp_cursor (forget_one c s) = sp_cursor s" "sp_cfg (forget_one c s) = sp_cfg s"
  "sp_frontier (forget_one c s) = sp_frontier s" "sp_dropped_seen (forget_one c s) = sp_dropped_seen s"
  "sp_sources (forget_one c s) = sp_sources s" "sp_host (forget_one c s) = sp_host s"
  "sp_class_filter (forget_one c s) = sp_class_filter s" "sp_persist (forget_one c s) = sp_persist s"
  "sp_redact (forget_one c s) = sp_redact s" "sp_guard (forget_one c s) = sp_guard s"
  "sp_next_attempt (forget_one c s) = sp_next_attempt s"
  by (simp_all add: forget_one_def)

lemma forget_all_fields [simp]:
  "sp_buffer (forget_all es s) = sp_buffer s" "sp_cursor (forget_all es s) = sp_cursor s" "sp_cfg (forget_all es s) = sp_cfg s"
  "sp_frontier (forget_all es s) = sp_frontier s" "sp_dropped_seen (forget_all es s) = sp_dropped_seen s"
  "sp_sources (forget_all es s) = sp_sources s" "sp_host (forget_all es s) = sp_host s"
  "sp_class_filter (forget_all es s) = sp_class_filter s" "sp_persist (forget_all es s) = sp_persist s"
  "sp_redact (forget_all es s) = sp_redact s" "sp_guard (forget_all es s) = sp_guard s"
  "sp_next_attempt (forget_all es s) = sp_next_attempt s"
  unfolding forget_all_def by (induction es arbitrary: s) simp_all

text \<open>The loop over a delivered batch, as the two folds it is.\<close>

definition note_batch :: "envelope list \<Rightarrow> ship_cursor \<Rightarrow> ship_cursor" where
  "note_batch batch c = foldl (\<lambda>c e. change_source (ev_source e) (note_sent (ev_event_id e)) c) c batch"

lemma forget_all_cursor: "forget_all es (s\<lparr>sp_cursor := c\<rparr>) = (forget_all es s)\<lparr>sp_cursor := c\<rparr>"
proof (induction es arbitrary: s)
  case (Cons e es)
  have "forget_one (ev_source e) (s\<lparr>sp_cursor := c\<rparr>) = (forget_one (ev_source e) s)\<lparr>sp_cursor := c\<rparr>"
    by (simp add: forget_one_def)
  with Cons show ?case by (simp add: forget_all_def)
qed (simp add: forget_all_def)

lemma delivered_alt:
  "delivered sc now batch s =
     (forget_all batch s)\<lparr>sp_buffer := commit sc (length batch) (sp_buffer s),
        sp_cursor := (note_batch batch (sp_cursor s))\<lparr>cr_shipped := cr_shipped (note_batch batch (sp_cursor s)) + length batch,
          cr_last_ok := sh_stamp sc now, cr_last_error := []\<rparr>,
        sp_backoff := 0, sp_next_attempt := 0\<rparr>"
proof -
  have "foldl (\<lambda>s e. forget_one (ev_source e) (s\<lparr>sp_cursor := change_source (ev_source e) (note_sent (ev_event_id e)) (sp_cursor s)\<rparr>)) s batch
      = (forget_all batch s)\<lparr>sp_cursor := note_batch batch (sp_cursor s)\<rparr>" for s
  proof (induction batch arbitrary: s)
    case (Cons e batch)
    have "forget_all (e # batch) s = forget_all batch (forget_one (ev_source e) s)" by (simp add: forget_all_def)
    moreover have "forget_one (ev_source e) (s\<lparr>sp_cursor := c\<rparr>) = (forget_one (ev_source e) s)\<lparr>sp_cursor := c\<rparr>" for c
      by (simp add: forget_one_def)
    ultimately show ?case by (simp add: Cons forget_all_cursor note_batch_def)
  qed (simp add: forget_all_def note_batch_def)
  then show ?thesis by (simp add: delivered_def Let_def)
qed

function send_loop ::
    "ship_codec \<Rightarrow> 'x transport \<Rightarrow> nat \<Rightarrow> shipper \<Rightarrow> 'x \<Rightarrow> nat \<Rightarrow> (nat \<times> shipper \<times> 'x) option" where
  "send_loop sc tx now s x sent =
     (let batch = buffer_peek sc (sf_batch_max_records (sp_cfg s)) (sf_batch_max_bytes (sp_cfg s)) (sp_buffer s) in
      if batch = [] then Some (sent, s, x)
      else case tx batch x of
          (Inr _, x') \<Rightarrow> send_loop sc tx now (delivered sc now batch s) x' (sent + length batch)
        | (Inl e, x') \<Rightarrow> map_option (\<lambda>s'. (sent, s', x')) (refused sc now batch e s))"
  by pat_completeness auto
termination
proof (relation "measure (\<lambda>(sc, tx, now, s, x, sent). length (bf_q (sp_buffer s)))", goal_cases)
  case (2 sc tx now s x sent batch r x' u)
  then have "bf_q (sp_buffer s) \<noteq> []" "batch \<noteq> []" by (auto simp: peek_nonempty)
  then show ?case by (simp add: delivered_alt)
qed simp

declare send_loop.simps [simp del]

definition pass ::
    "ship_codec \<Rightarrow> string \<Rightarrow> 'x transport \<Rightarrow> files \<Rightarrow> nat \<Rightarrow> nat \<Rightarrow> string \<Rightarrow> bool
     \<Rightarrow> shipper \<Rightarrow> 'x \<Rightarrow> ship_cursor option \<Rightarrow> (nat \<times> shipper \<times> 'x \<times> ship_cursor option) option" where
  "pass sc version tx fs t now now_ts writable s x disk =
     (let s1 = collect sc now_ts fs t s;
          s2 = (if heartbeat_due now s1 then (push_record sc (heartbeat sc version now s1) s1)\<lparr>sp_last_heartbeat := now\<rparr> else s1)
      in if now < sp_next_attempt s2
         then (let s3 = finish_pass s2 in Some (0, s3, x, save_cursor writable s3 disk))
         else case send_loop sc tx now s2 x 0 of
             None \<Rightarrow> None
           | Some (n, s3, x') \<Rightarrow> (let s4 = finish_pass s3 in Some (n, s4, x', save_cursor writable s4 disk)))"

section \<open>Starting\<close>

text \<open>
  The logs of moatd: the alerts, and one file of telemetry for three classes, which is read once, under
  the name of the first class that is enabled.
\<close>

definition all_sources :: "string \<times> string \<Rightarrow> string \<times> string \<Rightarrow> log_source list" where
  "all_sources alerts telemetry =
     \<lparr>ls_class = ''alerts'', ls_path = fst alerts, ls_rotated = snd alerts\<rparr>
     # map (\<lambda>c. \<lparr>ls_class = c, ls_path = fst telemetry, ls_rotated = snd telemetry\<rparr>) [''process'', ''network'', ''file'']"

fun effective_loop :: "string list \<Rightarrow> bool \<Rightarrow> log_source list \<Rightarrow> log_source list" where
  "effective_loop classes added [] = []"
| "effective_loop classes added (src # srcs) =
     (if ls_class src \<notin> set classes then effective_loop classes added srcs
      else if ls_class src = ''alerts'' then src # effective_loop classes added srcs
      else if \<not> added then src # effective_loop classes True srcs
      else effective_loop classes added srcs)"

definition effective_sources :: "string \<times> string \<Rightarrow> string \<times> string \<Rightarrow> string list \<Rightarrow> log_source list" where
  "effective_sources alerts telemetry classes = effective_loop classes False (all_sources alerts telemetry)"

text \<open>The shipper as the program starts it.\<close>

definition boot ::
    "ship_config \<Rightarrow> string \<Rightarrow> string \<times> string \<Rightarrow> string \<times> string \<Rightarrow> redactor \<Rightarrow> ship_guard \<Rightarrow> string list \<Rightarrow> bool \<Rightarrow> ship_cursor option \<Rightarrow> shipper" where
  "boot cfg host alerts telemetry red guard secrets dry_run disk =
     (new_shipper cfg host disk (effective_sources alerts telemetry (sf_classes cfg)) red guard secrets)
       \<lparr>sp_class_filter := sf_classes cfg, sp_persist := \<not> dry_run\<rparr>"

section \<open>The buffer is bounded\<close>

definition bytes_of :: "ship_codec \<Rightarrow> envelope list \<Rightarrow> nat" where
  "bytes_of sc q = sum_list (map (line_size sc) q)"

lemma bytes_of_simps [simp]:
  "bytes_of sc [] = 0" "bytes_of sc (e # q) = line_size sc e + bytes_of sc q" "bytes_of sc (p @ q) = bytes_of sc p + bytes_of sc q"
  by (simp_all add: bytes_of_def)

text \<open>What goes is the oldest, and not one record more than the caps ask for.\<close>

lemma evict_front_spec:
  assumes "evict_front sc mr mb q (bytes_of sc q) = (evicted, kept, left)"
  shows "q = evicted @ kept \<and> left = bytes_of sc kept \<and> length kept \<le> mr \<and> left \<le> mb
    \<and> (evicted \<noteq> [] \<longrightarrow> length kept + 1 > mr \<or> left + line_size sc (last evicted) > mb)"
  using assms
proof (induction q arbitrary: evicted)
  case (Cons e q)
  show ?case
  proof (cases "length (e # q) > mr \<or> bytes_of sc (e # q) > mb")
    case True
    with Cons.prems obtain ev where ev: "evict_front sc mr mb q (bytes_of sc q) = (ev, kept, left)" "evicted = e # ev"
      by (auto split: prod.splits)
    with Cons.IH [OF ev(1)] True show ?thesis by (cases ev) auto
  qed (use Cons.prems in auto)
qed simp

definition buffer_ok :: "ship_codec \<Rightarrow> ship_buffer \<Rightarrow> bool" where
  "buffer_ok sc b \<longleftrightarrow> bf_bytes b = bytes_of sc (bf_q b) \<and> length (bf_q b) \<le> bf_max_records b \<and> bf_bytes b \<le> bf_max_bytes b"

lemma push_spec:
  assumes "bf_bytes b = bytes_of sc (bf_q b)" and "push sc e b = (evicted, b')"
  shows "bf_q b @ [e] = evicted @ bf_q b' \<and> buffer_ok sc b' \<and> bf_dropped b' = bf_dropped b + length evicted
    \<and> bf_dropped_bytes b' = bf_dropped_bytes b + bytes_of sc evicted
    \<and> bf_max_records b' = bf_max_records b \<and> bf_max_bytes b' = bf_max_bytes b
    \<and> (evicted \<noteq> [] \<longrightarrow> length (bf_q b') + 1 > bf_max_records b' \<or> bf_bytes b' + line_size sc (last evicted) > bf_max_bytes b')"
proof -
  obtain kept left where e: "evict_front sc (bf_max_records b) (bf_max_bytes b) (bf_q b @ [e]) (bytes_of sc (bf_q b @ [e])) = (evicted, kept, left)"
    and b': "b' = b\<lparr>bf_q := kept, bf_bytes := left, bf_dropped := bf_dropped b + length evicted,
       bf_dropped_bytes := bf_dropped_bytes b + sum_list (map (line_size sc) evicted)\<rparr>"
    using assms by (auto simp: push_def split: prod.splits)
  from evict_front_spec [OF e] show ?thesis by (auto simp: b' buffer_ok_def bytes_of_def)
qed

lemma commit_spec: "buffer_ok sc b \<Longrightarrow> buffer_ok sc (commit sc n b)"
proof -
  have "snd (commit_loop sc n q (bytes_of sc q + m)) = bytes_of sc (drop n q) + m" for q m
    by (induction sc n q "bytes_of sc q + m" arbitrary: m rule: commit_loop.induct) auto
  from this [of "bf_q b" 0] have "snd (commit_loop sc n (bf_q b) (bytes_of sc (bf_q b))) = bytes_of sc (drop n (bf_q b))" by simp
  moreover have "bytes_of sc (drop n q) \<le> bytes_of sc q" for q
    by (metis append_take_drop_id bytes_of_simps(3) le_add2)
  moreover assume "buffer_ok sc b"
  ultimately show ?thesis
    using commit_q [of sc n b] unfolding buffer_ok_def
    by (auto simp: commit_def case_prod_beta) (metis le_trans)
qed

text \<open>Records come in and go out.\<close>

datatype buffer_event = Push envelope | Commit nat

fun buffer_step :: "ship_codec \<Rightarrow> buffer_event \<Rightarrow> ship_buffer \<Rightarrow> ship_buffer" where
  "buffer_step sc (Push e) b = snd (push sc e b)"
| "buffer_step sc (Commit n) b = commit sc n b"

definition buffer_after :: "ship_codec \<Rightarrow> buffer_config \<Rightarrow> buffer_event list \<Rightarrow> ship_buffer" where
  "buffer_after sc cfg es = foldl (\<lambda>b e. buffer_step sc e b) (new_buffer cfg) es"

lemma buffer_step_keeps:
  assumes "buffer_ok sc b"
  shows "buffer_ok sc (buffer_step sc e b) \<and> bf_max_records (buffer_step sc e b) = bf_max_records b
    \<and> bf_max_bytes (buffer_step sc e b) = bf_max_bytes b"
proof (cases e)
  case (Push r)
  obtain ev b' where "push sc r b = (ev, b')" by (cases "push sc r b")
  with push_spec [of b sc r ev b'] assms Push show ?thesis by (auto simp: buffer_ok_def)
next
  case (Commit n)
  have "bf_max_records (commit sc n b) = bf_max_records b" "bf_max_bytes (commit sc n b) = bf_max_bytes b"
    by (simp_all add: commit_def case_prod_beta)
  with commit_spec [OF assms] Commit show ?thesis by simp
qed

text \<open>C28: The buffer is bounded, and what it gives up is the oldest, counted. However records come and go, it
  holds no more records and no more bytes than the configuration allows, and knows exactly how many; a
  record that does not fit drives out the records at the front, as many as the caps ask for and no more,
  and each is counted.\<close>

theorem buffer_is_bounded:
  assumes "b = buffer_after sc cfg es" and "push sc e b = (evicted, b')"
  shows "bf_bytes b = bytes_of sc (bf_q b) \<and> length (bf_q b) \<le> max (bc_max_records cfg) 1 \<and> bf_bytes b \<le> max (bc_max_bytes cfg) 4096
    \<and> bf_q b @ [e] = evicted @ bf_q b' \<and> bf_dropped b' = bf_dropped b + length evicted
    \<and> (evicted \<noteq> [] \<longrightarrow> length (bf_q b') + 1 > max (bc_max_records cfg) 1
         \<or> bf_bytes b' + line_size sc (last evicted) > max (bc_max_bytes cfg) 4096)"
proof -
  have ok: "buffer_ok sc b \<and> bf_max_records b = max (bc_max_records cfg) 1 \<and> bf_max_bytes b = max (bc_max_bytes cfg) 4096"
    unfolding assms(1) buffer_after_def
  proof (rule foldl_keeps)
    show "buffer_ok sc (new_buffer cfg) \<and> bf_max_records (new_buffer cfg) = max (bc_max_records cfg) 1
      \<and> bf_max_bytes (new_buffer cfg) = max (bc_max_bytes cfg) 4096" by (simp add: new_buffer_def buffer_ok_def)
  qed (simp add: buffer_step_keeps)
  with push_spec [OF _ assms(2)] show ?thesis by (auto simp: buffer_ok_def)
qed

theorem buffer_is_bounded_witness:
  "\<exists>b'. push (a_codec (\<lambda>_. None)) long_class (buffer_after (a_codec (\<lambda>_. None)) \<lparr>bc_max_records = 1, bc_max_bytes = 0,
       bc_retry_min_secs = 5, bc_retry_max_secs = 300, bc_read_max_records = 9\<rparr> [Push long_class]) = ([long_class], b')
     \<and> bf_dropped b' = 1"
proof -
  let ?sc = "a_codec (\<lambda>_. None)"
  let ?cfg = "\<lparr>bc_max_records = 1, bc_max_bytes = 0, bc_retry_min_secs = 5, bc_retry_max_secs = 300, bc_read_max_records = 9\<rparr>"
  let ?b = "buffer_after ?sc ?cfg [Push long_class]"
  have size: "line_size ?sc long_class = 0"
    by (simp add: line_size_def to_line_def a_codec_def long_class_def)
  have b: "?b = (new_buffer ?cfg)\<lparr>bf_q := [long_class]\<rparr>"
    by (simp add: buffer_after_def push_def new_buffer_def size)
  have p: "push ?sc long_class ?b = ([long_class], snd (push ?sc long_class ?b))" and d: "bf_dropped ?b = 0"
    unfolding b by (simp_all add: push_def new_buffer_def size)
  from buffer_is_bounded [OF refl p] have "bf_dropped (snd (push ?sc long_class ?b)) = bf_dropped ?b + length [long_class]" by blast
  with p d show ?thesis by auto
qed

end
