(* ===== verification/Ship_Cursor.thy ===== *)
theory Ship_Cursor
  imports Ship
begin

text \<open>
  What the cursor of the shipper promises: a record that it has moved past has arrived at the
  collector, or is counted as lost, or was never to be sent, whatever the logs, the collector and the
  machine do in between.
\<close>

section \<open>Lines and offsets\<close>

text \<open>A place between two lines.\<close>

definition at_line :: "string \<Rightarrow> nat \<Rightarrow> bool" where
  "at_line s n \<longleftrightarrow> n \<le> length s \<and> (n = 0 \<or> s ! (n - 1) = newline)"

definition whole_line :: "string \<Rightarrow> bool" where
  "whole_line l \<longleftrightarrow> (\<exists>b. l = b @ [newline] \<and> newline \<notin> set b)"

definition body :: "string \<Rightarrow> string" where
  "body l = takeWhile (\<lambda>c. c \<noteq> newline) l"

lemma chunks_concat [simp]: "concat (chunks s) = s"
  by (induction s rule: chunks.induct) (auto split: list.splits)

lemma chunks_not_empty: "[] \<notin> set (chunks s)"
  by (induction s rule: chunks.induct) (auto split: list.splits)

lemma chunks_whole: "newline \<notin> set b \<Longrightarrow> chunks (b @ newline # s) = (b @ [newline]) # chunks s"
  by (induction b) auto

lemma chunks_append: "a = [] \<or> last a = newline \<Longrightarrow> chunks (a @ b) = chunks a @ chunks b"
proof (induction a rule: chunks.induct)
  case (2 c cs)
  show ?case
  proof (cases "cs = []")
    case False
    then have "chunks cs \<noteq> []" by (cases cs) (auto split: list.splits)
    with 2 False show ?thesis by (auto split: list.splits)
  qed (use 2 in auto)
qed simp

lemma chunks_lines: "\<forall>l \<in> set ls. whole_line l \<Longrightarrow> chunks (concat ls) = ls"
  by (induction ls) (auto simp: whole_line_def chunks_whole)

lemma chunk_shape: "l \<in> set (chunks s) \<Longrightarrow> l \<noteq> [] \<and> newline \<notin> set (butlast l)"
proof (induction s arbitrary: l rule: chunks.induct)
  case (2 c cs)
  then show ?case by (cases "c = newline"; cases "chunks cs") (auto split: if_splits)
qed simp

lemma chunk_whole: "l \<in> set (chunks s) \<Longrightarrow> last l = newline \<Longrightarrow> whole_line l"
  using chunk_shape [of l s] unfolding whole_line_def by (metis append_butlast_last_id)

lemma at_line_take: "at_line s n \<Longrightarrow> take n s = [] \<or> last (take n s) = newline"
  by (cases n) (auto simp: at_line_def take_Suc_conv_app_nth Suc_le_eq)

lemma chunks_at_line: "at_line s n \<Longrightarrow> chunks s = chunks (take n s) @ chunks (drop n s)"
  using chunks_append [OF at_line_take] by (metis append_take_drop_id)

text \<open>A log is read as it was written: valid UTF-8, and no carriage return, which JSON escapes.\<close>

definition readable :: "string \<Rightarrow> bool" where
  "readable s \<longleftrightarrow> cr \<notin> set s \<and> (\<forall>l \<in> set (chunks s). valid_utf8 l)"

lemma chunk_set: "l \<in> set (chunks s) \<Longrightarrow> set l \<subseteq> set s"
  by (metis UN_upper chunks_concat set_concat)

lemma body_whole: "newline \<notin> set b \<Longrightarrow> body (b @ [newline]) = b"
  unfolding body_def by (subst takeWhile_append2) auto

lemma trim_newlines_body:
  assumes "whole_line l" and "cr \<notin> set l"
  shows "trim_newlines l = body l"
proof -
  from assms obtain b where b: "l = b @ [newline]" "newline \<notin> set b" "cr \<notin> set b" by (auto simp: whole_line_def)
  have "dropWhile (\<lambda>c. c = newline \<or> c = cr) (rev b) = rev b"
  proof (cases "rev b")
    case (Cons x xs)
    then have "x \<in> set b" by (metis list.set_intros(1) set_rev)
    with b(2,3) Cons show ?thesis by auto
  qed simp
  with b show ?thesis by (simp add: trim_newlines_def body_whole)
qed

lemma line_text_body:
  assumes "l \<in> set (chunks s)" and "cr \<notin> set s"
  shows "line_text l = body l"
proof (cases "last l = newline")
  case True
  from chunk_whole [OF assms(1) True] obtain b where b: "l = b @ [newline]" "newline \<notin> set b" by (auto simp: whole_line_def)
  have "cr \<notin> set b" using chunk_set [OF assms(1)] assms(2) b by auto
  then have "strip_cr b = b" by (metis last_in_set strip_cr_def)
  with b show ?thesis by (simp add: line_text_def body_whole)
next
  case False
  with chunk_shape [OF assms(1)] have "newline \<notin> set l" by (cases l rule: rev_cases) auto
  then have "body l = l" unfolding body_def by (subst takeWhile_eq_all_conv) auto
  with False show ?thesis by (simp add: line_text_def)
qed

section \<open>Reading\<close>

text \<open>A line is taken care of by what was read when it is blank or among it.\<close>

definition taken :: "string list \<Rightarrow> string \<Rightarrow> bool" where
  "taken out l \<longleftrightarrow> trim (body l) = [] \<or> body l \<in> set out"

lemma taken_mono: "taken out l \<Longrightarrow> set out \<subseteq> set out' \<Longrightarrow> taken out' l"
  by (auto simp: taken_def)

lemma trim_Nil [simp]: "trim [] = []"
  by (simp add: trim_def trim_end_def trim_start_def)

lemma read_loop_spec:
  assumes "\<forall>l \<in> set ls. valid_utf8 l \<and> cr \<notin> set l \<and> (last l = newline \<longrightarrow> whole_line l)"
  shows "\<exists>out' k. read_loop mx pos ls out = Some (out', pos + length (concat (take k ls)))
    \<and> set out \<subseteq> set out' \<and> (\<forall>l \<in> set (take k ls). whole_line l \<and> taken out' l)"
  using assms
proof (induction ls arbitrary: pos out)
  case (Cons l ls)
  show ?case
  proof (cases "length out \<ge> mx \<or> last l \<noteq> newline")
    case True
    with Cons.prems show ?thesis by (intro exI [of _ out] exI [of _ 0]) auto
  next
    case False
    let ?out = "if trim_newlines l \<noteq> [] then out @ [trim_newlines l] else out"
    from Cons.IH [of "pos + length l" ?out] Cons.prems obtain out' k where
      IH: "read_loop mx (pos + length l) ls ?out = Some (out', pos + length l + length (concat (take k ls)))"
        "set ?out \<subseteq> set out'" "\<forall>l \<in> set (take k ls). whole_line l \<and> taken out' l" by auto
    have "whole_line l" "trim_newlines l = body l" using Cons.prems False trim_newlines_body by auto
    moreover from this have "taken out' l" using IH(2) by (auto simp: taken_def split: if_splits)
    ultimately show ?thesis using Cons.prems False IH
      by (intro exI [of _ out'] exI [of _ "Suc k"]) (auto simp: Let_def add.assoc split: if_splits)
  qed
qed auto

lemma rotated_lines_spec:
  assumes "\<forall>l \<in> set ls. valid_utf8 l" and "length out + length (filter (\<lambda>l. trim (line_text l) \<noteq> []) ls) \<le> mx"
  shows "set out \<subseteq> set (rotated_lines mx ls out)
    \<and> (\<forall>l \<in> set ls. trim (line_text l) = [] \<or> line_text l \<in> set (rotated_lines mx ls out))"
  using assms
proof (induction ls arbitrary: out)
  case (Cons l ls)
  show ?case
  proof (cases "length out \<ge> mx")
    case True
    with Cons.prems(2) have "\<forall>m \<in> set (l # ls). trim (line_text m) = []"
      by (auto split: if_splits) (metis (mono_tags, lifting) add_diff_cancel_left' filter_empty_conv le_0_eq length_0_conv diff_is_0_eq le_trans)+
    with True Cons.prems(1) show ?thesis by auto
  next
    case False
    with Cons.IH [of "if trim (line_text l) \<noteq> [] then out @ [line_text l] else out"] Cons.prems
    show ?thesis by (auto split: if_splits)
  qed
qed simp

text \<open>The history of one log: the files it was, the oldest first, each with its inode.\<close>

definition good_history :: "log_file list \<Rightarrow> bool" where
  "good_history gs \<longleftrightarrow> distinct (map fst gs) \<and> 0 \<notin> fst ` set gs"

definition place_ok :: "log_file list \<Rightarrow> nat \<times> nat \<Rightarrow> bool" where
  "place_ok gs p \<longleftrightarrow>
     (case position (\<lambda>f. fst f = fst p) gs of
        Some g \<Rightarrow> at_line (snd (gs ! g)) (snd p)
      | None \<Rightarrow> p = (0, 0))"

text \<open>The lines before a place.\<close>

definition passed :: "log_file list \<Rightarrow> nat \<times> nat \<Rightarrow> string list" where
  "passed gs p =
     (case position (\<lambda>f. fst f = fst p) gs of
        Some g \<Rightarrow> concat (map (chunks \<circ> snd) (take g gs)) @ chunks (take (snd p) (snd (gs ! g)))
      | None \<Rightarrow> [])"

text \<open>
  The reader keeps up with the log when it is in its last file, or in the last but one with no more
  left to read there than one poll takes.
\<close>

definition keeps_up :: "nat \<Rightarrow> log_file list \<Rightarrow> nat \<times> nat \<Rightarrow> bool" where
  "keeps_up mx gs p \<longleftrightarrow> (\<forall>f \<in> set gs. readable (snd f))
     \<and> (case position (\<lambda>f. fst f = fst p) gs of
          Some g \<Rightarrow> Suc g = length gs
            \<or> Suc (Suc g) = length gs
              \<and> length (filter (\<lambda>l. trim (body l) \<noteq> []) (chunks (drop (snd p) (snd (gs ! g))))) \<le> mx
        | None \<Rightarrow> length gs \<le> 1)"

definition shows_log :: "files \<Rightarrow> log_source \<Rightarrow> log_file list \<Rightarrow> bool" where
  "shows_log fs src gs \<longleftrightarrow> (\<forall>t. fs t (ls_path src) = (if gs = [] then None else Some (last gs))
     \<and> fs t (ls_rotated src) = (if length gs < 2 then None else Some (gs ! (length gs - 2))))"

lemma position_inode:
  assumes "distinct (map fst gs)" and "g < length gs"
  shows "position (\<lambda>f. fst f = fst (gs ! g)) gs = Some g"
proof -
  have "position (\<lambda>f. fst f = fst (gs ! g)) gs \<noteq> None" using assms(2) by (auto simp: position_None)
  then obtain h where h: "position (\<lambda>f. fst f = fst (gs ! g)) gs = Some h" by blast
  from position_Some [OF h] assms have "h = g" by (metis length_map nth_eq_iff_index_eq nth_map)
  with h show ?thesis by simp
qed

lemma lines_end: "\<forall>l \<in> set ls. whole_line l \<Longrightarrow> concat ls = [] \<or> last (concat ls) = newline"
  by (induction ls) (auto simp: whole_line_def last_append)

lemma at_line_append: "a = [] \<or> last a = newline \<Longrightarrow> at_line (a @ b) (length a)"
  by (cases a rule: rev_cases) (auto simp: at_line_def nth_append)

lemma read_from_spec:
  assumes "readable c" and "at_line c n"
  shows "\<exists>out' m ks. read_from (Some (i, c)) n mx out = Some (out', m) \<and> at_line c m \<and> set out \<subseteq> set out'
    \<and> chunks (take m c) = chunks (take n c) @ ks \<and> (\<forall>l \<in> set ks. taken out' l)"
proof -
  let ?ls = "chunks (drop n c)"
  have split: "chunks c = chunks (take n c) @ ?ls" by (rule chunks_at_line [OF assms(2)])
  have ok: "\<forall>l \<in> set ?ls. valid_utf8 l \<and> cr \<notin> set l \<and> (last l = newline \<longrightarrow> whole_line l)"
    using assms(1) split chunk_set [of _ c] chunk_whole [of _ c] unfolding readable_def by (metis Un_iff set_append subsetD)
  from read_loop_spec [OF ok, of mx n out] obtain out' k where
    r: "read_loop mx n ?ls out = Some (out', n + length (concat (take k ?ls)))" "set out \<subseteq> set out'"
      "\<forall>l \<in> set (take k ?ls). whole_line l \<and> taken out' l" by blast
  let ?ks = "take k ?ls" and ?m = "n + length (concat (take k ?ls))"
  have d: "drop n c = concat ?ks @ concat (drop k ?ls)" by (metis append_take_drop_id chunks_concat concat_append)
  have n: "n \<le> length c" using assms(2) by (simp add: at_line_def)
  have t: "take ?m c = take n c @ concat ?ks" using d n by (metis append_eq_conv_conj take_add)
  have m: "at_line c ?m"
  proof -
    have "take n c @ concat ?ks = [] \<or> last (take n c @ concat ?ks) = newline"
      using at_line_take [OF assms(2)] lines_end [of ?ks] r(3) by (auto simp: last_append)
    from at_line_append [OF this, of "concat (drop k ?ls)"] show ?thesis
      using d n by (metis (no_types, lifting) append.assoc append_take_drop_id length_append length_take min.absorb2)
  qed
  have "chunks (take ?m c) = chunks (take n c) @ chunks (concat ?ks)"
    unfolding t by (rule chunks_append [OF at_line_take [OF assms(2)]])
  also have "chunks (concat ?ks) = ?ks" using r(3) by (intro chunks_lines) blast
  finally show ?thesis using r m unfolding read_from_def by (intro exI [of _ out'] exI [of _ ?m] exI [of _ ?ks]) auto
qed

lemma take_all_but_last: "gs \<noteq> [] \<Longrightarrow> take (length gs - 1) gs = butlast gs \<and> gs ! (length gs - 1) = last gs"
  by (simp add: butlast_conv_take last_conv_nth)

lemma position_last: "good_history gs \<Longrightarrow> gs \<noteq> [] \<Longrightarrow> position (\<lambda>f. fst f = fst (last gs)) gs = Some (length gs - 1)"
  using position_inode [of gs "length gs - 1"] by (simp add: good_history_def last_conv_nth)

text \<open>What a poll reads is all that lies between where it began and where it ended.\<close>

lemma read_last:
  assumes "good_history gs" and "gs \<noteq> []" and "readable (snd (last gs))" and "at_line (snd (last gs)) n"
  shows "\<exists>out' m. read_from (Some (last gs)) n mx out = Some (out', m) \<and> place_ok gs (fst (last gs), m) \<and> set out \<subseteq> set out'
    \<and> (\<forall>l \<in> set (passed gs (fst (last gs), m)). l \<in> set (concat (map (chunks \<circ> snd) (butlast gs))) \<or> l \<in> set (chunks (take n (snd (last gs)))) \<or> taken out' l)"
proof -
  from read_from_spec [OF assms(3,4), of "fst (last gs)" mx out] obtain out' m ks where
    r: "read_from (Some (last gs)) n mx out = Some (out', m)" "at_line (snd (last gs)) m" "set out \<subseteq> set out'"
      "chunks (take m (snd (last gs))) = chunks (take n (snd (last gs))) @ ks" "\<forall>l \<in> set ks. taken out' l" by auto
  have p: "passed gs (fst (last gs), m) = concat (map (chunks \<circ> snd) (butlast gs)) @ chunks (take n (snd (last gs))) @ ks"
    using position_last [OF assms(1,2)] take_all_but_last [OF assms(2)] r(4) by (simp add: passed_def)
  have "place_ok gs (fst (last gs), m)"
    using position_last [OF assms(1,2)] take_all_but_last [OF assms(2)] r(2) by (simp add: place_ok_def)
  with r show ?thesis by (intro exI [of _ out'] exI [of _ m]) (auto simp: p)
qed

lemma read_new_covers:
  assumes shows_log: "shows_log fs src gs" and good: "good_history gs" and place: "place_ok gs (cu_inode cur, cu_offset cur)"
    and up: "keeps_up mx gs (cu_inode cur, cu_offset cur)" and read: "read_new fs t src cur mx = (ls, q)"
  shows "place_ok gs q \<and> (\<forall>l \<in> set (passed gs q). l \<in> set (passed gs (cu_inode cur, cu_offset cur)) \<or> taken ls l)"
proof (cases "gs = []")
  case True
  with assms show ?thesis by (auto simp: shows_log_def read_new_def)
next
  case False
  let ?p = "(cu_inode cur, cu_offset cur)"
  obtain i c where last: "last gs = (i, c)" by (cases "last gs")
  have live: "fs u (ls_path src) = Some (i, c)" for u using shows_log False last by (simp add: shows_log_def)
  have fine: "readable (snd (last gs))" using up False by (auto simp: keeps_up_def)
  note pl = position_last [OF good False]
  show ?thesis
  proof (cases "position (\<lambda>f. fst f = fst ?p) gs")
    case None
    with place have zero: "cu_inode cur = 0" "cu_offset cur = 0" by (auto simp: place_ok_def)
    from None up have one: "butlast gs = []" using False by (cases gs) (auto simp: keeps_up_def)
    from read_last [OF good False fine, of 0 mx "[]"] read last zero one show ?thesis
      by (auto simp: read_new_def live at_line_def)
  next
    case (Some g)
    from position_Some [OF Some] have g: "g < length gs" "fst (gs ! g) = cu_inode cur" by auto
    from place Some have at: "at_line (snd (gs ! g)) (cu_offset cur)" by (simp add: place_ok_def)
    have nz: "cu_inode cur \<noteq> 0" using good g unfolding good_history_def by (metis image_eqI nth_mem)
    from up Some consider "Suc g = length gs" | "Suc (Suc g) = length gs"
        "length (filter (\<lambda>l. trim (body l) \<noteq> []) (chunks (drop (cu_offset cur) (snd (gs ! g))))) \<le> mx"
      by (auto simp: keeps_up_def)
    then show ?thesis
    proof cases
      case 1
      then have "g = length gs - 1" by simp
      then have gl: "gs ! g = last gs" "take g gs = butlast gs" using take_all_but_last [OF False] by simp_all
      have inode: "cu_inode cur = i" using g(2) gl(1) last by simp
      have "passed gs ?p = concat (map (chunks \<circ> snd) (butlast gs)) @ chunks (take (cu_offset cur) c)"
        using Some gl last by (simp add: passed_def)
      moreover have "\<not> length c < cu_offset cur" using at gl last by (simp add: at_line_def)
      ultimately show ?thesis
        using read_last [OF good False fine, of "cu_offset cur" mx "[]"] read last at gl inode
        by (auto simp: read_new_def live)
    next
      case 2
      obtain old where old: "gs ! g = (cu_inode cur, old)" using g(2) by (cases "gs ! g") auto
      have rot: "fs u (ls_rotated src) = Some (cu_inode cur, old)" for u
      proof -
        have "length gs - 2 = g" "\<not> length gs < 2" using 2(1) by simp_all
        with shows_log old show ?thesis by (simp add: shows_log_def)
      qed
      have "cu_inode cur \<noteq> i"
        using pl Some last 2(1) by auto
      then have r: "read_new fs t src cur mx = (case read_from (Some (last gs)) 0 mx (rotated_lines mx (chunks (drop (cu_offset cur) old)) []) of
          Some (ls, off) \<Rightarrow> (ls, i, off) | None \<Rightarrow> ([], i, 0))"
        using nz by (simp add: read_new_def live rot last)
      have ok: "readable old" using up nth_mem [OF g(1)] old by (auto simp: keeps_up_def)
      have whole: "chunks old = chunks (take (cu_offset cur) old) @ chunks (drop (cu_offset cur) old)"
        using chunks_at_line [of old "cu_offset cur"] at old by simp
      have lt: "line_text l = body l" if "l \<in> set (chunks (drop (cu_offset cur) old))" for l
        using line_text_body [of l old] that whole ok by (auto simp: readable_def)
      have rest: "\<forall>l \<in> set (chunks (drop (cu_offset cur) old)). taken (rotated_lines mx (chunks (drop (cu_offset cur) old)) []) l"
        using rotated_lines_spec [of "chunks (drop (cu_offset cur) old)" "[]" mx] 2(2) lt whole ok old
        by (auto simp: taken_def readable_def cong: filter_cong)
      have bl: "butlast gs = take g gs @ [(cu_inode cur, old)]"
        using 2(1) old g(1) by (metis Suc_lessD butlast_take diff_Suc_1 le_refl lessI take_Suc_conv_app_nth take_all)
      from read_last [OF good False fine, of 0 mx "rotated_lines mx (chunks (drop (cu_offset cur) old)) []"] read r last
      obtain m where q: "q = (i, m)" "place_ok gs q" "set (rotated_lines mx (chunks (drop (cu_offset cur) old)) []) \<subseteq> set ls"
        "\<forall>l \<in> set (passed gs q). l \<in> set (concat (map (chunks \<circ> snd) (butlast gs))) \<or> taken ls l"
        by (auto simp: at_line_def)
      moreover have "l \<in> set (passed gs ?p) \<or> taken ls l" if "l \<in> set (concat (map (chunks \<circ> snd) (butlast gs)))" for l
        using that bl whole rest taken_mono [OF _ q(3)] Some old by (auto simp: passed_def)
      ultimately show ?thesis by blast
    qed
  qed
qed

section \<open>The books\<close>

text \<open>How many records of a source are in the buffer.\<close>

definition held :: "string \<Rightarrow> envelope list \<Rightarrow> nat" where
  "held class q = length (filter (\<lambda>e. ev_source e = class) q)"

lemma held_simps [simp]:
  "held c [] = 0" "held c (e # q) = (if ev_source e = c then 1 else 0) + held c q" "held c (p @ q) = held c p + held c q"
  by (simp_all add: held_def)

lemma held_0: "held c q = 0 \<longleftrightarrow> (\<forall>e \<in> set q. ev_source e \<noteq> c)"
  by (auto simp: held_def filter_empty_conv)

abbreviation queue :: "shipper \<Rightarrow> envelope list" where
  "queue s \<equiv> bf_q (sp_buffer s)"

lemma pending_forget_one [simp]: "pending_of c (forget_one d s) = (if c = d then pending_of c s - 1 else pending_of c s)"
  by (auto simp: pending_of_def forget_one_def split: option.splits)

lemma pending_forget_all [simp]: "pending_of c (forget_all es s) = pending_of c s - held c es"
proof (induction es arbitrary: s)
  case (Cons e es)
  have "forget_all (e # es) s = forget_all es (forget_one (ev_source e) s)" by (simp add: forget_all_def)
  with Cons show ?case by simp
qed (simp add: forget_all_def)

text \<open>
  The books of a shipper: the counts of what is outstanding are right, and the losses are as many as
  the list of what was lost.
\<close>

definition books :: "shipper \<Rightarrow> envelope list \<Rightarrow> bool" where
  "books s lost \<longleftrightarrow> (\<forall>c. c \<noteq> HEARTBEAT_SOURCE \<longrightarrow> pending_of c s = held c (queue s))
     \<and> sp_dropped_seen s \<le> bf_dropped (sp_buffer s) \<and> length lost = st_dropped (stats s)"

lemma push_split:
  assumes "push sc e b = (evicted, b')"
  shows "bf_q b @ [e] = evicted @ bf_q b'" and "bf_dropped b' = bf_dropped b + length evicted"
proof -
  have "fst r @ fst (snd r) = q" if "r = evict_front sc mr mb q n" for r mr mb q n
    unfolding that by (induction sc mr mb q n rule: evict_front.induct) (auto split: prod.splits)
  with assms show "bf_q b @ [e] = evicted @ bf_q b'" "bf_dropped b' = bf_dropped b + length evicted"
    by (auto simp: push_def split: prod.splits) (metis fst_conv snd_conv)
qed

text \<open>
  A step of the shipper keeps its setup, and loses sight of no record: what was in the buffer is there
  still, or among the losses, or with the collector.
\<close>

definition same_setup :: "shipper \<Rightarrow> shipper \<Rightarrow> bool" where
  "same_setup s s' \<longleftrightarrow> sp_cfg s' = sp_cfg s \<and> sp_host s' = sp_host s \<and> sp_sources s' = sp_sources s
     \<and> sp_redact s' = sp_redact s \<and> sp_guard s' = sp_guard s \<and> sp_class_filter s' = sp_class_filter s \<and> sp_persist s' = sp_persist s"

definition flows :: "('x \<Rightarrow> envelope \<Rightarrow> bool) \<Rightarrow> shipper \<times> envelope list \<times> 'x \<Rightarrow> shipper \<times> envelope list \<times> 'x \<Rightarrow> bool" where
  "flows has a b \<longleftrightarrow> (case (a, b) of ((s, lost, x), (s', lost', x')) \<Rightarrow>
     same_setup s s' \<and> set lost \<subseteq> set lost' \<and> (\<forall>e. has x e \<longrightarrow> has x' e)
     \<and> (\<forall>e \<in> set (queue s). e \<in> set (queue s') \<or> e \<in> set lost' \<or> has x' e))"

lemma flows_refl [simp]: "flows has a a"
  by (cases a) (simp add: flows_def same_setup_def)

lemma flows_trans [trans]: "flows has a b \<Longrightarrow> flows has b c \<Longrightarrow> flows has a c"
  by (cases a; cases b; cases c) (fastforce simp: flows_def same_setup_def)

lemma same_setup_wants: "same_setup s s' \<Longrightarrow> wants s' = wants s"
  by (simp add: same_setup_def wants_def fun_eq_iff)

text \<open>Who a line is: its event id and its class.\<close>

definition ident :: "ship_codec \<Rightarrow> string \<Rightarrow> string \<Rightarrow> (string \<times> string) option" where
  "ident sc source l =
     (case sh_parse sc l of
        None \<Rightarrow> None
      | Some raw \<Rightarrow>
          if \<not> is_object raw then None
          else let class = class_of_record source raw; (kind, i, severity) = classify_record raw class
            in Some (event_id_of sc l kind i, class))"

lemma envelope_ident:
  "(case fst (envelope_of sc now_ts l source host red guard w) of
      None \<Rightarrow> ident sc source l = None
    | Some e \<Rightarrow> ident sc source l = Some (ev_event_id e, ev_class e) \<and> ev_source e = source)"
  by (auto simp: envelope_of_def ident_def Let_def split: option.splits prod.splits)

lemma envelope_cases:
  obtains w' where "envelope_of sc now_ts l source host red guard w = (None, w')" "ident sc source l = None"
  | e w' where "envelope_of sc now_ts l source host red guard w = (Some e, w')"
      "ident sc source l = Some (ev_event_id e, ev_class e)" "ev_source e = source"
  using envelope_ident [of sc source l now_ts host red guard w]
  by (cases "envelope_of sc now_ts l source host red guard w") (auto split: option.splits)

text \<open>A line that has reached the collector or the count of losses, and one that may still be in the buffer.\<close>

definition settled :: "ship_codec \<Rightarrow> ('x \<Rightarrow> envelope \<Rightarrow> bool) \<Rightarrow> (string \<Rightarrow> bool) \<Rightarrow> envelope list \<Rightarrow> 'x \<Rightarrow> string \<Rightarrow> string \<Rightarrow> bool" where
  "settled sc has wanted lost x source l \<longleftrightarrow> trim l = []
     \<or> (\<forall>i c. ident sc source l = Some (i, c) \<longrightarrow> wanted c \<longrightarrow> (\<exists>e. (e \<in> set lost \<or> has x e) \<and> ev_event_id e = i))"

definition in_hand :: "ship_codec \<Rightarrow> ('x \<Rightarrow> envelope \<Rightarrow> bool) \<Rightarrow> shipper \<times> envelope list \<times> 'x \<Rightarrow> string \<Rightarrow> string \<Rightarrow> bool" where
  "in_hand sc has a source l \<longleftrightarrow> (case a of (s, lost, x) \<Rightarrow>
     settled sc has (wants s) lost x source l
     \<or> (\<exists>e \<in> set (queue s). ev_source e = source \<and> (\<exists>c. ident sc source l = Some (ev_event_id e, c))))"

lemma settled_mono:
  "settled sc has W lost x source l \<Longrightarrow> set lost \<subseteq> set lost' \<Longrightarrow> (\<forall>e. has x e \<longrightarrow> has x' e) \<Longrightarrow> settled sc has W lost' x' source l"
  unfolding settled_def by blast

lemma in_hand_flows:
  assumes "flows has a b" and "in_hand sc has a source l"
  shows "in_hand sc has b source l"
proof -
  obtain s lost x s' lost' x' where ab: "a = (s, lost, x)" "b = (s', lost', x')" by (cases a; cases b)
  from assms(1) have f: "same_setup s s'" "set lost \<subseteq> set lost'" "\<forall>e. has x e \<longrightarrow> has x' e"
    "\<forall>e \<in> set (queue s). e \<in> set (queue s') \<or> e \<in> set lost' \<or> has x' e" by (auto simp: flows_def ab)
  from assms(2) consider "settled sc has (wants s) lost x source l"
    | e c where "e \<in> set (queue s)" "ev_source e = source" "ident sc source l = Some (ev_event_id e, c)"
    by (auto simp: in_hand_def ab)
  then show ?thesis
  proof cases
    case 1
    with settled_mono [OF 1 f(2,3)] show ?thesis by (simp add: in_hand_def ab same_setup_wants [OF f(1)])
  next
    case (2 e c)
    with f(4) show ?thesis unfolding in_hand_def ab settled_def by fastforce
  qed
qed

lemma in_hand_blank: "trim l = [] \<Longrightarrow> in_hand sc has a source l"
  by (cases a) (simp add: in_hand_def settled_def)

text \<open>With nothing of a source outstanding, what is in hand is settled.\<close>

lemma in_hand_settled:
  assumes "in_hand sc has (s, lost, x) source l" and "books s lost" and "pending_of source s = 0" and "source \<noteq> HEARTBEAT_SOURCE"
  shows "settled sc has (wants s) lost x source l"
proof -
  have "held source (queue s) = 0" using assms(2-4) by (simp add: books_def)
  with assms(1) show ?thesis by (auto simp: in_hand_def held_0)
qed

section \<open>What a pass keeps\<close>

lemma pending_of_cong: "sp_pending s' = sp_pending s \<Longrightarrow> pending_of c s' = pending_of c s"
  by (simp add: pending_of_def)

text \<open>A record that comes in. Its source has been counted before, the heartbeat is not counted.\<close>

lemma push_record_flows:
  assumes "\<forall>c. c \<noteq> HEARTBEAT_SOURCE \<longrightarrow> pending_of c s = held c (queue s @ [e])"
    and "sp_dropped_seen s \<le> bf_dropped (sp_buffer s)" and "length lost = st_dropped (stats s)"
  shows "\<exists>lost'. flows has (s, lost, x) (push_record sc e s, lost', x) \<and> books (push_record sc e s) lost'
    \<and> sp_cursor (push_record sc e s) = sp_cursor s \<and> sp_frontier (push_record sc e s) = sp_frontier s
    \<and> (e \<in> set (queue (push_record sc e s)) \<or> e \<in> set lost')"
proof -
  obtain ev b where p: "push sc e (sp_buffer s) = (ev, b)" by (cases "push sc e (sp_buffer s)")
  note q = push_split [OF p]
  have r: "push_record sc e s = forget_all ev (s\<lparr>sp_buffer := b\<rparr>)" by (simp add: push_record_def p)
  have pend: "pending_of c (push_record sc e s) = pending_of c s - held c ev" for c
    by (simp add: r pending_of_cong [of "s\<lparr>sp_buffer := b\<rparr>" s])
  have "held c (queue s @ [e]) = held c ev + held c (bf_q b)" for c by (simp only: q(1) held_simps)
  then have "books (push_record sc e s) (lost @ ev)"
    using assms q(2) unfolding books_def pend by (auto simp: r stats_def)
  moreover have "set (queue s) \<union> {e} = set ev \<union> set (bf_q b)" using arg_cong [OF q(1), of set] by auto
  then have "flows has (s, lost, x) (push_record sc e s, lost @ ev, x)" "e \<in> set (queue (push_record sc e s)) \<or> e \<in> set (lost @ ev)"
    by (auto simp: flows_def r same_setup_def)
  ultimately show ?thesis by (intro exI [of _ "lost @ ev"]) (simp add: r)
qed

text \<open>The event ids a source remembers are those of records that arrived.\<close>

definition recalls :: "('x \<Rightarrow> envelope \<Rightarrow> bool) \<Rightarrow> 'x \<Rightarrow> ship_cursor \<Rightarrow> bool" where
  "recalls has x c \<longleftrightarrow> (\<forall>k i. seen i (source_at k c) \<longrightarrow> (\<exists>e. has x e \<and> ev_event_id e = i))"

lemma collect_line_flows:
  assumes books: "books s lost" and recalls: "recalls has x c" and saved: "saved = source_at class c"
    and real: "class \<noteq> HEARTBEAT_SOURCE"
    and step: "collect_line sc now_ts class saved (w, s) l = (w', s')"
  shows "\<exists>lost'. flows has (s, lost, x) (s', lost', x) \<and> books s' lost' \<and> in_hand sc has (s', lost', x) class l
    \<and> sp_cursor s' = sp_cursor s \<and> sp_frontier s' = sp_frontier s"
proof (cases rule: envelope_cases [of sc now_ts l "class" "sp_host s" "sp_redact s" "sp_guard s" w])
  case (1 u)
  with step have "s' = s" by (simp add: collect_line_def)
  moreover have "in_hand sc has (s, lost, x) class l" using 1 by (simp add: in_hand_def settled_def)
  ultimately show ?thesis using books by (intro exI [of _ lost]) simp
next
  case (2 e u)
  note e = 2
  consider "seen (ev_event_id e) saved" | "\<not> wants s (ev_class e)" | "\<not> seen (ev_event_id e) saved" "wants s (ev_class e)" by blast
  then show ?thesis
  proof cases
    case 1
    with recalls saved obtain e' where "has x e'" "ev_event_id e' = ev_event_id e" unfolding recalls_def by blast
    then have "settled sc has (wants s) lost x class l" using e(2) unfolding settled_def by auto
    then have "in_hand sc has (s, lost, x) class l" by (simp add: in_hand_def)
    moreover have "s' = s" using 1 e step by (simp add: collect_line_def)
    ultimately show ?thesis using books by (intro exI [of _ lost]) simp
  next
    case 2
    then have "in_hand sc has (s, lost, x) class l" "s' = s"
      using e step by (auto simp: in_hand_def settled_def collect_line_def split: if_splits)
    then show ?thesis using books by (intro exI [of _ lost]) simp
  next
    case 3
    let ?s = "s\<lparr>sp_pending := bt_insert class (pending_of class s + 1) (sp_pending s)\<rparr>"
    have s': "s' = push_record sc e ?s" using 3 e step by (simp add: collect_line_def)
    have p: "\<forall>c. c \<noteq> HEARTBEAT_SOURCE \<longrightarrow> pending_of c ?s = held c (queue ?s @ [e])"
      using books e(3) by (auto simp: books_def pending_of_def)
    have l: "length lost = st_dropped (stats ?s)" "sp_dropped_seen ?s \<le> bf_dropped (sp_buffer ?s)"
      using books by (simp_all add: books_def stats_def)
    from push_record_flows [OF p l(2,1), of has x sc] obtain lost' where
      r: "flows has (?s, lost, x) (s', lost', x)" "books s' lost'" "sp_cursor s' = sp_cursor s" "sp_frontier s' = sp_frontier s"
        "e \<in> set (queue s') \<or> e \<in> set lost'" unfolding s' by auto
    have "flows has (s, lost, x) (?s, lost, x)" by (simp add: flows_def same_setup_def)
    then have "flows has (s, lost, x) (s', lost', x)" using r(1) by (rule flows_trans)
    moreover have "in_hand sc has (s', lost', x) class l"
      using r(5) e(2,3) unfolding in_hand_def settled_def by auto
    ultimately show ?thesis using r by blast
  qed
qed

lemma collect_lines_flow:
  assumes "books s lost" and "recalls has x c" and "saved = source_at class c" and "class \<noteq> HEARTBEAT_SOURCE"
    and "foldl (collect_line sc now_ts class saved) (w, s) ls = (w', s')"
  shows "\<exists>lost'. flows has (s, lost, x) (s', lost', x) \<and> books s' lost' \<and> (\<forall>l \<in> set ls. in_hand sc has (s', lost', x) class l)
    \<and> sp_cursor s' = sp_cursor s \<and> sp_frontier s' = sp_frontier s"
  using assms(1,5)
proof (induction ls arbitrary: w s lost)
  case Nil
  then show ?case by (intro exI [of _ lost]) simp
next
  case (Cons l ls)
  obtain w1 s1 where s1: "collect_line sc now_ts class saved (w, s) l = (w1, s1)" by (cases "collect_line sc now_ts class saved (w, s) l")
  from collect_line_flows [OF Cons.prems(1) assms(2-4) s1] obtain l1 where
    a: "flows has (s, lost, x) (s1, l1, x)" "books s1 l1" "in_hand sc has (s1, l1, x) class l"
      "sp_cursor s1 = sp_cursor s" "sp_frontier s1 = sp_frontier s" by blast
  from Cons.prems(2) s1 have "foldl (collect_line sc now_ts class saved) (w1, s1) ls = (w', s')" by simp
  from Cons.IH [OF a(2) this] obtain l2 where
    b: "flows has (s1, l1, x) (s', l2, x)" "books s' l2" "\<forall>l \<in> set ls. in_hand sc has (s', l2, x) class l"
      "sp_cursor s' = sp_cursor s1" "sp_frontier s' = sp_frontier s1" by blast
  from flows_trans [OF a(1) b(1)] in_hand_flows [OF b(1) a(3)] a b show ?case by auto
qed

section \<open>Where each source is\<close>

definition durable :: "string \<Rightarrow> ship_cursor \<Rightarrow> nat \<times> nat" where
  "durable k c = (cu_inode (source_at k c), cu_offset (source_at k c))"

definition where_at :: "string \<Rightarrow> shipper \<Rightarrow> nat \<times> nat" where
  "where_at k s = (case map_of (sp_frontier s) k of Some p \<Rightarrow> p | None \<Rightarrow> durable k (sp_cursor s))"

text \<open>A cursor that moved past nothing that is not settled, and a shipper that has everything it read in hand.\<close>

definition cursor_ok ::
    "ship_codec \<Rightarrow> ('x \<Rightarrow> envelope \<Rightarrow> bool) \<Rightarrow> (string \<Rightarrow> bool) \<Rightarrow> string list \<Rightarrow> (string \<Rightarrow> log_file list) \<Rightarrow> envelope list \<Rightarrow> 'x \<Rightarrow> ship_cursor \<Rightarrow> bool" where
  "cursor_ok sc has W ks gens lost x c \<longleftrightarrow> recalls has x c
     \<and> (\<forall>k \<in> set ks. place_ok (gens k) (durable k c) \<and> (\<forall>l \<in> set (passed (gens k) (durable k c)). settled sc has W lost x k (body l)))"

definition reading_ok ::
    "ship_codec \<Rightarrow> ('x \<Rightarrow> envelope \<Rightarrow> bool) \<Rightarrow> string list \<Rightarrow> (string \<Rightarrow> log_file list) \<Rightarrow> shipper \<times> envelope list \<times> 'x \<Rightarrow> bool" where
  "reading_ok sc has ks gens a \<longleftrightarrow>
     (\<forall>k \<in> set ks. place_ok (gens k) (where_at k (fst a)) \<and> (\<forall>l \<in> set (passed (gens k) (where_at k (fst a))). in_hand sc has a k (body l)))"

definition memory_ok ::
    "ship_codec \<Rightarrow> ('x \<Rightarrow> envelope \<Rightarrow> bool) \<Rightarrow> string list \<Rightarrow> (string \<Rightarrow> log_file list) \<Rightarrow> shipper \<times> envelope list \<times> 'x \<Rightarrow> bool" where
  "memory_ok sc has ks gens a \<longleftrightarrow> (case a of (s, lost, x) \<Rightarrow>
     books s lost \<and> bt_sorted (sp_frontier s) \<and> cursor_ok sc has (wants s) ks gens lost x (sp_cursor s) \<and> reading_ok sc has ks gens a)"

lemma cursor_ok_mono:
  assumes "cursor_ok sc has W ks gens lost x c" and "set lost \<subseteq> set lost'" and "\<forall>e. has x e \<longrightarrow> has x' e"
    and "\<forall>k. durable k c' = durable k c" and "recalls has x' c'"
  shows "cursor_ok sc has W ks gens lost' x' c'"
  using assms settled_mono [OF _ assms(2,3)] unfolding cursor_ok_def by metis

lemma recalls_mono: "recalls has x c \<Longrightarrow> \<forall>e. has x e \<longrightarrow> has x' e \<Longrightarrow> \<forall>k. source_at k c' = source_at k c \<Longrightarrow> recalls has x' c'"
  unfolding recalls_def by metis

lemma cursor_ok_later:
  assumes "cursor_ok sc has W ks gens lost x c" and "\<forall>e. has x e \<longrightarrow> has x' e"
  shows "cursor_ok sc has W ks gens lost x' c"
proof -
  have "recalls has x c" using assms(1) by (simp add: cursor_ok_def)
  then have "recalls has x' c" using assms(2) unfolding recalls_def by blast
  with cursor_ok_mono [OF assms(1) subset_refl assms(2)] show ?thesis by simp
qed

text \<open>A step that keeps the places keeps the rest.\<close>

lemma memory_flows:
  assumes ok: "memory_ok sc has ks gens (s, lost, x)" and f: "flows has (s, lost, x) (s', lost', x')" and "books s' lost'"
    and "sp_frontier s' = sp_frontier s" and d: "\<forall>k. durable k (sp_cursor s') = durable k (sp_cursor s)"
    and "recalls has x' (sp_cursor s')"
  shows "memory_ok sc has ks gens (s', lost', x')"
proof -
  from f have w: "wants s' = wants s" "set lost \<subseteq> set lost'" "\<forall>e. has x e \<longrightarrow> has x' e"
    by (auto simp: flows_def same_setup_wants)
  have "where_at k s' = where_at k s" for k using assms(4) d by (simp add: where_at_def split: option.split)
  then have "reading_ok sc has ks gens (s', lost', x')"
    using ok in_hand_flows [OF f] by (simp add: memory_ok_def reading_ok_def)
  moreover have "cursor_ok sc has (wants s') ks gens lost' x' (sp_cursor s')"
    using cursor_ok_mono [OF _ w(2,3) d assms(6)] ok by (simp add: memory_ok_def w(1))
  ultimately show ?thesis using assms by (simp add: memory_ok_def)
qed

lemma source_at_change: "source_at k (change_source j f c) = (if k = j then f (source_at j c) else source_at k c)"
  by (simp add: source_at_def change_source_def)

lemma source_at_same [simp]:
  "source_at k (c\<lparr>cr_withheld := n\<rparr>) = source_at k c" "source_at k (c\<lparr>cr_dropped := n\<rparr>) = source_at k c"
  "source_at k (c\<lparr>cr_shipped := n\<rparr>) = source_at k c" "source_at k (c\<lparr>cr_last_ok := t\<rparr>) = source_at k c"
  "source_at k (c\<lparr>cr_last_error := t\<rparr>) = source_at k c"
  by (simp_all add: source_at_def)

lemma durable_same [simp]:
  "durable k (c\<lparr>cr_withheld := n\<rparr>) = durable k c" "durable k (c\<lparr>cr_dropped := n\<rparr>) = durable k c"
  "durable k (c\<lparr>cr_shipped := n\<rparr>) = durable k c" "durable k (c\<lparr>cr_last_ok := t\<rparr>) = durable k c"
  "durable k (c\<lparr>cr_last_error := t\<rparr>) = durable k c"
  by (simp_all add: durable_def)

text \<open>One source is read.\<close>

lemma collect_source_ok:
  assumes ok: "memory_ok sc has ks gens (s, lost, x)" and k: "ls_class src \<in> set ks" "HEARTBEAT_SOURCE \<notin> set ks"
    and log: "shows_log fs src (gens (ls_class src))" "good_history (gens (ls_class src))"
    and up: "keeps_up (bc_read_max_records (sf_buffer (sp_cfg s))) (gens (ls_class src)) (where_at (ls_class src) s)"
    and step: "collect_source sc now_ts fs (t, s) src = (t', s')"
  shows "\<exists>lost'. flows has (s, lost, x) (s', lost', x) \<and> memory_ok sc has ks gens (s', lost', x)
    \<and> (\<forall>j. j \<noteq> ls_class src \<longrightarrow> where_at j s' = where_at j s)"
proof -
  let ?k = "ls_class src" and ?mx = "bc_read_max_records (sf_buffer (sp_cfg s))"
  define s1 where "s1 = s\<lparr>sp_cursor := change_source ?k (\<lambda>c. c) (sp_cursor s)\<rparr>"
  define saved where "saved = source_at ?k (sp_cursor s1)"
  define cur where "cur = (case map_of (sp_frontier s1) ?k of Some (ino, off) \<Rightarrow> saved\<lparr>cu_inode := ino, cu_offset := off\<rparr> | None \<Rightarrow> saved)"
  obtain ls q where rd: "read_new fs t src cur ?mx = (ls, q)" by (cases "read_new fs t src cur ?mx")
  obtain w s2 where fold: "foldl (collect_line sc now_ts ?k saved) (0, s1) ls = (w, s2)"
    by (cases "foldl (collect_line sc now_ts ?k saved) (0, s1) ls")
  have s': "s' = s2\<lparr>sp_frontier := bt_insert ?k q (sp_frontier s2), sp_withheld := sp_withheld s2 + w,
      sp_cursor := (sp_cursor s2)\<lparr>cr_withheld := cr_withheld (sp_cursor s2) + w\<rparr>\<rparr>"
    using step rd fold unfolding collect_source_def Let_def prod.case s1_def [symmetric] saved_def [symmetric] cur_def [symmetric]
    by (cases q) (simp add: s1_def)
  have src1: "source_at j (sp_cursor s1) = source_at j (sp_cursor s)" for j by (simp add: s1_def source_at_change)
  then have dur1: "durable j (sp_cursor s1) = durable j (sp_cursor s)" for j by (simp add: durable_def)
  have f1: "flows has (s, lost, x) (s1, lost, x)" by (simp add: flows_def same_setup_def s1_def)
  have b1: "books s1 lost" using ok by (simp add: memory_ok_def books_def s1_def stats_def pending_of_def change_source_def)
  have r: "recalls has x (sp_cursor s)" using ok by (simp add: memory_ok_def cursor_ok_def)
  have r1: "recalls has x (sp_cursor s1)" using r src1 by (simp add: recalls_def)
  have "?k \<noteq> HEARTBEAT_SOURCE" using k by auto
  from collect_lines_flow [OF b1 r1 saved_def this fold] obtain lost' where
    f2: "flows has (s1, lost, x) (s2, lost', x)" "books s2 lost'" "\<forall>l \<in> set ls. in_hand sc has (s2, lost', x) ?k l"
      "sp_cursor s2 = sp_cursor s1" "sp_frontier s2 = sp_frontier s1" by blast
  have f3: "flows has (s2, lost', x) (s', lost', x)" by (simp add: flows_def same_setup_def s')
  note f = flows_trans [OF flows_trans [OF f1 f2(1)] f3]
  have b3: "books s' lost'" using f2(2) by (simp add: books_def s' stats_def pending_of_def)
  have dur: "durable j (sp_cursor s') = durable j (sp_cursor s)" for j by (simp add: s' f2(4) dur1)
  have cur_at: "(cu_inode cur, cu_offset cur) = where_at ?k s"
    by (auto simp: cur_def where_at_def s1_def saved_def durable_def source_at_change split: option.splits)
  have wk: "where_at ?k s' = q" by (simp add: where_at_def s')
  have wj: "where_at j s' = where_at j s" if "j \<noteq> ?k" for j
  proof -
    have "map_of (sp_frontier s') j = map_of (sp_frontier s) j" using that by (simp add: s' f2(5)) (simp add: s1_def)
    then show ?thesis by (simp add: where_at_def dur split: option.split)
  qed
  have place: "place_ok (gens ?k) (cu_inode cur, cu_offset cur)" and old: "\<forall>l \<in> set (passed (gens ?k) (where_at ?k s)). in_hand sc has (s, lost, x) ?k (body l)"
    using ok k by (auto simp: memory_ok_def reading_ok_def cur_at)
  from read_new_covers [OF log(1,2) place _ rd] up have new: "place_ok (gens ?k) q"
    "\<forall>l \<in> set (passed (gens ?k) q). l \<in> set (passed (gens ?k) (where_at ?k s)) \<or> taken ls l" by (auto simp: cur_at)
  have hand: "in_hand sc has (s', lost', x) ?k (body l)" if "l \<in> set (passed (gens ?k) q)" for l
    using new(2) that old in_hand_flows [OF f] in_hand_flows [OF f3] f2(3) in_hand_blank
    unfolding taken_def by blast
  have "reading_ok sc has ks gens (s', lost', x)"
    unfolding reading_ok_def fst_conv
  proof (intro ballI)
    fix j assume j: "j \<in> set ks"
    show "place_ok (gens j) (where_at j s') \<and> (\<forall>l \<in> set (passed (gens j) (where_at j s')). in_hand sc has (s', lost', x) j (body l))"
    proof (cases "j = ?k")
      case True
      with new hand wk show ?thesis by simp
    next
      case False
      with ok j in_hand_flows [OF f] show ?thesis by (auto simp: wj memory_ok_def reading_ok_def)
    qed
  qed
  moreover have "cursor_ok sc has (wants s') ks gens lost' x (sp_cursor s')"
  proof -
    have "recalls has x (sp_cursor s')" using r1 by (simp add: recalls_def s' f2(4))
    moreover have "set lost \<subseteq> set lost'" "wants s' = wants s" using f by (auto simp: flows_def same_setup_wants)
    ultimately show ?thesis using cursor_ok_mono [of sc has "wants s" ks gens lost x "sp_cursor s" lost' x "sp_cursor s'"] ok dur
      by (simp add: memory_ok_def)
  qed
  moreover have "bt_sorted (sp_frontier s')" using ok by (simp add: s' f2(5) memory_ok_def) (simp add: s1_def)
  ultimately show ?thesis using f b3 wj by (intro exI [of _ lost']) (simp add: memory_ok_def)
qed

text \<open>All sources are read. The logs show the histories, and the reader keeps up with each.\<close>

definition logs_ok :: "(string \<Rightarrow> log_file list) \<Rightarrow> files \<Rightarrow> shipper \<Rightarrow> bool" where
  "logs_ok gens fs s \<longleftrightarrow> (\<forall>src \<in> set (sp_sources s). shows_log fs src (gens (ls_class src)) \<and> good_history (gens (ls_class src))
     \<and> keeps_up (bc_read_max_records (sf_buffer (sp_cfg s))) (gens (ls_class src)) (where_at (ls_class src) s))"

definition sources_ok :: "log_source list \<Rightarrow> bool" where
  "sources_ok srcs \<longleftrightarrow> distinct (map ls_class srcs) \<and> HEARTBEAT_SOURCE \<notin> set (map ls_class srcs)"

lemma collect_sources_ok:
  assumes "memory_ok sc has ks gens (s, lost, x)" and "HEARTBEAT_SOURCE \<notin> set ks"
    and "distinct (map ls_class srcs)" and "ls_class ` set srcs \<subseteq> set ks"
    and "\<forall>src \<in> set srcs. shows_log fs src (gens (ls_class src)) \<and> good_history (gens (ls_class src))
      \<and> keeps_up (bc_read_max_records (sf_buffer (sp_cfg s))) (gens (ls_class src)) (where_at (ls_class src) s)"
    and "foldl (collect_source sc now_ts fs) (t, s) srcs = (t', s')"
  shows "\<exists>lost'. flows has (s, lost, x) (s', lost', x) \<and> memory_ok sc has ks gens (s', lost', x)"
  using assms(1,3-)
proof (induction srcs arbitrary: t s lost)
  case Nil
  then show ?case by (intro exI [of _ lost]) simp
next
  case (Cons src srcs)
  obtain t1 s1 where s1: "collect_source sc now_ts fs (t, s) src = (t1, s1)" by (cases "collect_source sc now_ts fs (t, s) src")
  from collect_source_ok [OF Cons.prems(1) _ assms(2) _ _ _ s1] Cons.prems obtain l1 where
    a: "flows has (s, lost, x) (s1, l1, x)" "memory_ok sc has ks gens (s1, l1, x)" "\<forall>j. j \<noteq> ls_class src \<longrightarrow> where_at j s1 = where_at j s"
    by auto
  have "sp_cfg s1 = sp_cfg s" using a(1) by (simp add: flows_def same_setup_def)
  moreover have "ls_class r \<noteq> ls_class src" if "r \<in> set srcs" for r using that Cons.prems(2) by (metis distinct.simps(2) image_eqI list.simps(9) set_map)
  ultimately have up: "\<forall>src \<in> set srcs. shows_log fs src (gens (ls_class src)) \<and> good_history (gens (ls_class src))
      \<and> keeps_up (bc_read_max_records (sf_buffer (sp_cfg s1))) (gens (ls_class src)) (where_at (ls_class src) s1)"
    using Cons.prems(4) a(3) by auto
  have "foldl (collect_source sc now_ts fs) (t1, s1) srcs = (t', s')" using Cons.prems(5) s1 by simp
  from Cons.IH [OF a(2) _ _ up this] Cons.prems(2,3) obtain l2 where
    "flows has (s1, l1, x) (s', l2, x)" "memory_ok sc has ks gens (s', l2, x)" by auto
  with flows_trans [OF a(1)] show ?case by blast
qed

lemma collect_ok:
  assumes "memory_ok sc has (map ls_class (sp_sources s)) gens (s, lost, x)" and "sources_ok (sp_sources s)" and "logs_ok gens fs s"
  shows "\<exists>lost'. flows has (s, lost, x) (collect sc now_ts fs t s, lost', x)
    \<and> memory_ok sc has (map ls_class (sp_sources s)) gens (collect sc now_ts fs t s, lost', x)"
proof -
  let ?srcs = "filter (\<lambda>src. ls_class src \<in> set (sf_classes (sp_cfg s))) (sp_sources s)"
  obtain t' s' where c: "foldl (collect_source sc now_ts fs) (t, s) ?srcs = (t', s')"
    by (cases "foldl (collect_source sc now_ts fs) (t, s) ?srcs")
  have "distinct (map ls_class ?srcs)" using assms(2) by (simp add: sources_ok_def distinct_map_filter)
  from collect_sources_ok [OF assms(1) _ this _ _ c] assms(2,3) show ?thesis
    by (auto simp: sources_ok_def logs_ok_def collect_def c)
qed

section \<open>Settling and sending\<close>

lemma settle_fields:
  "same_setup s (foldl settle_one s f)" "sp_buffer (foldl settle_one s f) = sp_buffer s"
  "sp_pending (foldl settle_one s f) = sp_pending s" "sp_frontier (foldl settle_one s f) = sp_frontier s"
  "sp_dropped_seen (foldl settle_one s f) = sp_dropped_seen s" "cr_dropped (sp_cursor (foldl settle_one s f)) = cr_dropped (sp_cursor s)"
  by (induction f arbitrary: s) (auto simp: settle_one_def same_setup_def change_source_def Let_def split: prod.splits)

lemma settle_source:
  "distinct (map fst f) \<Longrightarrow> source_at k (sp_cursor (foldl settle_one s f)) =
     (case map_of f k of
        Some (i, n) \<Rightarrow> if pending_of k s = 0 then (source_at k (sp_cursor s))\<lparr>cu_inode := i, cu_offset := n\<rparr> else source_at k (sp_cursor s)
      | None \<Rightarrow> source_at k (sp_cursor s))"
proof (induction f arbitrary: s)
  case (Cons p f)
  obtain j i n where p: "p = (j, i, n)" by (cases p)
  have "pending_of c (settle_one s p) = pending_of c s" for c
    by (simp add: settle_one_def pending_of_def p)
  moreover have "source_at k (sp_cursor (settle_one s p)) =
      (if k = j \<and> pending_of j s = 0 then (source_at j (sp_cursor s))\<lparr>cu_inode := i, cu_offset := n\<rparr> else source_at k (sp_cursor s))"
    by (simp add: settle_one_def p source_at_change)
  moreover have "k = j \<longrightarrow> map_of f k = None" using Cons.prems by (force simp: p map_of_eq_None_iff)
  ultimately show ?case using Cons by (auto simp: p split: option.splits)
qed simp

lemma finish_source: "source_at k (sp_cursor (finish_pass s)) = source_at k (sp_cursor (foldl settle_one s (sp_frontier s)))"
  by (simp add: finish_pass_def Let_def settle_def)

lemma finish_frontier: "sp_frontier (finish_pass s) = sp_frontier s"
  and finish_pending: "pending_of k (finish_pass s) = pending_of k s"
  and finish_queue: "queue (finish_pass s) = queue s"
  using settle_fields [of s "sp_frontier s"] by (simp_all add: finish_pass_def Let_def settle_def pending_of_def)

text \<open>The end of a pass: the cursor moves, to where everything is settled.\<close>

lemma finish_ok:
  assumes ok: "memory_ok sc has ks gens (s, lost, x)" and "HEARTBEAT_SOURCE \<notin> set ks"
  shows "flows has (s, lost, x) (finish_pass s, lost, x) \<and> memory_ok sc has ks gens (finish_pass s, lost, x)
    \<and> length lost = cr_dropped (sp_cursor (finish_pass s))"
proof -
  let ?s = "finish_pass s"
  note fields = settle_fields [of s "sp_frontier s"]
  have dist: "distinct (map fst (sp_frontier s))" using ok by (simp add: memory_ok_def bt_sorted_distinct)
  note src = settle_source [OF dist]
  have same: "same_setup s ?s" using fields(1) by (simp add: finish_pass_def Let_def settle_def same_setup_def)
  then have flow: "flows has (s, lost, x) (?s, lost, x)"
    using fields(2) by (simp add: flows_def finish_pass_def Let_def settle_def)
  have b: "books s lost" using ok by (simp add: memory_ok_def)
  then have books: "books ?s lost" and count: "length lost = cr_dropped (sp_cursor ?s)"
    using fields by (auto simp: books_def finish_pass_def Let_def settle_def stats_def pending_of_def)
  note cur = finish_source [of _ s] and front = finish_frontier [of s]
  have recent: "cu_recent (source_at k (sp_cursor ?s)) = cu_recent (source_at k (sp_cursor s))" for k
    by (auto simp: cur src split: option.splits)
  have r: "recalls has x (sp_cursor ?s)" using ok recent by (simp add: memory_ok_def cursor_ok_def recalls_def seen_def)
  have at: "where_at k ?s = where_at k s" for k
    by (auto simp: where_at_def front durable_def cur src split: option.split)
  have dur: "durable k (sp_cursor ?s) = durable k (sp_cursor s) \<or> durable k (sp_cursor ?s) = where_at k s \<and> pending_of k s = 0" for k
    by (auto simp: where_at_def durable_def cur src split: option.splits)
  have w: "wants ?s = wants s" using same by (rule same_setup_wants)
  have "cursor_ok sc has (wants ?s) ks gens lost x (sp_cursor ?s)"
    unfolding cursor_ok_def
  proof (intro conjI r ballI)
    fix k assume k: "k \<in> set ks"
    then have "k \<noteq> HEARTBEAT_SOURCE" using assms(2) by auto
    with dur [of k] ok k in_hand_settled [OF _ b, of sc has x k] show "place_ok (gens k) (durable k (sp_cursor ?s))"
      "l \<in> set (passed (gens k) (durable k (sp_cursor ?s))) \<Longrightarrow> settled sc has (wants ?s) lost x k (body l)" for l
      by (auto simp: memory_ok_def cursor_ok_def reading_ok_def w)
  qed
  moreover have "reading_ok sc has ks gens (?s, lost, x)"
    using ok in_hand_flows [OF flow] by (simp add: memory_ok_def reading_ok_def at)
  ultimately have "memory_ok sc has ks gens (?s, lost, x)" using books front ok by (simp add: memory_ok_def)
  with flow count show ?thesis by blast
qed

text \<open>A transport that means what it says: what it had it keeps, and what it accepts it has.\<close>

definition honest :: "'x transport \<Rightarrow> ('x \<Rightarrow> envelope \<Rightarrow> bool) \<Rightarrow> bool" where
  "honest tx has \<longleftrightarrow> (\<forall>batch x r x'. tx batch x = (r, x') \<longrightarrow>
     (\<forall>e. has x e \<longrightarrow> has x' e) \<and> (r = Inr () \<longrightarrow> (\<forall>e \<in> set batch. has x' e)))"

lemma note_batch_facts:
  "durable k (note_batch batch c) = durable k c
   \<and> (seen i (source_at k (note_batch batch c)) \<longrightarrow> seen i (source_at k c) \<or> (\<exists>e \<in> set batch. ev_event_id e = i))
   \<and> cr_dropped (note_batch batch c) = cr_dropped c"
proof (induction batch arbitrary: c)
  case (Cons e batch)
  let ?c = "change_source (ev_source e) (note_sent (ev_event_id e)) c"
  have b: "note_batch (e # batch) c = note_batch batch ?c" by (simp add: note_batch_def)
  have "durable k ?c = durable k c" by (simp add: durable_def source_at_change note_sent_def Let_def)
  moreover have "seen i (source_at k ?c) \<Longrightarrow> seen i (source_at k c) \<or> ev_event_id e = i"
    by (auto simp: source_at_change note_sent_def Let_def seen_def split: if_splits dest: in_set_dropD)
  moreover have "cr_dropped ?c = cr_dropped c" by (simp add: change_source_def)
  ultimately show ?case unfolding b using Cons.IH [of ?c] by auto
qed (simp add: note_batch_def)

lemmas note_batch_source = note_batch_facts [THEN conjunct1] note_batch_facts [THEN conjunct2, THEN conjunct1, rule_format]
  note_batch_facts [THEN conjunct2, THEN conjunct2]

lemma delivered_ok:
  assumes ok: "memory_ok sc has ks gens (s, lost, x)" and batch: "prefix batch (queue s)"
    and "\<forall>e. has x e \<longrightarrow> has x' e" and "\<forall>e \<in> set batch. has x' e"
  shows "flows has (s, lost, x) (delivered sc now batch s, lost, x') \<and> memory_ok sc has ks gens (delivered sc now batch s, lost, x')"
proof -
  let ?s = "delivered sc now batch s"
  from batch obtain rest where q: "queue s = batch @ rest" by (auto simp: prefix_def)
  have q': "queue ?s = rest" by (simp add: delivered_alt q)
  have same: "same_setup s ?s" by (simp add: same_setup_def delivered_alt)
  have f: "flows has (s, lost, x) (?s, lost, x')" using assms(3,4) same by (auto simp: flows_def q q')
  have pend: "pending_of c ?s = pending_of c s - held c batch" for c
    by (simp add: delivered_alt pending_of_cong [of _ "forget_all batch s"])
  have bufd: "bf_dropped (sp_buffer ?s) = bf_dropped (sp_buffer s)" by (simp add: delivered_alt commit_def case_prod_beta)
  have "sp_dropped_seen ?s = sp_dropped_seen s" "cr_dropped (sp_cursor ?s) = cr_dropped (sp_cursor s)"
    by (simp_all add: delivered_alt note_batch_source)
  with ok bufd have b: "books ?s lost" by (auto simp: memory_ok_def books_def pend q q' stats_def)
  have src: "source_at k (sp_cursor ?s) = source_at k (note_batch batch (sp_cursor s))" for k by (simp add: delivered_alt)
  have d: "\<forall>k. durable k (sp_cursor ?s) = durable k (sp_cursor s)" by (simp add: durable_def src) (metis durable_def note_batch_source(1) prod.inject)
  have "recalls has x (sp_cursor s)" using ok by (simp add: memory_ok_def cursor_ok_def)
  then have r: "recalls has x' (sp_cursor ?s)"
    unfolding recalls_def src using note_batch_source(2) assms(3,4) by metis
  have "sp_frontier ?s = sp_frontier s" by (simp add: delivered_alt)
  from memory_flows [OF ok f b this d r] f show ?thesis by blast
qed

lemma refused_ok:
  assumes ok: "memory_ok sc has ks gens (s, lost, x)" and batch: "prefix batch (queue s)"
    and x: "\<forall>e. has x e \<longrightarrow> has x' e" and s': "refused sc now batch e s = Some s'"
  shows "\<exists>lost'. flows has (s, lost, x) (s', lost', x') \<and> memory_ok sc has ks gens (s', lost', x')"
proof -
  from s' obtain msg where msg: "scrub_short (sp_scrub s) (se_message e) 300 = Some msg" by (auto simp: refused_def split: option.splits)
  have r: "recalls has x (sp_cursor s)" and b: "books s lost" using ok by (simp_all add: memory_ok_def cursor_ok_def)
  show ?thesis
  proof (cases "se_retryable e")
    case True
    with s' msg have "sp_cursor s' = (sp_cursor s)\<lparr>cr_last_error := msg\<rparr>" "sp_buffer s' = sp_buffer s" "sp_pending s' = sp_pending s"
      "sp_frontier s' = sp_frontier s" "same_setup s s'" "sp_dropped_seen s' = sp_dropped_seen s"
      by (auto simp: refused_def Let_def same_setup_def)
    moreover from this have "flows has (s, lost, x) (s', lost, x')" using x by (simp add: flows_def)
    moreover have "books s' lost" using b calculation by (simp add: books_def stats_def pending_of_def)
    moreover have "recalls has x' (sp_cursor s')" using recalls_mono [OF r x] calculation by simp
    ultimately show ?thesis using memory_flows [OF ok] by (intro exI [of _ lost]) simp
  next
    case False
    from batch obtain rest where q: "queue s = batch @ rest" by (auto simp: prefix_def)
    let ?t = "forget_all batch (s\<lparr>sp_cursor := (sp_cursor s)\<lparr>cr_last_error := msg\<rparr>\<rparr>)"
    have "s' = ?t\<lparr>sp_buffer := commit sc (length batch) (sp_buffer ?t), sp_cursor := (sp_cursor ?t)\<lparr>cr_dropped := cr_dropped (sp_cursor ?t) + length batch\<rparr>\<rparr>"
      using False s' msg by (simp add: refused_def Let_def)
    then have c: "sp_cursor s' = (sp_cursor s)\<lparr>cr_last_error := msg, cr_dropped := cr_dropped (sp_cursor s) + length batch\<rparr>"
      "sp_buffer s' = commit sc (length batch) (sp_buffer s)" "sp_frontier s' = sp_frontier s" "same_setup s s'"
      "sp_dropped_seen s' = sp_dropped_seen s" "\<forall>c. pending_of c s' = pending_of c s - held c batch"
      by (simp_all add: same_setup_def pending_of_cong [of _ ?t] pending_of_cong [of "s\<lparr>sp_cursor := n\<rparr>" s for n])
    moreover have q': "queue s' = rest" by (simp add: c(2) q)
    have f: "flows has (s, lost, x) (s', lost @ batch, x')" using x c(4) by (auto simp: flows_def q q')
    have "bf_dropped (sp_buffer s') = bf_dropped (sp_buffer s)" by (simp add: c(2) commit_def case_prod_beta)
    with b c have b': "books s' (lost @ batch)" by (auto simp: books_def q q' stats_def)
    have r': "recalls has x' (sp_cursor s')" using recalls_mono [OF r x] by (simp add: c(1))
    have "\<forall>k. durable k (sp_cursor s') = durable k (sp_cursor s)" by (simp add: c(1))
    from memory_flows [OF ok f b' c(3) this r'] f show ?thesis by blast
  qed
qed

lemma send_loop_ok:
  assumes "honest tx has" and "memory_ok sc has ks gens (s, lost, x)" and "send_loop sc tx now s x n = Some (n', s', x')"
  shows "\<exists>lost'. flows has (s, lost, x) (s', lost', x') \<and> memory_ok sc has ks gens (s', lost', x')"
  using assms
proof (induction sc tx now s x n arbitrary: lost rule: send_loop.induct)
  case (1 sc tx now s x n)
  let ?b = "buffer_peek sc (sf_batch_max_records (sp_cfg s)) (sf_batch_max_bytes (sp_cfg s)) (sp_buffer s)"
  show ?case
  proof (cases "?b = []")
    case True
    then have "send_loop sc tx now s x n = Some (n, s, x)" by (subst send_loop.simps) simp
    with "1.prems" show ?thesis by (intro exI [of _ lost]) simp
  next
    case False
    obtain r y where r: "tx ?b x = (r, y)" by (cases "tx ?b x")
    with "1.prems"(1) have y: "\<forall>e. has x e \<longrightarrow> has y e" "r = Inr () \<longrightarrow> (\<forall>e \<in> set ?b. has y e)" unfolding honest_def by metis+
    show ?thesis
    proof (cases r)
      case (Inl e)
      then have "send_loop sc tx now s x n = map_option (\<lambda>s'. (n, s', y)) (refused sc now ?b e s)"
        using False r by (subst send_loop.simps) (simp add: Let_def)
      with "1.prems"(3) have "refused sc now ?b e s = Some s'" "y = x'" by auto
      with refused_ok [OF "1.prems"(2) peek_prefix y(1)] show ?thesis by blast
    next
      case (Inr u)
      then have "send_loop sc tx now s x n = send_loop sc tx now (delivered sc now ?b s) y (n + length ?b)"
        using False r by (subst send_loop.simps) (simp add: Let_def)
      with "1.prems"(3) have "send_loop sc tx now (delivered sc now ?b s) y (n + length ?b) = Some (n', s', x')" by simp
      moreover have "flows has (s, lost, x) (delivered sc now ?b s, lost, y) \<and> memory_ok sc has ks gens (delivered sc now ?b s, lost, y)"
        using delivered_ok [OF "1.prems"(2) peek_prefix y(1)] y(2) Inr by simp
      ultimately show ?thesis using "1.IH" [OF refl False r [symmetric] Inr "1.prems"(1)] flows_trans by blast
    qed
  qed
qed

lemma pass_ok:
  assumes ok: "memory_ok sc has (map ls_class (sp_sources s)) gens (s, lost, x)" and src: "sources_ok (sp_sources s)" and "logs_ok gens fs s"
    and "honest tx has" and p: "pass sc version tx fs t now now_ts writable s x disk = Some (n, s', x', disk')"
  shows "\<exists>lost'. flows has (s, lost, x) (s', lost', x') \<and> memory_ok sc has (map ls_class (sp_sources s)) gens (s', lost', x')
    \<and> length lost' = cr_dropped (sp_cursor s') \<and> (disk' = disk \<or> disk' = Some (sp_cursor s'))"
proof -
  let ?ks = "map ls_class (sp_sources s)"
  have hb: "HEARTBEAT_SOURCE \<notin> set ?ks" using src by (simp add: sources_ok_def)
  define s1 where "s1 = collect sc now_ts fs t s"
  from collect_ok [OF ok src assms(3), of now_ts t] obtain l1 where
    a: "flows has (s, lost, x) (s1, l1, x)" "memory_ok sc has ?ks gens (s1, l1, x)" unfolding s1_def by blast
  define s2 where "s2 = (if heartbeat_due now s1 then (push_record sc (heartbeat sc version now s1) s1)\<lparr>sp_last_heartbeat := now\<rparr> else s1)"
  have "\<exists>l2. flows has (s1, l1, x) (s2, l2, x) \<and> memory_ok sc has ?ks gens (s2, l2, x)"
  proof (cases "heartbeat_due now s1")
    case False
    with a(2) show ?thesis by (intro exI [of _ l1]) (simp add: s2_def)
  next
    case True
    let ?e = "heartbeat sc version now s1"
    have "ev_source ?e = HEARTBEAT_SOURCE" by (simp add: heartbeat_def Let_def)
    then have "\<forall>c. c \<noteq> HEARTBEAT_SOURCE \<longrightarrow> pending_of c s1 = held c (queue s1 @ [?e])"
      using a(2) by (auto simp: memory_ok_def books_def)
    from push_record_flows [OF this, of l1 has x sc] a(2) obtain l2 where
      h: "flows has (s1, l1, x) (push_record sc ?e s1, l2, x)" "books (push_record sc ?e s1) l2"
        "sp_cursor (push_record sc ?e s1) = sp_cursor s1" "sp_frontier (push_record sc ?e s1) = sp_frontier s1"
      by (auto simp: memory_ok_def books_def)
    have s2: "s2 = (push_record sc ?e s1)\<lparr>sp_last_heartbeat := now\<rparr>" using True by (simp add: s2_def)
    have "flows has (push_record sc ?e s1, l2, x) (s2, l2, x)" by (simp add: flows_def same_setup_def s2)
    note f = flows_trans [OF h(1) this]
    have "books s2 l2" using h(2) by (simp add: books_def s2 stats_def pending_of_def)
    moreover have "recalls has x (sp_cursor s2)" using a(2) h(3) by (simp add: s2 memory_ok_def cursor_ok_def)
    ultimately show ?thesis using memory_flows [OF a(2) f] f h(3,4) by (intro exI [of _ l2]) (simp add: s2)
  qed
  then obtain l2 where b: "flows has (s1, l1, x) (s2, l2, x)" "memory_ok sc has ?ks gens (s2, l2, x)" by blast
  have "\<exists>s3 l3. flows has (s2, l2, x) (s3, l3, x') \<and> memory_ok sc has ?ks gens (s3, l3, x')
    \<and> s' = finish_pass s3 \<and> disk' = save_cursor writable (finish_pass s3) disk"
  proof (cases "now < sp_next_attempt s2")
    case True
    with p have "s' = finish_pass s2" "x' = x" "disk' = save_cursor writable (finish_pass s2) disk"
      unfolding pass_def Let_def s1_def [symmetric] s2_def [symmetric] by auto
    with b(2) show ?thesis by (intro exI [of _ s2] exI [of _ l2]) simp
  next
    case False
    with p obtain s3 where s3: "send_loop sc tx now s2 x 0 = Some (n, s3, x')" "s' = finish_pass s3" "disk' = save_cursor writable (finish_pass s3) disk"
      unfolding pass_def Let_def s1_def [symmetric] s2_def [symmetric] by (auto split: option.splits)
    from send_loop_ok [OF assms(4) b(2) s3(1)] s3 show ?thesis by blast
  qed
  then obtain s3 l3 where c: "flows has (s2, l2, x) (s3, l3, x')" "memory_ok sc has ?ks gens (s3, l3, x')"
    "s' = finish_pass s3" "disk' = save_cursor writable (finish_pass s3) disk" by blast
  from finish_ok [OF c(2) hb] c(3) have "flows has (s3, l3, x') (s', l3, x')" "memory_ok sc has ?ks gens (s', l3, x')"
    "length l3 = cr_dropped (sp_cursor s')" by simp_all
  moreover have "flows has (s, lost, x) (s3, l3, x')" using a(1) b(1) c(1) flows_trans by blast
  moreover have "disk' = disk \<or> disk' = Some (sp_cursor s')" using c(3,4) by (simp add: save_cursor_def)
  ultimately show ?thesis using flows_trans by blast
qed

section \<open>Runs\<close>

text \<open>
  What can happen: a log is written to, or renamed away and begun anew; a pass, while the logs are as
  they are and the reader keeps up (\<open>logs_ok\<close>: at most one rotation behind, the rest of the renamed file
  within one poll); and at any moment, in the middle of a pass too, the shipper stops
  and is started from what is on disk, the collector having received whatever it did.
\<close>

inductive ship_run ::
    "ship_codec \<Rightarrow> string \<Rightarrow> 'x transport \<Rightarrow> ('x \<Rightarrow> envelope \<Rightarrow> bool) \<Rightarrow> (ship_cursor option \<Rightarrow> shipper)
     \<Rightarrow> (string \<Rightarrow> log_file list) \<Rightarrow> shipper \<Rightarrow> 'x \<Rightarrow> ship_cursor option \<Rightarrow> bool"
  for sc version tx has start where
  started: "ship_run sc version tx has start (\<lambda>k. []) (start None) x None"
| appended: "ship_run sc version tx has start gens s x disk \<Longrightarrow> gens k = gs @ [(i, t)]
     \<Longrightarrow> ship_run sc version tx has start (gens(k := gs @ [(i, t @ tail)])) s x disk"
| rotated: "ship_run sc version tx has start gens s x disk \<Longrightarrow> i \<noteq> 0 \<Longrightarrow> i \<notin> fst ` set (gens k)
     \<Longrightarrow> ship_run sc version tx has start (gens(k := gens k @ [(i, t)])) s x disk"
| one_pass: "ship_run sc version tx has start gens s x disk \<Longrightarrow> logs_ok gens fs s
     \<Longrightarrow> pass sc version tx fs u now now_ts writable s x disk = Some (n, s', x', disk')
     \<Longrightarrow> ship_run sc version tx has start gens s' x' disk'"
| restarted: "ship_run sc version tx has start gens s x disk \<Longrightarrow> (\<And>e. has x e \<Longrightarrow> has x' e)
     \<Longrightarrow> ship_run sc version tx has start gens (start disk) x' disk"

lemma effective_sources_ok: "sources_ok (effective_sources alerts telemetry classes)"
  by (auto simp: sources_ok_def effective_sources_def all_sources_def HEARTBEAT_SOURCE_def)

text \<open>A log that grows keeps what lies before a place.\<close>

lemma position_concat: "position P (xs @ ys) = (case position P xs of Some i \<Rightarrow> Some i | None \<Rightarrow> map_option ((+) (length xs)) (position P ys))"
  by (induction xs; cases "position P ys") (auto split: option.splits)

lemma place_append:
  assumes "place_ok (gs @ [(i, t)]) p"
  shows "place_ok (gs @ [(i, t @ tail)]) p \<and> passed (gs @ [(i, t @ tail)]) p = passed (gs @ [(i, t)]) p"
proof (cases "position (\<lambda>f. fst f = fst p) gs")
  case None
  with assms show ?thesis
    by (auto simp: place_ok_def passed_def position_concat at_line_def nth_append split: if_splits)
next
  case (Some g)
  with position_Some [OF Some] assms show ?thesis by (simp add: place_ok_def passed_def position_concat nth_append)
qed

lemma place_rotate:
  assumes "place_ok gs p" and "i \<noteq> 0"
  shows "place_ok (gs @ [(i, t)]) p \<and> passed (gs @ [(i, t)]) p = passed gs p"
proof (cases "position (\<lambda>f. fst f = fst p) gs")
  case None
  with assms show ?thesis by (auto simp: place_ok_def passed_def position_concat)
next
  case (Some g)
  with position_Some [OF Some] assms show ?thesis by (simp add: place_ok_def passed_def position_concat nth_append)
qed

definition run_ok ::
    "ship_codec \<Rightarrow> ('x \<Rightarrow> envelope \<Rightarrow> bool) \<Rightarrow> (ship_cursor option \<Rightarrow> shipper) \<Rightarrow> (string \<Rightarrow> log_file list) \<Rightarrow> shipper \<Rightarrow> 'x \<Rightarrow> ship_cursor option \<Rightarrow> bool" where
  "run_ok sc has start gens s x disk \<longleftrightarrow>
     same_setup (start None) s \<and> (\<forall>k. good_history (gens k))
     \<and> (\<exists>lost. memory_ok sc has (map ls_class (sp_sources s)) gens (s, lost, x))
     \<and> (\<exists>lost. length lost = cr_dropped (load_cursor disk)
          \<and> cursor_ok sc has (wants s) (map ls_class (sp_sources s)) gens lost x (load_cursor disk))"

lemma run_okI:
  assumes "same_setup (start None) s" and "\<forall>k. good_history (gens k)"
    and "memory_ok sc has (map ls_class (sp_sources s)) gens (s, lost, x)"
    and "length dl = cr_dropped (load_cursor disk)"
    and "cursor_ok sc has (wants s) (map ls_class (sp_sources s)) gens dl x (load_cursor disk)"
  shows "run_ok sc has start gens s x disk"
  unfolding run_ok_def by (rule assms conjI exI)+

lemma grown_ok:
  assumes "\<forall>k p. place_ok (gens k) p \<longrightarrow> place_ok (gens' k) p \<and> passed (gens' k) p = passed (gens k) p"
  shows "cursor_ok sc has W ks gens lost x c \<Longrightarrow> cursor_ok sc has W ks gens' lost x c"
    and "memory_ok sc has ks gens a \<Longrightarrow> memory_ok sc has ks gens' a"
proof -
  show c: "cursor_ok sc has W ks gens lost x c \<Longrightarrow> cursor_ok sc has W ks gens' lost x c" for W lost x c
    unfolding cursor_ok_def using assms by metis
  have "reading_ok sc has ks gens a \<Longrightarrow> reading_ok sc has ks gens' a" unfolding reading_ok_def using assms by metis
  with c show "memory_ok sc has ks gens a \<Longrightarrow> memory_ok sc has ks gens' a" by (cases a) (simp add: memory_ok_def)
qed

lemma run_ok_grown:
  assumes "\<forall>k p. place_ok (gens k) p \<longrightarrow> place_ok (gens' k) p \<and> passed (gens' k) p = passed (gens k) p"
    and "\<forall>k. good_history (gens' k)" and "run_ok sc has start gens s x disk"
  shows "run_ok sc has start gens' s x disk"
proof -
  from assms(3) obtain lost dl where "same_setup (start None) s" "memory_ok sc has (map ls_class (sp_sources s)) gens (s, lost, x)"
    "length dl = cr_dropped (load_cursor disk)"
    "cursor_ok sc has (wants s) (map ls_class (sp_sources s)) gens dl x (load_cursor disk)" by (auto simp: run_ok_def)
  with grown_ok [OF assms(1)] assms(2) show ?thesis by (intro run_okI)
qed

text \<open>A start from what is on disk.\<close>

lemma boot_fields [simp]:
  "sp_sources (boot cfg host al te red guard secrets dry disk) = effective_sources al te (sf_classes cfg)"
  "sp_cursor (boot cfg host al te red guard secrets dry disk) = load_cursor disk"
  "sp_frontier (boot cfg host al te red guard secrets dry disk) = []"
  "queue (boot cfg host al te red guard secrets dry disk) = []"
  "same_setup (boot cfg host al te red guard secrets dry d) (boot cfg host al te red guard secrets dry disk)"
  by (simp_all add: boot_def new_shipper_def new_buffer_def same_setup_def)

lemma boot_ok:
  assumes "cursor_ok sc has (wants (boot cfg host al te red guard secrets dry disk)) ks gens lost x (load_cursor disk)"
    and "length lost = cr_dropped (load_cursor disk)"
  shows "memory_ok sc has ks gens (boot cfg host al te red guard secrets dry disk, lost, x)"
proof -
  let ?s = "boot cfg host al te red guard secrets dry disk"
  have "books ?s lost"
    using assms(2) by (simp add: books_def stats_def pending_of_def) (simp add: boot_def new_shipper_def new_buffer_def)
  moreover have "where_at k ?s = durable k (load_cursor disk)" for k by (simp add: where_at_def)
  ultimately show ?thesis using assms(1) by (auto simp: memory_ok_def reading_ok_def cursor_ok_def in_hand_def)
qed

lemma ship_run_ok:
  fixes cfg host al te red guard secrets
  defines "start \<equiv> boot cfg host al te red guard secrets False"
  assumes "honest tx has" and "ship_run sc version tx has start gens s x disk"
  shows "run_ok sc has start gens s x disk"
  using assms(3)
proof induction
  case (started x)
  have "cursor_ok sc has W ks (\<lambda>k. []) [] x (load_cursor None)" for W ks
    by (auto simp: cursor_ok_def recalls_def place_ok_def passed_def durable_def load_cursor_def source_at_def new_source_cursor_def seen_def)
  moreover from this have "memory_ok sc has ks (\<lambda>k. []) (start None, [], x)" for ks
    unfolding start_def by (rule boot_ok) (simp add: load_cursor_def)
  ultimately show ?case
    by (intro run_okI [where lost = "[]" and dl = "[]"]) (simp_all add: same_setup_def good_history_def load_cursor_def)
next
  case (appended gens s x disk k gs i t tail)
  let ?g = "gens(k := gs @ [(i, t @ tail)])"
  have "\<forall>j p. place_ok (gens j) p \<longrightarrow> place_ok (?g j) p \<and> passed (?g j) p = passed (gens j) p"
    using place_append [of gs i t _ tail] appended.hyps(2) by auto
  note g = this
  have "good_history (gs @ [(i, t)])" using appended unfolding run_ok_def by metis
  then have "\<forall>j. good_history (?g j)" using appended.IH by (auto simp: run_ok_def good_history_def)
  with g show ?case using appended.IH by (rule run_ok_grown)
next
  case (rotated gens s x disk i k t)
  let ?g = "gens(k := gens k @ [(i, t)])"
  have "\<forall>j p. place_ok (gens j) p \<longrightarrow> place_ok (?g j) p \<and> passed (?g j) p = passed (gens j) p"
    using place_rotate [OF _ rotated.hyps(2), of "gens k" _ t] by auto
  note g = this
  have "\<forall>j. good_history (?g j)" using rotated by (auto simp: run_ok_def good_history_def)
  with g show ?case using rotated.IH by (rule run_ok_grown)
next
  case (one_pass gens s x disk fs u now now_ts writable n s' x' disk')
  from one_pass.IH obtain lost dl where ok: "same_setup (start None) s" "\<forall>k. good_history (gens k)"
    "memory_ok sc has (map ls_class (sp_sources s)) gens (s, lost, x)" "length dl = cr_dropped (load_cursor disk)"
    "cursor_ok sc has (wants s) (map ls_class (sp_sources s)) gens dl x (load_cursor disk)" unfolding run_ok_def by blast
  have "sources_ok (sp_sources s)" using ok(1) effective_sources_ok by (simp add: same_setup_def start_def)
  from pass_ok [OF ok(3) this one_pass.hyps(2) assms(2) one_pass.hyps(3)] obtain lost' where
    p: "flows has (s, lost, x) (s', lost', x')" "memory_ok sc has (map ls_class (sp_sources s)) gens (s', lost', x')"
      "length lost' = cr_dropped (sp_cursor s')" "disk' = disk \<or> disk' = Some (sp_cursor s')" by blast
  from p(1) have f: "same_setup s s'" "\<forall>e. has x e \<longrightarrow> has x' e" by (simp_all add: flows_def)
  have srcs: "sp_sources s' = sp_sources s" using f(1) by (simp add: same_setup_def)
  have w: "wants s' = wants s" using f(1) by (rule same_setup_wants)
  have "cursor_ok sc has (wants s') (map ls_class (sp_sources s)) gens dl x' (load_cursor disk)"
    using cursor_ok_later [OF ok(5) f(2)] by (simp add: w)
  moreover have "cursor_ok sc has (wants s') (map ls_class (sp_sources s)) gens lost' x' (sp_cursor s')"
    using p(2) by (simp add: memory_ok_def)
  ultimately obtain dl' where d: "length dl' = cr_dropped (load_cursor disk')"
      "cursor_ok sc has (wants s') (map ls_class (sp_sources s)) gens dl' x' (load_cursor disk')"
    using p(3,4) ok(4) by (auto simp: load_cursor_def)
  have st: "same_setup (start None) s'" using ok(1) f(1) by (simp add: same_setup_def)
  show ?case by (rule run_okI, fact st, fact ok(2), fact p(2) [folded srcs], fact d(1), fact d(2) [folded srcs])
next
  case (restarted gens s x disk x')
  then obtain dl where ok: "same_setup (start None) s" "\<forall>k. good_history (gens k)" "length dl = cr_dropped (load_cursor disk)"
    "cursor_ok sc has (wants s) (map ls_class (sp_sources s)) gens dl x (load_cursor disk)" unfolding run_ok_def by blast
  have x: "\<forall>e. has x e \<longrightarrow> has x' e" using restarted.hyps(2) by blast
  have new: "same_setup (start None) (start disk)" by (simp add: start_def)
  have w: "wants (start disk) = wants s" "sp_sources (start disk) = sp_sources s"
  proof -
    from new ok(1) have "same_setup s (start disk)" by (simp add: same_setup_def)
    then show "wants (start disk) = wants s" by (rule same_setup_wants)
    from \<open>same_setup s (start disk)\<close> show "sp_sources (start disk) = sp_sources s" by (simp add: same_setup_def)
  qed
  have c: "cursor_ok sc has (wants (start disk)) (map ls_class (sp_sources (start disk))) gens dl x' (load_cursor disk)"
    using cursor_ok_later [OF ok(4) x] by (simp add: w)
  have m: "memory_ok sc has (map ls_class (sp_sources (start disk))) gens (start disk, dl, x')"
    unfolding start_def by (rule boot_ok [OF c [unfolded start_def] ok(3)])
  show ?case by (rule run_okI, fact new, fact ok(2), fact m, fact ok(3), fact c)
qed

text \<open>C25: While the reader keeps up, the durable cursor skips nothing. Take any run in which every pass finds each
  log at most one rotation ahead of its cursor, with no more left in the renamed file than one poll reads
  and only whole UTF-8 text there, and in which no log changes between the calls that read it in one pass
  (logs are read one after the other, so a change to another log falls before or after). Then however the
  logs grow and rotate between passes, whatever the collector takes or refuses, and wherever the shipper is
  stopped and started again: of every line that lies before the cursor on disk and is a record of a class
  that is shipped, a record with its event id has arrived at the collector, or is among the losses, of which
  there are as many as the cursor's own count says. The collector is taken at its word. A run in which the
  reader falls behind is not covered: there lines are skipped without a count.\<close>

theorem nothing_is_skipped:
  assumes "honest tx has"
    and "ship_run sc version tx has (boot cfg host al te red guard secrets False) gens s x (Some d)"
  shows "\<exists>lost. length lost = cr_dropped d
    \<and> (\<forall>src \<in> set (effective_sources al te (sf_classes cfg)). \<forall>l \<in> set (passed (gens (ls_class src)) (durable (ls_class src) d)).
         trim (body l) = []
         \<or> (\<forall>stamp w e w'. envelope_of sc stamp (body l) (ls_class src) host red guard w = (Some e, w') \<longrightarrow> ev_class e \<in> set (sf_classes cfg)
              \<longrightarrow> (\<exists>e'. (e' \<in> set lost \<or> has x e') \<and> ev_event_id e' = ev_event_id e)))"
proof -
  let ?start = "boot cfg host al te red guard secrets False"
  from ship_run_ok [OF assms] obtain lost where lost: "same_setup (?start None) s" "length lost = cr_dropped d"
    "cursor_ok sc has (wants s) (map ls_class (sp_sources s)) gens lost x d" by (auto simp: run_ok_def load_cursor_def)
  have srcs: "sp_sources s = effective_sources al te (sf_classes cfg)" using lost(1) by (simp add: same_setup_def)
  have w: "wants s c" if "c \<in> set (sf_classes cfg)" for c
  proof -
    have "wants s = wants (?start None)" using lost(1) by (rule same_setup_wants)
    with that show ?thesis by (auto simp: wants_def boot_def new_shipper_def)
  qed
  show ?thesis
  proof (intro exI [of _ lost] conjI ballI lost(2))
    fix src l assume "src \<in> set (effective_sources al te (sf_classes cfg))" and "l \<in> set (passed (gens (ls_class src)) (durable (ls_class src) d))"
    then have st: "settled sc has (wants s) lost x (ls_class src) (body l)" using lost(3) by (auto simp: cursor_ok_def srcs)
    show "trim (body l) = [] \<or> (\<forall>stamp w e w'. envelope_of sc stamp (body l) (ls_class src) host red guard w = (Some e, w') \<longrightarrow> ev_class e \<in> set (sf_classes cfg)
        \<longrightarrow> (\<exists>e'. (e' \<in> set lost \<or> has x e') \<and> ev_event_id e' = ev_event_id e))"
    proof (cases "trim (body l) = []", simp, intro disjI2 allI impI)
      fix stamp v e v' assume e: "envelope_of sc stamp (body l) (ls_class src) host red guard v = (Some e, v')" "ev_class e \<in> set (sf_classes cfg)"
        and "trim (body l) \<noteq> []"
      from e(1) have "ident sc (ls_class src) (body l) = Some (ev_event_id e, ev_class e)"
        using envelope_ident [of sc "ls_class src" "body l" stamp host red guard v] by simp
      with st w [OF e(2)] \<open>trim (body l) \<noteq> []\<close> show "\<exists>e'. (e' \<in> set lost \<or> has x e') \<and> ev_event_id e' = ev_event_id e"
        by (auto simp: settled_def)
    qed
  qed
qed

section \<open>A rotation with a long tail\<close>

lemma rotated_lines_full:
  assumes "\<forall>l \<in> set ls. valid_utf8 l" and "length out \<le> mx"
  shows "length (rotated_lines mx ls out) = min mx (length out + length (filter (\<lambda>l. trim (line_text l) \<noteq> []) ls))"
  using assms
proof (induction ls arbitrary: out)
  case (Cons l ls)
  show ?case
  proof (cases "length out = mx")
    case False
    with Cons.prems Cons.IH [of "if trim (line_text l) \<noteq> [] then out @ [line_text l] else out"] show ?thesis by auto
  qed (use Cons.prems in auto)
qed simp

text \<open>C27: A rotation can lose the end of the old log. When more records are left in the file that was renamed
  away than one poll reads, that poll takes as many as it may and puts the place of the source at the
  beginning of the new file: the rest of the old one is never read, and nothing counts it.\<close>

theorem long_tail_is_skipped:
  assumes "cu_inode cur \<noteq> 0" and "shows_log fs src [(cu_inode cur, old), (i, new)]" and "i \<noteq> cu_inode cur"
    and "readable old" and "at_line old (cu_offset cur)"
    and "mx < length (filter (\<lambda>l. trim (body l) \<noteq> []) (chunks (drop (cu_offset cur) old)))"
  shows "\<exists>ls. read_new fs t src cur mx = (ls, i, 0) \<and> length ls = mx"
proof -
  let ?rest = "chunks (drop (cu_offset cur) old)"
  have whole: "chunks old = chunks (take (cu_offset cur) old) @ ?rest" by (rule chunks_at_line [OF assms(5)])
  then have utf: "\<forall>l \<in> set ?rest. valid_utf8 l" using assms(4) by (simp add: readable_def)
  have "line_text l = body l" if "l \<in> set ?rest" for l
    using line_text_body [of l old] that whole assms(4) by (auto simp: readable_def)
  then have "filter (\<lambda>l. trim (line_text l) \<noteq> []) ?rest = filter (\<lambda>l. trim (body l) \<noteq> []) ?rest" by (auto cong: filter_cong)
  with rotated_lines_full [OF utf, of "[]" mx] assms(6) have full: "length (rotated_lines mx ?rest []) = mx" by simp
  then have "read_from (Some (i, new)) 0 mx (rotated_lines mx ?rest []) = Some (rotated_lines mx ?rest [], 0)"
    by (cases "chunks new") (simp_all add: read_from_def)
  with full assms(1-3) show ?thesis by (auto simp: read_new_def shows_log_def)
qed

theorem long_tail_is_skipped_witness:
  "\<exists>ls. read_new (\<lambda>t p. if p = ''a'' then Some (2, []) else if p = ''b'' then Some (1, ''x'' @ [newline] @ ''y'' @ [newline]) else None) 0
     \<lparr>ls_class = ''alerts'', ls_path = ''a'', ls_rotated = ''b''\<rparr> \<lparr>cu_inode = 1, cu_offset = 0, cu_recent = []\<rparr> 1 = (ls, 2, 0) \<and> length ls = 1"
  by (rule long_tail_is_skipped [where old = "''x'' @ [newline] @ ''y'' @ [newline]" and new = "[]"])
     (simp_all add: shows_log_def readable_def at_line_def valid_utf8_def body_def trim_def trim_start_def trim_end_def is_white_def)

section \<open>A collector that answers\<close>

lemma collect_next_attempt: "sp_next_attempt (collect sc now_ts fs t s) = sp_next_attempt s"
proof -
  have push: "sp_next_attempt (push_record sc e s) = sp_next_attempt s" for e s
    by (simp add: push_record_def case_prod_beta)
  have line: "sp_next_attempt (snd (collect_line sc now_ts k saved a l)) = sp_next_attempt (snd a)" for k saved a l
    by (auto simp: collect_line_def push split: prod.splits option.splits)
  have "sp_next_attempt (snd (foldl (collect_line sc now_ts k saved) a ls)) = sp_next_attempt (snd a)" for k saved a ls
    by (induction ls arbitrary: a) (simp_all add: line)
  then have src: "sp_next_attempt (snd (collect_source sc now_ts fs a r)) = sp_next_attempt (snd a)" for a r
    by (simp add: collect_source_def Let_def case_prod_beta)
  have "sp_next_attempt (snd (foldl (collect_source sc now_ts fs) a srcs)) = sp_next_attempt (snd a)" for a srcs
    by (induction srcs arbitrary: a) (simp_all add: src)
  then show ?thesis by (simp add: collect_def)
qed

lemma send_loop_drains:
  assumes "\<forall>batch x. fst (tx batch x) = Inr ()"
  shows "\<exists>m s' x'. send_loop sc tx now s x n = Some (m, s', x') \<and> queue s' = []"
  using assms
proof (induction sc tx now s x n rule: send_loop.induct)
  case (1 sc tx now s x n)
  let ?b = "buffer_peek sc (sf_batch_max_records (sp_cfg s)) (sf_batch_max_bytes (sp_cfg s)) (sp_buffer s)"
  show ?case
  proof (cases "?b = []")
    case True
    then have "send_loop sc tx now s x n = Some (n, s, x)" by (subst send_loop.simps) simp
    with True show ?thesis by (auto simp: peek_nonempty)
  next
    case False
    obtain y where y: "tx ?b x = (Inr (), y)" using "1.prems" by (metis prod.collapse)
    then have "send_loop sc tx now s x n = send_loop sc tx now (delivered sc now ?b s) y (n + length ?b)"
      using False by (subst send_loop.simps) (simp add: Let_def)
    with "1.IH" [OF refl False y [symmetric] refl "1.prems"] show ?thesis by simp
  qed
qed

text \<open>C26: A collector that answers gets everything, and the cursor follows. In every run, a pass that is made when
  the wait after a failure is over, towards a collector that accepts, comes back with the buffer empty,
  nothing to wait for, and the cursor of every source, in memory and on disk, where it was read to.\<close>

theorem accepting_collector_drains:
  assumes "honest tx has" and run: "ship_run sc version tx has (boot cfg host al te red guard secrets False) gens s x disk"
    and "logs_ok gens fs s" and accepts: "\<forall>batch x. fst (tx batch x) = Inr ()" and due: "sp_next_attempt s \<le> now"
  shows "\<exists>n s' x'. pass sc version tx fs t now now_ts True s x disk = Some (n, s', x', Some (sp_cursor s'))
    \<and> bf_q (sp_buffer s') = [] \<and> (\<forall>src \<in> set (effective_sources al te (sf_classes cfg)). durable (ls_class src) (sp_cursor s') = where_at (ls_class src) s')"
proof -
  let ?start = "boot cfg host al te red guard secrets False"
  from ship_run_ok [OF assms(1) run] have setup1: "same_setup (?start None) s" by (simp add: run_ok_def)
  define s2 where "s2 = (let s1 = collect sc now_ts fs t s in if heartbeat_due now s1 then (push_record sc (heartbeat sc version now s1) s1)\<lparr>sp_last_heartbeat := now\<rparr> else s1)"
  have "sp_next_attempt s2 = sp_next_attempt s"
    by (simp add: s2_def Let_def collect_next_attempt push_record_def case_prod_beta)
  with due have go: "\<not> now < sp_next_attempt s2" by simp
  obtain m s3 x' where l: "send_loop sc tx now s2 x 0 = Some (m, s3, x')" "queue s3 = []"
    using send_loop_drains [OF accepts] by blast
  let ?s = "finish_pass s3"
  have "pass sc version tx fs t now now_ts True s x disk = Some (m, ?s, x', save_cursor True ?s disk)"
    using go l(1) unfolding pass_def Let_def s2_def by simp
  moreover from this have run': "ship_run sc version tx has ?start gens ?s x' (save_cursor True ?s disk)"
    by (rule ship_run.one_pass [OF run assms(3)])
  from ship_run_ok [OF assms(1) run'] obtain lost where st: "same_setup (?start None) ?s" "memory_ok sc has (map ls_class (sp_sources ?s)) gens (?s, lost, x')"
    by (auto simp: run_ok_def)
  from st(1) have "sp_persist ?s" by (simp add: same_setup_def boot_def new_shipper_def)
  then have "save_cursor True ?s disk = Some (sp_cursor ?s)" by (simp add: save_cursor_def)
  moreover have q: "queue ?s = []" using l(2) by (simp add: finish_queue)
  moreover have "durable (ls_class src) (sp_cursor ?s) = where_at (ls_class src) ?s" if "src \<in> set (effective_sources al te (sf_classes cfg))" for src
  proof -
    let ?k = "ls_class src"
    have "?k \<noteq> HEARTBEAT_SOURCE" using imageI [OF that, of ls_class] effective_sources_ok [of al te "sf_classes cfg"] by (auto simp: sources_ok_def)
    with st(2) q have pend: "pending_of ?k s3 = 0" by (simp add: memory_ok_def books_def finish_pending)
    have "distinct (map fst (sp_frontier s3))" using st(2) by (simp add: memory_ok_def finish_frontier bt_sorted_distinct)
    from settle_source [OF this, of ?k s3] pend show ?thesis
      by (auto simp: where_at_def finish_frontier durable_def finish_source split: option.splits)
  qed
  ultimately show ?thesis by auto
qed

text \<open>A collector that takes everything, and one log of one line.\<close>

definition takes_all :: "envelope list transport" where
  "takes_all batch x = (Inr (), x @ batch)"

definition quiet_config :: ship_config where
  "quiet_config = \<lparr>sf_classes = [''alerts''], sf_transport = ''https'', sf_heartbeat_secs = 0, sf_batch_max_records = 10,
     sf_batch_max_bytes = 100, sf_buffer = \<lparr>bc_max_records = 5, bc_max_bytes = 0, bc_retry_min_secs = 5, bc_retry_max_secs = 300, bc_read_max_records = 9\<rparr>\<rparr>"

definition quiet_boot :: "ship_cursor option \<Rightarrow> shipper" where
  "quiet_boot = boot quiet_config ''box'' (''a'', ''b'') (''t'', ''u'') (new_redactor \<lparr>rc_home = False, rc_secret_paths = False, rc_extra = []\<rparr> [])
     (new_guard ''/e'' ''/q'') [] False"

definition empty_object :: ship_codec where
  "empty_object = a_codec (\<lambda>_. Some (JObj []))"

definition one_line_log :: files where
  "one_line_log t p = (if p = ''a'' then Some (7, [CHR ''x'', newline]) else None)"

lemma takes_all_honest: "honest takes_all (\<lambda>x e. e \<in> set x)"
  by (auto simp: honest_def takes_all_def)

lemma quiet_pass:
  "map_option (\<lambda>(n, s, x, d). (n, map ev_event_id x, map_option (durable ''alerts'') d, map_option cr_dropped d))
     (pass empty_object ''1'' takes_all one_line_log 0 9 ''T'' True (quiet_boot None) [] None)
   = Some (1, [short_hash empty_object ''x''], Some (7, 2), Some 0)"
  by code_simp

lemma quiet_sources: "effective_sources (''a'', ''b'') te (sf_classes quiet_config) = [\<lparr>ls_class = ''alerts'', ls_path = ''a'', ls_rotated = ''b''\<rparr>]"
  by (simp add: effective_sources_def all_sources_def quiet_config_def)

lemma quiet_log: "chunks [CHR ''x'', newline] = [[CHR ''x'', newline]]" "body [CHR ''x'', newline] = ''x''"
  "trim ''x'' \<noteq> []" "readable [CHR ''x'', newline]"
  by (simp_all add: body_def readable_def valid_utf8_def trim_def trim_start_def trim_end_def is_white_def)

abbreviation quiet_history :: "string \<Rightarrow> log_file list" where
  "quiet_history \<equiv> (\<lambda>k. [])(''alerts'' := [(7, [CHR ''x'', newline])])"

lemma quiet_run: "ship_run empty_object ''1'' takes_all (\<lambda>x e. e \<in> set x) quiet_boot quiet_history (quiet_boot None) [] None"
proof -
  have "ship_run empty_object ''1'' takes_all (\<lambda>x e. e \<in> set x) quiet_boot ((\<lambda>k. [])(''alerts'' := (\<lambda>k. []) ''alerts'' @ [(7, [CHR ''x'', newline])])) (quiet_boot None) [] None"
    by (rule ship_run.rotated [OF ship_run.started]) simp_all
  then show ?thesis by simp
qed

lemma quiet_logs: "logs_ok quiet_history one_line_log (quiet_boot None)"
proof -
  have "sp_sources (quiet_boot None) = [\<lparr>ls_class = ''alerts'', ls_path = ''a'', ls_rotated = ''b''\<rparr>]"
    by (simp add: quiet_boot_def quiet_sources)
  moreover have "where_at ''alerts'' (quiet_boot None) = (0, 0)"
    by (simp add: quiet_boot_def where_at_def durable_def load_cursor_def source_at_def new_source_cursor_def)
  ultimately show ?thesis by (auto simp: logs_ok_def shows_log_def one_line_log_def good_history_def keeps_up_def quiet_log)
qed

theorem nothing_is_skipped_witness:
  "\<exists>s x d lost. ship_run empty_object ''1'' takes_all (\<lambda>x e. e \<in> set x) quiet_boot ((\<lambda>k. [])(''alerts'' := [(7, [CHR ''x'', newline])])) s x (Some d)
     \<and> durable ''alerts'' d = (7, 2) \<and> length lost = cr_dropped d \<and> cr_dropped d = 0
     \<and> (\<exists>e. (e \<in> set lost \<or> e \<in> set x) \<and> ev_event_id e = short_hash empty_object ''x'')"
proof -
  let ?g = "(\<lambda>k. [])(''alerts'' := [(7::nat, [CHR ''x'', newline])])"
  from quiet_pass obtain n s x d where p: "pass empty_object ''1'' takes_all one_line_log 0 9 ''T'' True (quiet_boot None) [] None = Some (n, s, x, Some d)"
    "durable ''alerts'' d = (7, 2)" "cr_dropped d = 0" by auto
  have run: "ship_run empty_object ''1'' takes_all (\<lambda>x e. e \<in> set x) quiet_boot ?g s x (Some d)"
    by (rule ship_run.one_pass [OF quiet_run quiet_logs p(1)])
  obtain e w where e: "envelope_of empty_object [] ''x'' ''alerts'' ''box'' (new_redactor \<lparr>rc_home = False, rc_secret_paths = False, rc_extra = []\<rparr> [])
      (new_guard ''/e'' ''/q'') 0 = (Some e, w)" "ev_class e = ''alerts''" "ev_event_id e = short_hash empty_object ''x''"
    by (simp add: envelope_of_def empty_object_def a_codec_def class_of_record_def classify_record_def event_id_of_def Let_def case_prod_beta)
  have passed: "passed [(7, [CHR ''x'', newline])] (7, 2) = [[CHR ''x'', newline]]"
    by (simp add: passed_def quiet_log)
  from nothing_is_skipped [OF takes_all_honest run [unfolded quiet_boot_def]] p(2)
  obtain lost where lost: "length lost = cr_dropped d"
    "trim ''x'' = [] \<or> (\<forall>stamp w e w'. envelope_of empty_object stamp ''x'' ''alerts'' ''box'' (new_redactor \<lparr>rc_home = False, rc_secret_paths = False, rc_extra = []\<rparr> [])
        (new_guard ''/e'' ''/q'') w = (Some e, w') \<longrightarrow> ev_class e \<in> set (sf_classes quiet_config)
        \<longrightarrow> (\<exists>e'. (e' \<in> set lost \<or> e' \<in> set x) \<and> ev_event_id e' = ev_event_id e))"
    by (auto simp: quiet_sources passed quiet_log)
  from lost(2) e have "\<exists>e'. (e' \<in> set lost \<or> e' \<in> set x) \<and> ev_event_id e' = short_hash empty_object ''x''"
    using quiet_log(3) by (metis list.set_intros(1) quiet_config_def ship_config.select_convs(1))
  with run p(2,3) lost(1) show ?thesis by blast
qed

theorem accepting_collector_drains_witness:
  "\<exists>n s' x'. pass empty_object ''1'' takes_all one_line_log 0 9 ''T'' True (quiet_boot None) [] None = Some (n, s', x', Some (sp_cursor s'))
     \<and> bf_q (sp_buffer s') = [] \<and> durable ''alerts'' (sp_cursor s') = where_at ''alerts'' s'"
proof -
  have due: "sp_next_attempt (quiet_boot None) \<le> 9" by (simp add: quiet_boot_def boot_def new_shipper_def)
  have acc: "\<forall>batch x. fst (takes_all batch x) = Inr ()" by (simp add: takes_all_def)
  from accepting_collector_drains [OF takes_all_honest quiet_run [unfolded quiet_boot_def] quiet_logs [unfolded quiet_boot_def] acc due [unfolded quiet_boot_def]]
  obtain n s' x' where "pass empty_object ''1'' takes_all one_line_log 0 9 ''T'' True (quiet_boot None) [] None = Some (n, s', x', Some (sp_cursor s'))"
    "bf_q (sp_buffer s') = []" "\<forall>src \<in> set (effective_sources (''a'', ''b'') (''t'', ''u'') (sf_classes quiet_config)). durable (ls_class src) (sp_cursor s') = where_at (ls_class src) s'"
    unfolding quiet_boot_def by blast
  then show ?thesis by (auto simp: quiet_sources)
qed

end
