(* ===== verification/Feed_Index.thy ===== *)
theory Feed_Index
  imports Text_Lines Text_Numbers Ordered_Map Names
begin

text \<open>
  The texts of \<open>moatd/src/feeds.rs\<close>: the package index (reading, writing, applying a delta), the header
  lines inside a signed text, the operator's lists and the published domain list, and the lookup of a
  name in them. A \<open>BTreeMap\<close> is the sorted list of its entries; a \<open>HashSet\<close> is the list of its elements,
  each once. How the texts get onto the disk is the theory \<open>Feeds\<close>.
\<close>

section \<open>Errors\<close>

text \<open>One constructor per message of the code, with what the message quotes.\<close>

datatype feed_error =
    IndexMalformed nat
  | IndexEmpty
  | DeltaMalformed nat
  | DeltaWithoutSpec nat
  | DeltaUnknownOp nat string
  | RequestFailed string
  | SignatureRequestFailed string
  | NoKeyAvailable
  | ShaMismatch string string
  | GunzipFailed
  | SignatureNotText
  | SignatureNotDecodable
  | SignatureLength
  | BadPublicKey
  | DidNotVerify
  | OlderDomains nat nat
  | OtherDomains nat nat
  | DomainsWithoutSeq
  | DomainsEmpty
  | OtherSeq nat nat
  | WithoutSeq
  | OtherSpan nat nat nat nat
  | WithoutSpan
  | Unreadable string
  | Unwritable string
  | PointerNotRead
  | WrongKeyType string
  | KeyNotDecodable nat
  | InPointer feed_error
  | InDomains feed_error
  | InDelta feed_error
  | InFull feed_error
  | FeedsDisabled
  | NoDirectory string
  | NoPublicKey
  | OtherVersion nat
  | WentBackwards nat nat

section \<open>Lines and fields\<close>

abbreviation tab :: char where "tab \<equiv> CHR 0x09"

definition is_entry :: "string \<Rightarrow> bool" where
  "is_entry l \<longleftrightarrow> l \<noteq> [] \<and> \<not> starts_with l ''#''"

definition count_entries :: "string \<Rightarrow> nat" where
  "count_entries t = length (filter is_entry (lines_of t))"

text \<open>\<open>fields.next().unwrap_or("")\<close>, the \<open>n\<close>-th time.\<close>

definition field :: "nat \<Rightarrow> string list \<Rightarrow> string" where
  "field n fs = (if n < length fs then fs ! n else [])"

definition header_u64 :: "string \<Rightarrow> string \<Rightarrow> nat option" where
  "header_u64 t pre =
     Option.bind (find_map (\<lambda>l. strip_prefix l pre) (takeWhile (\<lambda>l. starts_with l ''#'') (lines_of t)))
       (\<lambda>v. parse_u64 (trim v))"

section \<open>The package index\<close>

type_synonym index = "(string \<times> string) list"

definition index_key :: "string \<Rightarrow> string \<Rightarrow> string" where
  "index_key eco name = eco @ tab # name"

fun index_loop :: "nat \<Rightarrow> index \<Rightarrow> string list \<Rightarrow> feed_error + index" where
  "index_loop n out [] = Inr out"
| "index_loop n out (line # ls) =
     (if \<not> is_entry line then index_loop (Suc n) out ls
      else case splitn 3 tab line of
             [e, nm, s] \<Rightarrow>
               if e \<noteq> [] \<and> nm \<noteq> [] \<and> s \<noteq> [] then index_loop (Suc n) (bt_insert (index_key e nm) s out) ls
               else Inl (IndexMalformed (n + 1))
           | _ \<Rightarrow> Inl (IndexMalformed (n + 1)))"

definition parse_index :: "string \<Rightarrow> feed_error + index" where
  "parse_index t =
     bind_res (index_loop 0 [] (lines_of t)) (\<lambda>out. if out = [] then Inl IndexEmpty else Inr out)"

definition index_line :: "string \<times> string \<Rightarrow> string" where
  "index_line kv = fst kv @ tab # snd kv"

text \<open>The text \<open>write_index\<close> builds, \<open>now\<close> being the stamp of the moment.\<close>

definition index_text :: "string \<Rightarrow> index \<Rightarrow> string" where
  "index_text now ix =
     join_lines ([''# moat-packages v1'', ''# generated '' @ now, ''# entries '' @ show_nat (length ix)]
       @ map index_line ix)"

definition index_remove :: "string \<Rightarrow> index \<Rightarrow> index" where
  "index_remove k ix = filter (\<lambda>kv. fst kv \<noteq> k) ix"

text \<open>The loop of \<open>apply_delta\<close>, with its two counters.\<close>

fun delta_loop :: "nat \<Rightarrow> index \<Rightarrow> nat \<Rightarrow> nat \<Rightarrow> string list \<Rightarrow> feed_error + (index \<times> nat \<times> nat)" where
  "delta_loop n ix added removed [] = Inr (ix, added, removed)"
| "delta_loop n ix added removed (line # ls) =
     (if \<not> is_entry line then delta_loop (Suc n) ix added removed ls
      else let f = split_on tab line; op = field 0 f; eco = field 1 f; name = field 2 f;
               k = index_key eco name in
           if eco = [] \<or> name = [] then Inl (DeltaMalformed (n + 1))
           else if op = ''+'' then
             let spec = field 3 f in
             if spec = [] then Inl (DeltaWithoutSpec (n + 1))
             else delta_loop (Suc n) (bt_insert k spec ix)
                    (if map_of ix k = None then Suc added else added) removed ls
           else if op = ''-'' then
             delta_loop (Suc n) (index_remove k ix) added
               (if map_of ix k = None then removed else Suc removed) ls
           else Inl (DeltaUnknownOp (n + 1) op))"

section \<open>The lists of names\<close>

definition read_set :: "string option \<Rightarrow> string list" where
  "read_set t =
     (case t of None \<Rightarrow> []
      | Some t \<Rightarrow> remdups (filter is_entry (map (\<lambda>l. to_lower (trim l)) (lines_of t))))"

record domain_entry =
  de_family :: string
  de_confidence :: nat
  de_compromised :: bool
  de_first_seen :: string

definition domain_line :: "string \<Rightarrow> (string \<times> domain_entry) option" where
  "domain_line line0 =
     (let line = trim line0 in
      if \<not> is_entry line then None
      else let f = split_on tab line; domain = normalize_name (field 0 f); family = field 1 f in
           if domain = [] then None
           else Some (domain,
             \<lparr> de_family = (if family = [] then ''unknown'' else family),
               de_confidence = (case parse_u8 (field 2 f) of Some n \<Rightarrow> n | None \<Rightarrow> 0),
               de_compromised = (field 3 f = ''c''),
               de_first_seen = field 4 f \<rparr>))"

definition read_domain_feed :: "string option \<Rightarrow> (string \<times> domain_entry) list" where
  "read_domain_feed t =
     (case t of None \<Rightarrow> []
      | Some t \<Rightarrow> fold (\<lambda>(d, e) out. bt_insert d e out) (List.map_filter domain_line (lines_of t)) [])"

definition domain_feed_header :: "string option \<Rightarrow> nat \<times> string option" where
  "domain_feed_header t =
     (case t of None \<Rightarrow> (0, None)
      | Some t \<Rightarrow>
          let head = join_with [newline] (takeWhile (\<lambda>l. starts_with l ''#'') (lines_of t)) in
          (case header_u64 head ''# seq '' of Some n \<Rightarrow> n | None \<Rightarrow> 0,
           map_option trim (find_map (\<lambda>l. strip_prefix l ''# generated '') (lines_of head))))"

section \<open>The cache of the daemon\<close>

record feed_meta =
  fm_updated :: "string option"
  fm_seq :: nat
  fm_packages :: nat
  fm_hashes :: nat
  fm_domains :: nat
  fm_urls :: nat
  fm_domain_feed :: nat
  fm_domain_feed_seq :: nat
  fm_domain_feed_updated :: "string option"

record feeds =
  fs_hashes :: "string list"
  fs_domains :: "string list"
  fs_domain_feed :: "(string \<times> domain_entry) list"
  fs_meta :: feed_meta
  fs_stamp :: "(nat \<times> nat) list option"

definition PACKAGES_FILE :: string where "PACKAGES_FILE = ''packages.txt''"
definition DOMAINS_FEED_FILE :: string where "DOMAINS_FEED_FILE = ''domains-feed.txt''"
definition META_FILE :: string where "META_FILE = ''meta.json''"
definition STATE_FILE :: string where "STATE_FILE = ''state.json''"

text \<open>
  \<open>Feeds::load\<close>: \<open>read\<close> is \<open>read_to_string\<close> in the directory, \<open>json\<close> the JSON reader, \<open>st\<close> what \<open>stamp\<close>
  finds of the files at the moment.
\<close>

definition load_feeds ::
    "(string \<Rightarrow> json option) \<Rightarrow> (string \<Rightarrow> string option) \<Rightarrow> (nat \<times> nat) list option \<Rightarrow> feeds" where
  "load_feeds json read st =
     (let hashes = read_set (read ''hashes.txt'');
          domains = remdups (map normalize_name (read_set (read ''domains.txt'')));
          urls = read_set (read ''urls.txt'');
          feed = read_domain_feed (read DOMAINS_FEED_FILE);
          header = domain_feed_header (read DOMAINS_FEED_FILE);
          meta = Option.bind (read META_FILE) json;
          get = (\<lambda>k. case Option.bind (Option.bind meta (jget k)) as_u64 of Some n \<Rightarrow> n | None \<Rightarrow> 0) in
      \<lparr> fs_hashes = hashes, fs_domains = domains, fs_domain_feed = feed,
        fs_meta =
          \<lparr> fm_updated = Option.bind (Option.bind meta (jget ''updated'')) as_str,
            fm_seq = get ''seq'', fm_packages = get ''packages'', fm_hashes = length hashes,
            fm_domains = length domains, fm_urls = length urls, fm_domain_feed = length feed,
            fm_domain_feed_seq = fst header, fm_domain_feed_updated = snd header \<rparr>,
        fs_stamp = st \<rparr>)"

definition reload_if_changed ::
    "(string \<Rightarrow> json option) \<Rightarrow> (string \<Rightarrow> string option) \<Rightarrow> (nat \<times> nat) list option \<Rightarrow> feeds \<Rightarrow> bool \<times> feeds" where
  "reload_if_changed json read now fs =
     (if now = fs_stamp fs then (False, fs) else (True, load_feeds json read now))"

definition hash_hit :: "feeds \<Rightarrow> string \<Rightarrow> bool" where
  "hash_hit fs sha256 \<longleftrightarrow> to_lower sha256 \<in> set (fs_hashes fs)"

definition domains_known :: "feeds \<Rightarrow> nat" where
  "domains_known fs = length (fs_domains fs) + length (fs_domain_feed fs)"

datatype domain_source = Operator | Feed

fun source_file :: "domain_source \<Rightarrow> string" where
  "source_file Operator = ''feeds/domains.txt''"
| "source_file Feed = ''feeds/domains-feed.txt''"

record domain_hit =
  dh_entry :: string
  dh_source :: domain_source
  dh_info :: "domain_entry option"

definition try_entry :: "feeds \<Rightarrow> string \<Rightarrow> domain_hit option" where
  "try_entry fs cand =
     (if cand \<in> set (fs_domains fs) then Some \<lparr> dh_entry = cand, dh_source = Operator, dh_info = None \<rparr>
      else map_option (\<lambda>info. \<lparr> dh_entry = cand, dh_source = Feed, dh_info = Some info \<rparr>)
             (map_of (fs_domain_feed fs) cand))"

definition labels_of :: "string \<Rightarrow> string list" where
  "labels_of name = filter (\<lambda>l. l \<noteq> []) (split_on CHR ''.'' (normalize_name name))"

definition find_domain :: "feeds \<Rightarrow> string \<Rightarrow> domain_hit option" where
  "find_domain fs name =
     (if fs_domains fs = [] \<and> fs_domain_feed fs = [] then None
      else let labels = labels_of name in
           if length labels < 2 then None
           else find_map (\<lambda>i. try_entry fs (join_with ''.'' (drop i labels))) [0..<length labels - 1])"

definition hit_evidence :: "domain_hit \<Rightarrow> string \<Rightarrow> feed_meta \<Rightarrow> string" where
  "hit_evidence h name meta =
     ''feed: '' @ name @ '' matched entry '' @ dh_entry h @ '' of '' @ source_file (dh_source h)
     @ (case (dh_source h, dh_info h) of
          (Feed, Some i) \<Rightarrow>
            '' ('' @ show_nat (fm_domain_feed meta) @ '' entries''
            @ (case fm_domain_feed_updated meta of Some u \<Rightarrow> '', published '' @ u | None \<Rightarrow> [])
            @ '')''
            @ (if de_family i \<noteq> [] \<and> de_family i \<noteq> ''unknown'' then ''; attributed to '' @ de_family i else [])
            @ (if de_confidence i > 0 then '' at '' @ show_nat (de_confidence i) @ ''% confidence'' else [])
            @ (if de_first_seen i \<noteq> [] then ''; first reported '' @ de_first_seen i else [])
            @ (if de_compromised i
               then ''; reported as a legitimate site that was compromised, not a domain '' @ ''registered to do harm''
               else [])
        | _ \<Rightarrow> '' ('' @ show_nat (fm_domains meta) @ '' entries)'')"

definition hit_matched :: "domain_hit \<Rightarrow> string" where
  "hit_matched h = ''domain:'' @ dh_entry h"


section \<open>Fields and keys\<close>

lemma find_char_sep [simp]: "c \<notin> set a \<Longrightarrow> find_char c (a @ c # b) = Some (length a)"
  by (induction a) auto

lemma find_char_absent: "find_char c s = None \<longleftrightarrow> c \<notin> set s"
  by (induction s) auto

lemma find_char_first: "find_char c s = Some i \<Longrightarrow> s = take i s @ c # drop (Suc i) s \<and> c \<notin> set (take i s)"
  by (induction s arbitrary: i) (auto split: if_splits)

lemma split_once_sep [simp]: "c \<notin> set a \<Longrightarrow> split_once c (a @ c # b) = Some (a, b)"
  by (simp add: split_once_def)

lemma split_once_iff: "split_once c s = Some (a, b) \<longleftrightarrow> s = a @ c # b \<and> c \<notin> set a"
  by (auto simp: split_once_def dest: find_char_first)

text \<open>A key: an ecosystem and a name, neither of them empty or with a tab, the first not a comment.\<close>

definition key_ok :: "string \<Rightarrow> bool" where
  "key_ok k \<longleftrightarrow>
     (case split_once tab k of
        None \<Rightarrow> False
      | Some (e, nm) \<Rightarrow> e \<noteq> [] \<and> nm \<noteq> [] \<and> tab \<notin> set nm \<and> \<not> starts_with e ''#'')"

definition row_ok :: "string \<times> string \<Rightarrow> bool" where
  "row_ok kv \<longleftrightarrow> key_ok (fst kv) \<and> snd kv \<noteq> [] \<and> plain_line (fst kv) \<and> plain_line (index_line kv)"

definition index_ok :: "index \<Rightarrow> bool" where
  "index_ok ix \<longleftrightarrow> bt_sorted ix \<and> list_all row_ok ix"

lemma key_okE:
  assumes "key_ok k"
  obtains e nm where "k = index_key e nm" "e \<noteq> []" "nm \<noteq> []" "tab \<notin> set e" "tab \<notin> set nm" "\<not> starts_with e ''#''"
  using assms that by (auto simp: key_ok_def index_key_def split_once_iff split: option.splits prod.splits)

lemma key_okI:
  "e \<noteq> [] \<Longrightarrow> nm \<noteq> [] \<Longrightarrow> tab \<notin> set e \<Longrightarrow> tab \<notin> set nm \<Longrightarrow> \<not> starts_with e ''#'' \<Longrightarrow> key_ok (index_key e nm)"
  by (simp add: key_ok_def index_key_def)

lemma comment_append: "e \<noteq> [] \<Longrightarrow> starts_with (e @ s) ''#'' \<longleftrightarrow> starts_with e ''#''"
  by (cases e) auto

section \<open>Reading what was written\<close>

lemma splitn_row: "tab \<notin> set e \<Longrightarrow> tab \<notin> set nm \<Longrightarrow> splitn 3 tab (index_line (index_key e nm, v)) = [e, nm, v]"
  by (simp add: index_line_def index_key_def numeral_3_eq_3)

lemma index_loop_row:
  assumes "row_ok kv"
  shows "index_loop n out (index_line kv # ls) = index_loop (Suc n) (bt_insert (fst kv) (snd kv) out) ls"
proof -
  obtain k v where kv: "kv = (k, v)" by (cases kv)
  with assms have "key_ok k" and v: "v \<noteq> []" by (auto simp: row_ok_def)
  from this(1) obtain e nm where k: "k = index_key e nm" "e \<noteq> []" "nm \<noteq> []" "tab \<notin> set e" "tab \<notin> set nm"
      "\<not> starts_with e ''#''" by (rule key_okE)
  then have "is_entry (index_line kv)"
    by (simp add: kv is_entry_def index_line_def index_key_def comment_append)
  with k v show ?thesis by (simp add: kv splitn_row)
qed

lemma bt_insert_last: "\<forall>kv \<in> set out. fst kv < k \<Longrightarrow> bt_insert k v out = out @ [(k, v)]"
  by (induction out) (auto simp: not_less_iff_gr_or_eq)

lemma index_loop_rows: "bt_sorted (out @ ix) \<Longrightarrow> list_all row_ok ix \<Longrightarrow>
    index_loop n out (map index_line ix) = Inr (out @ ix)"
proof (induction ix arbitrary: n out)
  case (Cons kv ix)
  from Cons.prems(1) have "\<forall>x \<in> set out. fst x < fst kv" by (auto simp: bt_sorted_def sorted_wrt_append)
  then have "bt_insert (fst kv) (snd kv) out = out @ [kv]" by (simp add: bt_insert_last)
  moreover have "bt_sorted ((out @ [kv]) @ ix)" "list_all row_ok ix" "row_ok kv" using Cons.prems by simp_all
  ultimately show ?case using Cons.IH [of "out @ [kv]" "Suc n"]
    by (simp add: index_loop_row del: index_loop.simps(2))
qed simp

lemma index_loop_comments: "list_all (\<lambda>l. \<not> is_entry l) cs \<Longrightarrow>
    index_loop n out (cs @ ls) = index_loop (n + length cs) out ls"
  by (induction cs arbitrary: n) auto

lemma plain_number [simp]: "plain_line (show_nat n)"
proof -
  have "\<not> is_digit newline" "\<not> is_digit cr" by (simp_all add: is_digit_def)
  then have "\<forall>c \<in> set (show_nat n). c \<noteq> newline \<and> c \<noteq> cr"
    using digits_show_nat [of _ n] by metis
  moreover have "last (show_nat n) \<in> set (show_nat n)" by simp
  ultimately show ?thesis by (auto simp: plain_line_def)
qed

lemma plain_label: "newline \<notin> set a \<Longrightarrow> plain_line s \<Longrightarrow> s \<noteq> [] \<Longrightarrow> plain_line (a @ s)"
  by (auto simp: plain_line_def)

text \<open>C40: What \<open>write_index\<close> writes reads back as the same index, for every index of well-formed rows.\<close>

theorem written_index_reads_back:
  assumes "index_ok ix" and "ix \<noteq> []" and "plain_line now" and "now \<noteq> []"
  shows "parse_index (index_text now ix) = Inr ix"
proof -
  let ?head = "[''# moat-packages v1'', ''# generated '' @ now, ''# entries '' @ show_nat (length ix)]"
  have "plain_line (''# generated '' @ now)" "plain_line (''# entries '' @ show_nat (length ix))"
    by (rule plain_label, simp, use assms in simp, use assms in simp)
      (rule plain_label, simp, simp, simp)
  moreover have "list_all plain_line (map index_line ix)"
    using assms(1) by (auto simp: index_ok_def row_ok_def list_all_iff)
  ultimately have "list_all plain_line (?head @ map index_line ix)" by (simp add: plain_line_def)
  then have "lines_of (index_text now ix) = ?head @ map index_line ix"
    unfolding index_text_def by (rule lines_of_join_lines)
  moreover have "index_loop 0 [] (?head @ map index_line ix) = index_loop (0 + length ?head) [] (map index_line ix)"
    by (rule index_loop_comments) (simp add: is_entry_def)
  moreover have "index_loop (0 + length ?head) [] (map index_line ix) = Inr ([] @ ix)"
    using assms(1) by (intro index_loop_rows) (auto simp: index_ok_def)
  ultimately show ?thesis using assms(2) by (simp add: parse_index_def)
qed


lemma written_index_reads_back_witness:
  "parse_index (index_text ''now'' [(''npm'' @ tab # ''a'', ''*''), (''npm'' @ tab # ''b'', ''1.0'')])
   = Inr [(''npm'' @ tab # ''a'', ''*''), (''npm'' @ tab # ''b'', ''1.0'')]"
  by (rule written_index_reads_back) code_simp+

section \<open>What is read is well-formed\<close>

lemma splitn_three: "splitn 3 tab l = [e, nm, v] \<Longrightarrow> l = index_line (index_key e nm, v) \<and> tab \<notin> set e \<and> tab \<notin> set nm"
  by (auto simp: numeral_3_eq_3 split_once_iff index_line_def index_key_def split: option.splits prod.splits)

lemma index_loop_ok:
  assumes "index_loop n out ls = Inr ix" and "index_ok out"
    and "list_all (\<lambda>l. plain_line l \<and> cr \<notin> set l) ls"
  shows "index_ok ix"
  using assms
proof (induction ls arbitrary: n out)
  case (Cons l ls)
  show ?case
  proof (cases "is_entry l")
    case False
    with Cons show ?thesis by simp
  next
    case True
    with Cons.prems(1) obtain e nm v where f: "splitn 3 tab l = [e, nm, v]" "e \<noteq> []" "nm \<noteq> []" "v \<noteq> []"
        and rest: "index_loop (Suc n) (bt_insert (index_key e nm) v out) ls = Inr ix"
      by (auto split: list.splits if_splits)
    note l = splitn_three [OF f(1)]
    with True f(2) have "\<not> starts_with e ''#''"
      by (simp add: is_entry_def index_line_def index_key_def comment_append)
    moreover have "plain_line l" "cr \<notin> set l" using Cons.prems(3) by simp_all
    moreover from this l have "plain_line (index_key e nm)"
      by (auto simp: plain_line_def index_line_def index_key_def split: if_splits dest: last_in_set)
    ultimately have "row_ok (index_key e nm, v)" using l f by (simp add: row_ok_def key_okI)
    then have "index_ok (bt_insert (index_key e nm) v out)"
      using Cons.prems(2) set_bt_insert [of "index_key e nm" v out]
      by (auto simp: index_ok_def list_all_iff)
    with rest Cons show ?thesis by simp
  qed
qed simp

lemma lines_of_cr_free: "cr \<notin> set t \<Longrightarrow> list_all (\<lambda>l. plain_line l \<and> cr \<notin> set l) (lines_of t)"
proof -
  assume cr: "cr \<notin> set t"
  have "cr \<notin> set l" if "l \<in> set (split_on newline t)" for l using split_on_sub [OF that] cr by blast
  then have "cr \<notin> set l" if "l \<in> set (lines_of t)" for l
    using that by (fastforce simp: lines_of_def Let_def strip_cr_def dest: in_set_butlastD split: if_splits)
  with lines_of_plain [OF cr] show ?thesis by (auto simp: list_all_iff)
qed

text \<open>C39: An index is well-typed once it is read: from any text without carriage returns \<open>parse_index\<close>
  answers an error or a sorted, non-empty index of well-formed rows.\<close>

theorem every_read_index_is_well_formed:
  assumes "parse_index t = Inr ix" and "cr \<notin> set t"
  shows "index_ok ix \<and> ix \<noteq> []"
proof -
  from assms(1) have loop: "index_loop 0 [] (lines_of t) = Inr ix" and ne: "ix \<noteq> []"
    by (auto simp: parse_index_def bind_res_Inr split: if_splits)
  have "index_ok []" by (simp add: index_ok_def)
  from index_loop_ok [OF loop this lines_of_cr_free [OF assms(2)]] have "index_ok ix" .
  with ne show ?thesis by simp
qed

lemma every_read_index_is_well_formed_witness:
  "index_ok [(''npm'' @ tab # ''a'', ''2'')] \<and> [(''npm'' @ tab # ''a'', ''2'')] \<noteq> []"
proof (rule every_read_index_is_well_formed)
  show "parse_index (join_lines [''# c'', ''npm'' @ tab # ''a'' @ tab # ''1'', ''npm'' @ tab # ''a'' @ tab # ''2''])
      = Inr [(''npm'' @ tab # ''a'', ''2'')]" by code_simp
  show "cr \<notin> set (join_lines [''# c'', ''npm'' @ tab # ''a'' @ tab # ''1'', ''npm'' @ tab # ''a'' @ tab # ''2''])"
    by code_simp
qed

section \<open>Deltas\<close>

text \<open>A delta as operations on a finite map from keys to what they are set to.\<close>

datatype index_op = Put string string | Del string

fun op_key :: "index_op \<Rightarrow> string" where
  "op_key (Put k v) = k"
| "op_key (Del k) = k"

fun op_value :: "index_op \<Rightarrow> string option" where
  "op_value (Put k v) = Some v"
| "op_value (Del k) = None"

definition apply_ops :: "(string \<Rightarrow> string option) \<Rightarrow> index_op list \<Rightarrow> string \<Rightarrow> string option" where
  "apply_ops m ops = foldl (\<lambda>m p. m (op_key p := op_value p)) m ops"

lemma apply_ops_simps [simp]:
  "apply_ops m [] = m" "apply_ops m (p # ops) = apply_ops (m (op_key p := op_value p)) ops"
  by (simp_all add: apply_ops_def)

definition line_op :: "string \<Rightarrow> index_op option" where
  "line_op l =
     (if \<not> is_entry l then None
      else let f = split_on tab l; k = index_key (field 1 f) (field 2 f) in
           Some (if field 0 f = ''+'' then Put k (field 3 f) else Del k))"

lemma bt_sorted_remove [simp]: "bt_sorted ix \<Longrightarrow> bt_sorted (index_remove k ix)"
  by (induction ix) (auto simp: bt_sorted_def index_remove_def)

lemma map_of_remove [simp]: "map_of (index_remove k ix) = (map_of ix)(k := None)"
  by (induction ix) (auto simp: index_remove_def)

lemma length_bt_insert: "bt_sorted ix \<Longrightarrow>
    length (bt_insert k v ix) = (if map_of ix k = None then Suc (length ix) else length ix)"
proof (induction k v ix rule: bt_insert.induct)
  case (2 k v k' v' ix)
  have "k < k' \<Longrightarrow> map_of ix k = None" using 2(2) by (force simp: bt_sorted_def map_of_eq_None_iff)
  with 2 show ?case by (auto simp: bt_sorted_def)
qed simp

lemma length_remove: "bt_sorted ix \<Longrightarrow>
    length (index_remove k ix) + (if map_of ix k = None then 0 else 1) = length ix"
proof (induction ix)
  case (Cons kv ix)
  have "fst kv = k \<Longrightarrow> filter (\<lambda>kv. fst kv \<noteq> k) ix = ix"
    using Cons.prems by (auto simp: bt_sorted_def intro!: filter_True)
  with Cons show ?case by (cases kv) (auto simp: bt_sorted_def index_remove_def)
qed (simp add: index_remove_def)

text \<open>The loop does what the lines say: the result is the index with the operations applied as to a map, and
  its two counters are the rows gained and lost.\<close>

lemma delta_loop_meaning:
  assumes "delta_loop n ix a r ls = Inr (ix', a', r')" and "bt_sorted ix"
  shows "bt_sorted ix' \<and> map_of ix' = apply_ops (map_of ix) (List.map_filter line_op ls)
    \<and> length ix' + r' + a = length ix + a' + r"
  using assms
proof (induction ls arbitrary: n ix a r)
  case (Cons l ls)
  let ?f = "split_on tab l"
  let ?k = "index_key (field 1 ?f) (field 2 ?f)"
  note loop = Cons.prems(1)
  consider (skip) "\<not> is_entry l" | (put) "is_entry l" "field 0 ?f = ''+''" | (del) "is_entry l" "field 0 ?f = ''-''"
    using loop by (auto simp: Let_def split: if_splits)
  then show ?case
  proof cases
    case skip
    with loop have "delta_loop (Suc n) ix a r ls = Inr (ix', a', r')" by simp
    moreover have "line_op l = None" using skip by (simp add: line_op_def)
    ultimately show ?thesis using Cons.IH Cons.prems(2) by (simp add: List.map_filter_simps)
  next
    case put
    with loop have loop1: "delta_loop (Suc n) (bt_insert ?k (field 3 ?f) ix)
        (if map_of ix ?k = None then Suc a else a) r ls = Inr (ix', a', r')"
      by (auto simp: Let_def split: if_splits)
    moreover have "line_op l = Some (Put ?k (field 3 ?f))" using put by (simp add: line_op_def Let_def)
    ultimately show ?thesis using Cons.IH [OF loop1] Cons.prems(2)
      by (auto simp: List.map_filter_simps length_bt_insert fun_upd_def split: if_splits)
  next
    case del
    with loop have loop1: "delta_loop (Suc n) (index_remove ?k ix) a
        (if map_of ix ?k = None then r else Suc r) ls = Inr (ix', a', r')"
      by (auto simp: Let_def split: if_splits)
    moreover have "line_op l = Some (Del ?k)" using del by (simp add: line_op_def Let_def)
    ultimately show ?thesis
      using Cons.IH [OF loop1] Cons.prems(2) length_remove [OF Cons.prems(2), of ?k]
      by (auto simp: List.map_filter_simps fun_upd_def split: if_splits)
  qed
qed simp

section \<open>What the aggregator publishes\<close>

text \<open>The text of a delta, \<open>deltaLines\<close> of \<open>aggregator/src/delta.js\<close>; where its operations come from is the theory
  \<open>Feed_Publish\<close>.\<close>

fun op_line :: "index_op \<Rightarrow> string" where
  "op_line (Put k v) = ''+'' @ tab # k @ tab # v"
| "op_line (Del k) = ''-'' @ tab # k"

definition delta_text :: "nat \<Rightarrow> nat \<Rightarrow> index_op list \<Rightarrow> string" where
  "delta_text from_seq to_seq ops =
     join_lines ([''# moat-packages-delta v1'', ''# from '' @ show_nat from_seq, ''# to '' @ show_nat to_seq]
       @ map op_line ops)"

definition op_ok :: "index_op \<Rightarrow> bool" where
  "op_ok p \<longleftrightarrow> key_ok (op_key p) \<and> plain_line (op_line p)
     \<and> (case op_value p of Some v \<Rightarrow> v \<noteq> [] \<and> tab \<notin> set v | None \<Rightarrow> True)"

lemma split_key:
  assumes "key_ok k"
  obtains e nm where "k = index_key e nm" "e \<noteq> []" "nm \<noteq> []" "split_on tab k = [e, nm]"
    "\<And>v. tab \<notin> set v \<Longrightarrow> split_on tab (k @ tab # v) = [e, nm, v]"
proof -
  from assms obtain e nm where k: "k = index_key e nm" "e \<noteq> []" "nm \<noteq> []" "tab \<notin> set e" "tab \<notin> set nm"
    by (rule key_okE)
  show thesis by (rule that [OF k(1-3)]) (simp_all add: k index_key_def)
qed

lemma op_line_step:
  assumes "op_ok p"
  shows "line_op (op_line p) = Some p"
    and "\<exists>ix' a' r'. delta_loop n ix a r (op_line p # ls) = delta_loop (Suc n) ix' a' r' ls"
proof -
  have "key_ok (op_key p)" using assms by (simp add: op_ok_def)
  then obtain e nm where k: "op_key p = index_key e nm" "e \<noteq> []" "nm \<noteq> []" "split_on tab (op_key p) = [e, nm]"
      "\<And>v. tab \<notin> set v \<Longrightarrow> split_on tab (op_key p @ tab # v) = [e, nm, v]"
    by (rule split_key) blast
  have entry: "is_entry (op_line p)" by (cases p) (simp_all add: is_entry_def)
  show "line_op (op_line p) = Some p"
    and "\<exists>ix' a' r'. delta_loop n ix a r (op_line p # ls) = delta_loop (Suc n) ix' a' r' ls"
  proof (atomize (full), cases p)
    case (Put k v)
    then have f: "split_on tab (op_line p) = [''+'', e, nm, v]" and "v \<noteq> []"
      using k assms by (auto simp: op_ok_def)
    then show "line_op (op_line p) = Some p
      \<and> (\<exists>ix' a' r'. delta_loop n ix a r (op_line p # ls) = delta_loop (Suc n) ix' a' r' ls)"
      using k entry Put unfolding line_op_def delta_loop.simps f
      by (simp add: field_def Let_def) blast
  next
    case (Del k)
    then have f: "split_on tab (op_line p) = [''-'', e, nm]" using k by simp
    then show "line_op (op_line p) = Some p
      \<and> (\<exists>ix' a' r'. delta_loop n ix a r (op_line p # ls) = delta_loop (Suc n) ix' a' r' ls)"
      using k entry Del unfolding line_op_def delta_loop.simps f
      by (simp add: field_def Let_def) blast
  qed
qed

lemma delta_loop_ops: "list_all op_ok ops \<Longrightarrow> \<exists>ix' a' r'. delta_loop n ix a r (map op_line ops) = Inr (ix', a', r')"
proof (induction ops arbitrary: n ix a r)
  case (Cons p ops)
  then have "op_ok p" by simp
  from op_line_step(2) [OF this, of n ix a r "map op_line ops"] Cons show ?case
    by (auto simp del: delta_loop.simps(2))
qed simp

lemma line_ops_of_ops: "list_all op_ok ops \<Longrightarrow> List.map_filter line_op (map op_line ops) = ops"
  by (induction ops) (simp_all add: List.map_filter_simps op_line_step(1))

lemma apply_ops_other: "k \<notin> op_key ` set ops \<Longrightarrow> apply_ops m ops k = m k"
  by (induction ops arbitrary: m) auto

lemma apply_ops_in:
  assumes "\<forall>p \<in> set ops. \<forall>q \<in> set ops. op_key p = op_key q \<longrightarrow> op_value p = op_value q" and "p \<in> set ops"
  shows "apply_ops m ops (op_key p) = op_value p"
  using assms
proof (induction ops arbitrary: m p)
  case (Cons q ops)
  show ?case
  proof (cases "op_key p \<in> op_key ` set ops")
    case True
    then obtain p' where p': "p' \<in> set ops" "op_key p = op_key p'" by blast
    have "op_value p = op_value p'" using Cons.prems p' by (meson list.set_intros(2))
    moreover have "\<forall>p \<in> set ops. \<forall>q \<in> set ops. op_key p = op_key q \<longrightarrow> op_value p = op_value q"
      using Cons.prems(1) by (meson list.set_intros(2))
    then have "apply_ops (m (op_key q := op_value q)) ops (op_key p') = op_value p'"
      by (rule Cons.IH) (rule p'(1))
    ultimately show ?thesis using p'(2) by simp
  next
    case False
    with Cons.prems have "op_key p = op_key q" "op_value p = op_value q" by auto
    with False show ?thesis by (simp add: apply_ops_other)
  qed
qed simp

lemma bt_sorted_unique:
  assumes "bt_sorted m" and "bt_sorted m'" and "map_of m = map_of m'"
  shows "m = m'"
proof (rule map_sorted_distinct_set_unique [of fst])
  show "set m = set m'" using assms bt_sorted_entry by (metis (no_types) prod.exhaust set_eqI subset_antisym subrelI)
  show "inj_on fst (set m \<union> set m')"
    using assms bt_sorted_distinct [of m] \<open>set m = set m'\<close> by (simp add: distinct_map)
  show "sorted (map fst m)" "distinct (map fst m)" "sorted (map fst m')" "distinct (map fst m')"
    using assms by (auto simp: bt_sorted_def strict_sorted_iff)
qed

lemma index_ok_rows: "index_ok ix \<Longrightarrow> (k, v) \<in> set ix \<Longrightarrow> key_ok k \<and> v \<noteq> [] \<and> plain_line k \<and> plain_line (index_line (k, v))"
  by (auto simp: index_ok_def row_ok_def list_all_iff)

lemma header_line:
  assumes "n < 2 ^ 64" and "\<forall>c \<in> set pre. c \<noteq> newline" and "list_all (\<lambda>l. starts_with l ''#'' \<and> \<not> starts_with l pre) hs"
    and "list_all plain_line hs" and "starts_with pre ''#''"
  shows "header_u64 (join_lines (hs @ [pre @ show_nat n]) @ s) pre = Some n"
proof -
  have "plain_line (pre @ show_nat n)" by (rule plain_label) (use assms(2) in auto)
  with assms(4) have "lines_of (join_lines (hs @ [pre @ show_nat n]) @ s) = (hs @ [pre @ show_nat n]) @ lines_of s"
    by (intro lines_of_join_lines_append) simp
  moreover have "starts_with (pre @ show_nat n) ''#''" using assms(5) by (cases pre) auto
  then have "takeWhile (\<lambda>l. starts_with l ''#'') ((hs @ [pre @ show_nat n]) @ lines_of s)
      = hs @ (pre @ show_nat n) # takeWhile (\<lambda>l. starts_with l ''#'') (lines_of s)"
    using assms(3) by (induction hs) auto
  moreover have "find_map (\<lambda>l. strip_prefix l pre) (hs @ (pre @ show_nat n) # ls) = Some (show_nat n)" for ls
    using assms(3) by (induction hs) (auto simp: strip_prefix_def)
  moreover have "trim (show_nat n) = show_nat n"
    by (rule trim_free) (auto dest!: digits_show_nat simp: is_digit_def is_white_def)
  ultimately show ?thesis using assms(1) by (simp add: header_u64_def parse_show_nat)
qed

lemma header_of_delta:
  assumes "from_seq < 2 ^ 64" and "to_seq < 2 ^ 64"
  shows "header_u64 (delta_text from_seq to_seq ops) ''# from '' = Some from_seq"
    and "header_u64 (delta_text from_seq to_seq ops) ''# to '' = Some to_seq"
proof -
  let ?v = "''# moat-packages-delta v1''"
  have "delta_text from_seq to_seq ops = join_lines ([?v] @ [''# from '' @ show_nat from_seq])
      @ join_lines ((''# to '' @ show_nat to_seq) # map op_line ops)"
    by (simp add: delta_text_def)
  moreover have "header_u64 (join_lines ([?v] @ [''# from '' @ show_nat from_seq]) @ s) ''# from '' = Some from_seq" for s
    by (rule header_line) (use assms in \<open>simp_all add: plain_line_def\<close>)
  ultimately show "header_u64 (delta_text from_seq to_seq ops) ''# from '' = Some from_seq" by simp
next
  let ?v = "''# moat-packages-delta v1''" and ?f = "''# from '' @ show_nat from_seq"
  have "plain_line ?f" by (rule plain_label) simp_all
  then have "header_u64 (join_lines ([?v, ?f] @ [''# to '' @ show_nat to_seq]) @ s) ''# to '' = Some to_seq" for s
    by (intro header_line) (use assms in \<open>simp_all add: plain_line_def\<close>)
  then show "header_u64 (delta_text from_seq to_seq ops) ''# to '' = Some to_seq"
    by (simp add: delta_text_def)
qed

section \<open>The most specific entry\<close>

text \<open>An entry covers a name when it is the name or a parent of it.\<close>

definition covers :: "string \<Rightarrow> string \<Rightarrow> bool" where
  "covers e name \<longleftrightarrow> e = name \<or> ends_with name (CHR ''.'' # e)"

definition listed :: "feeds \<Rightarrow> string \<Rightarrow> bool" where
  "listed fs e \<longleftrightarrow> e \<in> set (fs_domains fs) \<or> map_of (fs_domain_feed fs) e \<noteq> None"

definition dot_free :: "string list \<Rightarrow> bool" where
  "dot_free ls \<longleftrightarrow> list_all (\<lambda>l. CHR ''.'' \<notin> set l) ls"

lemma suffix_past: "c \<notin> set l \<Longrightarrow> suffix (c # e) (l @ s) \<longleftrightarrow> suffix (c # e) s"
  by (induction l) (auto simp: suffix_Cons)

lemma covers_labels: "dot_free ls \<Longrightarrow> ls \<noteq> [] \<Longrightarrow>
    covers e (join_with ''.'' ls) \<longleftrightarrow> (\<exists>i < length ls. e = join_with ''.'' (drop i ls))"
proof (induction ls)
  case (Cons l ls)
  show ?case
  proof (cases "ls = []")
    case True
    have "\<not> suffix (CHR ''.'' # e) l" using Cons.prems(1) by (auto simp: suffix_def dot_free_def)
    with True show ?thesis by (auto simp: covers_def)
  next
    case False
    have dot: "CHR ''.'' \<notin> set l" using Cons.prems(1) by (simp add: dot_free_def)
    have "ends_with (join_with ''.'' (l # ls)) (CHR ''.'' # e) \<longleftrightarrow> covers e (join_with ''.'' ls)"
      using False dot by (simp add: join_with_Cons suffix_past suffix_Cons covers_def)
    also have "\<dots> \<longleftrightarrow> (\<exists>i < length ls. e = join_with ''.'' (drop i ls))"
      using Cons False by (simp add: dot_free_def)
    finally have "covers e (join_with ''.'' (l # ls)) \<longleftrightarrow>
        e = join_with ''.'' (l # ls) \<or> (\<exists>i < length ls. e = join_with ''.'' (drop i ls))"
      by (auto simp: covers_def)
    then show ?thesis by (simp only: length_Cons Ex_less_Suc2 drop_0 drop_Suc_Cons)
  qed
qed simp

lemma dot_in_join: "dot_free ls \<Longrightarrow> CHR ''.'' \<in> set (join_with ''.'' ls) \<longleftrightarrow> 2 \<le> length ls"
  by (induction "''.''" ls rule: join_with.induct) (auto simp: dot_free_def)

lemma length_join_drop: "i \<le> j \<Longrightarrow> length (join_with c (drop j ls)) \<le> length (join_with c (drop i ls))"
proof (induction ls arbitrary: i j)
  case (Cons l ls)
  have step: "length (join_with c ls) \<le> length (join_with c (l # ls))" by (cases ls) auto
  show ?case
  proof (cases i)
    case 0
    show ?thesis
    proof (cases j)
      case (Suc k)
      have "length (join_with c (drop k ls)) \<le> length (join_with c (drop 0 ls))" by (rule Cons.IH) simp
      with step 0 Suc show ?thesis by simp
    qed (simp add: 0)
  next
    case (Suc k)
    with Cons.prems obtain k' where "j = Suc k'" "k \<le> k'" by (cases j) auto
    with Suc Cons.IH show ?thesis by simp
  qed
qed simp

lemma find_map_upt: "find_map f [m..<n] = Some y \<Longrightarrow> \<exists>i. m \<le> i \<and> i < n \<and> f i = Some y \<and> (\<forall>j. m \<le> j \<and> j < i \<longrightarrow> f j = None)"
proof (induction "n - m" arbitrary: m)
  case (Suc k)
  then have mn: "m < n" by simp
  show ?case
  proof (cases "f m")
    case None
    with Suc.prems mn have "find_map f [Suc m..<n] = Some y" by (simp add: upt_conv_Cons)
    moreover have "k = n - Suc m" using Suc(2) by simp
    ultimately obtain i where "Suc m \<le> i" "i < n" "f i = Some y" "\<forall>j. Suc m \<le> j \<and> j < i \<longrightarrow> f j = None"
      using Suc(1) by blast
    then show ?thesis using None by (metis Suc_leD le_antisym not_less_eq_eq)
  next
    case (Some z)
    with Suc.prems mn show ?thesis by (auto simp: upt_conv_Cons)
  qed
qed simp

lemma try_entry_None: "try_entry fs c = None \<longleftrightarrow> \<not> listed fs c"
  by (simp add: try_entry_def listed_def)

lemma try_entry_Some: "try_entry fs c = Some h \<Longrightarrow>
    listed fs c \<and> dh_entry h = c \<and> (dh_source h = Operator \<longleftrightarrow> c \<in> set (fs_domains fs))
    \<and> dh_info h = (if dh_source h = Operator then None else map_of (fs_domain_feed fs) c)"
  by (auto simp: try_entry_def listed_def split: if_splits)

lemma labels_dot_free: "dot_free (labels_of name)"
  using split_on_free by (auto simp: dot_free_def labels_of_def list_all_iff)

lemma find_domain_loop: "find_domain fs name =
    find_map (\<lambda>i. try_entry fs (join_with ''.'' (drop i (labels_of name)))) [0..<length (labels_of name) - 1]"
proof (cases "fs_domains fs = [] \<and> fs_domain_feed fs = []")
  case True
  then have "try_entry fs c = None" for c by (simp add: try_entry_def)
  then have "find_map (\<lambda>i. try_entry fs (join_with ''.'' (drop i (labels_of name)))) [0..<length (labels_of name) - 1] = None"
    by (simp add: find_map_None)
  with True show ?thesis by (simp add: find_domain_def)
qed (auto simp: find_domain_def Let_def)

text \<open>The lists as a whole: the name, with its empty labels dropped, is covered by an entry of two labels.\<close>

lemma covered_at:
  assumes "ls = labels_of name" and "CHR ''.'' \<in> set e"
  shows "covers e (join_with ''.'' ls) \<longleftrightarrow> (\<exists>i < length ls - 1. e = join_with ''.'' (drop i ls))"
proof -
  have df: "dot_free ls" using assms(1) labels_dot_free by simp
  have "dot_free (drop i ls)" for i using df by (auto simp: dot_free_def list_all_iff dest: in_set_dropD)
  then have two: "2 \<le> length ls - i" if "e = join_with ''.'' (drop i ls)" for i
    using assms(2) that dot_in_join [of "drop i ls"] by simp
  show ?thesis
  proof (cases "ls = []")
    case True
    with assms(2) show ?thesis by (auto simp: covers_def)
  next
    case False
    have "i < length ls - 1" if "e = join_with ''.'' (drop i ls)" for i using two [OF that] by simp
    then have "(\<exists>i < length ls. e = join_with ''.'' (drop i ls)) \<longleftrightarrow> (\<exists>i < length ls - 1. e = join_with ''.'' (drop i ls))"
      by (blast intro: less_le_trans [OF _ diff_le_self])
    then show ?thesis by (simp only: covers_labels [OF df False])
  qed
qed

lemma find_domain_None: "find_domain fs name = None \<longleftrightarrow>
    \<not> (\<exists>e. listed fs e \<and> CHR ''.'' \<in> set e \<and> covers e (join_with ''.'' (labels_of name)))"
proof -
  let ?ls = "labels_of name"
  have dot: "CHR ''.'' \<in> set (join_with ''.'' (drop i ?ls))" if "i < length ?ls - 1" for i
  proof -
    have "dot_free (drop i ?ls)"
      using labels_dot_free [of name] by (auto simp: dot_free_def list_all_iff dest: in_set_dropD)
    with that show ?thesis by (simp add: dot_in_join)
  qed
  note cov = covered_at [OF refl, of _ name]
  have "(\<exists>e. listed fs e \<and> CHR ''.'' \<in> set e \<and> covers e (join_with ''.'' ?ls))
      \<longleftrightarrow> (\<exists>i < length ?ls - 1. listed fs (join_with ''.'' (drop i ?ls)))" (is "?L \<longleftrightarrow> ?R")
  proof
    assume ?L
    then obtain e where "listed fs e" "CHR ''.'' \<in> set e" "covers e (join_with ''.'' ?ls)" by blast
    then show ?R using cov by blast
  next
    assume ?R
    then obtain i where "i < length ?ls - 1" "listed fs (join_with ''.'' (drop i ?ls))" by blast
    then show ?L using dot cov by blast
  qed
  then have "?L \<longleftrightarrow> (\<exists>i \<in> set [0..<length ?ls - 1]. listed fs (join_with ''.'' (drop i ?ls)))"
    by (simp add: Bex_def)
  then show ?thesis unfolding find_domain_loop find_map_None try_entry_None by blast
qed

text \<open>C38: The entry an alert names is the most specific one: it is listed, it covers the name (the name itself or
  a parent of it, of two labels or more), no listed entry that covers the name is longer, and it is called
  the operator's exactly when the operator's file has it. There is no answer exactly when no entry of two
  labels covers the name.\<close>

theorem most_specific_entry_is_named:
  "case find_domain fs name of
     None \<Rightarrow> \<not> (\<exists>e. listed fs e \<and> CHR ''.'' \<in> set e \<and> covers e (join_with ''.'' (labels_of name)))
   | Some h \<Rightarrow>
       listed fs (dh_entry h) \<and> CHR ''.'' \<in> set (dh_entry h) \<and> covers (dh_entry h) (join_with ''.'' (labels_of name))
       \<and> (dh_source h = Operator \<longleftrightarrow> dh_entry h \<in> set (fs_domains fs))
       \<and> dh_info h = (if dh_source h = Operator then None else map_of (fs_domain_feed fs) (dh_entry h))
       \<and> \<not> (\<exists>e. listed fs e \<and> CHR ''.'' \<in> set e \<and> covers e (join_with ''.'' (labels_of name))
              \<and> length e > length (dh_entry h))"
proof (cases "find_domain fs name")
  case None
  with find_domain_None [THEN iffD1, OF None] show ?thesis by (simp only: None option.case not_False_eq_True)
next
  case (Some h)
  let ?ls = "labels_of name"
  let ?at = "\<lambda>i. join_with ''.'' (drop i ?ls)"
  from Some have "find_map (\<lambda>i. try_entry fs (?at i)) [0..<length ?ls - 1] = Some h"
    by (simp only: find_domain_loop)
  then have "\<exists>i. 0 \<le> i \<and> i < length ?ls - 1 \<and> try_entry fs (?at i) = Some h
      \<and> (\<forall>j. 0 \<le> j \<and> j < i \<longrightarrow> try_entry fs (?at j) = None)" by (rule find_map_upt)
  then obtain i where i: "i < length ?ls - 1" "try_entry fs (?at i) = Some h"
      "\<And>j. j < i \<Longrightarrow> try_entry fs (?at j) = None" by auto
  note h = try_entry_Some [OF i(2)]
  have "dot_free (drop i ?ls)"
    using labels_dot_free [of name] by (auto simp: dot_free_def list_all_iff dest: in_set_dropD)
  with i(1) have dot: "CHR ''.'' \<in> set (dh_entry h)" using h by (simp add: dot_in_join)
  have short: "length e \<le> length (dh_entry h)"
    if "listed fs e" "CHR ''.'' \<in> set e" "covers e (join_with ''.'' ?ls)" for e
  proof -
    from that covered_at [OF refl] obtain j where j: "e = ?at j" by blast
    with that(1) i(3) have "i \<le> j" by (meson try_entry_None not_le_imp_less)
    with j h show ?thesis by (simp add: length_join_drop)
  qed
  have cov: "covers (dh_entry h) (join_with ''.'' ?ls)" using covered_at [OF refl dot] i(1) h by blast
  from short have "\<not> (\<exists>e. listed fs e \<and> CHR ''.'' \<in> set e \<and> covers e (join_with ''.'' ?ls)
      \<and> length e > length (dh_entry h))" by (meson not_le)
  with h dot cov Some show ?thesis by simp
qed

text \<open>An operator's entry for the parent does not keep the feed's entry for the name from being the one named.\<close>

lemma feed_can_win_over_the_operator:
  "map_option (\<lambda>h. (dh_entry h, dh_source h))
     (find_domain \<lparr> fs_hashes = [], fs_domains = [''evil.example''],
        fs_domain_feed = [(''cdn.evil.example'', \<lparr> de_family = ''unknown'', de_confidence = 0,
          de_compromised = False, de_first_seen = [] \<rparr>)],
        fs_meta = fm, fs_stamp = None \<rparr> ''CDN.evil.example.'')
   = Some (''cdn.evil.example'', Feed)"
  by code_simp

end
