(* ===== verification/Feeds.thy ===== *)
theory Feeds
  imports Feed_Index
begin

text \<open>
  The client of the feeds (\<open>refresh\<close> of \<open>moatd/src/feeds.rs\<close>): one tick of the timer fetches the pointer,
  the domain list and the package index, verifies them and installs them. The directory is a map from file
  names to contents. The server is an argument, and may answer every request differently and to the harm
  of the client: \<open>tw_get\<close> is asked at numbered moments. So are the disk, which may refuse a write, and the
  clock. What crates do to a text (ed25519, SHA-256, gzip, UTF-8, serde) is the parameter record \<open>feed_codec\<close>.
  Log lines are not modelled.
\<close>

section \<open>The configuration and the key\<close>

record feed_config =
  fc_enabled :: bool
  fc_base_url :: string
  fc_public_key :: string
  fc_public_key_path :: string
  fc_require_signature :: bool
  fc_max_artifact_bytes :: nat
  fc_max_pointer_bytes :: nat

definition DEFAULT_BASE_URL :: string where "DEFAULT_BASE_URL = ''https://feed.runts.net''"
definition DEAD_PLACEHOLDER_URL :: string where "DEAD_PLACEHOLDER_URL = ''https://feed.omarchy-moat.org''"
definition DEFAULT_PUBLIC_KEY_PATH :: string where "DEFAULT_PUBLIC_KEY_PATH = ''/usr/share/moat/feed-key.pub''"

definition default_feed_config :: feed_config where
  "default_feed_config =
     \<lparr> fc_enabled = True, fc_base_url = DEFAULT_BASE_URL, fc_public_key = [],
       fc_public_key_path = DEFAULT_PUBLIC_KEY_PATH, fc_require_signature = True,
       fc_max_artifact_bytes = 64 * 1024 * 1024, fc_max_pointer_bytes = 256 * 1024 \<rparr>"

text \<open>What reading a file gives: its text, that there is none, or another error.\<close>

datatype file_read = FileText string | FileMissing | FileError string

text \<open>\<open>FeedsConfig::load\<close>, \<open>toml\<close> being the TOML reader.\<close>

definition load_feed_config :: "(string \<Rightarrow> string + feed_config) \<Rightarrow> string \<Rightarrow> file_read \<Rightarrow> string + feed_config" where
  "load_feed_config toml path file =
     bind_res
       (case file of
          FileText t \<Rightarrow> (case toml t of Inl e \<Rightarrow> Inl (path @ '': '' @ e) | Inr cfg \<Rightarrow> Inr cfg)
        | FileMissing \<Rightarrow> Inr default_feed_config
        | FileError e \<Rightarrow> Inl (path @ '': '' @ e))
       (\<lambda>cfg. Inr (if trim_end_matches CHR ''/'' (trim (fc_base_url cfg)) = DEAD_PLACEHOLDER_URL
                   then cfg \<lparr> fc_base_url := DEFAULT_BASE_URL \<rparr> else cfg))"

definition decode_key :: "string \<Rightarrow> octets option" where
  "decode_key s =
     (case from_hex s of
        Some v \<Rightarrow> if length v = 32 then Some v else None
      | None \<Rightarrow> (case from_base64 s of Some v \<Rightarrow> if length v = 32 then Some v else None | None \<Rightarrow> None))"

definition key_body :: "string \<Rightarrow> string" where
  "key_body raw =
     (case List.find (\<lambda>l. l \<noteq> [] \<and> \<not> starts_with l ''#'' \<and> \<not> starts_with l ''untrusted comment:'')
             (map trim (lines_of raw)) of Some l \<Rightarrow> l | None \<Rightarrow> [])"

definition key_of_text :: "string \<Rightarrow> feed_error + octets option" where
  "key_of_text raw =
     (let body = key_body raw in
      if body = [] then Inr None
      else let f = split_whitespace body; first = field 0 f;
               (tag, encoded) = (if 1 < length f then (Some first, f ! 1) else (None, first)) in
           case tag of
             Some t \<Rightarrow>
               if t \<noteq> ''moat-feed-ed25519'' then Inl (WrongKeyType t)
               else (case decode_key encoded of None \<Rightarrow> Inl (KeyNotDecodable (length encoded)) | Some k \<Rightarrow> Inr (Some k))
           | None \<Rightarrow>
               (case decode_key encoded of None \<Rightarrow> Inl (KeyNotDecodable (length encoded)) | Some k \<Rightarrow> Inr (Some k)))"

definition verifying_key :: "feed_config \<Rightarrow> file_read \<Rightarrow> feed_error + octets option" where
  "verifying_key cfg file =
     (if trim (fc_public_key cfg) \<noteq> [] then key_of_text (trim (fc_public_key cfg))
      else case file of
             FileText t \<Rightarrow> key_of_text t
           | FileMissing \<Rightarrow> Inr None
           | FileError e \<Rightarrow> Inl (Unreadable (fc_public_key_path cfg @ '': '' @ e)))"

section \<open>State, pointer, environment\<close>

text \<open>Of the pointer, the fields that are read.\<close>

record feed_state =
  se_seq :: nat
  se_pointer_etag :: string
  se_domains_seq :: nat

record domains_ref =
  dr_seq :: nat
  dr_entries :: nat
  dr_artifact :: string
  dr_sha256 :: string

record feed_pointer =
  po_version :: nat
  po_seq :: nat
  po_generated :: string
  po_artifact :: string
  po_sha256 :: string
  po_deltas :: "(string \<times> string) list"
  po_domains :: "domains_ref option"

record feed_codec =
  fc_verify :: "octets \<Rightarrow> string \<Rightarrow> octets \<Rightarrow> bool"
  fc_key_valid :: "octets \<Rightarrow> bool"
  fc_sha256 :: "string \<Rightarrow> string"
  fc_gunzip :: "string \<Rightarrow> string option"
  fc_utf8 :: "string \<Rightarrow> bool"
  fc_pointer :: "string \<Rightarrow> feed_pointer option"
  fc_state :: "string \<Rightarrow> feed_state option"
  fc_show_state :: "feed_state \<Rightarrow> string"
  fc_show_json :: "json \<Rightarrow> string"

text \<open>A reply that is not an error of the transport or of the status: \<open>hr_body\<close> is what reading the body
  within the limit gives.\<close>

record http_reply =
  hr_status :: nat
  hr_etag :: "string option"
  hr_body :: "string + string"

text \<open>The moment, the address, the value of \<open>If-None-Match\<close> (empty for none) and the limit of the body.\<close>

record tick_world =
  tw_get :: "nat \<Rightarrow> string \<Rightarrow> string \<Rightarrow> nat \<Rightarrow> string + http_reply"
  tw_write :: "nat \<Rightarrow> string \<Rightarrow> bool"
  tw_now :: "nat \<Rightarrow> string"
  tw_key_file :: file_read
  tw_mkdir :: "string option"

type_synonym feed_dir = "string \<Rightarrow> string option"

definition read_text :: "feed_codec \<Rightarrow> feed_dir \<Rightarrow> string \<Rightarrow> string option" where
  "read_text cd files f =
     (case files f of Some t \<Rightarrow> if fc_utf8 cd t then Some t else None | None \<Rightarrow> None)"

text \<open>\<open>util::atomic_write\<close>: nothing is written when the content is there already.\<close>

definition put_file :: "tick_world \<Rightarrow> nat \<Rightarrow> string \<Rightarrow> string \<Rightarrow> feed_dir \<Rightarrow> feed_error + feed_dir" where
  "put_file w i f t files =
     (if files f = Some t then Inr files
      else if tw_write w i f then Inr (files(f := Some t)) else Inl (Unwritable f))"

definition no_state :: feed_state where
  "no_state = \<lparr> se_seq = 0, se_pointer_etag = [], se_domains_seq = 0 \<rparr>"

definition load_state :: "feed_codec \<Rightarrow> feed_dir \<Rightarrow> feed_state" where
  "load_state cd files =
     (case Option.bind (read_text cd files STATE_FILE) (fc_state cd) of Some st \<Rightarrow> st | None \<Rightarrow> no_state)"

definition save_state :: "feed_codec \<Rightarrow> tick_world \<Rightarrow> nat \<Rightarrow> feed_state \<Rightarrow> feed_dir \<Rightarrow> feed_error + feed_dir" where
  "save_state cd w i st files = put_file w i STATE_FILE (fc_show_state cd st @ [newline]) files"

definition count_domain_feed :: "feed_codec \<Rightarrow> feed_dir \<Rightarrow> nat" where
  "count_domain_feed cd files =
     (case read_text cd files DOMAINS_FEED_FILE of Some t \<Rightarrow> count_entries t | None \<Rightarrow> 0)"

definition count_packages :: "feed_codec \<Rightarrow> feed_dir \<Rightarrow> nat" where
  "count_packages cd files =
     (case read_text cd files PACKAGES_FILE of Some t \<Rightarrow> count_entries t | None \<Rightarrow> 0)"

section \<open>Fetching and verifying\<close>

definition body_of :: "(string \<Rightarrow> feed_error) \<Rightarrow> string + http_reply \<Rightarrow> feed_error + string" where
  "body_of err r =
     (case r of Inl e \<Rightarrow> Inl (err e)
      | Inr rp \<Rightarrow> (case hr_body rp of Inl e \<Rightarrow> Inl (err e) | Inr b \<Rightarrow> Inr b))"

definition fetch_pointer ::
    "feed_codec \<Rightarrow> tick_world \<Rightarrow> string \<Rightarrow> string \<Rightarrow> feed_config \<Rightarrow> feed_error + (feed_pointer \<times> string) option" where
  "fetch_pointer cd w base etag cfg =
     (case tw_get w 0 (base @ ''/v1/pointer.json'') etag (fc_max_pointer_bytes cfg) of
        Inl e \<Rightarrow> Inl (RequestFailed e)
      | Inr rp \<Rightarrow>
          if hr_status rp = 304 then Inr None
          else (case hr_body rp of
                  Inl e \<Rightarrow> Inl (RequestFailed e)
                | Inr body \<Rightarrow>
                    (case fc_pointer cd body of
                       None \<Rightarrow> Inl PointerNotRead
                     | Some p \<Rightarrow> Inr (Some (p, case hr_etag rp of Some e \<Rightarrow> e | None \<Rightarrow> [])))))"

definition raw_bytes :: "string \<Rightarrow> octets" where
  "raw_bytes s = map (\<lambda>c. of_nat (of_char c)) s"

definition raw_signature :: "feed_codec \<Rightarrow> string \<Rightarrow> feed_error + octets" where
  "raw_signature cd sig =
     (if length sig = 64 then Inr (raw_bytes sig)
      else if \<not> fc_utf8 cd sig then Inl SignatureNotText
      else let s = (case List.find (\<lambda>l. l \<noteq> [] \<and> \<not> starts_with l ''untrusted comment:'')
                           (map trim (lines_of (trim sig))) of Some l \<Rightarrow> l | None \<Rightarrow> []) in
           case from_hex s of
             Some v \<Rightarrow> Inr v
           | None \<Rightarrow> (case from_base64 s of Some v \<Rightarrow> Inr v | None \<Rightarrow> Inl SignatureNotDecodable))"

definition verify_ed25519 :: "feed_codec \<Rightarrow> octets \<Rightarrow> string \<Rightarrow> string \<Rightarrow> feed_error + unit" where
  "verify_ed25519 cd key msg sig =
     bind_res (raw_signature cd sig) (\<lambda>raw.
       if length raw \<noteq> 64 then Inl SignatureLength
       else if \<not> fc_key_valid cd key then Inl BadPublicKey
       else if fc_verify cd key msg raw then Inr () else Inl DidNotVerify)"

definition fetch_verified ::
    "feed_codec \<Rightarrow> tick_world \<Rightarrow> nat \<Rightarrow> string \<Rightarrow> string \<Rightarrow> feed_config \<Rightarrow> octets option \<Rightarrow> string option
     \<Rightarrow> feed_error + string" where
  "fetch_verified cd w i base path cfg key expect =
     (let url = base @ path in
      bind_res (body_of RequestFailed (tw_get w i url [] (fc_max_artifact_bytes cfg))) (\<lambda>gz.
      bind_res
        (case key of
           Some k \<Rightarrow>
             bind_res (body_of SignatureRequestFailed (tw_get w (Suc i) (url @ ''.sig'') [] 4096))
               (\<lambda>sig. verify_ed25519 cd k gz sig)
         | None \<Rightarrow> if fc_require_signature cfg then Inl NoKeyAvailable else Inr ()) (\<lambda>_.
      bind_res
        (case expect of
           Some want \<Rightarrow>
             (let got = fc_sha256 cd gz in
              if to_lower got \<noteq> to_lower want then Inl (ShaMismatch want got) else Inr ())
         | None \<Rightarrow> Inr ()) (\<lambda>_.
      case fc_gunzip cd gz of Some t \<Rightarrow> Inr t | None \<Rightarrow> Inl GunzipFailed))))"

section \<open>Installing\<close>

definition refresh_domains ::
    "feed_codec \<Rightarrow> tick_world \<Rightarrow> string \<Rightarrow> feed_pointer \<Rightarrow> feed_config \<Rightarrow> octets option \<Rightarrow> feed_dir \<Rightarrow> feed_state
     \<Rightarrow> feed_error + (nat \<times> feed_dir \<times> feed_state)" where
  "refresh_domains cd w base p cfg key files st =
     (case po_domains p of
        None \<Rightarrow> Inr (count_domain_feed cd files, files, st)
      | Some d \<Rightarrow>
          if dr_seq d < se_domains_seq st then Inl (OlderDomains (dr_seq d) (se_domains_seq st))
          else if dr_seq d = se_domains_seq st \<and> files DOMAINS_FEED_FILE \<noteq> None
          then Inr (count_domain_feed cd files, files, st)
          else
            bind_res (fetch_verified cd w 1 base (dr_artifact d) cfg key (Some (dr_sha256 d))) (\<lambda>t.
            bind_res
              (case header_u64 t ''# seq '' of
                 Some seq \<Rightarrow> if seq = dr_seq d then Inr () else Inl (OtherDomains (dr_seq d) seq)
               | None \<Rightarrow> Inl DomainsWithoutSeq) (\<lambda>_.
            if count_entries t = 0 then Inl DomainsEmpty
            else bind_res (put_file w 1 DOMAINS_FEED_FILE t files) (\<lambda>files'.
                   Inr (count_entries t, files', st \<lparr> se_domains_seq := dr_seq d \<rparr>)))))"

record applied =
  ap_mode :: string
  ap_packages :: nat
  ap_added :: nat
  ap_removed :: nat

definition write_index :: "tick_world \<Rightarrow> nat \<Rightarrow> index \<Rightarrow> feed_dir \<Rightarrow> feed_error + feed_dir" where
  "write_index w i ix files = put_file w i PACKAGES_FILE (index_text (tw_now w i) ix) files"

definition apply_full ::
    "feed_codec \<Rightarrow> tick_world \<Rightarrow> nat \<Rightarrow> string \<Rightarrow> feed_pointer \<Rightarrow> feed_config \<Rightarrow> octets option \<Rightarrow> feed_dir
     \<Rightarrow> feed_error + (applied \<times> feed_dir)" where
  "apply_full cd w i base p cfg key files =
     bind_res (fetch_verified cd w i base (po_artifact p) cfg key (Some (po_sha256 p))) (\<lambda>t.
     bind_res
       (case header_u64 t ''# seq '' of
          Some seq \<Rightarrow> if seq = po_seq p then Inr () else Inl (OtherSeq (po_seq p) seq)
        | None \<Rightarrow> Inl WithoutSeq) (\<lambda>_.
     bind_res (parse_index t) (\<lambda>ix.
     bind_res (write_index w i ix files) (\<lambda>files'.
       Inr (\<lparr> ap_mode = ''full'', ap_packages = length ix, ap_added = length ix, ap_removed = 0 \<rparr>, files')))))"

definition apply_delta ::
    "feed_codec \<Rightarrow> tick_world \<Rightarrow> nat \<Rightarrow> string \<Rightarrow> string \<Rightarrow> feed_config \<Rightarrow> octets option \<Rightarrow> feed_dir \<Rightarrow> nat \<Rightarrow> nat
     \<Rightarrow> feed_error + (applied \<times> feed_dir)" where
  "apply_delta cd w i base path cfg key files from_seq to_seq =
     bind_res (case read_text cd files PACKAGES_FILE of Some t \<Rightarrow> Inr t | None \<Rightarrow> Inl (Unreadable PACKAGES_FILE)) (\<lambda>current.
     bind_res (parse_index current) (\<lambda>ix0.
     bind_res (fetch_verified cd w i base path cfg key None) (\<lambda>t.
     bind_res
       (case (header_u64 t ''# from '', header_u64 t ''# to '') of
          (Some f, Some u) \<Rightarrow>
            if f = from_seq \<and> u = to_seq then Inr () else Inl (OtherSpan f u from_seq to_seq)
        | _ \<Rightarrow> Inl WithoutSpan) (\<lambda>_.
     bind_res (delta_loop 0 ix0 0 0 (lines_of t)) (\<lambda>(ix, added, removed).
     bind_res (write_index w i ix files) (\<lambda>files'.
       Inr (\<lparr> ap_mode = ''delta'', ap_packages = length ix, ap_added = added, ap_removed = removed \<rparr>, files')))))))"

definition meta_json :: "string \<Rightarrow> feed_pointer \<Rightarrow> nat \<Rightarrow> string \<Rightarrow> json" where
  "meta_json now p packages mode =
     JObj
       [(''updated'', JStr now),
        (''seq'', JInt (int (po_seq p))),
        (''generated'', JStr (po_generated p)),
        (''packages'', JInt (int packages)),
        (''mode'', JStr mode),
        (''source'', JStr ''malicious-package index (OSSF malicious-packages + DataDog dataset)''),
        (''hash_feed'', JStr ''operator-supplied; abuse.ch was dropped, see docs/PACKAGE-FEED.md''),
        (''domain_feed_seq'', JInt (case po_domains p of Some d \<Rightarrow> int (dr_seq d) | None \<Rightarrow> 0)),
        (''domain_feed'', JInt (case po_domains p of Some d \<Rightarrow> int (dr_entries d) | None \<Rightarrow> 0)),
        (''domain_feed_source'', JStr ''ThreatFox (abuse.ch), gated and signed by the aggregator'')]"

definition write_meta ::
    "feed_codec \<Rightarrow> tick_world \<Rightarrow> nat \<Rightarrow> feed_pointer \<Rightarrow> nat \<Rightarrow> string \<Rightarrow> feed_dir \<Rightarrow> feed_error + feed_dir" where
  "write_meta cd w i p packages mode files =
     put_file w i META_FILE (fc_show_json cd (meta_json (tw_now w i) p packages mode) @ [newline]) files"

section \<open>The tick\<close>

record refresh_summary =
  sm_skipped :: bool
  sm_reason :: "feed_error option"
  sm_mode :: string
  sm_seq :: nat
  sm_packages :: nat
  sm_added :: nat
  sm_removed :: nat
  sm_domains_seq :: nat
  sm_domains :: nat
  sm_errors :: "feed_error list"

definition no_summary :: refresh_summary where
  "no_summary =
     \<lparr> sm_skipped = False, sm_reason = None, sm_mode = ''none'', sm_seq = 0, sm_packages = 0, sm_added = 0,
       sm_removed = 0, sm_domains_seq = 0, sm_domains = 0, sm_errors = [] \<rparr>"

definition skipping :: "feed_error \<Rightarrow> refresh_summary \<Rightarrow> refresh_summary" where
  "skipping e sm = sm \<lparr> sm_skipped := True, sm_reason := Some e \<rparr>"

text \<open>An error of the two last writes is reported, and the files stay as they are.\<close>

definition noting :: "feed_error + feed_dir \<Rightarrow> feed_dir \<times> refresh_summary \<Rightarrow> feed_dir \<times> refresh_summary" where
  "noting r fs =
     (case r of Inl e \<Rightarrow> (fst fs, snd fs \<lparr> sm_errors := sm_errors (snd fs) @ [e] \<rparr>)
      | Inr files \<Rightarrow> (files, snd fs))"

definition commit_tick ::
    "feed_codec \<Rightarrow> tick_world \<Rightarrow> feed_pointer \<Rightarrow> string \<Rightarrow> bool \<Rightarrow> applied \<Rightarrow> feed_dir \<Rightarrow> feed_state \<Rightarrow> refresh_summary
     \<Rightarrow> refresh_summary \<times> feed_dir" where
  "commit_tick cd w p etag by_delta ap0 files st0 sum0 =
     (let mode = (if by_delta \<and> sm_errors sum0 = [] then ''delta'' else ''full'');
          st = st0 \<lparr> se_seq := po_seq p, se_pointer_etag := etag \<rparr>;
          (files1, sum1) = noting (save_state cd w 5 st files) (files, sum0);
          (files2, sum2) = noting (write_meta cd w 6 p (ap_packages ap0) mode files1) (files1, sum1) in
      (sum2 \<lparr> sm_mode := mode, sm_seq := po_seq p, sm_packages := ap_packages ap0,
              sm_added := ap_added ap0, sm_removed := ap_removed ap0 \<rparr>, files2))"

text \<open>\<open>refresh\<close> from its third step on, after the domain list.\<close>

definition refresh_packages ::
    "feed_codec \<Rightarrow> tick_world \<Rightarrow> feed_config \<Rightarrow> string \<Rightarrow> octets option \<Rightarrow> feed_pointer \<Rightarrow> string \<Rightarrow> feed_dir
     \<Rightarrow> feed_state \<Rightarrow> refresh_summary \<Rightarrow> refresh_summary \<times> feed_dir" where
  "refresh_packages cd w cfg base key p etag files st sm =
     (let have_index = files PACKAGES_FILE \<noteq> None in
      if po_seq p = se_seq st \<and> have_index then
        (let files1 = (case save_state cd w 4 (st \<lparr> se_pointer_etag := etag \<rparr>) files of
                         Inr fs \<Rightarrow> fs | Inl _ \<Rightarrow> files) in
         (sm \<lparr> sm_mode := ''unchanged'', sm_seq := se_seq st, sm_packages := count_packages cd files1 \<rparr>, files1))
      else
        let delta_path = (if have_index \<and> se_seq st > 0 then map_of (po_deltas p) (show_nat (se_seq st)) else None) in
        case delta_path of
          Some path \<Rightarrow>
            (case apply_delta cd w 3 base path cfg key files (se_seq st) (po_seq p) of
               Inr (ap0, files1) \<Rightarrow> commit_tick cd w p etag True ap0 files1 st sm
             | Inl e \<Rightarrow>
                 (let sum1 = sm \<lparr> sm_errors := sm_errors sm @ [InDelta e] \<rparr> in
                  case apply_full cd w 5 base p cfg key files of
                    Inr (ap0, files1) \<Rightarrow> commit_tick cd w p etag True ap0 files1 st sum1
                  | Inl e2 \<Rightarrow> (skipping (InFull e2) sum1, files)))
        | None \<Rightarrow>
            (case apply_full cd w 3 base p cfg key files of
               Inr (ap0, files1) \<Rightarrow> commit_tick cd w p etag False ap0 files1 st sm
             | Inl e \<Rightarrow> (skipping (InFull e) sm, files)))"

definition feed_refresh ::
    "feed_codec \<Rightarrow> tick_world \<Rightarrow> feed_config \<Rightarrow> feed_dir \<Rightarrow> refresh_summary \<times> feed_dir" where
  "feed_refresh cd w cfg files =
     (if \<not> fc_enabled cfg then (skipping FeedsDisabled no_summary, files)
      else case tw_mkdir w of
        Some e \<Rightarrow> (skipping (NoDirectory e) no_summary, files)
      | None \<Rightarrow>
      (case verifying_key cfg (tw_key_file w) of
         Inl e \<Rightarrow> (skipping e no_summary, files)
       | Inr key \<Rightarrow>
       if key = None \<and> fc_require_signature cfg then (skipping NoPublicKey no_summary, files)
       else
         let st = load_state cd files; base = trim_end_matches CHR ''/'' (fc_base_url cfg) in
         case fetch_pointer cd w base (se_pointer_etag st) cfg of
           Inl e \<Rightarrow> (skipping (InPointer e) no_summary, files)
         | Inr None \<Rightarrow>
             (no_summary \<lparr> sm_mode := ''unchanged'', sm_seq := se_seq st, sm_packages := count_packages cd files,
                sm_domains_seq := se_domains_seq st, sm_domains := count_domain_feed cd files \<rparr>, files)
         | Inr (Some (p, etag)) \<Rightarrow>
             if po_version p \<noteq> 1 then (skipping (OtherVersion (po_version p)) no_summary, files)
             else if po_seq p < se_seq st
             then (skipping (WentBackwards (po_seq p) (se_seq st)) no_summary, files)
             else
               (case refresh_domains cd w base p cfg key files st of
                  Inr (n, files1, st1) \<Rightarrow>
                    refresh_packages cd w cfg base key p etag files1 st1
                      (no_summary \<lparr> sm_domains := n, sm_domains_seq := se_domains_seq st1 \<rparr>)
                | Inl e \<Rightarrow>
                    refresh_packages cd w cfg base key p etag files st
                      (no_summary \<lparr> sm_errors := [InDomains e], sm_domains_seq := se_domains_seq st \<rparr>))))"

section \<open>What is installed\<close>

text \<open>A text the holder of the key signed: some bytes with a good signature that unpack to it.\<close>

definition signed_text :: "feed_codec \<Rightarrow> octets \<Rightarrow> string \<Rightarrow> bool" where
  "signed_text cd k t \<longleftrightarrow>
     (\<exists>gz sig. length sig = 64 \<and> fc_key_valid cd k \<and> fc_verify cd k gz sig \<and> fc_gunzip cd gz = Some t)"

definition trusted :: "feed_codec \<Rightarrow> octets option \<Rightarrow> string \<Rightarrow> bool" where
  "trusted cd key t \<longleftrightarrow> (case key of Some k \<Rightarrow> signed_text cd k t | None \<Rightarrow> True)"

text \<open>Where an index may come from: a trusted full text that states the sequence, or a trusted delta that states
  both ends, applied to the index on disk.\<close>

definition index_source :: "feed_codec \<Rightarrow> octets option \<Rightarrow> feed_dir \<Rightarrow> nat \<Rightarrow> nat \<Rightarrow> index \<Rightarrow> bool" where
  "index_source cd key files from_seq to_seq ix \<longleftrightarrow>
     (\<exists>t. trusted cd key t \<and>
        (header_u64 t ''# seq '' = Some to_seq \<and> parse_index t = Inr ix
         \<or> header_u64 t ''# from '' = Some from_seq \<and> header_u64 t ''# to '' = Some to_seq
           \<and> (\<exists>current old added removed. read_text cd files PACKAGES_FILE = Some current \<and> parse_index current = Inr old
                \<and> delta_loop 0 old 0 0 (lines_of t) = Inr (ix, added, removed))))"

lemma file_names [simp]:
  "PACKAGES_FILE \<noteq> STATE_FILE" "PACKAGES_FILE \<noteq> META_FILE" "PACKAGES_FILE \<noteq> DOMAINS_FEED_FILE"
  "STATE_FILE \<noteq> PACKAGES_FILE" "STATE_FILE \<noteq> META_FILE" "STATE_FILE \<noteq> DOMAINS_FEED_FILE"
  "DOMAINS_FEED_FILE \<noteq> PACKAGES_FILE" "DOMAINS_FEED_FILE \<noteq> META_FILE" "DOMAINS_FEED_FILE \<noteq> STATE_FILE"
  "META_FILE \<noteq> PACKAGES_FILE" "META_FILE \<noteq> DOMAINS_FEED_FILE" "META_FILE \<noteq> STATE_FILE"
  by (simp_all add: PACKAGES_FILE_def STATE_FILE_def META_FILE_def DOMAINS_FEED_FILE_def)

lemma put_file_Inr: "put_file w i f t files = Inr files' \<Longrightarrow> files' = files(f := Some t)"
  by (auto simp: put_file_def split: if_splits)

lemma put_file_ok: "tw_write w i f \<Longrightarrow> put_file w i f t files = Inr (files(f := Some t))"
  by (auto simp: put_file_def)

lemma fetch_verified_trusted: "fetch_verified cd w i base path cfg key expect = Inr t \<Longrightarrow> trusted cd key t"
proof (cases key)
  case (Some k)
  assume "fetch_verified cd w i base path cfg key expect = Inr t"
  with Some obtain gz sig where "verify_ed25519 cd k gz sig = Inr ()" "fc_gunzip cd gz = Some t"
    by (auto simp: fetch_verified_def Let_def bind_res_Inr split: option.splits if_splits)
  moreover from this(1) obtain raw where "length raw = 64" "fc_key_valid cd k" "fc_verify cd k gz raw"
    by (auto simp: verify_ed25519_def bind_res_Inr split: if_splits)
  ultimately show ?thesis using Some by (auto simp: trusted_def signed_text_def)
qed (simp add: trusted_def)

text \<open>The check of the numbers a text states, as equations.\<close>

lemma seq_check: "(case x of Some n \<Rightarrow> if n = m then Inr () else Inl (e n) | None \<Rightarrow> Inl e') = Inr u \<longleftrightarrow> x = Some m"
  by (auto split: option.splits)

lemma span_check: "(case (x, y) of (Some f, Some u) \<Rightarrow> if f = m \<and> u = n then Inr () else Inl (e f u) | _ \<Rightarrow> Inl e') = Inr r
    \<longleftrightarrow> x = Some m \<and> y = Some n"
  by (auto split: option.splits)

lemma read_check: "(case x of Some t \<Rightarrow> Inr t | None \<Rightarrow> Inl e) = Inr u \<longleftrightarrow> x = Some u"
  by (auto split: option.splits)

lemma refresh_domains_Inr:
  assumes "refresh_domains cd w base p cfg key files st = Inr (n, files', st')"
  shows "files' = files \<and> st' = st \<or>
    (\<exists>t m. trusted cd key t \<and> header_u64 t ''# seq '' = Some m \<and> 0 < count_entries t \<and> se_domains_seq st \<le> m
       \<and> files' = files(DOMAINS_FEED_FILE := Some t) \<and> st' = st \<lparr> se_domains_seq := m \<rparr>)"
proof (cases "po_domains p")
  case None
  with assms show ?thesis by (simp add: refresh_domains_def)
next
  case (Some d)
  show ?thesis
  proof (cases "dr_seq d = se_domains_seq st \<and> files DOMAINS_FEED_FILE \<noteq> None")
    case True
    with assms Some show ?thesis by (simp add: refresh_domains_def)
  next
    case False
    have ge: "\<not> dr_seq d < se_domains_seq st" using assms Some by (auto simp: refresh_domains_def)
    note run = assms [unfolded refresh_domains_def Some option.case if_not_P [OF ge] if_not_P [OF False] bind_res_Inr seq_check]
    then obtain t where "fetch_verified cd w 1 base (dr_artifact d) cfg key (Some (dr_sha256 d)) = Inr t"
        "header_u64 t ''# seq '' = Some (dr_seq d)" "count_entries t \<noteq> 0"
        "put_file w 1 DOMAINS_FEED_FILE t files = Inr files'" "st' = st \<lparr> se_domains_seq := dr_seq d \<rparr>"
      by (auto simp: bind_res_Inr split: if_splits)
    then show ?thesis using ge fetch_verified_trusted put_file_Inr by (metis linorder_not_less neq0_conv)
  qed
qed

lemma apply_full_Inr:
  assumes "apply_full cd w i base p cfg key files = Inr (ap0, files')"
  shows "\<exists>ix. index_source cd key files from_seq (po_seq p) ix
    \<and> files' = files(PACKAGES_FILE := Some (index_text (tw_now w i) ix)) \<and> ap_packages ap0 = length ix"
proof -
  from assms obtain t ix where "fetch_verified cd w i base (po_artifact p) cfg key (Some (po_sha256 p)) = Inr t"
      "header_u64 t ''# seq '' = Some (po_seq p)" "parse_index t = Inr ix" "write_index w i ix files = Inr files'"
      "ap_packages ap0 = length ix"
    by (auto simp: apply_full_def bind_res_Inr seq_check)
  then show ?thesis
    by (auto simp: index_source_def write_index_def dest: fetch_verified_trusted put_file_Inr)
qed

lemma apply_delta_Inr:
  assumes "apply_delta cd w i base path cfg key files from_seq to_seq = Inr (ap0, files')"
  shows "\<exists>ix. index_source cd key files from_seq to_seq ix
    \<and> files' = files(PACKAGES_FILE := Some (index_text (tw_now w i) ix)) \<and> ap_packages ap0 = length ix"
proof -
  from assms obtain current old t ix a r where
      "read_text cd files PACKAGES_FILE = Some current" "parse_index current = Inr old"
      "fetch_verified cd w i base path cfg key None = Inr t"
      "header_u64 t ''# from '' = Some from_seq" "header_u64 t ''# to '' = Some to_seq"
      "delta_loop 0 old 0 0 (lines_of t) = Inr (ix, a, r)" "write_index w i ix files = Inr files'"
      "ap_packages ap0 = length ix"
    unfolding apply_delta_def bind_res_Inr read_check span_check by (auto simp: bind_res_Inr)
  then show ?thesis
    by (auto simp: index_source_def write_index_def dest!: fetch_verified_trusted put_file_Inr)
qed

lemma noting_cases: "noting (put_file w i f t files) (files, s) = (files', s') \<Longrightarrow>
    (files' = files(f := Some t) \<or> files' = files \<and> \<not> tw_write w i f)
    \<and> sm_skipped s' = sm_skipped s"
  by (auto simp: noting_def put_file_def split: sum.splits if_splits)

lemma commit_tick_cases:
  assumes "commit_tick cd w p etag b ap0 files st sm = (s, files')"
  shows "\<exists>files1. (files1 = files(STATE_FILE := Some (fc_show_state cd (st \<lparr> se_seq := po_seq p, se_pointer_etag := etag \<rparr>) @ [newline]))
        \<or> files1 = files \<and> \<not> tw_write w 5 STATE_FILE)
     \<and> (files' = files1 \<or> (\<exists>m. files' = files1(META_FILE := Some m)))
     \<and> sm_skipped s = sm_skipped sm \<and> sm_seq s = po_seq p"
proof -
  from assms obtain files1 sm1 sm2 mode where
      one: "noting (save_state cd w 5 (st \<lparr> se_seq := po_seq p, se_pointer_etag := etag \<rparr>) files) (files, sm) = (files1, sm1)"
      and two: "noting (write_meta cd w 6 p (ap_packages ap0) mode files1) (files1, sm1) = (files', sm2)"
      and s: "sm_skipped s = sm_skipped sm2" "sm_seq s = po_seq p"
    by (auto simp: commit_tick_def Let_def split: prod.splits)
  from noting_cases [OF one [unfolded save_state_def]] noting_cases [OF two [unfolded write_meta_def]] s
  show ?thesis by blast
qed

text \<open>The three ends of a tick after the domain list: nothing new, a failure that leaves the files, an index
  installed.\<close>

lemma refresh_packages_cases:
  assumes "refresh_packages cd w cfg base key p etag files st sm = (s, files')"
  obtains (same) "po_seq p = se_seq st" "sm_skipped s = sm_skipped sm" "sm_seq s = po_seq p"
      "files' = files(STATE_FILE := Some (fc_show_state cd (st \<lparr> se_seq := po_seq p, se_pointer_etag := etag \<rparr>) @ [newline]))
       \<or> files' = files \<and> \<not> tw_write w 4 STATE_FILE"
    | (failed) "files' = files" "sm_skipped s"
    | (installed) ix now files1 files2 where "index_source cd key files (se_seq st) (po_seq p) ix"
      "files1 = files(PACKAGES_FILE := Some (index_text now ix))"
      "files2 = files1(STATE_FILE := Some (fc_show_state cd (st \<lparr> se_seq := po_seq p, se_pointer_etag := etag \<rparr>) @ [newline]))
       \<or> files2 = files1 \<and> \<not> tw_write w 5 STATE_FILE"
      "files' = files2 \<or> (\<exists>m. files' = files2(META_FILE := Some m))"
      "sm_skipped s = sm_skipped sm" "sm_seq s = po_seq p"
proof -
  have finish: thesis
    if "commit_tick cd w p etag b ap0 files1 st sm1 = (s, files')" "sm_skipped sm1 = sm_skipped sm"
      "\<exists>ix. index_source cd key files (se_seq st) (po_seq p) ix
         \<and> files1 = files(PACKAGES_FILE := Some (index_text now ix)) \<and> ap_packages ap0 = length ix"
    for b ap0 files1 sm1 now
    using that commit_tick_cases [OF that(1)] by (elim exE conjE, intro installed) auto
  show thesis
  proof (cases "po_seq p = se_seq st \<and> files PACKAGES_FILE \<noteq> None")
    case True
    define st2 where "st2 = st \<lparr> se_seq := po_seq p, se_pointer_etag := etag \<rparr>"
    have st2: "st \<lparr> se_pointer_etag := etag \<rparr> = st2" using True by (simp add: st2_def)
    note run = assms [unfolded refresh_packages_def Let_def if_P [OF True] st2]
    show thesis
    proof (rule same)
      show "po_seq p = se_seq st" using True by simp
      with run show "sm_skipped s = sm_skipped sm" "sm_seq s = po_seq p" by auto
      from run have "files' = (case save_state cd w 4 st2 files of Inr fs \<Rightarrow> fs | Inl _ \<Rightarrow> files)" by simp
      then show "files' = files(STATE_FILE := Some (fc_show_state cd (st \<lparr> se_seq := po_seq p, se_pointer_etag := etag \<rparr>) @ [newline]))
          \<or> files' = files \<and> \<not> tw_write w 4 STATE_FILE"
        unfolding st2_def [symmetric] by (auto simp: save_state_def put_file_def)
    qed
  next
    case False
    define dp where "dp = (if files PACKAGES_FILE \<noteq> None \<and> se_seq st > 0 then map_of (po_deltas p) (show_nat (se_seq st)) else None)"
    note run = assms [unfolded refresh_packages_def Let_def if_not_P [OF False], folded dp_def]
    show thesis
    proof (cases dp)
      case None
      show thesis
      proof (cases "apply_full cd w 3 base p cfg key files")
        case (Inl e)
        with run None show thesis by (intro failed) (auto simp: skipping_def)
      next
        case (Inr r)
        then obtain ap0 files1 where r: "apply_full cd w 3 base p cfg key files = Inr (ap0, files1)" by (cases r) auto
        with run None have "commit_tick cd w p etag False ap0 files1 st sm = (s, files')" by simp
        from this refl apply_full_Inr [OF r] show thesis by (rule finish)
      qed
    next
      case (Some path)
      show thesis
      proof (cases "apply_delta cd w 3 base path cfg key files (se_seq st) (po_seq p)")
        case (Inr r)
        then obtain ap0 files1 where r: "apply_delta cd w 3 base path cfg key files (se_seq st) (po_seq p) = Inr (ap0, files1)"
          by (cases r) auto
        with run Some have "commit_tick cd w p etag True ap0 files1 st sm = (s, files')" by simp
        from this refl apply_delta_Inr [OF r] show thesis by (rule finish)
      next
        case (Inl e)
        show thesis
        proof (cases "apply_full cd w 5 base p cfg key files")
          case (Inl e2)
          with run Some \<open>apply_delta _ _ _ _ _ _ _ _ _ _ = Inl e\<close> show thesis
            by (intro failed) (auto simp: skipping_def)
        next
          case (Inr r)
          then obtain ap0 files1 where r: "apply_full cd w 5 base p cfg key files = Inr (ap0, files1)" by (cases r) auto
          with run Some Inl have
            "commit_tick cd w p etag True ap0 files1 st (sm \<lparr> sm_errors := sm_errors sm @ [InDelta e] \<rparr>) = (s, files')"
            by simp
          then show thesis by (rule finish) (simp, rule apply_full_Inr [OF r])
        qed
      qed
    qed
  qed
qed

text \<open>The ends of a whole tick: nothing touched, or the domain list kept or installed and then one of the three.\<close>

lemma feed_refresh_cases:
  assumes "feed_refresh cd w cfg files = (s, files')"
  obtains (idle) "files' = files" "\<not> sm_skipped s \<longrightarrow> sm_errors s = []"
    | (ran) key base p etag files1 st1 sm1 where "verifying_key cfg (tw_key_file w) = Inr key"
      "fc_require_signature cfg \<Longrightarrow> key \<noteq> None"
      "se_seq (load_state cd files) \<le> po_seq p" "se_seq st1 = se_seq (load_state cd files)" "\<not> sm_skipped sm1"
      "files1 = files \<and> st1 = load_state cd files \<or>
       (\<exists>t m. trusted cd key t \<and> header_u64 t ''# seq '' = Some m \<and> 0 < count_entries t
          \<and> se_domains_seq (load_state cd files) \<le> m \<and> files1 = files(DOMAINS_FEED_FILE := Some t)
          \<and> st1 = load_state cd files \<lparr> se_domains_seq := m \<rparr>)"
      "refresh_packages cd w cfg base key p etag files1 st1 sm1 = (s, files')"
proof -
  let ?st = "load_state cd files" and ?base = "trim_end_matches CHR ''/'' (fc_base_url cfg)"
  show thesis
  proof (cases "files' = files \<and> (\<not> sm_skipped s \<longrightarrow> sm_errors s = [])")
    case True
    then show thesis by (intro idle) auto
  next
    case False
    note run0 = assms [unfolded feed_refresh_def Let_def]
    have quiet: "\<not> (\<exists>e. (skipping e no_summary, files) = (s, files'))"
      "\<not> (\<exists>a b c d. (no_summary \<lparr> sm_mode := ''unchanged'', sm_seq := a, sm_packages := b, sm_domains_seq := c,
            sm_domains := d \<rparr>, files) = (s, files'))"
      using False by (auto simp: skipping_def no_summary_def)
    have en: "\<not> \<not> fc_enabled cfg"
    proof
      assume "\<not> fc_enabled cfg"
      from run0 [unfolded if_P [OF this]] quiet(1) show False by blast
    qed
    have mk: "tw_mkdir w = None"
      using run0 [unfolded if_not_P [OF en]] quiet(1) by (cases "tw_mkdir w") auto
    note run1 = run0 [unfolded if_not_P [OF en] mk option.case]
    from run1 quiet(1) obtain key where key: "verifying_key cfg (tw_key_file w) = Inr key"
      by (cases "verifying_key cfg (tw_key_file w)") auto
    note run2 = run1 [unfolded key sum.case]
    have key2: "\<not> (key = None \<and> fc_require_signature cfg)"
    proof
      assume "key = None \<and> fc_require_signature cfg"
      from run2 [unfolded if_P [OF this]] quiet(1) show False by blast
    qed
    note run3 = run2 [unfolded if_not_P [OF key2]]
    obtain p etag where f: "fetch_pointer cd w ?base (se_pointer_etag ?st) cfg = Inr (Some (p, etag))"
    proof (cases "fetch_pointer cd w ?base (se_pointer_etag ?st) cfg")
      case (Inl e)
      with run3 quiet(1) show thesis by simp
    next
      case (Inr o')
      show thesis
      proof (cases o')
        case None
        with run3 Inr quiet(2) show thesis by simp
      next
        case (Some pe)
        with Inr that show thesis by (cases pe) simp
      qed
    qed
    note run4 = run3 [unfolded f sum.case option.case prod.case]
    have v: "\<not> po_version p \<noteq> 1"
    proof
      assume "po_version p \<noteq> 1"
      from run4 [unfolded if_P [OF this]] quiet(1) show False by blast
    qed
    note run5 = run4 [unfolded if_not_P [OF v]]
    have p: "\<not> po_seq p < se_seq ?st"
    proof
      assume "po_seq p < se_seq ?st"
      from run5 [unfolded if_P [OF this]] quiet(1) show False by blast
    qed
    note run = run5 [unfolded if_not_P [OF p]]
    show thesis
    proof (cases "refresh_domains cd w ?base p cfg key files ?st")
      case (Inl e)
      with run have r: "refresh_packages cd w cfg ?base key p etag files ?st
          (no_summary \<lparr> sm_errors := [InDomains e], sm_domains_seq := se_domains_seq ?st \<rparr>) = (s, files')" by simp
      show thesis by (rule ran [OF key _ _ _ _ _ r]) (use key2 p in \<open>auto simp: no_summary_def\<close>)
    next
      case (Inr r)
      then obtain n files1 st1 where r: "refresh_domains cd w ?base p cfg key files ?st = Inr (n, files1, st1)"
        by (cases r) auto
      with run have p2: "refresh_packages cd w cfg ?base key p etag files1 st1
          (no_summary \<lparr> sm_domains := n, sm_domains_seq := se_domains_seq st1 \<rparr>) = (s, files')" by simp
      note d = refresh_domains_Inr [OF r]
      then have "se_seq st1 = se_seq ?st" by auto
      with d show thesis by (intro ran [OF key _ _ _ _ _ p2]) (use key2 p in \<open>auto simp: no_summary_def\<close>)
    qed
  qed
qed

end
