(* ===== verification/Feed_Run.thy ===== *)
theory Feed_Run
  imports Feeds
begin

text \<open>
  What the ticks of \<open>moatd/src/feeds.rs\<close> guarantee, one by one and in a run, against a server that answers as
  it likes: only signed texts are installed, the saved sequences never go back, the domain list follows
  the saved sequence while ticks complete, a published index arrives. And what they do not: two runs that
  show where the rollback guard and the retry of the domain list fail.
\<close>

section \<open>One tick\<close>

lemma index_source_other_file:
  "index_source cd key (files(DOMAINS_FEED_FILE := t)) from_seq to_seq ix = index_source cd key files from_seq to_seq ix"
  by (simp add: index_source_def read_text_def)

text \<open>What a tick can have made of each file, when a key is in force.\<close>

lemma tick_packages:
  assumes "feed_refresh cd w cfg files = (s, files')" and "files' PACKAGES_FILE \<noteq> files PACKAGES_FILE"
  shows "\<exists>key now ix. verifying_key cfg (tw_key_file w) = Inr key \<and> (fc_require_signature cfg \<longrightarrow> key \<noteq> None)
    \<and> index_source cd key files (se_seq (load_state cd files)) (sm_seq s) ix
    \<and> files' PACKAGES_FILE = Some (index_text now ix) \<and> se_seq (load_state cd files) \<le> sm_seq s"
  using assms(1)
proof (cases rule: feed_refresh_cases)
  case (ran key base p etag files1 st1 sm1)
  have pkg: "files1 PACKAGES_FILE = files PACKAGES_FILE" using ran(6) by auto
  have src: "index_source cd key files1 a b ix = index_source cd key files a b ix" for a b ix
    using ran(6) by (auto simp: index_source_other_file)
  from ran(7) show ?thesis
  proof (cases rule: refresh_packages_cases)
    case (installed ix now files2 files3)
    have "files' PACKAGES_FILE = Some (index_text now ix)" using installed(2,3,4) by auto
    then show ?thesis using installed(1,6) src ran(1,2,3,4) by metis
  qed (use assms(2) pkg in auto)
qed (use assms(2) in auto)

lemma tick_domains:
  assumes "feed_refresh cd w cfg files = (s, files')" and "files' DOMAINS_FEED_FILE \<noteq> files DOMAINS_FEED_FILE"
  shows "\<exists>key t n. verifying_key cfg (tw_key_file w) = Inr key \<and> (fc_require_signature cfg \<longrightarrow> key \<noteq> None)
    \<and> trusted cd key t \<and> files' DOMAINS_FEED_FILE = Some t \<and> header_u64 t ''# seq '' = Some n
    \<and> se_domains_seq (load_state cd files) \<le> n \<and> 0 < count_entries t"
  using assms(1)
proof (cases rule: feed_refresh_cases)
  case (ran key base p etag files1 st1 sm1)
  have "files' DOMAINS_FEED_FILE = files1 DOMAINS_FEED_FILE"
    using ran(7) by (cases rule: refresh_packages_cases) auto
  with assms(2) have "files1 DOMAINS_FEED_FILE \<noteq> files DOMAINS_FEED_FILE" by simp
  with ran(6) obtain t m where "trusted cd key t" "header_u64 t ''# seq '' = Some m" "0 < count_entries t"
      "se_domains_seq (load_state cd files) \<le> m" "files1 DOMAINS_FEED_FILE = Some t" by auto
  with \<open>files' DOMAINS_FEED_FILE = files1 DOMAINS_FEED_FILE\<close> ran(1,2) show ?thesis by metis
qed (use assms(2) in auto)

lemma tick_other_files:
  assumes "feed_refresh cd w cfg files = (s, files')" and "f \<notin> {PACKAGES_FILE, DOMAINS_FEED_FILE, STATE_FILE, META_FILE}"
  shows "files' f = files f"
  using assms(1)
proof (cases rule: feed_refresh_cases)
  case (ran key base p etag files1 st1 sm1)
  have "files1 f = files f" using ran(6) assms(2) by auto
  with ran(7) assms(2) show ?thesis by (cases rule: refresh_packages_cases) auto
qed simp

text \<open>C31: Whatever the server answers, with \<open>require_signature\<close> a tick changes the package index only to the
  text of an index that a text signed with the pinned key gives (a full one that states the sequence
  reported, or a delta that states the saved sequence and that one, applied to the index on disk); it changes
  the domain list only to a signed, non-empty text whose own sequence is not below the saved one; and it
  touches no file but its own four.\<close>

theorem only_signed_texts_are_installed:
  assumes "feed_refresh cd w cfg files = (s, files')" and "fc_require_signature cfg"
  shows "(files' PACKAGES_FILE = files PACKAGES_FILE \<or>
      (\<exists>k now ix. verifying_key cfg (tw_key_file w) = Inr (Some k)
         \<and> index_source cd (Some k) files (se_seq (load_state cd files)) (sm_seq s) ix
         \<and> files' PACKAGES_FILE = Some (index_text now ix) \<and> se_seq (load_state cd files) \<le> sm_seq s))
    \<and> (files' DOMAINS_FEED_FILE = files DOMAINS_FEED_FILE \<or>
      (\<exists>k t n. verifying_key cfg (tw_key_file w) = Inr (Some k) \<and> signed_text cd k t
         \<and> files' DOMAINS_FEED_FILE = Some t \<and> header_u64 t ''# seq '' = Some n
         \<and> se_domains_seq (load_state cd files) \<le> n \<and> 0 < count_entries t))
    \<and> {f. files' f \<noteq> files f} \<subseteq> {PACKAGES_FILE, DOMAINS_FEED_FILE, STATE_FILE, META_FILE}"
proof (intro conjI)
  show "files' PACKAGES_FILE = files PACKAGES_FILE \<or>
      (\<exists>k now ix. verifying_key cfg (tw_key_file w) = Inr (Some k)
         \<and> index_source cd (Some k) files (se_seq (load_state cd files)) (sm_seq s) ix
         \<and> files' PACKAGES_FILE = Some (index_text now ix) \<and> se_seq (load_state cd files) \<le> sm_seq s)"
    using tick_packages [OF assms(1)] assms(2) by (metis option.exhaust)
  show "files' DOMAINS_FEED_FILE = files DOMAINS_FEED_FILE \<or>
      (\<exists>k t n. verifying_key cfg (tw_key_file w) = Inr (Some k) \<and> signed_text cd k t
         \<and> files' DOMAINS_FEED_FILE = Some t \<and> header_u64 t ''# seq '' = Some n
         \<and> se_domains_seq (load_state cd files) \<le> n \<and> 0 < count_entries t)"
  proof (cases "files' DOMAINS_FEED_FILE = files DOMAINS_FEED_FILE")
    case False
    from tick_domains [OF assms(1) False] assms(2) show ?thesis by (auto simp: trusted_def)
  qed simp
  show "{f. files' f \<noteq> files f} \<subseteq> {PACKAGES_FILE, DOMAINS_FEED_FILE, STATE_FILE, META_FILE}"
    using tick_other_files [OF assms(1)] by blast
qed

section \<open>The saved state\<close>

text \<open>What \<open>serde\<close> promises of the state file: what was written reads back.\<close>

definition state_codec :: "feed_codec \<Rightarrow> bool" where
  "state_codec cd \<longleftrightarrow> (\<forall>st. fc_utf8 cd (fc_show_state cd st @ [newline])
     \<and> fc_state cd (fc_show_state cd st @ [newline]) = Some st)"

lemma load_saved: "state_codec cd \<Longrightarrow> files STATE_FILE = Some (fc_show_state cd st @ [newline]) \<Longrightarrow> load_state cd files = st"
  by (simp add: state_codec_def load_state_def read_text_def)

lemma load_state_cong: "files STATE_FILE = files' STATE_FILE \<Longrightarrow> load_state cd files = load_state cd files'"
  by (simp add: load_state_def read_text_def)

lemma tick_state:
  assumes "state_codec cd" and "feed_refresh cd w cfg files = (s, files')"
  shows "se_seq (load_state cd files) \<le> se_seq (load_state cd files')
    \<and> se_domains_seq (load_state cd files) \<le> se_domains_seq (load_state cd files')"
  using assms(2)
proof (cases rule: feed_refresh_cases)
  case (ran key base p etag files1 st1 sm1)
  have dom: "se_domains_seq (load_state cd files) \<le> se_domains_seq st1"
    and keep: "files1 STATE_FILE = files STATE_FILE" using ran(6) by auto
  have "load_state cd files' = st1 \<lparr> se_seq := po_seq p, se_pointer_etag := etag \<rparr> \<or> load_state cd files' = load_state cd files"
    using ran(7)
  proof (cases rule: refresh_packages_cases)
    case same
    then show ?thesis using load_saved [OF assms(1)] load_state_cong keep by (metis fun_upd_same)
  next
    case failed
    then show ?thesis using load_state_cong keep by metis
  next
    case (installed ix now files2 files3)
    have "files' STATE_FILE = files3 STATE_FILE" using installed(4) by auto
    moreover have "files2 STATE_FILE = files STATE_FILE" using installed(2) keep by simp
    ultimately show ?thesis using installed(3) load_saved [OF assms(1)] load_state_cong by (metis fun_upd_same)
  qed
  then show ?thesis using dom ran(3) by auto
qed simp

text \<open>A machine that is ticked, and a level the ticks never lower.\<close>

locale climbing =
  fixes good :: "'c \<Rightarrow> bool"
    and tick :: "'c \<Rightarrow> 'x \<Rightarrow> 's \<Rightarrow> 's"
    and level :: "'c \<Rightarrow> 's \<Rightarrow> nat"
  assumes climbs: "good c \<Longrightarrow> level c s \<le> level c (tick c x s)"
begin

lemma run_climbs: "good c \<Longrightarrow> level c s \<le> level c (fold (tick c) xs s)"
proof (induction xs arbitrary: s)
  case (Cons x xs)
  have "level c s \<le> level c (tick c x s)" by (rule climbs [OF Cons.prems])
  also have "\<dots> \<le> level c (fold (tick c) xs (tick c x s))" by (rule Cons.IH [OF Cons.prems])
  finally show ?case by simp
qed simp

end

definition feed_tick :: "feed_codec \<Rightarrow> tick_world \<times> feed_config \<Rightarrow> feed_dir \<Rightarrow> feed_dir" where
  "feed_tick cd wc files = snd (feed_refresh cd (fst wc) (snd wc) files)"

interpretation packages_seq: climbing state_codec feed_tick "\<lambda>cd files. se_seq (load_state cd files)"
  by unfold_locales (metis feed_tick_def prod.collapse tick_state)

interpretation domains_seq: climbing state_codec feed_tick "\<lambda>cd files. se_domains_seq (load_state cd files)"
  by unfold_locales (metis feed_tick_def prod.collapse tick_state)

text \<open>C32: In any run of ticks, with any servers, any disk errors and any configurations, the two sequences in
  the state file never go back.\<close>

theorem saved_sequences_never_go_back:
  assumes "state_codec cd"
  shows "se_seq (load_state cd files) \<le> se_seq (load_state cd (fold (feed_tick cd) ticks files))
    \<and> se_domains_seq (load_state cd files) \<le> se_domains_seq (load_state cd (fold (feed_tick cd) ticks files))"
  using packages_seq.run_climbs [OF assms] domains_seq.run_climbs [OF assms] by simp

section \<open>The list and the state in step\<close>

text \<open>The domain list on disk is the one the state file speaks of.\<close>

definition in_step :: "feed_codec \<Rightarrow> feed_dir \<Rightarrow> bool" where
  "in_step cd files \<longleftrightarrow>
     (case files DOMAINS_FEED_FILE of
        None \<Rightarrow> True
      | Some t \<Rightarrow> header_u64 t ''# seq '' = Some (se_domains_seq (load_state cd files)))"

text \<open>C36: A tick that is not skipped, on a disk that takes the state file, leaves the domain list and the saved
  sequence in step; as the saved sequence never goes back, neither does the list while ticks complete.\<close>

theorem completed_tick_keeps_the_list_in_step:
  assumes "state_codec cd" and "feed_refresh cd w cfg files = (s, files')" and "in_step cd files"
    and "\<not> sm_skipped s" and "\<forall>i. tw_write w i STATE_FILE"
  shows "in_step cd files'"
  using assms(2)
proof (cases rule: feed_refresh_cases)
  case (ran key base p etag files1 st1 sm1)
  let ?st = "st1 \<lparr> se_seq := po_seq p, se_pointer_etag := etag \<rparr>"
  have dom: "case files1 DOMAINS_FEED_FILE of None \<Rightarrow> True | Some t \<Rightarrow> header_u64 t ''# seq '' = Some (se_domains_seq st1)"
    using ran(6) assms(3) by (auto simp: in_step_def)
  have keep: "files' DOMAINS_FEED_FILE = files1 DOMAINS_FEED_FILE"
    using ran(7) by (cases rule: refresh_packages_cases) auto
  have "files' STATE_FILE = Some (fc_show_state cd ?st @ [newline])"
    using ran(7)
  proof (cases rule: refresh_packages_cases)
    case same
    then show ?thesis using assms(5) by auto
  next
    case failed
    with assms(4) show ?thesis by simp
  next
    case (installed ix now files2 files3)
    then show ?thesis using assms(5) by auto
  qed
  then have "load_state cd files' = ?st" by (rule load_saved [OF assms(1)])
  with dom keep show ?thesis by (simp add: in_step_def split: option.splits)
qed (use assms(3) in simp)

section \<open>A published index arrives\<close>

text \<open>The server gives, whenever it is asked, these bytes and a good signature of them.\<close>

definition served :: "feed_codec \<Rightarrow> tick_world \<Rightarrow> octets \<Rightarrow> string \<Rightarrow> string \<Rightarrow> string \<Rightarrow> bool" where
  "served cd w k url sha t \<longleftrightarrow>
     (\<exists>gz sig. (\<forall>i lim. body_of RequestFailed (tw_get w i url [] lim) = Inr gz)
        \<and> (\<forall>i lim. body_of SignatureRequestFailed (tw_get w i (url @ ''.sig'') [] lim) = Inr sig)
        \<and> verify_ed25519 cd k gz sig = Inr () \<and> to_lower (fc_sha256 cd gz) = to_lower sha \<and> fc_gunzip cd gz = Some t)"

lemma fetch_served: "served cd w k (base @ path) sha t \<Longrightarrow> fetch_verified cd w i base path cfg (Some k) (Some sha) = Inr t"
  by (auto simp: served_def fetch_verified_def Let_def)

lemma feed_refresh_runs:
  assumes "fc_enabled cfg" and "tw_mkdir w = None" and "verifying_key cfg (tw_key_file w) = Inr (Some k)"
    and "st = load_state cd files" and "base = trim_end_matches CHR ''/'' (fc_base_url cfg)"
    and "fetch_pointer cd w base (se_pointer_etag st) cfg = Inr (Some (p, etag))"
    and "po_version p = 1" and "se_seq st \<le> po_seq p"
  shows "feed_refresh cd w cfg files =
    (case refresh_domains cd w base p cfg (Some k) files st of
       Inr (n, files1, st1) \<Rightarrow>
         refresh_packages cd w cfg base (Some k) p etag files1 st1
           (no_summary \<lparr> sm_domains := n, sm_domains_seq := se_domains_seq st1 \<rparr>)
     | Inl e \<Rightarrow>
         refresh_packages cd w cfg base (Some k) p etag files st
           (no_summary \<lparr> sm_errors := [InDomains e], sm_domains_seq := se_domains_seq st \<rparr>))"
  using assms by (simp add: feed_refresh_def Let_def split: sum.splits)

lemma refresh_domains_installs:
  assumes "po_domains p = Some d" and "se_domains_seq st < dr_seq d"
    and "served cd w k (base @ dr_artifact d) (dr_sha256 d) t"
    and "header_u64 t ''# seq '' = Some (dr_seq d)" and "count_entries t \<noteq> 0" and "tw_write w 1 DOMAINS_FEED_FILE"
  shows "refresh_domains cd w base p cfg (Some k) files st =
    Inr (count_entries t, files(DOMAINS_FEED_FILE := Some t), st \<lparr> se_domains_seq := dr_seq d \<rparr>)"
  using assms by (simp add: refresh_domains_def fetch_served put_file_ok)

lemma apply_full_installs:
  assumes "served cd w k (base @ po_artifact p) (po_sha256 p) t" and "header_u64 t ''# seq '' = Some (po_seq p)"
    and "parse_index t = Inr ix" and "tw_write w i PACKAGES_FILE"
  shows "\<exists>ap0. apply_full cd w i base p cfg (Some k) files =
    Inr (ap0, files(PACKAGES_FILE := Some (index_text (tw_now w i) ix)))"
  using assms by (simp add: apply_full_def fetch_served write_index_def put_file_ok)

lemma commit_tick_saves:
  assumes "commit_tick cd w p etag b ap0 files st sm = (s, files')" and "tw_write w 5 STATE_FILE"
  shows "files' STATE_FILE = Some (fc_show_state cd (st \<lparr> se_seq := po_seq p, se_pointer_etag := etag \<rparr>) @ [newline])
    \<and> files' PACKAGES_FILE = files PACKAGES_FILE \<and> files' DOMAINS_FEED_FILE = files DOMAINS_FEED_FILE
    \<and> sm_skipped s = sm_skipped sm"
  using commit_tick_cases [OF assms(1)] assms(2) by auto

lemma refresh_packages_installs:
  assumes "se_seq st < po_seq p" and "served cd w k (base @ po_artifact p) (po_sha256 p) t"
    and "header_u64 t ''# seq '' = Some (po_seq p)" and "parse_index t = Inr ix" and "\<forall>i f. tw_write w i f"
    and "\<not> (\<exists>path r. map_of (po_deltas p) (show_nat (se_seq st)) = Some path
        \<and> apply_delta cd w 3 base path cfg (Some k) files (se_seq st) (po_seq p) = Inr r)"
    and "refresh_packages cd w cfg base (Some k) p etag files st sm = (s, files')"
  shows "(\<exists>now. files' PACKAGES_FILE = Some (index_text now ix))
    \<and> files' STATE_FILE = Some (fc_show_state cd (st \<lparr> se_seq := po_seq p, se_pointer_etag := etag \<rparr>) @ [newline])
    \<and> files' DOMAINS_FEED_FILE = files DOMAINS_FEED_FILE \<and> sm_skipped s = sm_skipped sm"
proof -
  have new: "\<not> (po_seq p = se_seq st \<and> files PACKAGES_FILE \<noteq> None)" using assms(1) by simp
  define dp where "dp = (if files PACKAGES_FILE \<noteq> None \<and> se_seq st > 0 then map_of (po_deltas p) (show_nat (se_seq st)) else None)"
  note run = assms(7) [unfolded refresh_packages_def Let_def if_not_P [OF new], folded dp_def]
  obtain ap3 ap5 where
    full3: "apply_full cd w 3 base p cfg (Some k) files = Inr (ap3, files(PACKAGES_FILE := Some (index_text (tw_now w 3) ix)))"
    and full5: "apply_full cd w 5 base p cfg (Some k) files = Inr (ap5, files(PACKAGES_FILE := Some (index_text (tw_now w 5) ix)))"
    using apply_full_installs [OF assms(2-4)] assms(5) by blast
  have "\<exists>now b ap0 sm1. commit_tick cd w p etag b ap0 (files(PACKAGES_FILE := Some (index_text now ix))) st sm1 = (s, files')
      \<and> sm_skipped sm1 = sm_skipped sm"
  proof (cases dp)
    case None
    with run full3 show ?thesis by auto
  next
    case (Some path)
    have "\<exists>e. apply_delta cd w 3 base path cfg (Some k) files (se_seq st) (po_seq p) = Inl e"
      using Some assms(6) by (cases "apply_delta cd w 3 base path cfg (Some k) files (se_seq st) (po_seq p)")
        (auto simp: dp_def split: if_splits)
    then obtain e where "apply_delta cd w 3 base path cfg (Some k) files (se_seq st) (po_seq p) = Inl e" ..
    with run Some full5 have "commit_tick cd w p etag True ap5 (files(PACKAGES_FILE := Some (index_text (tw_now w 5) ix))) st
        (sm \<lparr> sm_errors := sm_errors sm @ [InDelta e] \<rparr>) = (s, files')" by simp
    then show ?thesis by force
  qed
  then show ?thesis using commit_tick_saves assms(5) by (metis fun_upd_other fun_upd_same file_names(1,3))
qed

text \<open>C35: A published feed arrives. When the pointer is new and the server gives its two texts with good
  signatures and hashes, each stating the sequence of the pointer, one tick on a disk that takes writes installs
  both lists and saves both sequences, whether no delta is offered or the delta offered is broken.\<close>

theorem published_feed_arrives:
  assumes "state_codec cd" and "fc_enabled cfg" and "tw_mkdir w = None"
    and "verifying_key cfg (tw_key_file w) = Inr (Some k)"
    and "fetch_pointer cd w (trim_end_matches CHR ''/'' (fc_base_url cfg)) (se_pointer_etag (load_state cd files)) cfg
      = Inr (Some (p, etag))"
    and "po_version p = 1" and "se_seq (load_state cd files) < po_seq p"
    and "served cd w k (trim_end_matches CHR ''/'' (fc_base_url cfg) @ po_artifact p) (po_sha256 p) t"
    and "header_u64 t ''# seq '' = Some (po_seq p)" and "parse_index t = Inr ix"
    and "po_domains p = Some d" and "se_domains_seq (load_state cd files) < dr_seq d"
    and "served cd w k (trim_end_matches CHR ''/'' (fc_base_url cfg) @ dr_artifact d) (dr_sha256 d) u"
    and "header_u64 u ''# seq '' = Some (dr_seq d)" and "count_entries u \<noteq> 0"
    and "\<forall>i f. tw_write w i f"
    and "\<not> (\<exists>path r. map_of (po_deltas p) (show_nat (se_seq (load_state cd files))) = Some path
        \<and> apply_delta cd w 3 (trim_end_matches CHR ''/'' (fc_base_url cfg)) path cfg (Some k)
            (files(DOMAINS_FEED_FILE := Some u)) (se_seq (load_state cd files)) (po_seq p) = Inr r)"
    and "feed_refresh cd w cfg files = (s, files')"
  shows "\<not> sm_skipped s \<and> (\<exists>now. files' PACKAGES_FILE = Some (index_text now ix)) \<and> files' DOMAINS_FEED_FILE = Some u
    \<and> load_state cd files' = \<lparr> se_seq = po_seq p, se_pointer_etag = etag, se_domains_seq = dr_seq d \<rparr>"
proof -
  let ?st = "load_state cd files" and ?base = "trim_end_matches CHR ''/'' (fc_base_url cfg)"
  let ?st1 = "?st \<lparr> se_domains_seq := dr_seq d \<rparr>" and ?files1 = "files(DOMAINS_FEED_FILE := Some u)"
  have "refresh_domains cd w ?base p cfg (Some k) files ?st = Inr (count_entries u, ?files1, ?st1)"
    by (rule refresh_domains_installs) (use assms in auto)
  with feed_refresh_runs [OF assms(2-4) refl refl assms(5,6)] assms(7,18)
  have run: "refresh_packages cd w cfg ?base (Some k) p etag ?files1 ?st1
      (no_summary \<lparr> sm_domains := count_entries u, sm_domains_seq := dr_seq d \<rparr>) = (s, files')"
    by simp
  have "(\<exists>now. files' PACKAGES_FILE = Some (index_text now ix))
    \<and> files' STATE_FILE = Some (fc_show_state cd (?st1 \<lparr> se_seq := po_seq p, se_pointer_etag := etag \<rparr>) @ [newline])
    \<and> files' DOMAINS_FEED_FILE = ?files1 DOMAINS_FEED_FILE
    \<and> sm_skipped s = sm_skipped (no_summary \<lparr> sm_domains := count_entries u, sm_domains_seq := dr_seq d \<rparr>)"
    by (rule refresh_packages_installs [OF _ assms(8-10,16) _ run]) (use assms(7,17) in simp_all)
  moreover from this have "load_state cd files' = ?st1 \<lparr> se_seq := po_seq p, se_pointer_etag := etag \<rparr>"
    by (intro load_saved [OF assms(1)]) simp
  ultimately show ?thesis by (simp add: no_summary_def)
qed

section \<open>A small instance\<close>

text \<open>
  Codecs and servers on which the statements can be tried: a signature is good when the text begins with its
  sequence and the signature is 64 times the byte 7; packing is the identity; the state file is its two
  numbers and the tag.
\<close>

definition demo_show :: "feed_state \<Rightarrow> string" where
  "demo_show st = show_nat (se_seq st) @ CHR '' '' # show_nat (se_domains_seq st) @ CHR '' '' # se_pointer_etag st"

definition demo_state :: "string \<Rightarrow> feed_state option" where
  "demo_state t =
     Option.bind (split_once CHR '' '' (butlast t)) (\<lambda>(a, r).
     Option.bind (split_once CHR '' '' r) (\<lambda>(b, e).
     Option.bind (read_number digit_val 10 0 a) (\<lambda>m.
     map_option (\<lambda>n. \<lparr> se_seq = m, se_pointer_etag = e, se_domains_seq = n \<rparr>) (read_number digit_val 10 0 b))))"

definition demo_pointer :: "nat \<Rightarrow> nat \<Rightarrow> string \<Rightarrow> string \<Rightarrow> feed_pointer" where
  "demo_pointer seq dseq i d =
     \<lparr> po_version = 1, po_seq = seq, po_generated = [], po_artifact = i, po_sha256 = ''h'', po_deltas = [],
       po_domains = Some \<lparr> dr_seq = dseq, dr_entries = 1, dr_artifact = d, dr_sha256 = ''h'' \<rparr> \<rparr>"

definition demo_codec :: feed_codec where
  "demo_codec =
     \<lparr> fc_verify = (\<lambda>k m sig. starts_with m ''# seq '' \<and> sig = replicate 64 7), fc_key_valid = (\<lambda>k. True),
       fc_sha256 = (\<lambda>t. ''h''), fc_gunzip = Some, fc_utf8 = (\<lambda>t. True),
       fc_pointer = map_of [(''p7'', demo_pointer 7 7 ''/i7'' ''/d7''), (''p6'', demo_pointer 6 6 ''/i6'' ''/d6''),
                            (''p5'', demo_pointer 5 7 ''/i5'' ''/d7'')],
       fc_state = demo_state, fc_show_state = demo_show, fc_show_json = (\<lambda>j. []) \<rparr>"

definition demo_domains :: "nat \<Rightarrow> string" where
  "demo_domains n = join_lines [''# seq '' @ show_nat n, ''evil.example'']"

definition demo_index :: "nat \<Rightarrow> string" where
  "demo_index n = join_lines [''# seq '' @ show_nat n, ''npm'' @ tab # ''a'' @ tab # ''*'']"

definition demo_sig :: string where "demo_sig = replicate 64 (char_of (7::nat))"

definition demo_world :: "string \<Rightarrow> (string \<times> string) list \<Rightarrow> tick_world" where
  "demo_world known table =
     \<lparr> tw_get = (\<lambda>i url etag lim.
         if etag \<noteq> [] \<and> etag = known then Inr \<lparr> hr_status = 304, hr_etag = None, hr_body = Inr [] \<rparr>
         else case map_of table url of
                Some b \<Rightarrow> Inr \<lparr> hr_status = 200, hr_etag = Some known, hr_body = Inr b \<rparr>
              | None \<Rightarrow> Inl ''timeout''),
       tw_write = (\<lambda>i f. True), tw_now = (\<lambda>i. ''now''), tw_key_file = FileMissing, tw_mkdir = None \<rparr>"

definition demo_cfg :: feed_config where
  "demo_cfg = default_feed_config \<lparr> fc_base_url := ''u/'', fc_public_key := to_hex (replicate 32 0) \<rparr>"

definition demo_dir :: feed_dir where
  "demo_dir = (\<lambda>f. None)(STATE_FILE := Some (demo_show \<lparr> se_seq = 5, se_pointer_etag = [], se_domains_seq = 5 \<rparr> @ [newline]),
     PACKAGES_FILE := Some (demo_index 5), DOMAINS_FEED_FILE := Some (demo_domains 5))"

lemma space_free_number: "CHR '' '' \<notin> set (show_nat n)"
proof -
  have "\<not> is_digit (CHR '' '')" by (simp add: is_digit_def)
  then show ?thesis using digits_show_nat by blast
qed

lemma demo_state_codec: "state_codec demo_codec"
  by (simp add: state_codec_def demo_codec_def demo_show_def demo_state_def butlast_append space_free_number
      read_show_nat_number)

text \<open>A key pasted in hexadecimal is the key that is pinned.\<close>

lemma words_acc_free: "\<forall>c \<in> set s. \<not> is_white c \<Longrightarrow> words_acc acc s = (if acc = [] \<and> s = [] then [] else [rev acc @ s])"
  by (induction s arbitrary: acc) auto

lemma hex_text_free:
  assumes "c \<in> set (to_hex bytes)"
  shows "c \<noteq> CHR ''#'' \<and> c \<noteq> CHR ''u'' \<and> \<not> is_white c"
proof -
  have "hex_val (CHR ''#'') = None" "hex_val (CHR ''u'') = None" by code_simp+
  moreover obtain b :: "8 word" where "c = hex_digit (unat b div 16) \<or> c = hex_digit (unat b mod 16)"
    using assms by (auto simp: to_hex_def)
  moreover have "unat b div 16 < 16" "unat b mod 16 < 16" using unat_byte [of b] by auto
  ultimately have "c \<noteq> CHR ''#'' \<and> c \<noteq> CHR ''u''" using hex_val_digit by (metis option.distinct(1))
  with to_hex_free [OF assms] show ?thesis by simp
qed

lemma pasted_key_is_pinned:
  assumes "length bytes = 32"
  shows "key_of_text (to_hex bytes) = Inr (Some bytes)"
proof -
  let ?h = "to_hex bytes"
  have free: "\<forall>c \<in> set ?h. \<not> is_white c" using hex_text_free by blast
  have ne: "?h \<noteq> []" using length_to_hex [of bytes] assms by auto
  have "newline \<notin> set ?h" using free by (auto simp: is_white_def)
  then have "lines_of ?h = [?h]" using ne by (simp add: lines_of_def)
  moreover have "CHR ''#'' \<notin> set ?h" "CHR ''u'' \<notin> set ?h" using hex_text_free by blast+
  then have "\<not> starts_with ?h ''#''" "\<not> starts_with ?h ''untrusted comment:''" by (auto simp: prefix_def)
  ultimately have "key_body ?h = ?h" using ne by (simp add: key_body_def trim_free [OF free])
  moreover have "split_whitespace ?h = [?h]" using ne by (simp add: split_whitespace_def words_acc_free [OF free])
  moreover have "from_hex ?h = Some bytes"
    using ne length_to_hex [of bytes] by (simp add: from_hex_def trim_free [OF free] hex_pairs_to_hex)
  ultimately show ?thesis using ne assms by (simp add: key_of_text_def field_def decode_key_def)
qed

lemma demo_key: "verifying_key demo_cfg file = Inr (Some (replicate 32 0))"
proof -
  have pub: "fc_public_key demo_cfg = to_hex (replicate 32 0)" by (simp add: demo_cfg_def)
  have "trim (to_hex (replicate 32 0)) = to_hex (replicate 32 0)" using to_hex_free by (intro trim_free) blast
  moreover have "to_hex (replicate 32 0) \<noteq> []"
    using length_to_hex [of "replicate 32 0"] by (metis length_replicate list.size(3) mult_eq_0_iff zero_neq_numeral)
  moreover have "key_of_text (to_hex (replicate 32 0)) = Inr (Some (replicate 32 0))"
    by (rule pasted_key_is_pinned) (rule length_replicate)
  ultimately show ?thesis by (simp only: verifying_key_def pub) simp
qed

lemma demo_facts:
  "fc_enabled demo_cfg" "trim_end_matches CHR ''/'' (fc_base_url demo_cfg) = ''u''"
  "tw_mkdir (demo_world known table) = None" "tw_write (demo_world known table) i f"
  by (simp_all add: demo_cfg_def demo_world_def trim_end_matches_def default_feed_config_def)

lemma demo_verifies: "starts_with t ''# seq '' \<Longrightarrow> verify_ed25519 demo_codec k t demo_sig = Inr ()"
proof -
  assume t: "starts_with t ''# seq ''"
  have "raw_bytes demo_sig = replicate 64 (of_nat (of_char (char_of (7::nat) :: char)))"
    unfolding raw_bytes_def demo_sig_def map_replicate ..
  also have "\<dots> = replicate 64 7" by (simp only: of_char_of take_bit_eq_mod) simp
  finally have "raw_signature demo_codec demo_sig = Inr (replicate 64 7)"
    by (simp only: raw_signature_def demo_sig_def length_replicate if_True refl)
  then show ?thesis using t
    by (simp only: verify_ed25519_def bind_res_simps length_replicate) (simp add: demo_codec_def)
qed

text \<open>A served text; the requests for texts carry no tag.\<close>

lemma demo_body: "map_of table url = Some b \<Longrightarrow> body_of err (tw_get (demo_world known table) i url [] lim) = Inr b"
  by (simp add: demo_world_def body_of_def)

lemma demo_served: "map_of table url = Some t \<Longrightarrow> map_of table (url @ ''.sig'') = Some demo_sig \<Longrightarrow>
    starts_with t ''# seq '' \<Longrightarrow> served demo_codec (demo_world known table) k url ''h'' t"
  unfolding served_def
  by (rule exI [of _ t], rule exI [of _ demo_sig]) (simp add: demo_body demo_verifies, simp add: demo_codec_def)

lemma demo_header: "n < 2 ^ 64 \<Longrightarrow> header_u64 (join_lines ((''# seq '' @ show_nat n) # ls)) ''# seq '' = Some n"
  using header_line [of n "''# seq ''" "[]" "join_lines ls"] by simp

lemma demo_lines:
  "lines_of (demo_domains n) = [''# seq '' @ show_nat n, ''evil.example'']"
  "lines_of (demo_index n) = [''# seq '' @ show_nat n, ''npm'' @ tab # ''a'' @ tab # ''*'']"
proof -
  have "plain_line (''# seq '' @ show_nat n)" by (rule plain_label) simp_all
  then have "list_all plain_line [''# seq '' @ show_nat n, ''evil.example'']"
    "list_all plain_line [''# seq '' @ show_nat n, ''npm'' @ tab # ''a'' @ tab # ''*'']"
    by (simp_all add: plain_line_def)
  then show "lines_of (demo_domains n) = [''# seq '' @ show_nat n, ''evil.example'']"
    "lines_of (demo_index n) = [''# seq '' @ show_nat n, ''npm'' @ tab # ''a'' @ tab # ''*'']"
    unfolding demo_domains_def demo_index_def by (blast intro: lines_of_join_lines)+
qed

lemma demo_count: "count_entries (demo_domains n) = 1"
  by (simp add: count_entries_def demo_lines is_entry_def)

lemma demo_parse: "parse_index (demo_index n) = Inr [(''npm'' @ tab # ''a'', ''*'')]"
  by (simp add: parse_index_def demo_lines is_entry_def index_key_def numeral_3_eq_3 split_once_def)

lemma demo_begins: "starts_with (demo_domains n) ''# seq ''" "starts_with (demo_index n) ''# seq ''"
  by (simp_all add: demo_domains_def demo_index_def)

lemma demo_load: "load_state demo_codec demo_dir = \<lparr> se_seq = 5, se_pointer_etag = [], se_domains_seq = 5 \<rparr>"
  by (rule load_saved [OF demo_state_codec]) (simp add: demo_dir_def demo_codec_def)

lemma demo_dir_domains: "demo_dir DOMAINS_FEED_FILE = Some (demo_domains 5)"
  by (simp add: demo_dir_def)

lemma demo_fetch_pointer:
  assumes "map_of table ''u/v1/pointer.json'' = Some b" and "fc_pointer demo_codec b = Some p"
  shows "fetch_pointer demo_codec (demo_world known table) ''u'' [] cfg = Inr (Some (p, known))"
  using assms by (simp add: fetch_pointer_def demo_world_def)

section \<open>Where the guards fail\<close>

lemma refresh_packages_keeps_domains:
  "refresh_packages cd w cfg base key p etag files st sm = (s, files') \<Longrightarrow> files' DOMAINS_FEED_FILE = files DOMAINS_FEED_FILE"
  by (cases rule: refresh_packages_cases) auto

text \<open>Three servers: one that publishes 7 and withholds the index, one that still publishes 6, and one that
  publishes a domain list 7 beside the index 5 and at first withholds the list.\<close>

definition withholding :: "(string \<times> string) list" where
  "withholding = [(''u/v1/pointer.json'', ''p7''), (''u/d7'', demo_domains 7), (''u/d7.sig'', demo_sig)]"

definition replaying :: "(string \<times> string) list" where
  "replaying = [(''u/v1/pointer.json'', ''p6''), (''u/d6'', demo_domains 6), (''u/d6.sig'', demo_sig),
     (''u/i6'', demo_index 6), (''u/i6.sig'', demo_sig)]"

definition late :: "(string \<times> string) list" where "late = [(''u/v1/pointer.json'', ''p5'')]"

definition complete :: "(string \<times> string) list" where
  "complete = [(''u/v1/pointer.json'', ''p5''), (''u/d7'', demo_domains 7), (''u/d7.sig'', demo_sig)]"

lemma demo_runs:
  assumes "fetch_pointer demo_codec (demo_world known table) ''u'' [] demo_cfg = Inr (Some (p, etag))"
    and "po_version p = 1" and "5 \<le> po_seq p"
    and "load_state demo_codec files = \<lparr> se_seq = 5, se_pointer_etag = [], se_domains_seq = 5 \<rparr>"
  shows "feed_refresh demo_codec (demo_world known table) demo_cfg files =
    (case refresh_domains demo_codec (demo_world known table) ''u'' p demo_cfg (Some (replicate 32 0)) files
            \<lparr> se_seq = 5, se_pointer_etag = [], se_domains_seq = 5 \<rparr> of
       Inr (n, files1, st1) \<Rightarrow>
         refresh_packages demo_codec (demo_world known table) demo_cfg ''u'' (Some (replicate 32 0)) p etag files1 st1
           (no_summary \<lparr> sm_domains := n, sm_domains_seq := se_domains_seq st1 \<rparr>)
     | Inl e \<Rightarrow>
         refresh_packages demo_codec (demo_world known table) demo_cfg ''u'' (Some (replicate 32 0)) p etag files
           \<lparr> se_seq = 5, se_pointer_etag = [], se_domains_seq = 5 \<rparr>
           (no_summary \<lparr> sm_errors := [InDomains e], sm_domains_seq := 5 \<rparr>))"
  using feed_refresh_runs [OF demo_facts(1,3) demo_key assms(4) [symmetric] demo_facts(2) [symmetric], of known table p etag]
    assms by (simp split: sum.splits)

lemma first_tick:
  "feed_tick demo_codec (demo_world ''e7'' withholding, demo_cfg) demo_dir = demo_dir(DOMAINS_FEED_FILE := Some (demo_domains 7))"
proof -
  let ?w = "demo_world ''e7'' withholding" and ?p = "demo_pointer 7 7 ''/i7'' ''/d7''"
  let ?st = "\<lparr> se_seq = 5, se_pointer_etag = [], se_domains_seq = 5 \<rparr>"
  let ?files1 = "demo_dir(DOMAINS_FEED_FILE := Some (demo_domains 7))"
  have f: "fetch_pointer demo_codec ?w ''u'' [] demo_cfg = Inr (Some (?p, ''e7''))"
    by (rule demo_fetch_pointer [of _ "''p7''"]) (simp_all add: withholding_def demo_codec_def)
  obtain d where d: "po_domains ?p = Some d" "dr_seq d = 7" "dr_artifact d = ''/d7''" "dr_sha256 d = ''h''"
    by (simp add: demo_pointer_def)
  have "header_u64 (demo_domains 7) ''# seq '' = Some 7" unfolding demo_domains_def by (rule demo_header) simp
  moreover have "served demo_codec ?w (replicate 32 0) (''u'' @ ''/d7'') ''h'' (demo_domains 7)"
    by (rule demo_served) (simp_all add: withholding_def demo_begins)
  ultimately have dom: "refresh_domains demo_codec ?w ''u'' ?p demo_cfg (Some (replicate 32 0)) demo_dir ?st
      = Inr (count_entries (demo_domains 7), ?files1, ?st \<lparr> se_domains_seq := dr_seq d \<rparr>)"
    using d demo_facts(4) by (intro refresh_domains_installs) (simp_all add: demo_count)
  have "tw_get ?w i ''u/i7'' [] lim = Inl ''timeout''" for i lim by (simp add: demo_world_def withholding_def)
  then have "apply_full demo_codec ?w i ''u'' ?p demo_cfg key files = Inl (RequestFailed ''timeout'')" for i key files
    by (simp add: apply_full_def fetch_verified_def Let_def body_of_def demo_pointer_def)
  then have "snd (refresh_packages demo_codec ?w demo_cfg ''u'' key ?p etag ?files1 (?st \<lparr> se_domains_seq := m \<rparr>) sm) = ?files1"
    for key etag m sm by (simp add: refresh_packages_def Let_def demo_pointer_def)
  moreover have "feed_refresh demo_codec ?w demo_cfg demo_dir =
      refresh_packages demo_codec ?w demo_cfg ''u'' (Some (replicate 32 0)) ?p ''e7'' ?files1 (?st \<lparr> se_domains_seq := dr_seq d \<rparr>)
        (no_summary \<lparr> sm_domains := count_entries (demo_domains 7), sm_domains_seq := se_domains_seq (?st \<lparr> se_domains_seq := dr_seq d \<rparr>) \<rparr>)"
    using demo_runs [OF f _ _ demo_load] unfolding dom by (simp add: demo_pointer_def)
  ultimately show ?thesis by (simp add: feed_tick_def)
qed

lemma second_tick:
  assumes "load_state demo_codec files = \<lparr> se_seq = 5, se_pointer_etag = [], se_domains_seq = 5 \<rparr>"
  shows "feed_tick demo_codec (demo_world ''e6'' replaying, demo_cfg) files DOMAINS_FEED_FILE = Some (demo_domains 6)"
proof -
  let ?w = "demo_world ''e6'' replaying" and ?p = "demo_pointer 6 6 ''/i6'' ''/d6''"
  let ?st = "\<lparr> se_seq = 5, se_pointer_etag = [], se_domains_seq = 5 \<rparr>"
  let ?files1 = "files(DOMAINS_FEED_FILE := Some (demo_domains 6))"
  have f: "fetch_pointer demo_codec ?w ''u'' [] demo_cfg = Inr (Some (?p, ''e6''))"
    by (rule demo_fetch_pointer [of _ "''p6''"]) (simp_all add: replaying_def demo_codec_def)
  obtain d where d: "po_domains ?p = Some d" "dr_seq d = 6" "dr_artifact d = ''/d6''" "dr_sha256 d = ''h''"
    by (simp add: demo_pointer_def)
  have "header_u64 (demo_domains 6) ''# seq '' = Some 6" unfolding demo_domains_def by (rule demo_header) simp
  moreover have "served demo_codec ?w (replicate 32 0) (''u'' @ ''/d6'') ''h'' (demo_domains 6)"
    by (rule demo_served) (simp_all add: replaying_def demo_begins)
  ultimately have dom: "refresh_domains demo_codec ?w ''u'' ?p demo_cfg (Some (replicate 32 0)) files ?st
      = Inr (count_entries (demo_domains 6), ?files1, ?st \<lparr> se_domains_seq := dr_seq d \<rparr>)"
    using d demo_facts(4) by (intro refresh_domains_installs) (simp_all add: demo_count)
  have "feed_refresh demo_codec ?w demo_cfg files =
      refresh_packages demo_codec ?w demo_cfg ''u'' (Some (replicate 32 0)) ?p ''e6'' ?files1 (?st \<lparr> se_domains_seq := dr_seq d \<rparr>)
        (no_summary \<lparr> sm_domains := count_entries (demo_domains 6), sm_domains_seq := se_domains_seq (?st \<lparr> se_domains_seq := dr_seq d \<rparr>) \<rparr>)"
    using demo_runs [OF f _ _ assms] unfolding dom by (simp add: demo_pointer_def)
  then have "snd (feed_refresh demo_codec ?w demo_cfg files) DOMAINS_FEED_FILE = ?files1 DOMAINS_FEED_FILE"
    by (metis prod.collapse refresh_packages_keeps_domains)
  then show ?thesis by (simp add: feed_tick_def)
qed

text \<open>C33: The rollback guard of the domain list is only as good as the state file. A server that publishes 7 and
  withholds the package index gets the signed list 7 installed in a tick that ends without saving the state;
  the next tick accepts the signed list 6 in its place. Both sequences are above the saved one throughout.\<close>

theorem domain_list_can_go_back:
  "feed_tick demo_codec (demo_world ''e7'' withholding, demo_cfg) demo_dir DOMAINS_FEED_FILE = Some (demo_domains 7)
   \<and> feed_tick demo_codec (demo_world ''e6'' replaying, demo_cfg)
       (feed_tick demo_codec (demo_world ''e7'' withholding, demo_cfg) demo_dir) DOMAINS_FEED_FILE = Some (demo_domains 6)
   \<and> header_u64 (demo_domains 7) ''# seq '' = Some 7 \<and> header_u64 (demo_domains 6) ''# seq '' = Some 6
   \<and> load_state demo_codec (feed_tick demo_codec (demo_world ''e7'' withholding, demo_cfg) demo_dir)
     = load_state demo_codec demo_dir"
proof -
  let ?files1 = "feed_tick demo_codec (demo_world ''e7'' withholding, demo_cfg) demo_dir"
  have load: "load_state demo_codec ?files1 = load_state demo_codec demo_dir"
    by (rule load_state_cong) (simp add: first_tick)
  then have "load_state demo_codec ?files1 = \<lparr> se_seq = 5, se_pointer_etag = [], se_domains_seq = 5 \<rparr>"
    by (simp add: demo_load)
  from second_tick [OF this] load show ?thesis
    by (simp add: first_tick demo_domains_def demo_header [of _ "[''evil.example'']", simplified])
qed

section \<open>A list that is not fetched again\<close>

lemma late_tick:
  "feed_refresh demo_codec (demo_world ''e5'' late) demo_cfg demo_dir =
    (no_summary \<lparr> sm_mode := ''unchanged'', sm_seq := 5, sm_packages := 1, sm_domains_seq := 5,
       sm_errors := [InDomains (RequestFailed ''timeout'')] \<rparr>,
     demo_dir(STATE_FILE := Some (demo_show \<lparr> se_seq = 5, se_pointer_etag = ''e5'', se_domains_seq = 5 \<rparr> @ [newline])))"
proof -
  let ?w = "demo_world ''e5'' late" and ?p = "demo_pointer 5 7 ''/i5'' ''/d7''"
  let ?st = "\<lparr> se_seq = 5, se_pointer_etag = [], se_domains_seq = 5 \<rparr>"
  have f: "fetch_pointer demo_codec ?w ''u'' [] demo_cfg = Inr (Some (?p, ''e5''))"
    by (rule demo_fetch_pointer [of _ "''p5''"]) (simp_all add: late_def demo_codec_def)
  have "tw_get ?w i ''u/d7'' [] lim = Inl ''timeout''" for i lim by (simp add: demo_world_def late_def)
  then have dom: "refresh_domains demo_codec ?w ''u'' ?p demo_cfg key demo_dir ?st = Inl (RequestFailed ''timeout'')" for key
    by (simp add: refresh_domains_def fetch_verified_def Let_def body_of_def demo_pointer_def)
  have run: "feed_refresh demo_codec ?w demo_cfg demo_dir =
      refresh_packages demo_codec ?w demo_cfg ''u'' (Some (replicate 32 0)) ?p ''e5'' demo_dir ?st
        (no_summary \<lparr> sm_errors := [InDomains (RequestFailed ''timeout'')], sm_domains_seq := 5 \<rparr>)"
    using demo_runs [OF f _ _ demo_load] unfolding dom by (simp add: demo_pointer_def)
  have same: "po_seq ?p = se_seq ?st \<and> demo_dir PACKAGES_FILE \<noteq> None" by (simp add: demo_pointer_def demo_dir_def)
  have save: "save_state demo_codec ?w 4 (?st \<lparr> se_pointer_etag := ''e5'' \<rparr>) demo_dir
      = Inr (demo_dir(STATE_FILE := Some (demo_show \<lparr> se_seq = 5, se_pointer_etag = ''e5'', se_domains_seq = 5 \<rparr> @ [newline])))"
    unfolding save_state_def by (subst put_file_ok) (simp_all add: demo_facts demo_codec_def)
  have "count_packages demo_codec (demo_dir(STATE_FILE := t)) = 1" for t
    by (simp add: count_packages_def read_text_def demo_dir_def demo_codec_def count_entries_def demo_lines is_entry_def)
  then show ?thesis unfolding run refresh_packages_def Let_def if_P [OF same] save by (simp add: no_summary_def)
qed

lemma not_modified:
  assumes "fc_enabled cfg" and "tw_mkdir w = None" and "verifying_key cfg (tw_key_file w) = Inr (Some k)"
    and "tw_get w 0 (trim_end_matches CHR ''/'' (fc_base_url cfg) @ ''/v1/pointer.json'')
        (se_pointer_etag (load_state cd files)) (fc_max_pointer_bytes cfg) = Inr rp" and "hr_status rp = 304"
  shows "snd (feed_refresh cd w cfg files) = files" and "sm_mode (fst (feed_refresh cd w cfg files)) = ''unchanged''"
    and "\<not> sm_skipped (fst (feed_refresh cd w cfg files))" and "sm_errors (fst (feed_refresh cd w cfg files)) = []"
  using assms by (simp_all add: feed_refresh_def fetch_pointer_def Let_def no_summary_def)

text \<open>A tick that is answered \<open>304\<close> to the saved tag, any number of times.\<close>

definition answers_304 :: "feed_config \<Rightarrow> string \<Rightarrow> tick_world \<Rightarrow> bool" where
  "answers_304 cfg etag w \<longleftrightarrow>
     tw_mkdir w = None \<and> (\<exists>k. verifying_key cfg (tw_key_file w) = Inr (Some k))
     \<and> (\<exists>rp. tw_get w 0 (trim_end_matches CHR ''/'' (fc_base_url cfg) @ ''/v1/pointer.json'') etag (fc_max_pointer_bytes cfg) = Inr rp
          \<and> hr_status rp = 304)"

lemma unmodified_tick:
  assumes "fc_enabled cfg" and "answers_304 cfg (se_pointer_etag (load_state cd files)) w"
  shows "snd (feed_refresh cd w cfg files) = files \<and> sm_mode (fst (feed_refresh cd w cfg files)) = ''unchanged''
    \<and> \<not> sm_skipped (fst (feed_refresh cd w cfg files)) \<and> sm_errors (fst (feed_refresh cd w cfg files)) = []"
  using assms(2) not_modified [OF assms(1)] unfolding answers_304_def by metis

lemma unmodified_ticks:
  assumes "fc_enabled cfg" and "\<forall>w \<in> set ws. answers_304 cfg (se_pointer_etag (load_state cd files)) w"
  shows "fold (feed_tick cd) (map (\<lambda>w. (w, cfg)) ws) files = files"
  using assms(2) by (induction ws) (simp_all add: feed_tick_def unmodified_tick [OF assms(1)])

lemma errors_stay:
  "refresh_packages cd w cfg base key p etag files st sm = (s, files') \<Longrightarrow> set (sm_errors sm) \<subseteq> set (sm_errors s)"
  by (auto simp: refresh_packages_def commit_tick_def noting_def skipping_def Let_def
      split: if_splits option.splits sum.splits prod.splits)

lemma saved_tag:
  assumes "state_codec cd" and "refresh_packages cd w cfg base key p etag files st sm = (s, files')"
    and "\<not> sm_skipped s" and "\<forall>i. tw_write w i STATE_FILE"
  shows "se_pointer_etag (load_state cd files') = etag"
proof -
  have "files' STATE_FILE = Some (fc_show_state cd (st \<lparr> se_seq := po_seq p, se_pointer_etag := etag \<rparr>) @ [newline])"
    using assms(2) by (cases rule: refresh_packages_cases) (use assms(3,4) in auto)
  then have "load_state cd files' = st \<lparr> se_seq := po_seq p, se_pointer_etag := etag \<rparr>" by (rule load_saved [OF assms(1)])
  then show ?thesis by simp
qed

text \<open>C34: A domain list that could not be fetched is not asked for again. Take a tick in which the list fails for
  whatever reason and which completes all the same (the package index is unchanged, or is installed; when it
  fails too, nothing is saved) on a disk that takes the state file. It reports the failure and keeps the old
  list, but saves the tag of the pointer that names the new one. So from then on, as long as the server
  answers \<open>304\<close> to that tag, no tick changes any file: each reports, without an error and without having
  skipped, that nothing changed, whatever it would get if it asked for the list.\<close>

theorem failed_list_is_not_retried:
  assumes "state_codec cd" and "fc_enabled cfg" and "tw_mkdir w = None"
    and "verifying_key cfg (tw_key_file w) = Inr (Some k)"
    and "base = trim_end_matches CHR ''/'' (fc_base_url cfg)"
    and "fetch_pointer cd w base (se_pointer_etag (load_state cd files)) cfg = Inr (Some (p, etag))"
    and "po_version p = 1" and "se_seq (load_state cd files) \<le> po_seq p"
    and "refresh_domains cd w base p cfg (Some k) files (load_state cd files) = Inl e"
    and "\<not> sm_skipped (fst (feed_refresh cd w cfg files))" and "\<forall>i. tw_write w i STATE_FILE"
    and "files1 = snd (feed_refresh cd w cfg files)"
  shows "InDomains e \<in> set (sm_errors (fst (feed_refresh cd w cfg files)))
    \<and> files1 DOMAINS_FEED_FILE = files DOMAINS_FEED_FILE
    \<and> (\<forall>ws. (\<forall>w' \<in> set ws. answers_304 cfg etag w') \<longrightarrow>
         fold (feed_tick cd) (map (\<lambda>w'. (w', cfg)) ws) files1 = files1
         \<and> (\<forall>w' \<in> set ws. sm_mode (fst (feed_refresh cd w' cfg files1)) = ''unchanged''
              \<and> \<not> sm_skipped (fst (feed_refresh cd w' cfg files1)) \<and> sm_errors (fst (feed_refresh cd w' cfg files1)) = []))"
proof -
  have run: "refresh_packages cd w cfg base (Some k) p etag files (load_state cd files)
      (no_summary \<lparr> sm_errors := [InDomains e], sm_domains_seq := se_domains_seq (load_state cd files) \<rparr>)
    = (fst (feed_refresh cd w cfg files), files1)"
    using feed_refresh_runs [OF assms(2-4) refl assms(5-8)] assms(9,12) by simp
  have "se_pointer_etag (load_state cd files1) = etag" by (rule saved_tag [OF assms(1) run assms(10,11)])
  then show ?thesis
    using errors_stay [OF run] refresh_packages_keeps_domains [OF run] unmodified_tick [OF assms(2), of cd files1]
      unmodified_ticks [OF assms(2), of _ cd files1]
    by auto
qed

lemma failed_list_is_not_retried_witness:
  "let files1 = snd (feed_refresh demo_codec (demo_world ''e5'' late) demo_cfg demo_dir);
       r = feed_refresh demo_codec (demo_world ''e5'' complete) demo_cfg files1 in
   served demo_codec (demo_world ''e5'' complete) (replicate 32 0) ''u/d7'' ''h'' (demo_domains 7)
   \<and> fold (feed_tick demo_codec) [(demo_world ''e5'' complete, demo_cfg)] files1 = files1
   \<and> files1 DOMAINS_FEED_FILE = Some (demo_domains 5)
   \<and> sm_mode (fst r) = ''unchanged'' \<and> \<not> sm_skipped (fst r) \<and> sm_errors (fst r) = []"
proof -
  let ?w = "demo_world ''e5'' late" and ?p = "demo_pointer 5 7 ''/i5'' ''/d7''"
  let ?st = "\<lparr> se_seq = 5, se_pointer_etag = [], se_domains_seq = 5 \<rparr>"
  have f: "fetch_pointer demo_codec ?w ''u'' (se_pointer_etag (load_state demo_codec demo_dir)) demo_cfg = Inr (Some (?p, ''e5''))"
    unfolding demo_load by (simp, rule demo_fetch_pointer [of _ "''p5''"]) (simp_all add: late_def demo_codec_def)
  have "tw_get ?w i ''u/d7'' [] lim = Inl ''timeout''" for i lim by (simp add: demo_world_def late_def)
  then have dom: "refresh_domains demo_codec ?w ''u'' ?p demo_cfg (Some (replicate 32 0)) demo_dir (load_state demo_codec demo_dir)
      = Inl (RequestFailed ''timeout'')"
    unfolding demo_load by (simp add: refresh_domains_def fetch_verified_def Let_def body_of_def demo_pointer_def)
  have "\<not> sm_skipped (fst (feed_refresh demo_codec ?w demo_cfg demo_dir))" by (simp add: late_tick no_summary_def)
  with dom have gone: "\<forall>ws. (\<forall>w' \<in> set ws. answers_304 demo_cfg ''e5'' w') \<longrightarrow>
      (let files1 = snd (feed_refresh demo_codec ?w demo_cfg demo_dir) in
       fold (feed_tick demo_codec) (map (\<lambda>w'. (w', demo_cfg)) ws) files1 = files1
       \<and> (\<forall>w' \<in> set ws. sm_mode (fst (feed_refresh demo_codec w' demo_cfg files1)) = ''unchanged''
              \<and> \<not> sm_skipped (fst (feed_refresh demo_codec w' demo_cfg files1))
              \<and> sm_errors (fst (feed_refresh demo_codec w' demo_cfg files1)) = []))"
    and keep: "snd (feed_refresh demo_codec ?w demo_cfg demo_dir) DOMAINS_FEED_FILE = demo_dir DOMAINS_FEED_FILE"
    using failed_list_is_not_retried [OF demo_state_codec demo_facts(1,3) demo_key demo_facts(2) [symmetric] f _ _ dom _ _ refl]
    by (simp_all add: Let_def demo_load demo_pointer_def demo_facts)
  have "answers_304 demo_cfg ''e5'' (demo_world ''e5'' complete)"
    using demo_key by (simp add: answers_304_def demo_facts) (simp add: demo_world_def)
  moreover have "served demo_codec (demo_world ''e5'' complete) (replicate 32 0) ''u/d7'' ''h'' (demo_domains 7)"
    by (rule demo_served) (simp_all add: complete_def demo_begins)
  ultimately show ?thesis
    using gone [rule_format, of "[demo_world ''e5'' complete]"] keep by (simp add: Let_def demo_dir_domains)
qed

section \<open>Witnesses\<close>

lemma only_signed_texts_are_installed_witness:
  "\<exists>k n. verifying_key demo_cfg (tw_key_file (demo_world ''e7'' withholding)) = Inr (Some k)
     \<and> signed_text demo_codec k (demo_domains 7) \<and> header_u64 (demo_domains 7) ''# seq '' = Some n \<and> 5 \<le> n"
proof -
  let ?w = "demo_world ''e7'' withholding"
  have run: "feed_refresh demo_codec ?w demo_cfg demo_dir
      = (fst (feed_refresh demo_codec ?w demo_cfg demo_dir), demo_dir(DOMAINS_FEED_FILE := Some (demo_domains 7)))"
    using first_tick by (metis feed_tick_def fst_conv prod.collapse snd_conv)
  have "fc_require_signature demo_cfg" by (simp add: demo_cfg_def default_feed_config_def)
  note signed = only_signed_texts_are_installed [OF run this]
  have "demo_domains 7 \<noteq> demo_domains 5"
    using demo_header [of 7 "[''evil.example'']"] demo_header [of 5 "[''evil.example'']"]
    by (auto simp: demo_domains_def)
  with signed show ?thesis by (auto simp: demo_load demo_dir_domains)
qed

lemma saved_sequences_never_go_back_witness:
  "se_seq (load_state demo_codec demo_dir)
     \<le> se_seq (load_state demo_codec (fold (feed_tick demo_codec)
         [(demo_world ''e7'' withholding, demo_cfg), (demo_world ''e6'' replaying, demo_cfg)] demo_dir))"
  using saved_sequences_never_go_back [OF demo_state_codec] by blast

lemma completed_tick_keeps_the_list_in_step_witness:
  "in_step demo_codec (demo_dir(STATE_FILE :=
     Some (demo_show \<lparr> se_seq = 5, se_pointer_etag = ''e5'', se_domains_seq = 5 \<rparr> @ [newline])))"
proof (rule completed_tick_keeps_the_list_in_step [OF demo_state_codec late_tick])
  show "in_step demo_codec demo_dir"
    unfolding in_step_def demo_load demo_dir_domains
    by (simp add: demo_domains_def demo_header [of _ "[''evil.example'']", simplified])
qed (simp_all add: no_summary_def demo_facts)

definition publishing :: "(string \<times> string) list" where
  "publishing = [(''u/v1/pointer.json'', ''p7''), (''u/d7'', demo_domains 7), (''u/d7.sig'', demo_sig),
     (''u/i7'', demo_index 7), (''u/i7.sig'', demo_sig)]"

lemma published_feed_arrives_witness:
  "load_state demo_codec (snd (feed_refresh demo_codec (demo_world ''e7'' publishing) demo_cfg demo_dir))
   = \<lparr> se_seq = 7, se_pointer_etag = ''e7'', se_domains_seq = 7 \<rparr>"
proof -
  let ?w = "demo_world ''e7'' publishing" and ?p = "demo_pointer 7 7 ''/i7'' ''/d7''"
  obtain d where d: "po_domains ?p = Some d" "dr_seq d = 7" "dr_artifact d = ''/d7''" "dr_sha256 d = ''h''"
    by (simp add: demo_pointer_def)
  have p: "po_version ?p = 1" "po_seq ?p = 7" "po_artifact ?p = ''/i7''" "po_sha256 ?p = ''h''" "po_deltas ?p = []"
    by (simp_all add: demo_pointer_def)
  have f: "fetch_pointer demo_codec ?w ''u'' [] demo_cfg = Inr (Some (?p, ''e7''))"
    by (rule demo_fetch_pointer [of _ "''p7''"]) (simp_all add: publishing_def demo_codec_def)
  have h: "header_u64 (demo_domains 7) ''# seq '' = Some 7" "header_u64 (demo_index 7) ''# seq '' = Some 7"
    unfolding demo_domains_def demo_index_def by (rule demo_header, simp)+
  have sv: "served demo_codec ?w (replicate 32 0) ''u/d7'' ''h'' (demo_domains 7)"
    "served demo_codec ?w (replicate 32 0) ''u/i7'' ''h'' (demo_index 7)"
    by (rule demo_served; simp add: publishing_def demo_begins)+
  have "\<not> sm_skipped (fst (feed_refresh demo_codec ?w demo_cfg demo_dir))
    \<and> (\<exists>now. snd (feed_refresh demo_codec ?w demo_cfg demo_dir) PACKAGES_FILE
         = Some (index_text now [(''npm'' @ tab # ''a'', ''*'')]))
    \<and> snd (feed_refresh demo_codec ?w demo_cfg demo_dir) DOMAINS_FEED_FILE = Some (demo_domains 7)
    \<and> load_state demo_codec (snd (feed_refresh demo_codec ?w demo_cfg demo_dir))
      = \<lparr> se_seq = po_seq ?p, se_pointer_etag = ''e7'', se_domains_seq = dr_seq d \<rparr>"
    by (rule published_feed_arrives [OF demo_state_codec demo_facts(1,3) demo_key, where p = ?p
          and t = "demo_index 7" and u = "demo_domains 7" and d = d])
      (simp_all add: demo_facts demo_load d p f h sv demo_parse demo_count)
  then show ?thesis by (simp add: p d)
qed

end
