(* ===== verification/Feed_Publish.thy ===== *)
theory Feed_Publish
  imports Feed_Index "HOL-Library.AList"
begin

text \<open>
  The aggregator's side of the package index: the artifact it writes (\<open>aggregator/src/normalize.js\<close>), the
  difference with the one before (\<open>diffSorted\<close>, \<open>composeOps\<close> of \<open>aggregator/src/delta.js\<close>) and \<open>publish\<close>
  of \<open>aggregator/src/index.js\<close>, which keeps a window of steps and publishes their compositions, one delta
  for every earlier sequence of the window. A JavaScript \<open>Map\<close> is the list of its entries in insertion
  order; a string is its UTF-8 bytes, so that code point order is the order of the bytes. The theorem at
  the end puts this together with the daemon's reader of deltas.
\<close>

section \<open>The order of the lines\<close>

definition cmp_bytes :: "string \<Rightarrow> string \<Rightarrow> int" where
  "cmp_bytes a b = (if a = b then 0 else if a < b then -1 else 1)"

definition cmp_line_keys :: "string \<Rightarrow> string \<Rightarrow> int" where
  "cmp_line_keys a b =
     (let c = cmp_bytes a b in
      if c < 0 \<and> length b > length a \<and> starts_with b a then (if b ! length a < tab then 1 else -1)
      else if c > 0 \<and> length a > length b \<and> starts_with a b then (if a ! length b < tab then -1 else 1)
      else c)"

text \<open>It is the order of the keys with the tab that follows them.\<close>

lemma cmp_line_keys_Cons: "cmp_line_keys (x # a) (x # b) = cmp_line_keys a b"
  by (simp add: cmp_line_keys_def cmp_bytes_def Let_def)

lemma Nil_less_snoc [simp]: "[] < xs @ [x :: char]"
  by (cases xs) simp_all

lemma cmp_line_keys_less: "cmp_line_keys a b < 0 \<longleftrightarrow> a @ [tab] < b @ [tab]"
proof (induction a arbitrary: b)
  case Nil
  show ?case by (cases b) (auto simp: cmp_line_keys_def cmp_bytes_def)
next
  case (Cons x a)
  show ?case
  proof (cases b)
    case Nil
    then show ?thesis by (auto simp: cmp_line_keys_def cmp_bytes_def)
  next
    case (Cons y ys)
    show ?thesis
    proof (cases "x = y")
      case True
      with Cons Cons.IH show ?thesis by (simp add: cmp_line_keys_Cons)
    next
      case False
      with Cons show ?thesis by (auto simp: cmp_line_keys_def cmp_bytes_def)
    qed
  qed
qed

abbreviation line_key :: "string \<Rightarrow> string" where "line_key k \<equiv> k @ [tab]"

text \<open>\<open>Array.prototype.sort\<close> with that comparison: a stable sort by the key with its tab.\<close>

definition sorted_keys :: "index \<Rightarrow> string list" where
  "sorted_keys ix = sort_key line_key (map fst ix)"

definition sort_ops :: "index_op list \<Rightarrow> index_op list" where
  "sort_ops ops = sort_key (\<lambda>p. line_key (op_key p)) ops"

section \<open>The artifact\<close>

text \<open>\<open>index.get(key)\<close>, as it is printed.\<close>

definition index_get :: "index \<Rightarrow> string \<Rightarrow> string" where
  "index_get ix k = (case map_of ix k of Some v \<Rightarrow> v | None \<Rightarrow> ''undefined'')"

definition artifact_lines :: "index \<Rightarrow> string \<Rightarrow> string list \<Rightarrow> nat \<Rightarrow> string list" where
  "artifact_lines ix now ks seq =
     [''# moat-packages v1'', ''# generated '' @ now, ''# entries '' @ show_nat (length ix), ''# seq '' @ show_nat seq]
     @ map (\<lambda>k. index_line (k, index_get ix k)) ks"

definition gunzip_lines :: "string \<Rightarrow> string list" where
  "gunzip_lines t =
     (let segs = split_on newline t in butlast segs @ (if last segs = [] then [] else [last segs]))"

lemma gunzip_join_lines:
  "\<forall>l \<in> set ls. newline \<notin> set l \<Longrightarrow> gunzip_lines (join_lines ls) = ls"
  using split_on_join_lines [of ls "[]"] by (simp add: gunzip_lines_def Let_def butlast_append)

section \<open>The difference with the artifact before\<close>

definition put_new :: "index \<Rightarrow> string \<Rightarrow> index_op" where
  "put_new ix k = Put k (index_get ix k)"

primrec diff_sorted :: "string list \<Rightarrow> string list \<Rightarrow> index \<Rightarrow> index_op list" where
  "diff_sorted [] keys ix = map (put_new ix) keys"
| "diff_sorted (line # ls) keys ix =
     (if \<not> is_entry line then diff_sorted ls keys ix
      else case rfind_char tab line of
             None \<Rightarrow> diff_sorted ls keys ix
           | Some t \<Rightarrow>
               let key = take t line; spec = drop (Suc t) line;
                   before = takeWhile (\<lambda>k. cmp_line_keys k key < 0) keys;
                   rest = dropWhile (\<lambda>k. cmp_line_keys k key < 0) keys in
               map (put_new ix) before
               @ (if rest \<noteq> [] \<and> hd rest = key
                  then (if map_of ix key \<noteq> Some spec then [put_new ix key] else []) @ diff_sorted ls (tl rest) ix
                  else Del key # diff_sorted ls rest ix))"

text \<open>One step of it on a written row.\<close>

lemma diff_sorted_row:
  assumes "key_ok k" and "tab \<notin> set v"
  shows "diff_sorted (index_line (k, v) # ls) keys ix =
    (let before = takeWhile (\<lambda>j. line_key j < line_key k) keys;
         rest = dropWhile (\<lambda>j. line_key j < line_key k) keys in
     map (put_new ix) before
     @ (if rest \<noteq> [] \<and> hd rest = k
        then (if map_of ix k \<noteq> Some v then [put_new ix k] else []) @ diff_sorted ls (tl rest) ix
        else Del k # diff_sorted ls rest ix))"
proof -
  have "is_entry (index_line (k, v))"
    using assms(1) by (auto elim!: key_okE simp: is_entry_def index_line_def index_key_def comment_append)
  moreover have "rfind_char tab (index_line (k, v)) = Some (length k)"
    using assms(2) by (simp add: index_line_def rfind_char_last)
  ultimately show ?thesis by (simp add: index_line_def cmp_line_keys_less Let_def)
qed

text \<open>A list in the order of the lines, without repetition.\<close>

abbreviation in_line_order :: "string list \<Rightarrow> bool" where
  "in_line_order ks \<equiv> sorted_wrt (\<lambda>a b. line_key a < line_key b) ks"

lemma in_line_order_split:
  assumes "in_line_order ks"
  shows "set (takeWhile (\<lambda>j. line_key j < line_key k) ks) = {j \<in> set ks. line_key j < line_key k}"
    and "set (dropWhile (\<lambda>j. line_key j < line_key k) ks) = {j \<in> set ks. \<not> line_key j < line_key k}"
    and "in_line_order (dropWhile (\<lambda>j. line_key j < line_key k) ks)"
  using assms by (induction ks) (auto dest: less_trans)

text \<open>What the difference says, exactly: for every key whose entry is another one, the new entry.\<close>

definition says_difference :: "(string \<Rightarrow> string option) \<Rightarrow> (string \<Rightarrow> string option) \<Rightarrow> index_op list \<Rightarrow> bool" where
  "says_difference m m' ops \<longleftrightarrow>
     (\<forall>p. p \<in> set ops \<longleftrightarrow> m (op_key p) \<noteq> m' (op_key p) \<and> op_value p = m' (op_key p))"


lemma op_eq_iff: "p = q \<longleftrightarrow> op_key p = op_key q \<and> op_value p = op_value q"
  by (cases p; cases q) auto

lemma put_new_iff: "map_of ix k \<noteq> None \<Longrightarrow> p = put_new ix k \<longleftrightarrow> op_key p = k \<and> op_value p = map_of ix k"
  by (auto simp: op_eq_iff put_new_def index_get_def)

lemma put_new_image: "\<forall>k \<in> K. map_of ix k \<noteq> None \<Longrightarrow>
    p \<in> put_new ix ` K \<longleftrightarrow> op_key p \<in> K \<and> op_value p = map_of ix (op_key p)"
  by (auto simp: image_iff put_new_iff)

lemma del_iff: "p = Del k \<longleftrightarrow> op_key p = k \<and> op_value p = None"
  by (simp add: op_eq_iff)

text \<open>Where the merge stands after a row: the keys before it are out, and those after it are left.\<close>

lemma merge_rest:
  assumes "in_line_order keys" and "rest = dropWhile (\<lambda>j. line_key j < line_key k) keys"
  shows "rest \<noteq> [] \<and> hd rest = k \<longleftrightarrow> k \<in> set keys"
    and "k \<in> set keys \<Longrightarrow> in_line_order (tl rest) \<and> set (tl rest) = {j \<in> set keys. line_key k < line_key j}"
    and "k \<notin> set keys \<Longrightarrow> in_line_order rest \<and> set rest = {j \<in> set keys. line_key k < line_key j}"
proof -
  have rest: "set rest = {j \<in> set keys. \<not> line_key j < line_key k}" "in_line_order rest"
    using in_line_order_split [OF assms(1), of k] assms(2) by simp_all
  have hd: "k \<in> set rest \<Longrightarrow> rest = k # tl rest"
  proof (cases rest)
    case (Cons a r)
    then have "a \<in> set rest" "\<forall>j \<in> set r. line_key a < line_key j" using rest(2) by simp_all
    moreover from this(1) have "\<not> line_key a < line_key k" unfolding rest(1) by blast
    ultimately show "k \<in> set rest \<Longrightarrow> rest = k # tl rest" using Cons by auto
  qed simp
  show "rest \<noteq> [] \<and> hd rest = k \<longleftrightarrow> k \<in> set keys"
  proof
    assume "rest \<noteq> [] \<and> hd rest = k"
    then have "k \<in> set rest" by (metis list.set_sel(1))
    then show "k \<in> set keys" using rest(1) by simp
  next
    assume "k \<in> set keys"
    then have "rest = k # tl rest" using rest(1) hd by simp
    then show "rest \<noteq> [] \<and> hd rest = k" by (metis list.sel(1) list.distinct(1))
  qed
  show "in_line_order (tl rest) \<and> set (tl rest) = {j \<in> set keys. line_key k < line_key j}" if "k \<in> set keys"
  proof -
    from that rest(1) hd have r: "rest = k # tl rest" by simp
    then have o': "in_line_order (k # tl rest)" using rest(2) by simp
    have "set (k # tl rest) = {j \<in> set keys. \<not> line_key j < line_key k}" using rest(1) r by simp
    with o' show ?thesis by (auto simp: not_less)
  qed
  show "in_line_order rest \<and> set rest = {j \<in> set keys. line_key k < line_key j}" if "k \<notin> set keys"
    using rest that by (auto simp: not_less order_le_less)
qed

lemma diff_sorted_says:
  assumes "in_line_order (map fst rows)" and "in_line_order keys" and "\<forall>k \<in> set keys. map_of ix k \<noteq> None"
    and "\<forall>(k, v) \<in> set rows. key_ok k \<and> tab \<notin> set v"
  shows "says_difference (map_of rows) (\<lambda>k. if k \<in> set keys then map_of ix k else None)
           (diff_sorted (map index_line rows) keys ix)"
  using assms
proof (induction rows arbitrary: keys)
  case Nil
  then show ?case by (auto simp: says_difference_def put_new_image)
next
  case (Cons kv rows)
  obtain k v where kv: "kv = (k, v)" by (cases kv)
  let ?rest = "dropWhile (\<lambda>j. line_key j < line_key k) keys"
  define left where "left = (if k \<in> set keys then tl ?rest else ?rest)"
  note m = merge_rest [OF Cons.prems(2) refl, of k]
  have left: "in_line_order left" "set left = {j \<in> set keys. line_key k < line_key j}"
    using m by (simp_all add: left_def)
  have diff: "set (diff_sorted (map index_line (kv # rows)) keys ix) =
      put_new ix ` {j \<in> set keys. line_key j < line_key k}
      \<union> (if k \<in> set keys then (if map_of ix k \<noteq> Some v then {put_new ix k} else {}) else {Del k})
      \<union> set (diff_sorted (map index_line rows) left ix)"
    using Cons.prems(4) m(1) in_line_order_split(1) [OF Cons.prems(2), of k]
    by (simp add: kv diff_sorted_row Let_def left_def del: diff_sorted.simps)
  have IH: "says_difference (map_of rows) (\<lambda>j. if j \<in> set left then map_of ix j else None)
      (diff_sorted (map index_line rows) left ix)"
    using Cons.prems left by (intro Cons.IH) auto
  have gt: "map_of rows j = None" if "\<not> line_key k < line_key j" for j
    using Cons.prems(1) that by (auto simp: kv map_of_eq_None_iff)
  show ?case
    unfolding says_difference_def
  proof
    fix p
    consider "line_key (op_key p) < line_key k" | "op_key p = k" | "line_key k < line_key (op_key p)"
      using less_linear [of "line_key (op_key p)" "line_key k"] by auto
    then show "p \<in> set (diff_sorted (map index_line (kv # rows)) keys ix) \<longleftrightarrow>
        map_of (kv # rows) (op_key p) \<noteq> (if op_key p \<in> set keys then map_of ix (op_key p) else None)
        \<and> op_value p = (if op_key p \<in> set keys then map_of ix (op_key p) else None)"
    proof cases
      case 1
      with IH left gt [of "op_key p"] Cons.prems(3) show ?thesis
        unfolding diff by (auto simp: kv says_difference_def put_new_image put_new_iff del_iff)
    next
      case 2
      with IH left gt [of "op_key p"] Cons.prems(3) show ?thesis
        unfolding diff by (auto simp: kv says_difference_def put_new_image put_new_iff del_iff)
    next
      case 3
      with IH left Cons.prems(3) show ?thesis
        unfolding diff by (auto simp: kv says_difference_def put_new_image put_new_iff del_iff)
    qed
  qed
qed

lemma says_difference_apply:
  assumes "says_difference m m' ops"
  shows "apply_ops m ops = m'"
proof
  fix k
  show "apply_ops m ops k = m' k"
  proof (cases "k \<in> op_key ` set ops")
    case True
    then obtain p where p: "p \<in> set ops" "k = op_key p" by blast
    have "apply_ops m ops (op_key p) = op_value p"
      by (rule apply_ops_in) (use assms p in \<open>auto simp: says_difference_def\<close>)
    with p assms show ?thesis by (simp add: says_difference_def)
  next
    case False
    have "m k = m' k"
    proof (cases "m' k")
      case None
      with False assms show ?thesis
        by (metis imageI op_key.simps(2) op_value.simps(2) says_difference_def)
    next
      case (Some v)
      with False assms show ?thesis
        by (metis imageI op_key.simps(1) op_value.simps(1) says_difference_def)
    qed
    with False show ?thesis by (simp add: apply_ops_other)
  qed
qed


lemma in_line_order_sorted_keys:
  assumes "distinct (map fst ix)"
  shows "in_line_order (sorted_keys ix)" and "set (sorted_keys ix) = fst ` set ix"
proof -
  have "sorted (map line_key (sorted_keys ix))" by (simp add: sorted_keys_def)
  moreover have "distinct (map line_key (sorted_keys ix))"
    using assms by (simp add: sorted_keys_def distinct_map inj_on_def)
  ultimately have "sorted_wrt (<) (map line_key (sorted_keys ix))" by (simp add: strict_sorted_iff)
  then show "in_line_order (sorted_keys ix)" by (simp add: sorted_wrt_map)
qed (simp add: sorted_keys_def)

text \<open>The rows of an artifact, in the order of its lines.\<close>

definition artifact_rows :: "index \<Rightarrow> index" where
  "artifact_rows ix = map (\<lambda>k. (k, index_get ix k)) (sorted_keys ix)"

lemma artifact_rows:
  assumes "distinct (map fst ix)"
  shows "map fst (artifact_rows ix) = sorted_keys ix" and "set (artifact_rows ix) = set ix"
    and "map_of (artifact_rows ix) = map_of ix"
proof -
  show 1: "map fst (artifact_rows ix) = sorted_keys ix" by (simp add: artifact_rows_def comp_def)
  have "(fst kv, index_get ix (fst kv)) = kv" if "kv \<in> set ix" for kv
    using assms that by (cases kv) (simp add: index_get_def)
  then have "(\<lambda>kv. (fst kv, index_get ix (fst kv))) ` set ix = (\<lambda>kv. kv) ` set ix" by (rule image_cong [OF refl])
  then show 2: "set (artifact_rows ix) = set ix"
    using in_line_order_sorted_keys(2) [OF assms] by (simp add: artifact_rows_def image_image)
  have "distinct (map fst (artifact_rows ix))" using assms by (simp add: 1 sorted_keys_def)
  then show "map_of (artifact_rows ix) = map_of ix" using assms 2 map_of_inject_set [of "artifact_rows ix" ix] by simp
qed

definition spec_ok :: "index \<Rightarrow> bool" where
  "spec_ok ix \<longleftrightarrow> list_all (\<lambda>kv. tab \<notin> set (snd kv)) ix"

lemma diff_sorted_comments: "list_all (\<lambda>l. \<not> is_entry l) cs \<Longrightarrow> diff_sorted (cs @ ls) keys ix = diff_sorted ls keys ix"
  by (induction cs) simp_all

text \<open>The difference with the artifact of an index is the difference with the index.\<close>

lemma diff_with_artifact:
  assumes "index_ok old" and "spec_ok old" and "distinct (map fst new)"
  shows "says_difference (map_of old) (map_of new)
           (diff_sorted (artifact_lines old now (sorted_keys old) seq) (sorted_keys new) new)"
proof -
  have d: "distinct (map fst old)" using assms(1) by (simp add: index_ok_def bt_sorted_distinct)
  have comments: "list_all (\<lambda>l. \<not> is_entry l)
      [''# moat-packages v1'', ''# generated '' @ now, ''# entries '' @ show_nat (length old), ''# seq '' @ show_nat seq]"
    by (simp add: is_entry_def)
  have "artifact_lines old now (sorted_keys old) seq =
      [''# moat-packages v1'', ''# generated '' @ now, ''# entries '' @ show_nat (length old), ''# seq '' @ show_nat seq]
      @ map index_line (artifact_rows old)"
    by (simp add: artifact_lines_def artifact_rows_def)
  then have "diff_sorted (artifact_lines old now (sorted_keys old) seq) (sorted_keys new) new
      = diff_sorted (map index_line (artifact_rows old)) (sorted_keys new) new"
    by (simp only: diff_sorted_comments [OF comments])
  moreover have "says_difference (map_of (artifact_rows old))
      (\<lambda>k. if k \<in> set (sorted_keys new) then map_of new k else None)
      (diff_sorted (map index_line (artifact_rows old)) (sorted_keys new) new)"
  proof (rule diff_sorted_says)
    show "in_line_order (map fst (artifact_rows old))"
      using in_line_order_sorted_keys(1) [OF d] by (simp only: artifact_rows [OF d])
    show "in_line_order (sorted_keys new)" using in_line_order_sorted_keys(1) [OF assms(3)] .
    show "\<forall>k \<in> set (sorted_keys new). map_of new k \<noteq> None"
      using in_line_order_sorted_keys(2) [OF assms(3)] by (simp add: map_of_eq_None_iff)
    show "\<forall>(k, v) \<in> set (artifact_rows old). key_ok k \<and> tab \<notin> set v"
      using assms(1,2) index_ok_rows by (fastforce simp: artifact_rows [OF d] spec_ok_def list_all_iff)
  qed
  moreover have "(\<lambda>k. if k \<in> set (sorted_keys new) then map_of new k else None) = map_of new"
  proof
    fix k
    show "(if k \<in> set (sorted_keys new) then map_of new k else None) = map_of new k"
      using in_line_order_sorted_keys(2) [OF assms(3)] map_of_eq_None_iff [of new k] by auto
  qed
  ultimately show ?thesis using artifact_rows(3) [OF d] by simp
qed

section \<open>Steps one after the other\<close>

definition compose_ops :: "index_op list \<Rightarrow> index_op list \<Rightarrow> index_op list" where
  "compose_ops a b =
     (let m = fold (\<lambda>p. AList.update (op_key p) p) a [];
          m = fold (\<lambda>p. AList.update (op_key p) p) b m in
      sort_ops (map snd m))"

lemma apply_ops_upd: "k \<notin> op_key ` set ops \<Longrightarrow> apply_ops (c(k := v)) ops = (apply_ops c ops)(k := v)"
proof (induction ops arbitrary: c)
  case (Cons p ops)
  then have "c(k := v, op_key p := op_value p) = (c(op_key p := op_value p))(k := v)" by (intro fun_upd_twist) simp
  moreover have "k \<notin> op_key ` set ops" using Cons.prems by simp
  note Cons.IH [OF this, of "c(op_key p := op_value p)"]
  ultimately show ?case by (simp only: apply_ops_simps)
qed simp

definition keyed :: "(string \<times> index_op) list \<Rightarrow> bool" where
  "keyed m \<longleftrightarrow> distinct (map fst m) \<and> (\<forall>kp \<in> set m. fst kp = op_key (snd kp))"

lemma keyed_Cons: "keyed (q # m) \<longleftrightarrow> fst q = op_key (snd q) \<and> fst q \<notin> fst ` set m \<and> keyed m"
  by (auto simp: keyed_def)

lemma keyed_keys: "keyed m \<Longrightarrow> op_key ` set (map snd m) = fst ` set m"
  by (force simp: keyed_def image_image)

lemma keyed_same:
  assumes "keyed m" and "p \<in> set (map snd m)" and "q \<in> set (map snd m)" and "op_key p = op_key q"
  shows "p = q"
proof -
  have "(op_key p, p) \<in> set m" "(op_key q, q) \<in> set m" using assms(1-3) by (force simp: keyed_def)+
  with assms(1,4) show ?thesis unfolding keyed_def by (metis eq_key_imp_eq_value)
qed

lemma keyed_update:
  assumes "keyed m"
  shows "keyed (AList.update (op_key p) p m)"
    and "apply_ops c (map snd (AList.update (op_key p) p m)) = (apply_ops c (map snd m))(op_key p := op_value p)"
    and "snd ` set (AList.update (op_key p) p m) \<subseteq> insert p (snd ` set m)"
  using assms
proof (atomize (full), induction m arbitrary: c)
  case (Cons q m)
  then have q: "fst q = op_key (snd q)" "fst q \<notin> fst ` set m" "keyed m" unfolding keyed_Cons by blast+
  show ?case
  proof (cases "fst q = op_key p")
    case True
    with q(2) have "op_key p \<notin> op_key ` set (map snd m)" unfolding keyed_keys [OF q(3)] by simp
    from apply_ops_upd [OF this, of "c(op_key p := op_value (snd q))" "op_value p"]
      apply_ops_upd [OF this, of c "op_value p"]
    have "apply_ops c (map snd ((op_key p, p) # m)) = (apply_ops c (map snd (q # m)))(op_key p := op_value p)"
      using q(1) True by simp
    with q True show ?thesis by (auto simp: keyed_Cons)
  next
    case False
    then have u: "AList.update (op_key p) p (q # m) = q # AList.update (op_key p) p m" by simp
    note IH = Cons.IH [OF q(3)]
    have "keyed (q # AList.update (op_key p) p m)" using IH q(1,2) False by (simp add: keyed_Cons AList.dom_update)
    with IH show ?thesis unfolding u by auto
  qed
qed (simp add: keyed_def)

lemma keyed_fold:
  assumes "keyed m"
  shows "keyed (fold (\<lambda>p. AList.update (op_key p) p) ops m)"
    and "apply_ops c (map snd (fold (\<lambda>p. AList.update (op_key p) p) ops m)) = apply_ops (apply_ops c (map snd m)) ops"
    and "snd ` set (fold (\<lambda>p. AList.update (op_key p) p) ops m) \<subseteq> set ops \<union> snd ` set m"
  using assms
proof (atomize (full), induction ops arbitrary: m)
  case (Cons p ops)
  note u = keyed_update [OF Cons.prems, where p = p]
  note IH = Cons.IH [OF u(1)]
  have "snd ` set (fold (\<lambda>p. AList.update (op_key p) p) (p # ops) m) \<subseteq> set (p # ops) \<union> snd ` set m"
    using IH u(3) by (simp only: fold_Cons comp_apply list.simps) blast
  with IH show ?case by (simp only: fold_Cons comp_apply u(2) apply_ops_simps)
qed simp

lemma apply_ops_keyed:
  assumes "keyed m" and "set ops = set (map snd m)"
  shows "apply_ops c ops = apply_ops c (map snd m)"
proof
  fix k
  have same: "\<forall>p \<in> set (map snd m). \<forall>q \<in> set (map snd m). op_key p = op_key q \<longrightarrow> op_value p = op_value q"
    using keyed_same [OF assms(1)] by metis
  show "apply_ops c ops k = apply_ops c (map snd m) k"
  proof (cases "k \<in> op_key ` set ops")
    case True
    then obtain p where p: "p \<in> set ops" "k = op_key p" by blast
    have "apply_ops c ops (op_key p) = op_value p" by (rule apply_ops_in [OF same [folded assms(2)] p(1)])
    moreover have "apply_ops c (map snd m) (op_key p) = op_value p"
      by (rule apply_ops_in [OF same]) (use assms(2) p in simp)
    ultimately show ?thesis using p by simp
  next
    case False
    with assms(2) show ?thesis by (simp add: apply_ops_other)
  qed
qed

text \<open>Composing two deltas is applying one after the other, with no operation that is in neither.\<close>

lemma compose_ops:
  shows "apply_ops c (compose_ops a b) = apply_ops (apply_ops c a) b" and "set (compose_ops a b) \<subseteq> set a \<union> set b"
proof -
  let ?f = "fold (\<lambda>p. AList.update (op_key p) p)"
  have "keyed []" by (simp add: keyed_def)
  note fa = keyed_fold [OF this, where ops = a]
  note fb = keyed_fold [OF fa(1), where ops = b]
  have "set (compose_ops a b) = set (map snd (?f b (?f a [])))" by (simp add: compose_ops_def sort_ops_def)
  from apply_ops_keyed [OF fb(1) this] show "apply_ops c (compose_ops a b) = apply_ops (apply_ops c a) b"
    by (simp only: fb(2) fa(2) list.map apply_ops_simps)
  have "snd ` set (?f b (?f a [])) \<subseteq> set b \<union> set a" using fa(3) fb(3) by force
  then show "set (compose_ops a b) \<subseteq> set a \<union> set b"
    by (auto simp only: \<open>set (compose_ops a b) = set (map snd (?f b (?f a [])))\<close> list.set_map)
qed


section \<open>Publishing\<close>

text \<open>
  The part of \<open>state.json\<close> the deltas rest on: the sequence, the text of the artifact it names and the steps
  kept, oldest first, each with the operations from one sequence to the next.
\<close>

type_synonym pub_step = "nat \<times> nat \<times> index_op list"

record pub_state =
  pb_seq :: nat
  pb_artifact :: "string option"
  pb_steps :: "pub_step list"

definition pub_start :: pub_state where
  "pub_start = \<lparr>pb_seq = 0, pb_artifact = None, pb_steps = []\<rparr>"

text \<open>\<open>slice(-n)\<close>, which is the whole array for zero.\<close>

definition last_n :: "nat \<Rightarrow> 'a list \<Rightarrow> 'a list" where
  "last_n n xs = (if n = 0 then xs else drop (length xs - n) xs)"

text \<open>The loop over the steps, newest first, with the operations composed so far.\<close>

fun delta_window :: "nat \<Rightarrow> index_op list \<Rightarrow> pub_step list \<Rightarrow> (nat \<times> string) list" where
  "delta_window seq acc [] = []"
| "delta_window seq acc ((from_seq, to_seq, ops) # older) =
     (let acc' = compose_ops ops acc in (from_seq, delta_text from_seq seq acc') # delta_window seq acc' older)"

text \<open>
  \<open>publish\<close>, with the moment, the new index and whether the bucket still has the last artifact: the new
  state and, unless nothing changed, the deltas of the pointer. Uploads that fail end the run before the
  state is saved, and the next one starts from the old state.
\<close>

definition publish :: "nat \<Rightarrow> bool \<Rightarrow> string \<Rightarrow> index \<Rightarrow> pub_state \<Rightarrow> pub_state \<times> (nat \<times> string) list option" where
  "publish window found now ix st =
     (let ks = sorted_keys ix;
          step_ops = (case pb_artifact st of
              Some t \<Rightarrow> if found then Some (diff_sorted (gunzip_lines t) ks ix) else None
            | None \<Rightarrow> None) in
      if step_ops = Some [] then (st, None)
      else
        let seq = pb_seq st + 1;
            steps = (case step_ops of
                Some ops \<Rightarrow> last_n window (pb_steps st @ [(pb_seq st, seq, ops)])
              | None \<Rightarrow> []) in
        (\<lparr>pb_seq = seq, pb_artifact = Some (join_lines (artifact_lines ix now ks seq)), pb_steps = steps\<rparr>,
         Some (delta_window seq [] (rev steps))))"

text \<open>A run of publications, and what they published, oldest first.\<close>

fun pub_run :: "nat \<Rightarrow> pub_state \<Rightarrow> (bool \<times> string \<times> index) list \<Rightarrow> pub_state \<times> (index \<times> (nat \<times> string) list) list" where
  "pub_run window st [] = (st, [])"
| "pub_run window st ((found, now, ix) # runs) =
     (case publish window found now ix st of
        (st1, None) \<Rightarrow> pub_run window st1 runs
      | (st1, Some ds) \<Rightarrow> let (st2, log) = pub_run window st1 runs in (st2, (ix, ds) # log))"

section \<open>What the steps say\<close>

text \<open>
  \<open>hs\<close> are the indexes published, the one of sequence \<open>n\<close> at \<open>n - 1\<close>. Newest first, the steps that end at
  \<open>n\<close> lead from each index to the next.
\<close>

fun steps_back :: "index list \<Rightarrow> nat \<Rightarrow> pub_step list \<Rightarrow> bool" where
  "steps_back hs n [] = True"
| "steps_back hs n ((from_seq, to_seq, ops) # older) \<longleftrightarrow>
     n = Suc from_seq \<and> 1 \<le> from_seq \<and> from_seq < length hs \<and> list_all op_ok ops
     \<and> apply_ops (map_of (hs ! (from_seq - 1))) ops = map_of (hs ! from_seq) \<and> steps_back hs from_seq older"

lemma steps_back_take: "steps_back hs n rs \<Longrightarrow> steps_back hs n (take k rs)"
  by (induction hs n rs arbitrary: k rule: steps_back.induct) (auto simp: take_Cons split: nat.splits)

lemma steps_back_later: "steps_back hs n rs \<Longrightarrow> steps_back (hs @ [ix]) n rs"
  by (induction hs n rs rule: steps_back.induct) (auto simp: nth_append)

lemma steps_back_last_n: "steps_back hs n (rev steps) \<Longrightarrow> steps_back hs n (rev (last_n w steps))"
  using steps_back_take [of hs n "rev steps" "length steps - (length steps - w)"] by (simp add: last_n_def rev_drop)

definition leads_to :: "index list \<Rightarrow> nat \<Rightarrow> index \<Rightarrow> nat \<Rightarrow> string \<Rightarrow> bool" where
  "leads_to hs seq new from_seq text \<longleftrightarrow>
     1 \<le> from_seq \<and> from_seq < seq
     \<and> (\<exists>ops. text = delta_text from_seq seq ops \<and> list_all op_ok ops
          \<and> apply_ops (map_of (hs ! (from_seq - 1))) ops = map_of new)"

lemma delta_window_leads:
  assumes "steps_back hs n rs" and "n \<le> seq" and "list_all op_ok acc"
    and "apply_ops (map_of (hs ! (n - 1))) acc = map_of new"
  shows "\<forall>(from_seq, text) \<in> set (delta_window seq acc rs). leads_to hs seq new from_seq text"
  using assms
proof (induction seq acc rs arbitrary: n rule: delta_window.induct)
  case (2 seq acc from_seq to_seq ops older)
  then have step: "n = Suc from_seq" "1 \<le> from_seq" "list_all op_ok ops" "steps_back hs from_seq older"
      "apply_ops (map_of (hs ! (from_seq - 1))) ops = map_of (hs ! from_seq)" by simp_all
  have ok: "list_all op_ok (compose_ops ops acc)"
    using compose_ops(2) [of ops acc] step(3) 2(4) by (auto simp: list_all_iff)
  have app: "apply_ops (map_of (hs ! (from_seq - 1))) (compose_ops ops acc) = map_of new"
    using step(1,5) 2(5) by (simp add: compose_ops(1))
  have "\<forall>(from_seq, text) \<in> set (delta_window seq (compose_ops ops acc) older). leads_to hs seq new from_seq text"
    using "2.IH" [OF refl step(4) _ ok app] 2(3) step(1) by simp
  moreover have "leads_to hs seq new from_seq (delta_text from_seq seq (compose_ops ops acc))"
    using ok app step(1,2) 2(3) unfolding leads_to_def by (metis Suc_le_lessD)
  ultimately show ?case by (simp add: Let_def)
qed simp


section \<open>A run of publications\<close>

definition published_ok :: "index \<Rightarrow> bool" where
  "published_ok ix \<longleftrightarrow> index_ok ix \<and> spec_ok ix"

lemma published_distinct: "published_ok ix \<Longrightarrow> distinct (map fst ix)"
  by (simp add: published_ok_def index_ok_def bt_sorted_distinct)

lemma difference_ok:
  assumes "published_ok old" and "published_ok new" and "says_difference (map_of old) (map_of new) ops"
  shows "list_all op_ok ops"
proof -
  have "op_ok p" if "p \<in> set ops" for p
  proof (cases p)
    case (Put k v)
    with that assms(3) have "map_of new k = Some v" by (auto simp: says_difference_def)
    then have "(k, v) \<in> set new" by (rule map_of_SomeD)
    moreover from this assms(2) have "tab \<notin> set v" by (auto simp: published_ok_def spec_ok_def list_all_iff)
    ultimately show ?thesis using assms(2) index_ok_rows [of new k v] Put
      by (auto simp: published_ok_def op_ok_def plain_line_def index_line_def)
  next
    case (Del k)
    with that assms(3) have "map_of old k \<noteq> None" by (fastforce simp: says_difference_def)
    then obtain v where "(k, v) \<in> set old" by (auto dest: map_of_SomeD)
    with assms(1) index_ok_rows [of old k v] Del show ?thesis
      by (auto simp: published_ok_def op_ok_def plain_line_def)
  qed
  then show ?thesis by (simp add: list_all_iff)
qed

definition artifact_of :: "index \<Rightarrow> nat \<Rightarrow> string \<Rightarrow> bool" where
  "artifact_of ix seq t \<longleftrightarrow>
     (\<exists>now. newline \<notin> set now \<and> t = join_lines (artifact_lines ix now (sorted_keys ix) seq))"

lemma artifact_lines_free:
  assumes "published_ok ix" and "newline \<notin> set now"
  shows "\<forall>l \<in> set (artifact_lines ix now (sorted_keys ix) seq). newline \<notin> set l"
proof -
  have "artifact_lines ix now (sorted_keys ix) seq =
      [''# moat-packages v1'', ''# generated '' @ now, ''# entries '' @ show_nat (length ix), ''# seq '' @ show_nat seq]
      @ map index_line (artifact_rows ix)"
    by (simp add: artifact_lines_def artifact_rows_def)
  moreover have "newline \<notin> set (index_line kv)" if "kv \<in> set (artifact_rows ix)" for kv
    using that assms(1) index_ok_rows [of ix "fst kv" "snd kv"] artifact_rows(2) [OF published_distinct [OF assms(1)]]
    by (simp add: published_ok_def plain_line_def)
  moreover have "newline \<notin> set (show_nat n)" for n using plain_number [of n] by (simp add: plain_line_def)
  ultimately show ?thesis using assms(2) by auto
qed

lemma diff_artifact_of:
  assumes "published_ok old" and "published_ok new" and "artifact_of old seq t"
  shows "says_difference (map_of old) (map_of new) (diff_sorted (gunzip_lines t) (sorted_keys new) new)"
proof -
  from assms(3) obtain now where now: "newline \<notin> set now"
      "t = join_lines (artifact_lines old now (sorted_keys old) seq)" by (auto simp: artifact_of_def)
  have "gunzip_lines t = artifact_lines old now (sorted_keys old) seq"
    unfolding now(2) by (rule gunzip_join_lines [OF artifact_lines_free [OF assms(1) now(1)]])
  then show ?thesis
    using assms(1) published_distinct [OF assms(2)] by (simp add: published_ok_def diff_with_artifact)
qed

definition pub_ok :: "index list \<Rightarrow> pub_state \<Rightarrow> bool" where
  "pub_ok hs st \<longleftrightarrow>
     pb_seq st = length hs \<and> list_all published_ok hs
     \<and> (\<forall>t. pb_artifact st = Some t \<longrightarrow> hs \<noteq> [] \<and> artifact_of (last hs) (length hs) t)
     \<and> steps_back hs (length hs) (rev (pb_steps st))"

lemma pub_ok_start: "pub_ok [] pub_start"
  by (simp add: pub_ok_def pub_start_def)

text \<open>One publication keeps the invariant, and each delta it publishes leads to the new index.\<close>

lemma publish_step:
  assumes "pub_ok hs st" and "published_ok ix" and "newline \<notin> set now"
    and "publish w found now ix st = (st', Some ds)"
  shows "pub_ok (hs @ [ix]) st'"
    and "\<forall>(from_seq, text) \<in> set ds. leads_to (hs @ [ix]) (Suc (length hs)) ix from_seq text"
proof -
  define step_ops where "step_ops = (case pb_artifact st of
      Some t \<Rightarrow> if found then Some (diff_sorted (gunzip_lines t) (sorted_keys ix) ix) else None | None \<Rightarrow> None)"
  define kept where "kept = (case step_ops of
      Some ops \<Rightarrow> last_n w (pb_steps st @ [(pb_seq st, pb_seq st + 1, ops)]) | None \<Rightarrow> [])"
  have seq: "pb_seq st = length hs" using assms(1) by (simp add: pub_ok_def)
  have st': "st' = \<lparr>pb_seq = Suc (length hs),
        pb_artifact = Some (join_lines (artifact_lines ix now (sorted_keys ix) (Suc (length hs)))), pb_steps = kept\<rparr>"
      "ds = delta_window (Suc (length hs)) [] (rev kept)"
    using assms(4) seq unfolding publish_def step_ops_def [symmetric] Let_def kept_def [symmetric]
    by (auto split: if_splits)
  have led: "steps_back (hs @ [ix]) (Suc (length hs)) (rev kept)"
  proof (cases step_ops)
    case (Some os)
    then obtain t where t: "pb_artifact st = Some t" "os = diff_sorted (gunzip_lines t) (sorted_keys ix) ix"
      by (auto simp: step_ops_def split: option.splits if_splits)
    with assms(1) have old: "hs \<noteq> []" "artifact_of (last hs) (length hs) t" "published_ok (last hs)"
      by (auto simp: pub_ok_def list_all_iff)
    have says: "says_difference (map_of (last hs)) (map_of ix) os"
      unfolding t(2) by (rule diff_artifact_of [OF old(3) assms(2) old(2)])
    have "steps_back (hs @ [ix]) (length hs) (rev (pb_steps st))"
      using assms(1) steps_back_later by (simp add: pub_ok_def)
    then have "steps_back (hs @ [ix]) (Suc (length hs)) (rev (pb_steps st @ [(pb_seq st, pb_seq st + 1, os)]))"
      using old(1) seq difference_ok [OF old(3) assms(2) says] says_difference_apply [OF says]
      by (simp add: nth_append last_conv_nth Suc_leI)
    then show ?thesis using steps_back_last_n by (simp add: kept_def Some)
  qed (simp add: kept_def)
  with assms(1-3) show "pub_ok (hs @ [ix]) st'"
    by (auto simp: pub_ok_def st' artifact_of_def)
  show "\<forall>(from_seq, text) \<in> set ds. leads_to (hs @ [ix]) (Suc (length hs)) ix from_seq text"
    unfolding st'(2) by (rule delta_window_leads [OF led]) simp_all
qed

lemma publish_nothing: "publish w found now ix st = (st', None) \<Longrightarrow> st' = st"
  by (auto simp: publish_def Let_def split: option.splits if_splits)


fun run_ok :: "bool \<times> string \<times> index \<Rightarrow> bool" where
  "run_ok (found, now, ix) \<longleftrightarrow> published_ok ix \<and> newline \<notin> set now"

lemma pub_run_leads:
  assumes "pub_ok hs st" and "pub_run w st runs = (st', log)" and "list_all run_ok runs"
  shows "list_all published_ok (hs @ map fst log)
    \<and> (\<forall>i < length log. \<forall>(from_seq, text) \<in> set (snd (log ! i)).
         leads_to (hs @ map fst log) (Suc (length hs + i)) (fst (log ! i)) from_seq text)"
  using assms
proof (induction runs arbitrary: hs st log)
  case Nil
  then show ?case by (simp add: pub_ok_def)
next
  case (Cons run runs)
  obtain found now ix where run: "run = (found, now, ix)" by (cases run)
  with Cons.prems(3) have ok: "published_ok ix" "newline \<notin> set now" "list_all run_ok runs" by simp_all
  show ?case
  proof (cases "publish w found now ix st")
    case (Pair st1 r)
    show ?thesis
    proof (cases r)
      case None
      with Pair have "st1 = st" by (simp add: publish_nothing)
      with Cons ok Pair None run show ?thesis by simp
    next
      case (Some ds)
      obtain log' where log': "pub_run w st1 runs = (st', log')" "log = (ix, ds) # log'"
        using Cons.prems(2) Pair Some run by (auto split: prod.splits)
      from Pair Some have p: "publish w found now ix st = (st1, Some ds)" by simp
      note step = publish_step [OF Cons.prems(1) ok(1,2) p]
      note IH = Cons.IH [OF step(1) log'(1) ok(3)]
      have first: "leads_to ((hs @ [ix]) @ map fst log') (Suc (length hs)) ix from_seq t"
        if "(from_seq, t) \<in> set ds" for from_seq t
        using step(2) that by (fastforce simp: leads_to_def nth_append)
      have "leads_to (hs @ map fst log) (Suc (length hs + i)) (fst (log ! i)) from_seq t"
        if "i < length log" "(from_seq, t) \<in> set (snd (log ! i))" for i from_seq t
        using that first IH log'(2) by (cases i) fastforce+
      with IH log'(2) show ?thesis by auto
    qed
  qed
qed

text \<open>While the bucket keeps the last artifact, the steps kept are the last ones, as many as the window says.\<close>

definition window_full :: "nat \<Rightarrow> pub_state \<Rightarrow> bool" where
  "window_full w st \<longleftrightarrow>
     map fst (pb_steps st) = [pb_seq st - min w (pb_seq st - 1) ..< pb_seq st]
     \<and> (0 < pb_seq st \<longleftrightarrow> pb_artifact st \<noteq> None)"

lemma delta_window_from: "map fst (delta_window seq acc rs) = map fst rs"
  by (induction seq acc rs rule: delta_window.induct) (simp_all add: Let_def)

lemma window_last_n:
  assumes "0 < w" and "0 < n"
  shows "last_n w ([n - min w (n - 1) ..< n] @ [n]) = [Suc n - min w n ..< Suc n]"
proof -
  have "[n - min w (n - 1) ..< n] @ [n] = [n - min w (n - 1) ..< Suc n]" by simp
  with assms show ?thesis by (simp add: last_n_def min_def del: upt_Suc)
qed

lemma map_last_n: "map f (last_n w xs) = last_n w (map f xs)"
  by (simp add: last_n_def drop_map)

lemma publish_window:
  assumes "window_full w st" and "0 < w" and "publish w True now ix st = (st', Some ds)"
  shows "window_full w st' \<and> pb_seq st' = Suc (pb_seq st)
    \<and> map fst ds = rev [Suc (pb_seq st) - min w (pb_seq st) ..< Suc (pb_seq st)]"
proof (cases "pb_artifact st")
  case None
  with assms show ?thesis by (auto simp: window_full_def publish_def Let_def)
next
  case (Some t)
  let ?ops = "diff_sorted (gunzip_lines t) (sorted_keys ix) ix"
  let ?steps = "last_n w (pb_steps st @ [(pb_seq st, Suc (pb_seq st), ?ops)])"
  have st': "pb_seq st' = Suc (pb_seq st)" "pb_steps st' = ?steps" "pb_artifact st' \<noteq> None"
      "ds = delta_window (Suc (pb_seq st)) [] (rev ?steps)"
    using assms(3) Some by (auto simp: publish_def Let_def split: if_splits)
  have "map fst ?steps = [Suc (pb_seq st) - min w (pb_seq st) ..< Suc (pb_seq st)]"
    using assms(1,2) Some window_last_n [of w "pb_seq st"]
    by (simp add: window_full_def map_last_n del: upt_Suc)
  with st' show ?thesis by (simp add: window_full_def delta_window_from rev_map [symmetric] del: upt_Suc)
qed

lemma pub_run_window:
  assumes "window_full w st" and "0 < w" and "pub_run w st runs = (st', log)" and "list_all fst runs" and "i < length log"
  shows "map fst (snd (log ! i)) = rev [Suc (pb_seq st + i) - min w (pb_seq st + i) ..< Suc (pb_seq st + i)]"
  using assms
proof (induction runs arbitrary: st log i)
  case (Cons run runs)
  obtain now ix where run: "run = (True, now, ix)" using Cons.prems(4) by (cases run) auto
  show ?case
  proof (cases "publish w True now ix st")
    case (Pair st1 r)
    show ?thesis
    proof (cases r)
      case None
      with Pair have "st1 = st" by (simp add: publish_nothing)
      with Cons Pair None run show ?thesis by simp
    next
      case (Some ds)
      obtain log' where log': "pub_run w st1 runs = (st', log')" "log = (ix, ds) # log'"
        using Cons.prems(3) Pair Some run by (auto split: prod.splits)
      from Pair Some have p: "publish w True now ix st = (st1, Some ds)" by simp
      note step = publish_window [OF Cons.prems(1,2) p]
      show ?thesis
      proof (cases i)
        case 0
        with step log'(2) show ?thesis by simp
      next
        case (Suc j)
        have "map fst (snd (log' ! j)) = rev [Suc (pb_seq st1 + j) - min w (pb_seq st1 + j) ..< Suc (pb_seq st1 + j)]"
          by (rule Cons.IH) (use step Cons.prems log' Suc in simp_all)
        with step log'(2) Suc show ?thesis by simp
      qed
    qed
  qed
qed simp


section \<open>A published delta\<close>

text \<open>What the daemon makes of a delta that leads to the new index.\<close>

lemma delta_read:
  assumes "published_ok old" and "published_ok new" and "list_all op_ok ops"
    and "apply_ops (map_of old) ops = map_of new"
  shows "\<exists>added removed.
      delta_loop 0 old 0 0 (lines_of (delta_text from_seq to_seq ops)) = Inr (new, added, removed)
      \<and> length new + removed = length old + added"
proof -
  let ?head = "[''# moat-packages-delta v1'', ''# from '' @ show_nat from_seq, ''# to '' @ show_nat to_seq]"
  have "list_all plain_line (map op_line ops)" using assms(3) by (auto simp: list_all_iff op_ok_def)
  moreover have "list_all plain_line ?head" using plain_number [of from_seq] plain_number [of to_seq]
    by (simp add: plain_line_def)
  ultimately have lines: "lines_of (delta_text from_seq to_seq ops) = ?head @ map op_line ops"
    unfolding delta_text_def by (intro lines_of_join_lines) simp
  from delta_loop_ops [OF assms(3), of "Suc (Suc (Suc 0))" old 0 0] obtain ix added removed where
    "delta_loop (Suc (Suc (Suc 0))) old 0 0 (map op_line ops) = Inr (ix, added, removed)" by blast
  then have loop: "delta_loop 0 old 0 0 (lines_of (delta_text from_seq to_seq ops)) = Inr (ix, added, removed)"
    by (simp add: lines is_entry_def)
  have sorted: "bt_sorted old" "bt_sorted new" using assms(1,2) by (simp_all add: published_ok_def index_ok_def)
  have "List.map_filter line_op (?head @ map op_line ops) = List.map_filter line_op (map op_line ops)"
    by (simp add: List.map_filter_simps line_op_def is_entry_def)
  with delta_loop_meaning [OF loop sorted(1)] line_ops_of_ops [OF assms(3)] lines
  have m: "bt_sorted ix" "map_of ix = apply_ops (map_of old) ops" "length ix + removed = length old + added" by auto
  then have "ix = new" using sorted(2) assms(4) by (intro bt_sorted_unique) simp_all
  with loop m(3) show ?thesis by blast
qed

text \<open>C37: A published delta gives the new index. In any run of publications from the empty state, of
  well-formed indexes whose specs have no tab, whatever steps were kept, lost with the artifact or dropped
  out of the window: each delta of each publication, the composition of all the steps since its sequence,
  states the two sequences, and the daemon's \<open>apply_delta\<close> takes the index published under the one exactly
  to the index published under the other, row for row, with the rows gained and lost counted. While the
  bucket keeps the last artifact, there is one from each of the sequences of the window, newest first.\<close>

theorem published_delta_gives_the_new_index:
  assumes "pub_run w pub_start runs = (st, log)" and "list_all run_ok runs"
    and "i < length log" and "length log < 2 ^ 64"
  shows "(\<forall>(from_seq, t) \<in> set (snd (log ! i)). 1 \<le> from_seq \<and> from_seq \<le> i
        \<and> (\<exists>added removed.
             delta_loop 0 (fst (log ! (from_seq - 1))) 0 0 (lines_of t) = Inr (fst (log ! i), added, removed)
             \<and> length (fst (log ! i)) + removed = length (fst (log ! (from_seq - 1))) + added)
        \<and> header_u64 t ''# from '' = Some from_seq \<and> header_u64 t ''# to '' = Some (i + 1))
    \<and> (0 < w \<and> list_all fst runs \<longrightarrow> map fst (snd (log ! i)) = rev [i + 1 - min w i ..< i + 1])"
proof -
  note leads = pub_run_leads [OF pub_ok_start assms(1,2)]
  have each: "1 \<le> from_seq \<and> from_seq \<le> i
        \<and> (\<exists>added removed.
             delta_loop 0 (fst (log ! (from_seq - 1))) 0 0 (lines_of t) = Inr (fst (log ! i), added, removed)
             \<and> length (fst (log ! i)) + removed = length (fst (log ! (from_seq - 1))) + added)
        \<and> header_u64 t ''# from '' = Some from_seq \<and> header_u64 t ''# to '' = Some (i + 1)"
    if "(from_seq, t) \<in> set (snd (log ! i))" for from_seq t
  proof -
    have "leads_to (map fst log) (Suc i) (fst (log ! i)) from_seq t" using leads assms(3) that by fastforce
    then obtain ops where l: "1 \<le> from_seq" "from_seq \<le> i" "t = delta_text from_seq (Suc i) ops"
        "list_all op_ok ops" "apply_ops (map_of (map fst log ! (from_seq - 1))) ops = map_of (fst (log ! i))"
      by (auto simp: leads_to_def)
    from l(2) assms(3) have f: "from_seq - 1 < length log" by simp
    with leads assms(3) have "published_ok (fst (log ! i))" "published_ok (fst (log ! (from_seq - 1)))"
      by (auto simp: list_all_iff)
    from delta_read [OF this(2,1) l(4)] l(5) f l(1-3)
      header_of_delta [of from_seq "Suc i" ops] assms(3,4) show ?thesis by simp
  qed
  have "window_full w pub_start" by (simp add: window_full_def pub_start_def)
  then have "0 < w \<and> list_all fst runs \<longrightarrow> map fst (snd (log ! i)) = rev [i + 1 - min w i ..< i + 1]"
    using pub_run_window [of w pub_start runs st log i] assms(1,3) by (simp add: pub_start_def del: upt_Suc)
  with each show ?thesis by blast
qed

text \<open>Three indexes one after the other, and the first again in between: one entry goes, one changes, one
  comes and goes. The key of the third is a prefix of another, where the order of the lines is not that of
  the keys.\<close>

definition pk :: "string \<Rightarrow> string" where "pk n = index_key ''npm'' n"

definition four_runs :: "(bool \<times> string \<times> index) list" where
  "four_runs =
     [(True, ''monday'', [(pk ''a'', ''*''), (pk ''b'', ''1'')]),
      (True, ''monday'', [(pk ''a'', ''*''), (pk ''b'', ''1'')]),
      (True, ''tuesday'', [(pk ''b'', ''2''), (pk ''c'', ''*'')]),
      (True, ''friday'', [(pk ''b'', ''2''), (pk (''b'' @ [CHR 0x01]), ''3''), (pk ''d'', ''*'')])]"

lemma published_delta_gives_the_new_index_witness:
  "let log = snd (pub_run 48 pub_start four_runs) in
   length log = 3 \<and> map fst (snd (log ! 2)) = [2, 1]
   \<and> (\<forall>(from_seq, t) \<in> set (snd (log ! 2)). 1 \<le> from_seq \<and> from_seq \<le> 2
        \<and> (\<exists>added removed.
             delta_loop 0 (fst (log ! (from_seq - 1))) 0 0 (lines_of t) = Inr (fst (log ! 2), added, removed)
             \<and> length (fst (log ! 2)) + removed = length (fst (log ! (from_seq - 1))) + added)
        \<and> header_u64 t ''# from '' = Some from_seq \<and> header_u64 t ''# to '' = Some (2 + 1))"
proof -
  let ?r = "pub_run 48 pub_start four_runs"
  have "?r = (fst ?r, snd ?r)" by simp
  moreover have "list_all run_ok four_runs" by code_simp
  moreover have n: "length (snd ?r) = 3" by code_simp
  then have "2 < length (snd ?r)" "length (snd ?r) < 2 ^ 64" by simp_all
  ultimately have t: "(\<forall>(from_seq, t) \<in> set (snd (snd ?r ! 2)). 1 \<le> from_seq \<and> from_seq \<le> 2
        \<and> (\<exists>added removed.
             delta_loop 0 (fst (snd ?r ! (from_seq - 1))) 0 0 (lines_of t) = Inr (fst (snd ?r ! 2), added, removed)
             \<and> length (fst (snd ?r ! 2)) + removed = length (fst (snd ?r ! (from_seq - 1))) + added)
        \<and> header_u64 t ''# from '' = Some from_seq \<and> header_u64 t ''# to '' = Some (2 + 1))
    \<and> (0 < (48 :: nat) \<and> list_all fst four_runs \<longrightarrow> map fst (snd (snd ?r ! 2)) = rev [2 + 1 - min 48 2 ..< 2 + 1])"
    by (rule published_delta_gives_the_new_index)
  moreover have "map fst (snd (snd ?r ! 2)) = [2, 1]" by code_simp
  ultimately show ?thesis using n unfolding Let_def by blast
qed

end
