(* ===== verification/Spec2Isabelle.thy ===== *)
theory Spec2Isabelle
  imports Scoring Chain_Store Allowlist_Edit Netmatch Rarity_Store Codec Names Proc_Context Triage_Control Selectors
    Arming Alert_Store Contain_Engine Baseline Ship_Cursor Feed_Run Feed_Publish
begin

text \<open>
  A verification library of moatd, the daemon of omarchy-moat (\<open>src/moatd\<close>). The program watches one
  machine: the kernel's sensor (Tetragon) exports events under the policies that moatd arms; rules turn
  events into hits; a hit is attributed, scored, matched against what is allowed, correlated with what
  its process tree did before, stored, and in a few cases acted upon. Beside the daemon, a shipper sends the
  log to a collector and a timer fetches the feeds the rules consult.

  Each theory is a translation of the sources it names, in their order, and the theorems on it. A string is the
  list of its bytes, an unsigned counter a natural number with the saturation written out, an octet string a
  list of 8-bit words, a \<open>BTreeMap\<close> its sorted list, a \<open>HashMap\<close> a list in an order
  nothing is assumed of, white space that of ASCII where Rust's \<open>trim\<close> also knows Unicode's, a
  result a sum with the error on the left. What a crate computes (globs, TOML, JSON, hashes, ed25519, gzip,
  floating point weights) and what the machine answers (files, clock, \<open>/proc\<close>, the sensor, a
  server) is an argument: often a record of functions, asked at numbered moments so that it may change in
  between. Where a statement needs documented behaviour of such a part, it is a named hypothesis
  (\<open>tetra_sound\<close>, \<open>state_codec\<close> and their like), and the witness of the theorem
  instantiates it.

  \<^bold>\<open>The ground.\<close> \<open>Moat_Prelude\<close> (strings, results, lists, the interfaces \<open>capped_store\<close> and \<open>aging_store\<close> of
  the bounded stores), \<open>Text_Lines\<close>, \<open>Text_Numbers\<close>, \<open>Text_Replace\<close> (\<open>str::lines\<close>, \<open>parse\<close>,
  \<open>replace\<close>), \<open>Ordered_Map\<close>, \<open>Json_Value\<close>, \<open>Codec\<close> (hexadecimal and base64 of \<open>util.rs\<close>).

  \<^bold>\<open>Who acted.\<close> \<open>Sensor_Event\<close> (\<open>event.rs\<close>), \<open>Proc_Text\<close>,
  \<open>Proc_Table\<close>, \<open>Proc_Lineage\<close> (\<open>proctable.rs\<close>), \<open>Exec_Path\<close>,
  \<open>Agent\<close>, \<open>Pkg_Tree\<close>, \<open>Proc_Context\<close>, \<open>Provenance\<close>
  (\<open>util.rs\<close>, \<open>agent.rs\<close>, \<open>rules/pkgtree.rs\<close>, \<open>context.rs\<close>,
  \<open>provenance.rs\<close>). The table's index of children is exact in every run, a later report replaces facts
  only by what it reports, an ancestry is a chain without repetition on any table (the interface
  \<open>lineage\<close>).

  \<^bold>\<open>How bad it is.\<close> \<open>Severity\<close>, \<open>Scoring\<close> (\<open>scoring.rs\<close>: the stages of \<open>score\<close>, the matrix, the surface),
  \<open>Rarity\<close>, \<open>Collapse\<close>, \<open>Rarity_Store\<close> (\<open>rarity.rs\<close>), \<open>Chain\<close>, \<open>Chain_Store\<close> (\<open>chain.rs\<close>: the correlator, with the
  ladder as its specification), \<open>Selectors\<close>, \<open>Netmatch\<close> (\<open>selectors.rs\<close>, \<open>rules/netmatch.rs\<close>).

  \<^bold>\<open>What is let through.\<close> \<open>Allowlist\<close>, \<open>Allowlist_Edit\<close>
  (\<open>allowlist.rs\<close>), \<open>Baseline\<close> (\<open>baseline.rs\<close>: learning, the noise guard,
  proposals), \<open>Triage\<close> (\<open>triage.rs\<close>: what a verdict may do), \<open>Triage_Control\<close>
  (the verbs \<open>submit\<close> and \<open>undo\<close> of \<open>control.rs\<close> and the inheritance of
  \<open>engine.rs\<close>: what runs of them leave on the row of an alert, with writes that fail in between).

  \<^bold>\<open>What is kept.\<close> \<open>Alert_Record\<close>, \<open>Alert_Store\<close>
  (\<open>alert.rs\<close>, \<open>store.rs\<close>): the log as a fold of its lines, the rotation that carries the
  protected rows as the sequence of its file operations, and its recovery from a crash after any of them. One process
  writes the log: the check of the file's inode and length with which \<open>with_fold\<close> notices another writer
  is not in \<open>current_fold\<close>.

  \<^bold>\<open>What is done.\<close> \<open>Contain\<close>, \<open>Contain_Engine\<close>,
  \<open>Kill_Gate\<close>, \<open>Arming\<close> (\<open>contain.rs\<close> and the parts of \<open>engine.rs\<close>
  that drive it). A kill and a containment are earned by what the chain did, whatever the machine does between two
  calls; every live record is enforced, and a loaded policy without a record is one whose deletion failed; arming
  comes to rest and is published only as observed.

  \<^bold>\<open>What leaves, what arrives.\<close> \<open>Ship_Record\<close>, \<open>Ship\<close>,
  \<open>Ship_Cursor\<close> (\<open>ship.rs\<close>): the redaction (the interface \<open>remover\<close>), the
  buffer, the cursors, and the runs in which the reader keeps up (at most one rotation between two passes, its rest
  within one poll), where nothing before the durable cursor is skipped; outside of them something can be, and the
  theory shows how. \<open>Names\<close> (\<open>names.rs\<close>). \<open>Feed_Index\<close>, \<open>Feeds\<close>,
  \<open>Feed_Run\<close> (\<open>feeds.rs\<close>): the index and its deltas, the tick of the client, and its runs
  against an adversary (the interface \<open>climbing\<close>). \<open>Feed_Publish\<close>
  (\<open>aggregator/src/delta.js\<close>, \<open>normalize.js\<close>, \<open>index.js\<close>): the publisher's
  merge against its last artifact and the deltas it composes of the steps kept, which the daemon's reader takes from
  any sequence to the newest.

  How the parts call each other: the table of processes gives the context, the context the score; scored
  alerts become observations of the correlator and rows of the store; a chain passes \<open>Kill_Gate\<close> and
  \<open>Contain_Engine\<close>; \<open>Baseline\<close> writes entries with \<open>Allowlist_Edit\<close>; the store's log is what \<open>Ship\<close> reads; the
  feed client writes the files that \<open>Feed_Index\<close> looks names up in.

  \<^bold>\<open>Bounds and loops.\<close> The caps are the constants of the sources. Recursion that is not structural has its
  measure: the labels of a DNS name and the messages of a stream shrink, the work list of descendants
  takes each process once, the sending loop of the shipper shrinks the buffer, the ancestry is walked with the
  depth the caller gives, which the walk cannot exceed. No definition uses fuel that could run out.

  \<^bold>\<open>Not modelled.\<close> The socket protocol of \<open>control.rs\<close> apart from
  \<open>verify_pid\<close> and the triage verbs; the event loop, the emission of an alert and the status of
  \<open>engine.rs\<close> and \<open>bin/moatd.rs\<close>, with the threads of \<open>tail.rs\<close> and
  \<open>telemetry.rs\<close>; the rules under \<open>rules/\<close> one by one; the analysis of contents
  (\<open>content.rs\<close>, \<open>analysis.rs\<close>); the texts for a person (\<open>render.rs\<close>,
  \<open>explain.rs\<close>, \<open>digest.rs\<close>, \<open>incident.rs\<close>, \<open>bundle.rs\<close>,
  \<open>receipt.rs\<close>, \<open>bin/moatctl.rs\<close>); the configuration and the templates of the policies
  (\<open>config.rs\<close>, \<open>policy.rs\<close>, \<open>privacy.rs\<close>); the copies and decoys
  (\<open>evidence.rs\<close> but for its test of secret paths, \<open>canary.rs\<close>, \<open>mtree.rs\<close>);
  the package database of \<open>provenance.rs\<close>; the shell, the scanners and the rest of the aggregator. Most
  of these are input and output, or compose the parts above with the operating system; the rules and the content
  analysis are logic of their own that this library does not reach.
\<close>

end
